(* ===== verification/Prelude.thy ===== *)
theory Prelude
  imports Main "HOL-Library.Word" "HOL-Library.List_Lexorder"
begin

text \<open>
  Shared vocabulary of the development: bytes and Rust integers, results with errors as
  values, the little-endian readers and writers of the \<^verbatim>\<open>byteorder\<close> crate's traits over
  in-memory buffers, \<^verbatim>\<open>slice::binary_search_by\<close>, and \<^verbatim>\<open>BTreeMap\<close> as a strictly sorted
  association list.  Every component theory imports this one.
\<close>

named_theorems rust_std \<open>rewrite rules for the modelled part of the Rust standard library\<close>
named_theorems codec \<open>round-trip rules of encoders and decoders\<close>


section \<open>Bytes, machine integers, results\<close>

type_synonym byte = "8 word"
type_synonym u64 = "64 word"

text \<open>A fallible Rust function returns \<^verbatim>\<open>Result<T, E>\<close>: \<open>Inl\<close> is \<^verbatim>\<open>Err\<close>, \<open>Inr\<close> is \<^verbatim>\<open>Ok\<close>;
  \<open>rbind\<close> is the question-mark operator.\<close>

type_synonym ('e, 'a) result = "'e + 'a"

definition rbind :: "('e, 'a) result \<Rightarrow> ('a \<Rightarrow> ('e, 'b) result) \<Rightarrow> ('e, 'b) result" where
  "rbind r f = (case r of Inl e \<Rightarrow> Inl e | Inr x \<Rightarrow> f x)"

text \<open>A computation whose loops may run forever is an \<open>option\<close> of a result: \<open>None\<close> is divergence.\<close>

type_synonym ('e, 'a) comp = "('e, 'a) result option"

definition cbind :: "('e, 'a) comp \<Rightarrow> ('a \<Rightarrow> ('e, 'b) comp) \<Rightarrow> ('e, 'b) comp" where
  "cbind c f = Option.bind c (\<lambda>r. case r of Inl e \<Rightarrow> Some (Inl e) | Inr x \<Rightarrow> f x)"

text \<open>Loops that push one result per iteration and return at the first error.\<close>

fun rmap :: "('a \<Rightarrow> ('e, 'b) result) \<Rightarrow> 'a list \<Rightarrow> ('e, 'b list) result" where
  "rmap f [] = Inr []"
| "rmap f (x # xs) = rbind (f x) (\<lambda>y. rbind (rmap f xs) (\<lambda>ys. Inr (y # ys)))"

text \<open>Saturating arithmetic of \<^verbatim>\<open>i64\<close>, on the integers in its range.\<close>

definition i64_min :: int where "i64_min = - (2 ^ 63)"
definition i64_max :: int where "i64_max = 2 ^ 63 - 1"

definition sat64 :: "int \<Rightarrow> int" where
  "sat64 x = max i64_min (min i64_max x)"

definition is_i64 :: "int \<Rightarrow> bool" where
  "is_i64 x \<longleftrightarrow> i64_min \<le> x \<and> x \<le> i64_max"

text \<open>\<^verbatim>\<open>usize::div_ceil\<close>.\<close>

definition div_ceil :: "nat \<Rightarrow> nat \<Rightarrow> nat" where
  "div_ceil a b = (a + (b - 1)) div b"


section \<open>Little-endian integers and cursors\<close>

text \<open>\<open>le_bytes n v\<close> is what \<^verbatim>\<open>write_uN::<LittleEndian>(v as uN)\<close> appends: the low \<open>n\<close> bytes of
  \<open>v\<close>, least significant first, so the cast drops the rest.\<close>

fun le_bytes :: "nat \<Rightarrow> nat \<Rightarrow> byte list" where
  "le_bytes 0 v = []"
| "le_bytes (Suc n) v = word_of_nat (v mod 256) # le_bytes n (v div 256)"

fun le_nat :: "byte list \<Rightarrow> nat" where
  "le_nat [] = 0"
| "le_nat (b # bs) = unat b + 256 * le_nat bs"

text \<open>A reader is a function from the unread bytes to the value and the rest; \<open>None\<close> is the
  \<^verbatim>\<open>UnexpectedEof\<close> of \<^verbatim>\<open>read_exact\<close>.\<close>

type_synonym 'a reader = "byte list \<Rightarrow> ('a \<times> byte list) option"

definition read_exact :: "nat \<Rightarrow> byte list reader" where
  "read_exact n bs = (if length bs < n then None else Some (take n bs, drop n bs))"

definition read_le :: "nat \<Rightarrow> nat reader" where
  "read_le n bs = (case read_exact n bs of None \<Rightarrow> None | Some (b, r) \<Rightarrow> Some (le_nat b, r))"


section \<open>Binary search\<close>

datatype ordering = Less | Equal | Greater

definition cmp :: "'a::linorder \<Rightarrow> 'a \<Rightarrow> ordering" where
  "cmp a b = (if a < b then Less else if a = b then Equal else Greater)"

text \<open>The loop of \<^verbatim>\<open>slice::binary_search_by\<close>: \<open>base\<close> is kept at an element that is not
  greater than the target as long as there is one, and \<open>sz\<close> is halved.\<close>

function bsearch_loop :: "('a \<Rightarrow> ordering) \<Rightarrow> 'a list \<Rightarrow> nat \<Rightarrow> nat \<Rightarrow> nat" where
  "bsearch_loop f xs base sz =
     (if sz \<le> 1 then base
      else let half = sz div 2; mid = base + half
           in bsearch_loop f xs (if f (xs ! mid) = Greater then base else mid) (sz - half))"
  by pat_completeness auto
termination
  by (relation "measure (\<lambda>(f, xs, base, sz). sz)") auto

declare bsearch_loop.simps [simp del]

text \<open>\<open>Inr i\<close> is \<^verbatim>\<open>Ok(i)\<close>, \<open>Inl i\<close> is \<^verbatim>\<open>Err(i)\<close>, the insertion point.\<close>

definition binary_search_by :: "('a \<Rightarrow> ordering) \<Rightarrow> 'a list \<Rightarrow> nat + nat" where
  "binary_search_by f xs =
     (if xs = [] then Inl 0
      else let base = bsearch_loop f xs 0 (length xs)
           in case f (xs ! base) of
                Equal \<Rightarrow> Inr base
              | Less \<Rightarrow> Inl (base + 1)
              | Greater \<Rightarrow> Inl base)"


section \<open>Sorted association lists (\<^verbatim>\<open>BTreeMap\<close>)\<close>

definition sorted_keys :: "('k::linorder \<times> 'v) list \<Rightarrow> bool" where
  "sorted_keys xs \<longleftrightarrow> sorted_wrt (<) (map fst xs)"

fun bt_insert :: "'k::linorder \<Rightarrow> 'v \<Rightarrow> ('k \<times> 'v) list \<Rightarrow> ('k \<times> 'v) list" where
  "bt_insert k v [] = [(k, v)]"
| "bt_insert k v ((a, b) # xs) =
     (if k < a then (k, v) # (a, b) # xs
      else if k = a then (k, v) # xs
      else (a, b) # bt_insert k v xs)"

fun bt_remove :: "'k::linorder \<Rightarrow> ('k \<times> 'v) list \<Rightarrow> ('k \<times> 'v) list" where
  "bt_remove k [] = []"
| "bt_remove k ((a, b) # xs) = (if k = a then xs else (a, b) # bt_remove k xs)"

text \<open>Merging newest over oldest: the last list of \<open>xss\<close> that has the key decides.\<close>

definition overlay :: "('k \<times> 'v) list list \<Rightarrow> 'k \<rightharpoonup> 'v" where
  "overlay xss = foldl (\<lambda>m xs. m ++ map_of xs) Map.empty xss"


section \<open>Lemmas on results\<close>

lemma rbind_simps [simp]:
  "rbind (Inl e) f = Inl e"
  "rbind (Inr x) f = f x"
  by (simp_all add: rbind_def)

lemma rbind_Inr_iff: "rbind r f = Inr y \<longleftrightarrow> (\<exists>x. r = Inr x \<and> f x = Inr y)"
  by (cases r) auto

lemma rbind_Inl_iff:
  "rbind r f = Inl e \<longleftrightarrow> r = Inl e \<or> (\<exists>x. r = Inr x \<and> f x = Inl e)"
  by (cases r) auto

lemma cbind_simps [simp]:
  "cbind None f = None"
  "cbind (Some (Inl e)) f = Some (Inl e)"
  "cbind (Some (Inr x)) f = f x"
  by (simp_all add: cbind_def)

text \<open>What succeeds as a whole succeeds at each step.\<close>

lemma rbind_InrE: "rbind r f = Inr y \<Longrightarrow> (\<And>x. r = Inr x \<Longrightarrow> f x = Inr y \<Longrightarrow> P) \<Longrightarrow> P"
  by (cases r) simp_all

lemma cbind_InrE: "cbind c f = Some (Inr y) \<Longrightarrow> (\<And>x. c = Some (Inr x) \<Longrightarrow> f x = Some (Inr y) \<Longrightarrow> P) \<Longrightarrow> P"
  by (cases c) (auto simp: cbind_def split: sum.splits)

lemma rmap_Inr_all: "(\<And>x. x \<in> set xs \<Longrightarrow> f x = Inr (g x)) \<Longrightarrow> rmap f xs = Inr (map g xs)"
  by (induction xs) auto

lemma sat64_id [simp]: "is_i64 x \<Longrightarrow> sat64 x = x"
  by (auto simp: sat64_def is_i64_def)

lemma is_i64_sat64 [simp]: "is_i64 (sat64 x)"
  by (auto simp: sat64_def is_i64_def i64_min_def i64_max_def)

lemma sat64_mono: "x \<le> y \<Longrightarrow> sat64 x \<le> sat64 y"
  by (auto simp: sat64_def)

lemma div_ceil_bounds:
  assumes "0 < b"
  shows "a \<le> div_ceil a b * b" and "div_ceil a b * b < a + b"
proof -
  have m: "(a + (b - 1)) mod b < b" using assms by simp
  have e: "(a + (b - 1)) div b * b + (a + (b - 1)) mod b = a + (b - 1)"
    by simp
  from m e assms show "a \<le> div_ceil a b * b" unfolding div_ceil_def by linarith
  from e assms show "div_ceil a b * b < a + b" unfolding div_ceil_def by linarith
qed

lemma div_ceil_mult [simp]: "0 < b \<Longrightarrow> div_ceil (n * b) b = n"
  unfolding div_ceil_def by (rule div_nat_eqI) (auto simp: mult.commute)

lemma div_ceil_pos: "0 < b \<Longrightarrow> 0 < a \<Longrightarrow> 0 < div_ceil a b"
  using div_ceil_bounds(1) [of b a] by (cases "div_ceil a b") auto


section \<open>Lemmas on little-endian integers\<close>

lemma length_le_bytes [simp]: "length (le_bytes n v) = n"
  by (induction n arbitrary: v) auto

lemma unat_byte_of_nat [simp]: "unat (word_of_nat (v mod 256) :: byte) = v mod 256"
  by (simp add: unat_of_nat)

lemma le_nat_append: "le_nat (xs @ ys) = le_nat xs + 256 ^ length xs * le_nat ys"
  by (induction xs) simp_all

lemma le_nat_le_bytes: "le_nat (le_bytes n v) = v mod 256 ^ n"
proof (induction n arbitrary: v)
  case 0
  show ?case by simp
next
  case (Suc n)
  have "v mod (256 * 256 ^ n) = 256 * (v div 256 mod 256 ^ n) + v mod 256"
    by (rule mod_mult2_eq)
  then show ?case by (simp add: Suc.IH)
qed

lemma le_nat_less: "le_nat bs < 256 ^ length bs"
proof (induction bs)
  case Nil
  show ?case by simp
next
  case (Cons b bs)
  have "unat b < 256" using unsigned_less [of b, where 'a = nat] by simp
  with Cons.IH show ?case by simp
qed

lemma le_bytes_le_nat: "le_bytes (length bs) (le_nat bs) = bs"
proof (induction bs)
  case Nil
  show ?case by simp
next
  case (Cons b bs)
  have b: "unat b < 256" using unsigned_less [of b, where 'a = nat] by simp
  then have "(unat b + 256 * le_nat bs) mod 256 = unat b"
    and "(unat b + 256 * le_nat bs) div 256 = le_nat bs" by simp_all
  with Cons.IH show ?case by simp
qed

lemma read_exact_append [simp, codec]:
  "length xs = n \<Longrightarrow> read_exact n (xs @ ys) = Some (xs, ys)"
  by (auto simp: read_exact_def)

lemma read_exact_SomeD:
  "read_exact n bs = Some (x, r) \<Longrightarrow> bs = x @ r \<and> length x = n"
  by (auto simp: read_exact_def split: if_splits)

lemma read_le_append [codec]:
  "v < 256 ^ n \<Longrightarrow> read_le n (le_bytes n v @ ys) = Some (v, ys)"
  by (simp add: read_le_def le_nat_le_bytes)

lemma read_le_append_mod [codec]:
  "read_le n (le_bytes n v @ ys) = Some (v mod 256 ^ n, ys)"
  by (simp add: read_le_def le_nat_le_bytes)

lemma read_le_SomeD:
  assumes "read_le n bs = Some (v, r)"
  shows "bs = le_bytes n v @ r \<and> v < 256 ^ n"
proof -
  from assms obtain x where x: "read_exact n bs = Some (x, r)" and v: "v = le_nat x"
    by (auto simp: read_le_def split: option.splits)
  from read_exact_SomeD [OF x] have "bs = x @ r" and n: "n = length x" by auto
  with v show ?thesis by (simp add: le_bytes_le_nat le_nat_less)
qed


section \<open>Lemmas on binary search\<close>

text \<open>What the search relies on: the comparison is monotone along the list.\<close>

definition cmp_sorted :: "('a \<Rightarrow> ordering) \<Rightarrow> 'a list \<Rightarrow> bool" where
  "cmp_sorted f xs \<longleftrightarrow>
     (\<forall>i j. i < j \<and> j < length xs \<longrightarrow>
        (f (xs ! j) = Less \<longrightarrow> f (xs ! i) = Less) \<and>
        (f (xs ! i) = Greater \<longrightarrow> f (xs ! j) = Greater) \<and>
        \<not> (f (xs ! i) = Equal \<and> f (xs ! j) = Equal))"

text \<open>The loop ends at the last element that is not greater, or at 0.\<close>

lemma bsearch_loop_bounds:
  assumes "0 < sz" and "base + sz \<le> n"
  shows "base \<le> bsearch_loop f xs base sz \<and> bsearch_loop f xs base sz < base + sz"
  using assms
proof (induction f xs base sz rule: bsearch_loop.induct)
  case (1 f xs base sz)
  show ?case
  proof (cases "sz \<le> 1")
    case True
    with "1.prems" show ?thesis by (simp add: bsearch_loop.simps [of f xs base sz])
  next
    case False
    let ?half = "sz div 2"
    let ?b = "if f (xs ! (base + ?half)) = Greater then base else base + ?half"
    have eq: "bsearch_loop f xs base sz = bsearch_loop f xs ?b (sz - ?half)"
      using False by (subst bsearch_loop.simps) (simp add: Let_def)
    have "0 < sz - ?half" and le: "base \<le> ?b" "?b + (sz - ?half) \<le> base + sz"
      using False by auto
    then have "?b \<le> bsearch_loop f xs ?b (sz - ?half) \<and>
        bsearch_loop f xs ?b (sz - ?half) < ?b + (sz - ?half)"
      using "1.prems" by (intro "1.IH" [OF False refl refl]) linarith+
    then show ?thesis unfolding eq using le by linarith
  qed
qed

lemma bsearch_loop_spec:
  assumes "cmp_sorted f xs" and "0 < sz" and "base + sz \<le> length xs"
    and "base = 0 \<or> f (xs ! base) \<noteq> Greater"
    and "\<forall>j. base + sz \<le> j \<and> j < length xs \<longrightarrow> f (xs ! j) = Greater"
  shows "let r = bsearch_loop f xs base sz in
     (r = 0 \<or> f (xs ! r) \<noteq> Greater) \<and> (\<forall>j. r < j \<and> j < length xs \<longrightarrow> f (xs ! j) = Greater)"
  using assms
proof (induction f xs base sz rule: bsearch_loop.induct)
  case (1 f xs base sz)
  show ?case
  proof (cases "sz \<le> 1")
    case True
    with "1.prems" show ?thesis by (auto simp: bsearch_loop.simps [of f xs base sz] Let_def)
  next
    case False
    let ?half = "sz div 2"
    let ?mid = "base + ?half"
    let ?b = "if f (xs ! ?mid) = Greater then base else ?mid"
    have mid: "?mid < length xs" and half: "0 < ?half" "?half < sz"
      using False "1.prems" by auto
    have "\<forall>j. ?b + (sz - ?half) \<le> j \<and> j < length xs \<longrightarrow> f (xs ! j) = Greater"
    proof (intro allI impI)
      fix j assume j: "?b + (sz - ?half) \<le> j \<and> j < length xs"
      show "f (xs ! j) = Greater"
      proof (cases "f (xs ! ?mid) = Greater")
        case True
        with j half have "?mid \<le> j" by auto
        then consider "j = ?mid" | "?mid < j" by linarith
        with True j "1.prems"(1) show ?thesis
          unfolding cmp_sorted_def by cases blast+
      next
        case False
        with j half have "base + sz \<le> j" by auto
        with j "1.prems"(5) show ?thesis by blast
      qed
    qed
    moreover have "?b = 0 \<or> f (xs ! ?b) \<noteq> Greater" using "1.prems"(4) by auto
    moreover have "?b + (sz - ?half) \<le> length xs" and "0 < sz - ?half"
      using half "1.prems" by auto
    moreover have eq: "bsearch_loop f xs base sz = bsearch_loop f xs ?b (sz - ?half)"
      using False by (subst bsearch_loop.simps) (simp add: Let_def)
    ultimately show ?thesis
      unfolding eq by (intro "1.IH" [OF False refl refl "1.prems"(1)])
  qed
qed

lemma binary_search_by_Ok:
  assumes "binary_search_by f xs = Inr i"
  shows "i < length xs" and "f (xs ! i) = Equal"
proof -
  from assms have ne: "xs \<noteq> []" by (auto simp: binary_search_by_def)
  with assms have i: "i = bsearch_loop f xs 0 (length xs)" and "f (xs ! i) = Equal"
    by (auto simp: binary_search_by_def Let_def split: ordering.splits)
  then show "f (xs ! i) = Equal" by simp
  show "i < length xs" using ne i bsearch_loop_bounds [of "length xs" 0 "length xs" f xs] by simp
qed

text \<open>On an ordered list the result is the position: everything before an \<^verbatim>\<open>Err\<close> position is
  less than the target and everything from it on is greater.\<close>

lemma binary_search_by_spec:
  assumes "cmp_sorted f xs"
  shows "case binary_search_by f xs of
      Inr i \<Rightarrow> i < length xs \<and> f (xs ! i) = Equal
    | Inl i \<Rightarrow> i \<le> length xs \<and> (\<forall>j<i. f (xs ! j) = Less) \<and>
        (\<forall>j. i \<le> j \<and> j < length xs \<longrightarrow> f (xs ! j) = Greater)"
proof (cases "xs = []")
  case True
  then show ?thesis by (simp add: binary_search_by_def)
next
  case False
  define r where "r = bsearch_loop f xs 0 (length xs)"
  have b: "r < length xs"
    using False bsearch_loop_bounds [of "length xs" 0 "length xs" f xs] by (simp add: r_def)
  have s: "r = 0 \<or> f (xs ! r) \<noteq> Greater" and g: "\<forall>j. r < j \<and> j < length xs \<longrightarrow> f (xs ! j) = Greater"
    using bsearch_loop_spec [OF assms, of "length xs" 0] False
    unfolding r_def Let_def by (simp_all add: linorder_not_le [symmetric])
  have e: "binary_search_by f xs = (case f (xs ! r) of Equal \<Rightarrow> Inr r | Less \<Rightarrow> Inl (r + 1) | Greater \<Rightarrow> Inl r)"
    using False by (simp add: binary_search_by_def Let_def flip: r_def)
  show ?thesis
  proof (cases "f (xs ! r)")
    case Less
    have "\<forall>j<r + 1. f (xs ! j) = Less"
    proof (intro allI impI)
      fix j assume "j < r + 1"
      then consider "j < r" | "j = r" by linarith
      then show "f (xs ! j) = Less"
        using Less b assms by cases (auto simp: cmp_sorted_def)
    qed
    with Less g b e show ?thesis by auto
  next
    case Equal
    with b e show ?thesis by simp
  next
    case Greater
    with s have "r = 0" by simp
    with Greater g b e show ?thesis by (auto simp: le_less)
  qed
qed


section \<open>Lemmas on sorted association lists\<close>

lemma sorted_keys_simps [simp]:
  "sorted_keys []"
  "sorted_keys ((k, v) # xs) \<longleftrightarrow> (\<forall>(a, b) \<in> set xs. k < a) \<and> sorted_keys xs"
  by (auto simp: sorted_keys_def)

lemma sorted_keys_distinct: "sorted_keys xs \<Longrightarrow> distinct (map fst xs)"
  by (simp add: sorted_keys_def strict_sorted_iff)

lemma sorted_keys_append:
  "sorted_keys (xs @ ys) \<longleftrightarrow>
     sorted_keys xs \<and> sorted_keys ys \<and> (\<forall>x\<in>set xs. \<forall>y\<in>set ys. fst x < fst y)"
  by (auto simp: sorted_keys_def sorted_wrt_append)

lemma sorted_keys_filter [simp]: "sorted_keys xs \<Longrightarrow> sorted_keys (filter P xs)"
  by (induction xs) auto

lemma sorted_keys_nth_less:
  "sorted_keys xs \<Longrightarrow> i < j \<Longrightarrow> j < length xs \<Longrightarrow> fst (xs ! i) < fst (xs ! j)"
  by (simp add: sorted_keys_def sorted_wrt_iff_nth_less)

lemma map_of_bt_insert [simp]: "map_of (bt_insert k v xs) = (map_of xs)(k \<mapsto> v)"
  by (induction k v xs rule: bt_insert.induct) auto

lemma keys_bt_insert [simp]: "fst ` set (bt_insert k v xs) = insert k (fst ` set xs)"
  by (induction k v xs rule: bt_insert.induct) auto

lemma set_bt_insert_subset: "set (bt_insert k v xs) \<subseteq> insert (k, v) (set xs)"
  by (induction k v xs rule: bt_insert.induct) auto

lemma sorted_keys_bt_insert [simp]: "sorted_keys xs \<Longrightarrow> sorted_keys (bt_insert k v xs)"
proof (induction k v xs rule: bt_insert.induct)
  case (2 k v a b xs)
  have "\<forall>(c, d) \<in> set (bt_insert k v xs). a < c" if "a < k"
    using that "2.prems" set_bt_insert_subset [of k v xs] by fastforce
  with "2" show ?case by fastforce
qed simp

lemma map_of_sorted_less: "sorted_keys ((k, v) # xs) \<Longrightarrow> j \<le> k \<Longrightarrow> map_of xs j = None"
  by (force simp: map_of_eq_None_iff)

lemma set_bt_remove: "set (bt_remove k xs) \<subseteq> set xs"
  by (induction k xs rule: bt_remove.induct) auto

lemma sorted_keys_bt_remove [simp]: "sorted_keys xs \<Longrightarrow> sorted_keys (bt_remove k xs)"
proof (induction k xs rule: bt_remove.induct)
  case (2 k a b xs)
  then show ?case using set_bt_remove [of k xs] by auto
qed simp

lemma map_of_bt_remove:
  "sorted_keys xs \<Longrightarrow> map_of (bt_remove k xs) = (map_of xs)(k := None)"
  by (induction k xs rule: bt_remove.induct) (auto simp: map_of_sorted_less fun_eq_iff)

lemma map_of_filter_key: "map_of (filter (\<lambda>(k, v). P k) xs) k = (if P k then map_of xs k else None)"
  by (induction xs) auto

lemma sorted_keys_eqI:
  assumes "sorted_keys xs" and "sorted_keys ys" and "map_of xs = map_of ys"
  shows "xs = ys"
proof -
  have d: "distinct (map fst xs)" "distinct (map fst ys)"
    using assms(1,2) by (simp_all add: sorted_keys_distinct)
  have e: "set xs = set ys"
    using assms(3) map_of_inject_set [OF d] by blast
  have i: "inj_on fst (set xs \<union> set ys)"
    using d(1) e by (simp add: distinct_map)
  show ?thesis
    using assms(1,2) i d e
    by (intro map_sorted_distinct_set_unique [of fst]) (simp_all add: sorted_keys_def strict_sorted_iff)
qed

lemma cmp_sorted_keys: "sorted_keys xs \<Longrightarrow> cmp_sorted (\<lambda>e. cmp (fst e) k) xs"
  unfolding cmp_sorted_def cmp_def
  by (auto dest: sorted_keys_nth_less split: if_splits)

text \<open>Searching a sorted association list is looking the key up.\<close>

lemma binary_search_map_of:
  assumes "sorted_keys xs"
  shows "(case binary_search_by (\<lambda>e. cmp (fst e) k) xs of
      Inr i \<Rightarrow> Some (snd (xs ! i)) | Inl _ \<Rightarrow> None) = map_of xs k"
proof (cases "binary_search_by (\<lambda>e. cmp (fst e) k) xs")
  case (Inr i)
  then have "i < length xs" and "fst (xs ! i) = k"
    using binary_search_by_Ok [OF Inr] by (auto simp: cmp_def split: if_splits)
  then have "(k, snd (xs ! i)) \<in> set xs"
    by (metis nth_mem prod.collapse)
  with Inr sorted_keys_distinct [OF assms] show ?thesis by simp
next
  case (Inl i)
  have "k \<notin> fst ` set xs"
  proof
    assume "k \<in> fst ` set xs"
    then obtain j where "j < length xs" "fst (xs ! j) = k"
      by (auto simp: in_set_conv_nth)
    then have "cmp (fst (xs ! j)) k = Equal" by (simp add: cmp_def)
    moreover have "\<forall>j<i. cmp (fst (xs ! j)) k = Less"
      and "\<forall>j. i \<le> j \<and> j < length xs \<longrightarrow> cmp (fst (xs ! j)) k = Greater"
      using binary_search_by_spec [OF cmp_sorted_keys [OF assms], of k] Inl by simp_all
    ultimately show False
      using \<open>j < length xs\<close> by (cases "j < i") (auto simp: linorder_not_less)
  qed
  then have "map_of xs k = None" by (simp add: map_of_eq_None_iff)
  with Inl show ?thesis by simp
qed

lemma overlay_Nil [simp]: "overlay [] = Map.empty"
  by (simp add: overlay_def)

lemma overlay_snoc [simp]: "overlay (xss @ [xs]) = overlay xss ++ map_of xs"
  by (simp add: overlay_def)

lemma overlay_append: "overlay (xss @ yss) = overlay xss ++ overlay yss"
  by (induction yss rule: rev_induct) (simp_all flip: append_assoc)

lemma overlay_Cons: "overlay (xs # xss) = map_of xs ++ overlay xss"
  using overlay_append [of "[xs]" xss] overlay_snoc [of "[]" xs] by simp

end
