(* ===== verification/Refinement.thy ===== *)
theory Refinement
  imports Prelude
begin

text \<open>
  The interface by which a component promises to implement an abstract object: a step
  function that may fail, an abstraction of its state, the abstract effect of each operation,
  and an invariant.  The run lemmas are proved here once, for any sequence of operations; the
  components interpret the locale on their own definitions.
\<close>

fun rfold :: "('op \<Rightarrow> 's \<Rightarrow> ('e, 's) result) \<Rightarrow> 'op list \<Rightarrow> 's \<Rightarrow> ('e, 's) result" where
  "rfold f [] s = Inr s"
| "rfold f (x # xs) s = rbind (f x s) (rfold f xs)"

lemma rfold_append: "rfold f (xs @ ys) s = rbind (rfold f xs s) (rfold f ys)"
proof (induction xs arbitrary: s)
  case (Cons x xs)
  then show ?case by (cases "f x s") simp_all
qed simp

lemma rfold_total: "rfold (\<lambda>x s. Inr (f x s)) xs s = Inr (fold f xs s)"
  by (induction xs arbitrary: s) simp_all

text \<open>Running a sequence of operations that may also diverge.\<close>

fun cfold :: "('op \<Rightarrow> 's \<Rightarrow> ('e, 's) comp) \<Rightarrow> 'op list \<Rightarrow> 's \<Rightarrow> ('e, 's) comp" where
  "cfold f [] s = Some (Inr s)"
| "cfold f (x # xs) s = cbind (f x s) (cfold f xs)"

lemma cfold_total: "cfold (\<lambda>x s. Some (Inr (f x s))) xs s = Some (Inr (fold f xs s))"
  by (induction xs arbitrary: s) simp_all

text \<open>The invariant knows the operations still to come, so that it can say that there is room for
  them.\<close>

locale op_refinement =
  fixes step :: "'op \<Rightarrow> 's \<Rightarrow> ('e, 's) comp"
    and absf :: "'s \<Rightarrow> 'm"
    and eff :: "'op \<Rightarrow> 'm \<Rightarrow> 'm"
    and inv :: "'op list \<Rightarrow> 's \<Rightarrow> bool"
  assumes step_ok: "inv (x # xs) s \<Longrightarrow> \<exists>s'. step x s = Some (Inr s') \<and> inv xs s' \<and> absf s' = eff x (absf s)"
begin

lemma run_ok:
  assumes "inv xs s"
  shows "\<exists>s'. cfold step xs s = Some (Inr s') \<and> inv [] s' \<and> absf s' = fold eff xs (absf s)"
  using assms
proof (induction xs arbitrary: s)
  case Nil
  then show ?case by simp
next
  case (Cons x xs)
  from step_ok [OF Cons.prems] obtain t where
    t: "step x s = Some (Inr t)" "inv xs t" "absf t = eff x (absf s)" by blast
  with Cons.IH [of t] show ?case by auto
qed

end

end
