(* ===== verification/Lsm_Memtable.thy ===== *)
theory Lsm_Memtable
  imports Refinement
begin

text \<open>
  The keys, values, errors and configuration of the \<^verbatim>\<open>dugite-lsm\<close> crate
  (\<^verbatim>\<open>key.rs\<close>, \<^verbatim>\<open>value.rs\<close>, \<^verbatim>\<open>error.rs\<close>, \<^verbatim>\<open>config.rs\<close>) and its sorted in-memory write buffer
  (\<^verbatim>\<open>memtable.rs\<close>).  The invariant says that the buffer is strictly sorted and that the
  running byte count is the exact size of what it holds.
\<close>


section \<open>Keys, values, errors, configuration\<close>

text \<open>\<^verbatim>\<open>Key\<close> and \<^verbatim>\<open>Value\<close> wrap a byte vector; \<^verbatim>\<open>Ord for Key\<close> is the lexicographic order of the
  bytes, which is the order of lists of bytes here.  \<open>None\<close> as the value is a tombstone.\<close>

type_synonym key = "byte list"
type_synonym lsm_value = "byte list"
type_synonym entry = "key \<times> lsm_value option"

datatype io_error = UnexpectedEof | InvalidData | NotFound

datatype lsm_error =
    Io io_error
  | ChecksumMismatch nat nat
  | WalCorruption nat
  | PageOverflow nat nat
  | DatabaseLocked
  | SnapshotNotFound string
  | Manifest
  | KeyTooLarge nat nat
  | ValueTooLarge nat nat
  | Panic

record lsm_config =
  memtable_size :: nat
  block_cache_size :: nat
  bloom_filter_bits_per_key :: nat
  size_ratio :: nat
  wal_enabled :: bool
  wal_segment_size :: nat
  page_size :: nat

definition default_config :: lsm_config where
  "default_config = \<lparr>memtable_size = 64 * 1024 * 1024, block_cache_size = 256 * 1024 * 1024,
     bloom_filter_bits_per_key = 10, size_ratio = 4, wal_enabled = True,
     wal_segment_size = 64 * 1024 * 1024, page_size = 65536\<rparr>"

definition max_entry_size :: "lsm_config \<Rightarrow> nat" where
  "max_entry_size c = page_size c - (10 + 7)"

definition cache_capacity :: "lsm_config \<Rightarrow> nat" where
  "cache_capacity c = block_cache_size c div page_size c"


section \<open>The write buffer\<close>

record memtable =
  mt_entries :: "entry list"
  mt_approx_bytes :: nat

definition memtable_new :: memtable where
  "memtable_new = \<lparr>mt_entries = [], mt_approx_bytes = 0\<rparr>"

definition opt_len :: "lsm_value option \<Rightarrow> nat" where
  "opt_len v = (case v of None \<Rightarrow> 0 | Some b \<Rightarrow> length b)"

definition memtable_insert :: "key \<Rightarrow> lsm_value \<Rightarrow> memtable \<Rightarrow> memtable" where
  "memtable_insert k v m =
     (let es = bt_insert k (Some v) (mt_entries m) in
      case map_of (mt_entries m) k of
        Some old \<Rightarrow> \<lparr>mt_entries = es,
                     mt_approx_bytes = (mt_approx_bytes m - opt_len old) + length v\<rparr>
      | None \<Rightarrow> \<lparr>mt_entries = es,
                 mt_approx_bytes = mt_approx_bytes m + (length k + length v)\<rparr>)"

definition memtable_delete :: "key \<Rightarrow> memtable \<Rightarrow> memtable" where
  "memtable_delete k m =
     (let es = bt_insert k None (mt_entries m) in
      case map_of (mt_entries m) k of
        Some old \<Rightarrow> \<lparr>mt_entries = es, mt_approx_bytes = mt_approx_bytes m - opt_len old\<rparr>
      | None \<Rightarrow> \<lparr>mt_entries = es, mt_approx_bytes = mt_approx_bytes m + length k\<rparr>)"

definition memtable_get :: "memtable \<Rightarrow> key \<Rightarrow> lsm_value option option" where
  "memtable_get m k = map_of (mt_entries m) k"

definition memtable_len :: "memtable \<Rightarrow> nat" where
  "memtable_len m = length (mt_entries m)"

definition memtable_is_empty :: "memtable \<Rightarrow> bool" where
  "memtable_is_empty m = (mt_entries m = [])"

definition memtable_drain :: "memtable \<Rightarrow> entry list \<times> memtable" where
  "memtable_drain m = (mt_entries m, \<lparr>mt_entries = [], mt_approx_bytes = 0\<rparr>)"

text \<open>\<^verbatim>\<open>BTreeMap::range\<close> panics when the start bound is greater than the end bound; both bounds
  are \<^verbatim>\<open>Included\<close>.\<close>

definition memtable_range :: "memtable \<Rightarrow> key \<Rightarrow> key \<Rightarrow> (lsm_error, entry list) result" where
  "memtable_range m from to =
     (if to < from then Inl Panic
      else Inr (filter (\<lambda>(k, v). from \<le> k \<and> k \<le> to) (mt_entries m)))"

text \<open>A write as one operation: \<open>Some v\<close> inserts, \<open>None\<close> deletes.\<close>

definition memtable_write :: "entry \<Rightarrow> memtable \<Rightarrow> memtable" where
  "memtable_write e m = (case e of
     (k, Some v) \<Rightarrow> memtable_insert k v m | (k, None) \<Rightarrow> memtable_delete k m)"


section \<open>The invariant and the abstraction\<close>

definition entry_bytes :: "entry \<Rightarrow> nat" where
  "entry_bytes e = length (fst e) + opt_len (snd e)"

definition memtable_inv :: "memtable \<Rightarrow> bool" where
  "memtable_inv m \<longleftrightarrow> sorted_keys (mt_entries m) \<and>
     mt_approx_bytes m = sum_list (map entry_bytes (mt_entries m))"

lemma bytes_bt_insert_new:
  "map_of es k = None \<Longrightarrow>
     sum_list (map entry_bytes (bt_insert k v es)) = sum_list (map entry_bytes es) + entry_bytes (k, v)"
  by (induction k v es rule: bt_insert.induct) (auto split: if_splits)

lemma bytes_bt_insert_old:
  "sorted_keys es \<Longrightarrow> map_of es k = Some old \<Longrightarrow>
     sum_list (map entry_bytes (bt_insert k v es)) + opt_len old =
       sum_list (map entry_bytes es) + opt_len v"
proof (induction k v es rule: bt_insert.induct)
  case (2 k v a b xs)
  have "\<not> k < a"
  proof
    assume k: "k < a"
    then have "map_of xs k = None"
      using map_of_sorted_less [OF "2.prems"(1), of k] by simp
    with k "2.prems"(2) show False by (auto split: if_splits)
  qed
  with "2" show ?case by (auto simp: entry_bytes_def split: if_splits)
qed simp

lemma opt_len_le_bytes: "map_of es k = Some v \<Longrightarrow> opt_len v \<le> sum_list (map entry_bytes es)"
  by (induction es) (auto simp: entry_bytes_def split: if_splits)

lemma memtable_inv_new [simp]: "memtable_inv memtable_new"
  by (simp add: memtable_inv_def memtable_new_def)

lemma memtable_write_entries [simp]:
  "mt_entries (memtable_write (k, v) m) = bt_insert k v (mt_entries m)"
  by (cases v) (auto simp: memtable_write_def memtable_insert_def memtable_delete_def Let_def
      split: option.splits)

lemma memtable_write_inv [simp]: "memtable_inv m \<Longrightarrow> memtable_inv (memtable_write (k, v) m)"
proof -
  assume inv: "memtable_inv m"
  then have s: "sorted_keys (mt_entries m)" by (simp add: memtable_inv_def)
  have "mt_approx_bytes (memtable_write (k, v) m) =
      sum_list (map entry_bytes (bt_insert k v (mt_entries m)))"
  proof (cases "map_of (mt_entries m) k")
    case None
    with inv bytes_bt_insert_new [OF None, of v] show ?thesis
      by (cases v) (simp_all add: memtable_inv_def memtable_write_def memtable_insert_def
          memtable_delete_def entry_bytes_def opt_len_def Let_def)
  next
    case (Some old)
    with inv bytes_bt_insert_old [OF s Some, of v] opt_len_le_bytes [OF Some] show ?thesis
      by (cases v) (simp_all add: memtable_inv_def memtable_write_def memtable_insert_def
          memtable_delete_def opt_len_def [of None] opt_len_def [of "Some _"] Let_def)
  qed
  with s show ?thesis by (simp add: memtable_inv_def)
qed

lemma memtable_get_write: "memtable_get (memtable_write (k, v) m) = (memtable_get m)(k \<mapsto> v)"
  by (rule ext) (simp add: memtable_get_def)

lemma memtable_insert_write: "memtable_insert k v m = memtable_write (k, Some v) m"
  by (simp add: memtable_write_def)

lemma memtable_delete_write: "memtable_delete k m = memtable_write (k, None) m"
  by (simp add: memtable_write_def)

text \<open>The write buffer refines a finite map from keys to values and tombstones.\<close>

definition map_write :: "entry \<Rightarrow> (key \<rightharpoonup> lsm_value option) \<Rightarrow> key \<rightharpoonup> lsm_value option" where
  "map_write e m = m(fst e \<mapsto> snd e)"

interpretation mt: op_refinement
  "\<lambda>e m. Some (Inr (memtable_write e m))" memtable_get map_write "\<lambda>_. memtable_inv"
  by unfold_locales (auto simp: memtable_get_write map_write_def)

lemma memtable_writes:
  assumes "memtable_inv m"
  shows "memtable_inv (fold memtable_write es m)"
    and "memtable_get (fold memtable_write es m) = fold map_write es (memtable_get m)"
  using mt.run_ok [OF assms, of es] by (auto simp: cfold_total)

end
