(* ===== verification/Lsm_Page.thy ===== *)
theory Lsm_Page
  imports Lsm_Memtable
begin

text \<open>
  The page format of sorted runs (\<^verbatim>\<open>sstable/page.rs\<close>): entries behind a header with their
  number, the end of the data and a checksum, zero-padded to a multiple of the page size.
  The checksum function of the \<^verbatim>\<open>crc32fast\<close> crate is the argument \<open>crc\<close> of the codec.
  Decoding an encoded page, whole or cut anywhere in its padding, gives the page back.
\<close>

type_synonym checksum = "byte list \<Rightarrow> 32 word"

definition page_header_size :: nat where "page_header_size = 10"

definition tag_value :: byte where "tag_value = 1"
definition tag_tombstone :: byte where "tag_tombstone = 0"

record page =
  pg_entries :: "entry list"

definition entry_size :: "entry \<Rightarrow> nat" where
  "entry_size e = 2 + length (fst e) + 1 + (case snd e of Some v \<Rightarrow> 4 + length v | None \<Rightarrow> 0)"

definition encode_entry :: "entry \<Rightarrow> byte list" where
  "encode_entry e = le_bytes 2 (length (fst e)) @ fst e @
     (case snd e of
        Some v \<Rightarrow> [tag_value] @ le_bytes 4 (length v) @ v
      | None \<Rightarrow> [tag_tombstone])"

definition encode_entries :: "entry list \<Rightarrow> byte list" where
  "encode_entries es = concat (map encode_entry es)"

text \<open>\<^verbatim>\<open>Page::encode\<close>.  Writing to a vector does not fail; \<^verbatim>\<open>div_ceil\<close> by a page size of 0 panics.\<close>

definition page_encode :: "checksum \<Rightarrow> page \<Rightarrow> nat \<Rightarrow> (lsm_error, byte list) result" where
  "page_encode crc p min_page_size =
     (let data = encode_entries (pg_entries p);
          needed = page_header_size + length data
      in if needed \<le> min_page_size \<or> min_page_size \<noteq> 0 then
           let actual = (if needed \<le> min_page_size then min_page_size
                         else div_ceil needed min_page_size * min_page_size)
           in Inr (le_bytes 2 (length (pg_entries p)) @ le_bytes 4 needed @
                   le_bytes 4 (unat (crc data)) @ data @ replicate (actual - needed) 0)
         else Inl Panic)"

text \<open>A short read is the \<^verbatim>\<open>UnexpectedEof\<close> of the cursor.\<close>

definition eof :: "'a option \<Rightarrow> (lsm_error, 'a) result" where
  "eof r = (case r of None \<Rightarrow> Inl (Io UnexpectedEof) | Some x \<Rightarrow> Inr x)"

definition decode_entry :: "byte list \<Rightarrow> (lsm_error, entry \<times> byte list) result" where
  "decode_entry bs =
     rbind (eof (read_le 2 bs)) (\<lambda>(key_len, bs).
     rbind (eof (read_exact key_len bs)) (\<lambda>(k, bs).
     rbind (eof (read_exact 1 bs)) (\<lambda>(tag, bs).
     if tag = [tag_value] then
       rbind (eof (read_le 4 bs)) (\<lambda>(value_len, bs).
       rbind (eof (read_exact value_len bs)) (\<lambda>(v, bs). Inr ((k, Some v), bs)))
     else Inr ((k, None), bs))))"

fun decode_entries :: "nat \<Rightarrow> byte list \<Rightarrow> (lsm_error, entry list) result" where
  "decode_entries 0 bs = Inr []"
| "decode_entries (Suc n) bs =
     rbind (decode_entry bs) (\<lambda>(e, bs). rbind (decode_entries n bs) (\<lambda>es. Inr (e # es)))"

definition page_decode :: "checksum \<Rightarrow> byte list \<Rightarrow> (lsm_error, page) result" where
  "page_decode crc buf =
     (if length buf < page_header_size then Inl (Io UnexpectedEof)
      else
        rbind (eof (read_le 2 buf)) (\<lambda>(entry_count, r).
        rbind (eof (read_le 4 r)) (\<lambda>(data_end, r).
        rbind (eof (read_le 4 r)) (\<lambda>(expected_crc, r).
        if length buf < data_end \<or> data_end < page_header_size then Inl (Io InvalidData)
        else
          let data_region = drop page_header_size (take data_end buf);
              actual_crc = unat (crc data_region)
          in if actual_crc \<noteq> expected_crc then Inl (ChecksumMismatch expected_crc actual_crc)
             else rbind (decode_entries entry_count data_region) (\<lambda>es. Inr \<lparr>pg_entries = es\<rparr>)))))"

definition page_search :: "page \<Rightarrow> key \<Rightarrow> lsm_value option option" where
  "page_search p key =
     (case binary_search_by (\<lambda>e. cmp (fst e) key) (pg_entries p) of
        Inr i \<Rightarrow> Some (snd (pg_entries p ! i))
      | Inl i \<Rightarrow> None)"


section \<open>Round trip\<close>

text \<open>The widths of the format: 16-bit key lengths and entry counts, 32-bit value lengths and
  data ends.\<close>

definition entry_fits :: "entry \<Rightarrow> bool" where
  "entry_fits e \<longleftrightarrow> length (fst e) < 2 ^ 16 \<and> opt_len (snd e) < 2 ^ 32"

definition page_fits :: "entry list \<Rightarrow> bool" where
  "page_fits es \<longleftrightarrow> list_all entry_fits es \<and> length es < 2 ^ 16 \<and>
     page_header_size + sum_list (map entry_size es) < 2 ^ 32"

lemma eof_simps [simp]: "eof None = Inl (Io UnexpectedEof)" "eof (Some x) = Inr x"
  by (simp_all add: eof_def)

lemma length_encode_entry [simp]: "length (encode_entry e) = entry_size e"
  by (auto simp: encode_entry_def entry_size_def split: option.splits)

lemma length_encode_entries [simp]: "length (encode_entries es) = sum_list (map entry_size es)"
  by (induction es) (simp_all add: encode_entries_def)

lemma entry_size_pos: "0 < entry_size e"
  by (simp add: entry_size_def)

lemma decode_encode_entry [codec]:
  assumes "entry_fits e"
  shows "decode_entry (encode_entry e @ r) = Inr (e, r)"
proof (cases e)
  case (Pair k v)
  with assms show ?thesis
    by (cases v) (simp_all add: decode_entry_def encode_entry_def entry_fits_def opt_len_def
        tag_value_def tag_tombstone_def read_le_append read_exact_append [of "[_]" 1, simplified])
qed

lemma decode_encode_entries [codec]:
  "list_all entry_fits es \<Longrightarrow> decode_entries (length es) (encode_entries es @ r) = Inr es"
  by (induction es) (simp_all add: encode_entries_def decode_encode_entry)

text \<open>The bytes of a page before its padding.\<close>

definition page_bytes :: "checksum \<Rightarrow> entry list \<Rightarrow> byte list" where
  "page_bytes crc es = le_bytes 2 (length es) @
     le_bytes 4 (page_header_size + sum_list (map entry_size es)) @
     le_bytes 4 (unat (crc (encode_entries es))) @ encode_entries es"

lemma length_page_bytes [simp]:
  "length (page_bytes crc es) = page_header_size + sum_list (map entry_size es)"
  by (simp add: page_bytes_def page_header_size_def)

lemma page_decode_bytes [codec]:
  assumes "page_fits es"
  shows "page_decode crc (page_bytes crc es @ pad) = Inr \<lparr>pg_entries = es\<rparr>"
proof -
  let ?d = "encode_entries es" and ?n = "page_header_size + sum_list (map entry_size es)"
  let ?hdr = "le_bytes 2 (length es) @ le_bytes 4 ?n @ le_bytes 4 (unat (crc ?d))"
  have f: "list_all entry_fits es" "length es < 65536" "?n < 4294967296"
    using assms by (simp_all add: page_fits_def)
  have c: "unat (crc ?d) < 4294967296" using unsigned_less [of "crc ?d", where 'a = nat] by simp
  have region: "drop page_header_size (take ?n (page_bytes crc es @ pad)) = ?d"
    using length_page_bytes [of crc es]
    by (simp add: take_append page_bytes_def page_header_size_def)
  have dec: "decode_entries (length es) ?d = Inr es"
    using decode_encode_entries [OF f(1), of "[]"] by simp
  show ?thesis
    using f c region dec unfolding page_decode_def
    by (simp add: page_bytes_def read_le_append Let_def) (simp add: page_header_size_def)
qed

text \<open>The size of an encoded page: a multiple of the page size that holds header and data.\<close>

definition page_span :: "nat \<Rightarrow> entry list \<Rightarrow> nat" where
  "page_span ps es = div_ceil (page_header_size + sum_list (map entry_size es)) ps * ps"

lemma page_span_small:
  assumes "page_header_size + sum_list (map entry_size es) \<le> ps"
  shows "page_span ps es = ps"
proof -
  let ?n = "page_header_size + sum_list (map entry_size es)"
  have ps: "0 < ps" using assms by (simp add: page_header_size_def)
  have "div_ceil ?n ps * ps < 2 * ps" using div_ceil_bounds(2) [OF ps, of ?n] assms by linarith
  then have "div_ceil ?n ps < 2" by (simp only: mult_less_cancel2)
  moreover have "0 < div_ceil ?n ps" by (rule div_ceil_pos [OF ps]) (simp add: page_header_size_def)
  ultimately have "div_ceil ?n ps = 1" by linarith
  then show ?thesis by (simp add: page_span_def)
qed

text \<open>An encoded page as it lies in the file.\<close>

definition page_image :: "checksum \<Rightarrow> nat \<Rightarrow> entry list \<Rightarrow> byte list" where
  "page_image crc ps es = page_bytes crc es @ replicate (page_span ps es - length (page_bytes crc es)) 0"

lemma page_encode_ok:
  assumes "0 < ps"
  shows "page_encode crc p ps = Inr (page_image crc ps (pg_entries p))"
  using assms page_span_small [of "pg_entries p" ps]
  by (auto simp: page_encode_def page_image_def page_bytes_def page_span_def page_header_size_def Let_def)

lemma page_span_bounds:
  assumes "0 < ps"
  shows "page_header_size + sum_list (map entry_size es) \<le> page_span ps es" and "ps \<le> page_span ps es"
proof -
  let ?n = "page_header_size + sum_list (map entry_size es)"
  show "?n \<le> page_span ps es" unfolding page_span_def by (rule div_ceil_bounds(1) [OF assms])
  have "0 < div_ceil ?n ps" by (rule div_ceil_pos [OF assms]) (simp add: page_header_size_def)
  then show "ps \<le> page_span ps es" unfolding page_span_def by simp
qed

lemma length_page_image [simp]: "0 < ps \<Longrightarrow> length (page_image crc ps es) = page_span ps es"
  using page_span_bounds(1) [of ps es] by (simp add: page_image_def)

lemma page_search_map_of:
  "sorted_keys es \<Longrightarrow> page_search \<lparr>pg_entries = es\<rparr> k = map_of es k"
  using binary_search_map_of [of es k] by (auto simp: page_search_def split: sum.splits)

end
