(* ===== verification/Lsm_Bloom.thy ===== *)
theory Lsm_Bloom
  imports Lsm_Page
begin

unbundle bit_operations_syntax

text \<open>
  The Bloom filter of a run (\<^verbatim>\<open>bloom.rs\<close>), at the width of its machine words: the two 64-bit
  hashes wrap, the bit array is a list of bytes.  A key that was inserted is always reported as
  possibly present, also after the filter has been written out and read back.
\<close>

record bloom_filter =
  bl_bits :: "byte list"
  bl_num_bits :: nat
  bl_num_hashes :: nat

text \<open>\<^verbatim>\<open>(bits_per_key as f64 * 0.693) as u32\<close> is the integer part of the product: up to 999 bits
  per key the product is not within rounding distance of an integer, and from 44 on the upper
  clamp applies.  The vector of bytes is allocated before its length is multiplied by eight, so the
  product wraps for no filter that exists.\<close>

definition bloom_new :: "nat \<Rightarrow> nat \<Rightarrow> bloom_filter" where
  "bloom_new num_keys bits_per_key =
     (let num_bits = max (min (num_keys * bits_per_key) (2 ^ 64 - 1)) 64;
          num_bytes = div_ceil num_bits 8
      in \<lparr>bl_bits = replicate num_bytes 0, bl_num_bits = num_bytes * 8,
          bl_num_hashes = max 1 (min 30 (bits_per_key * 693 div 1000))\<rparr>)"

definition hash_mix :: "u64 \<Rightarrow> u64 \<Rightarrow> byte list \<Rightarrow> u64" where
  "hash_mix seed mult bs = foldl (\<lambda>h b. (h XOR ucast b) * mult) seed bs"

definition double_hash :: "byte list \<Rightarrow> u64 \<times> u64" where
  "double_hash bs =
     (hash_mix 0xcbf29ce484222325 0x100000001b3 bs, hash_mix 0x517cc1b727220a95 0x9e3779b97f4a7c15 bs)"

definition bit_pos :: "nat \<Rightarrow> key \<Rightarrow> nat \<Rightarrow> nat" where
  "bit_pos num_bits key i =
     (case double_hash key of (h1, h2) \<Rightarrow> unat (h1 + word_of_nat i * h2) mod num_bits)"

definition set_bit_at :: "nat \<Rightarrow> byte list \<Rightarrow> byte list" where
  "set_bit_at pos bits = bits[pos div 8 := bits ! (pos div 8) OR push_bit (pos mod 8) 1]"

definition bloom_insert :: "key \<Rightarrow> bloom_filter \<Rightarrow> bloom_filter" where
  "bloom_insert key f =
     f\<lparr>bl_bits := fold (\<lambda>i. set_bit_at (bit_pos (bl_num_bits f) key i)) [0..<bl_num_hashes f] (bl_bits f)\<rparr>"

definition may_contain :: "bloom_filter \<Rightarrow> key \<Rightarrow> bool" where
  "may_contain f key = (bl_bits f \<noteq> [] \<and>
     list_all (\<lambda>i. let pos = bit_pos (bl_num_bits f) key i in
        bl_bits f ! (pos div 8) AND push_bit (pos mod 8) 1 \<noteq> 0) [0..<bl_num_hashes f])"

definition bloom_to_bytes :: "bloom_filter \<Rightarrow> byte list" where
  "bloom_to_bytes f = le_bytes 4 (bl_num_hashes f) @ le_bytes 4 (bl_num_bits f) @ bl_bits f"

definition bloom_from_bytes :: "byte list \<Rightarrow> bloom_filter option" where
  "bloom_from_bytes data =
     (if length data < 8 then None
      else let num_hashes = le_nat (take 4 data);
               num_bits = le_nat (take 4 (drop 4 data));
               num_bytes = div_ceil num_bits 8
           in if length data < 8 + num_bytes then None
              else Some \<lparr>bl_bits = take num_bytes (drop 8 data), bl_num_bits = num_bits,
                         bl_num_hashes = num_hashes\<rparr>)"


section \<open>No false negatives\<close>

text \<open>Well-formed filters have a bit array of exactly \<^verbatim>\<open>num_bits\<close> bits and a hash count that fits
  in its 32 bits; every access is then in range.\<close>

definition bloom_inv :: "bloom_filter \<Rightarrow> bool" where
  "bloom_inv f \<longleftrightarrow> 0 < bl_num_bits f \<and> length (bl_bits f) * 8 = bl_num_bits f \<and>
     bl_num_hashes f < 2 ^ 32"

definition has_bit :: "byte list \<Rightarrow> nat \<Rightarrow> bool" where
  "has_bit bits pos = bit (bits ! (pos div 8)) (pos mod 8)"

lemma bit_byte_one: "bit (2 ^ n :: byte) m \<longleftrightarrow> m = n \<and> n < 8"
  by (auto simp: bit_exp_iff)

lemma and_mask_has_bit:
  "(bits ! (pos div 8) AND push_bit (pos mod 8) 1 \<noteq> (0 :: byte)) \<longleftrightarrow> has_bit bits pos"
proof
  assume "bits ! (pos div 8) AND push_bit (pos mod 8) 1 \<noteq> (0 :: byte)"
  then obtain n where "bit (bits ! (pos div 8) AND push_bit (pos mod 8) 1) n"
    by (metis bit_eq_iff bit_0_eq bot_apply bot_bool_def)
  then show "has_bit bits pos" by (auto simp: bit_and_iff bit_byte_one has_bit_def)
next
  assume "has_bit bits pos"
  then have "bit (bits ! (pos div 8) AND push_bit (pos mod 8) 1) (pos mod 8)"
    by (simp add: bit_and_iff bit_byte_one has_bit_def)
  then show "bits ! (pos div 8) AND push_bit (pos mod 8) 1 \<noteq> (0 :: byte)" by auto
qed

lemma length_set_bit_at [simp]: "length (set_bit_at pos bits) = length bits"
  by (simp add: set_bit_at_def)

lemma set_bit_at_mono: "has_bit bits p \<Longrightarrow> has_bit (set_bit_at pos bits) p"
  by (cases "p div 8 = pos div 8"; cases "p div 8 < length bits")
    (auto simp: has_bit_def set_bit_at_def bit_or_iff nth_list_update list_update_beyond)

lemma has_bit_set_bit_at: "pos < length bits * 8 \<Longrightarrow> has_bit (set_bit_at pos bits) pos"
  by (simp add: has_bit_def set_bit_at_def bit_or_iff bit_byte_one nth_list_update less_mult_imp_div_less)

lemma length_fold_set_bit [simp]: "length (fold (\<lambda>i. set_bit_at (p i)) xs bits) = length bits"
  by (induction xs arbitrary: bits) simp_all

lemma fold_set_bit_mono: "has_bit bits q \<Longrightarrow> has_bit (fold (\<lambda>i. set_bit_at (p i)) xs bits) q"
  by (induction xs arbitrary: bits) (simp_all add: set_bit_at_mono)

lemma fold_set_bit_has:
  "\<lbrakk>i \<in> set xs; \<And>i. p i < length bits * 8\<rbrakk> \<Longrightarrow> has_bit (fold (\<lambda>i. set_bit_at (p i)) xs bits) (p i)"
  by (induction xs arbitrary: bits) (auto intro: fold_set_bit_mono has_bit_set_bit_at)

lemma may_contain_iff:
  "bloom_inv f \<Longrightarrow> may_contain f k \<longleftrightarrow>
     (\<forall>i<bl_num_hashes f. has_bit (bl_bits f) (bit_pos (bl_num_bits f) k i))"
  unfolding may_contain_def Let_def and_mask_has_bit by (auto simp: bloom_inv_def list_all_iff)

lemma bit_pos_less: "0 < num_bits \<Longrightarrow> bit_pos num_bits k i < num_bits"
  by (simp add: bit_pos_def split: prod.splits)

lemma bloom_inv_new [simp]: "bloom_inv (bloom_new n b)"
  using div_ceil_pos [of 8 "max (min (n * b) (2 ^ 64 - 1)) 64"]
  by (auto simp: bloom_inv_def bloom_new_def Let_def)

lemma bloom_inv_insert [simp]: "bloom_inv f \<Longrightarrow> bloom_inv (bloom_insert k f)"
  by (simp add: bloom_inv_def bloom_insert_def)

lemma may_contain_inserted: "bloom_inv f \<Longrightarrow> may_contain (bloom_insert k f) k"
  by (subst may_contain_iff) (auto simp: bloom_insert_def bloom_inv_def bit_pos_less intro!: fold_set_bit_has)

lemma may_contain_mono: "bloom_inv f \<Longrightarrow> may_contain f k \<Longrightarrow> may_contain (bloom_insert k' f) k"
  using may_contain_iff [OF bloom_inv_insert, of f k' k]
  by (simp add: may_contain_iff) (simp add: bloom_insert_def fold_set_bit_mono)

lemma bloom_build:
  assumes "bloom_inv f"
  shows "bloom_inv (fold bloom_insert ks f)"
    and "k \<in> set ks \<or> may_contain f k \<Longrightarrow> may_contain (fold bloom_insert ks f) k"
  using assms by (induction ks arbitrary: f) (auto simp: may_contain_inserted may_contain_mono)

lemma bloom_roundtrip [codec]:
  assumes "bloom_inv f" and "bl_num_bits f < 2 ^ 32"
  shows "bloom_from_bytes (bloom_to_bytes f) = Some f"
proof -
  have "div_ceil (bl_num_bits f) 8 = length (bl_bits f)"
    using assms(1) div_ceil_mult [of 8 "length (bl_bits f)"] by (simp add: bloom_inv_def)
  then show ?thesis using assms
    by (simp add: bloom_from_bytes_def bloom_to_bytes_def bloom_inv_def le_nat_le_bytes Let_def)
qed

lemma bloom_size_fold [simp]: "bl_num_bits (fold bloom_insert ks f) = bl_num_bits f"
  by (induction ks arbitrary: f) (simp_all add: bloom_insert_def)

end
