(* ===== verification/Lsm_Fence.thy ===== *)
theory Lsm_Fence
  imports Lsm_Page
begin

text \<open>
  The fence index of a run (\<^verbatim>\<open>fence.rs\<close>): the first key and the byte offset of every page.
  A lookup finds the last page whose first key is not greater than the key.
\<close>

text \<open>A \<^verbatim>\<open>FenceEntry\<close> is its first key with its page offset.\<close>

type_synonym fence_entry = "key \<times> nat"

record fence_index =
  fn_entries :: "fence_entry list"

definition fence_new :: fence_index where
  "fence_new = \<lparr>fn_entries = []\<rparr>"

definition fence_add :: "key \<Rightarrow> nat \<Rightarrow> fence_index \<Rightarrow> fence_index" where
  "fence_add first_key page_offset f = \<lparr>fn_entries = fn_entries f @ [(first_key, page_offset)]\<rparr>"

definition find_page :: "fence_index \<Rightarrow> key \<Rightarrow> nat option" where
  "find_page f key =
     (if fn_entries f = [] then None
      else case binary_search_by (\<lambda>e. cmp (fst e) key) (fn_entries f) of
        Inr i \<Rightarrow> Some (snd (fn_entries f ! i))
      | Inl i \<Rightarrow> if i = 0 then None else Some (snd (fn_entries f ! (i - 1))))"

definition find_pages_in_range :: "fence_index \<Rightarrow> key \<Rightarrow> key \<Rightarrow> nat list" where
  "find_pages_in_range f from to =
     (if fn_entries f = [] then []
      else
        let start_idx = (case binary_search_by (\<lambda>e. cmp (fst e) from) (fn_entries f) of
                           Inr i \<Rightarrow> i | Inl i \<Rightarrow> if i = 0 then 0 else i - 1)
        in case (case binary_search_by (\<lambda>e. cmp (fst e) to) (fn_entries f) of
                   Inr i \<Rightarrow> Some i | Inl i \<Rightarrow> if i = 0 then None else Some (i - 1)) of
             None \<Rightarrow> []
           | Some end_idx \<Rightarrow> map (\<lambda>i. snd (fn_entries f ! i)) [start_idx..<end_idx + 1])"

definition all_page_offsets :: "fence_index \<Rightarrow> nat list" where
  "all_page_offsets f = map snd (fn_entries f)"

definition fence_entry_bytes :: "fence_entry \<Rightarrow> byte list" where
  "fence_entry_bytes e = le_bytes 2 (length (fst e)) @ fst e @ le_bytes 8 (snd e)"

definition fence_to_bytes :: "fence_index \<Rightarrow> byte list" where
  "fence_to_bytes f = le_bytes 4 (length (fn_entries f)) @ concat (map fence_entry_bytes (fn_entries f))"

definition fence_entry_read :: "byte list \<Rightarrow> (lsm_error, fence_entry \<times> byte list) result" where
  "fence_entry_read bs =
     rbind (eof (read_le 2 bs)) (\<lambda>(key_len, bs).
     rbind (eof (read_exact key_len bs)) (\<lambda>(k, bs).
     rbind (eof (read_le 8 bs)) (\<lambda>(off, bs). Inr ((k, off), bs))))"

fun fence_entries_read :: "nat \<Rightarrow> byte list \<Rightarrow> (lsm_error, fence_entry list) result" where
  "fence_entries_read 0 bs = Inr []"
| "fence_entries_read (Suc n) bs =
     rbind (fence_entry_read bs) (\<lambda>(e, bs). rbind (fence_entries_read n bs) (\<lambda>es. Inr (e # es)))"

definition fence_from_bytes :: "byte list \<Rightarrow> (lsm_error, fence_index) result" where
  "fence_from_bytes data =
     rbind (eof (read_le 4 data)) (\<lambda>(entry_count, bs).
     rbind (fence_entries_read entry_count bs) (\<lambda>es. Inr \<lparr>fn_entries = es\<rparr>))"


section \<open>Round trip\<close>

definition fence_fits :: "fence_entry list \<Rightarrow> bool" where
  "fence_fits es \<longleftrightarrow> length es < 2 ^ 32 \<and>
     list_all (\<lambda>(k, off). length k < 2 ^ 16 \<and> off < 2 ^ 64) es"

lemma fence_entries_roundtrip [codec]:
  "list_all (\<lambda>(k, off). length k < 2 ^ 16 \<and> off < 2 ^ 64) es \<Longrightarrow>
     fence_entries_read (length es) (concat (map fence_entry_bytes es) @ r) = Inr es"
  by (induction es) (auto simp: fence_entry_bytes_def fence_entry_read_def read_le_append)

lemma fence_roundtrip [codec]:
  assumes "fence_fits (fn_entries f)"
  shows "fence_from_bytes (fence_to_bytes f) = Inr f"
  using assms fence_entries_roundtrip [of "fn_entries f" "[]"]
  by (simp add: fence_from_bytes_def fence_to_bytes_def fence_fits_def read_le_append)


section \<open>Lookup\<close>

text \<open>The number of pages whose first key is not greater than a key.\<close>

definition pages_upto :: "fence_entry list \<Rightarrow> key \<Rightarrow> nat" where
  "pages_upto es k = length (filter (\<lambda>e. fst e \<le> k) es)"

lemma pages_upto_eqI:
  assumes "n \<le> length es" and "\<And>i. i < n \<Longrightarrow> fst (es ! i) \<le> k"
    and "\<And>i. n \<le> i \<Longrightarrow> i < length es \<Longrightarrow> k < fst (es ! i)"
  shows "pages_upto es k = n"
proof -
  have "filter (\<lambda>e. fst e \<le> k) (take n es) = take n es"
    using assms(1,2) by (force simp: filter_id_conv in_set_conv_nth)
  moreover have "k < fst e" if "e \<in> set (drop n es)" for e
  proof -
    from that obtain i where "i < length es - n" "e = drop n es ! i" by (auto simp: in_set_conv_nth)
    with assms(1) assms(3) [of "n + i"] show ?thesis by simp
  qed
  then have "filter (\<lambda>e. fst e \<le> k) (drop n es) = []" by (auto simp: filter_empty_conv not_le)
  ultimately have "filter (\<lambda>e. fst e \<le> k) (take n es @ drop n es) = take n es"
    by (simp only: filter_append append_Nil2)
  then show ?thesis using assms(1) by (simp add: pages_upto_def)
qed

lemma bsearch_pages_upto:
  assumes "sorted_keys es"
  shows "pages_upto es k = (case binary_search_by (\<lambda>e. cmp (fst e) k) es of Inr i \<Rightarrow> i + 1 | Inl i \<Rightarrow> i)"
proof (cases "binary_search_by (\<lambda>e. cmp (fst e) k) es")
  case (Inr i)
  from binary_search_by_Ok [OF Inr] have i: "i < length es" "fst (es ! i) = k"
    by (auto simp: cmp_def split: if_splits)
  have "pages_upto es k = i + 1"
  proof (rule pages_upto_eqI)
    fix j assume "j < i + 1"
    then show "fst (es ! j) \<le> k"
      using i sorted_keys_nth_less [OF assms, of j i] by (cases "j = i") (auto intro: less_imp_le)
  next
    fix j assume "i + 1 \<le> j" "j < length es"
    then show "k < fst (es ! j)" using i sorted_keys_nth_less [OF assms, of i j] by simp
  qed (use i in simp)
  with Inr show ?thesis by simp
next
  case (Inl i)
  with binary_search_by_spec [OF cmp_sorted_keys [OF assms], of k]
  have s: "i \<le> length es" "\<forall>j<i. cmp (fst (es ! j)) k = Less"
    "\<forall>j. i \<le> j \<and> j < length es \<longrightarrow> cmp (fst (es ! j)) k = Greater" by auto
  have "pages_upto es k = i"
  proof (rule pages_upto_eqI)
    show "fst (es ! j) \<le> k" if "j < i" for j
      using s(2) that by (auto simp: cmp_def split: if_splits)
    show "k < fst (es ! j)" if "i \<le> j" "j < length es" for j
      using s(3) that by (auto simp: cmp_def not_less_iff_gr_or_eq split: if_splits)
  qed (rule s)
  with Inl show ?thesis by simp
qed

lemma find_page_upto:
  assumes "sorted_keys (fn_entries f)"
  shows "find_page f k = (let n = pages_upto (fn_entries f) k in
           if n = 0 then None else Some (snd (fn_entries f ! (n - 1))))"
  unfolding bsearch_pages_upto [OF assms] find_page_def Let_def
  by (auto simp: binary_search_by_def split: sum.splits)

lemma find_pages_upto:
  assumes "sorted_keys (fn_entries f)"
  shows "find_pages_in_range f from to = map (\<lambda>i. snd (fn_entries f ! i))
           [pages_upto (fn_entries f) from - 1..<pages_upto (fn_entries f) to]"
  unfolding bsearch_pages_upto [OF assms] find_pages_in_range_def Let_def
  by (auto simp: binary_search_by_def split: sum.splits)

lemma pages_upto_less:
  "sorted_keys es \<Longrightarrow> i < length es \<Longrightarrow> i < pages_upto es k \<longleftrightarrow> fst (es ! i) \<le> k"
proof (induction es arbitrary: i)
  case (Cons e es)
  obtain a b where e: "e = (a, b)" by (cases e)
  show ?case
  proof (cases "a \<le> k")
    case True
    with Cons show ?thesis by (cases i) (auto simp: pages_upto_def e)
  next
    case False
    have gt: "k < fst x" if "x \<in> set es" for x
      using Cons.prems(1) False that by (cases x) (auto simp: e not_le intro: less_trans)
    then have "filter (\<lambda>x. fst x \<le> k) es = []" by (auto simp: filter_empty_conv not_le)
    with False gt Cons.prems(2) show ?thesis by (cases i) (auto simp: pages_upto_def e not_le)
  qed
qed simp

lemma pages_upto_le: "pages_upto es k \<le> length es"
  by (simp add: pages_upto_def)

end
