(* ===== verification/Lsm_Sstable.thy ===== *)
theory Lsm_Sstable
  imports Lsm_Bloom Lsm_Fence
begin

text \<open>
  Writing a sorted run to its data file and reading pages back (\<^verbatim>\<open>sstable/writer.rs\<close>,
  \<^verbatim>\<open>sstable/reader.rs\<close>).  A file is the list of its bytes.  The writer cuts the entries into
  pages; the pages laid out one after the other are found again by offset and in sequence.
\<close>


section \<open>Writer\<close>

record write_state =
  ws_file :: "byte list"
  ws_fence :: fence_index
  ws_bloom :: bloom_filter
  ws_page :: "entry list"
  ws_size :: nat
  ws_offset :: nat
  ws_count :: nat

record write_result =
  wr_file :: "byte list"
  wr_fence :: fence_index
  wr_bloom :: bloom_filter
  wr_entry_count :: nat
  wr_page_count :: nat

definition flush_page :: "checksum \<Rightarrow> nat \<Rightarrow> write_state \<Rightarrow> (lsm_error, write_state) result" where
  "flush_page crc ps ws =
     rbind (page_encode crc \<lparr>pg_entries = ws_page ws\<rparr> ps) (\<lambda>encoded.
       Inr (ws\<lparr>ws_page := [], ws_fence := fence_add (fst (hd (ws_page ws))) (ws_offset ws) (ws_fence ws),
               ws_file := ws_file ws @ encoded, ws_offset := ws_offset ws + length encoded,
               ws_count := ws_count ws + 1, ws_size := 0\<rparr>))"

definition write_step :: "checksum \<Rightarrow> nat \<Rightarrow> nat \<Rightarrow> entry \<Rightarrow> write_state \<Rightarrow> (lsm_error, write_state) result" where
  "write_step crc ps data_capacity e ws =
     rbind (if data_capacity < ws_size ws + entry_size e \<and> ws_page ws \<noteq> []
            then flush_page crc ps ws else Inr ws) (\<lambda>ws.
       Inr (ws\<lparr>ws_bloom := bloom_insert (fst e) (ws_bloom ws), ws_page := ws_page ws @ [e],
               ws_size := ws_size ws + entry_size e\<rparr>))"

text \<open>The subtraction of the header size wraps in the release profile.\<close>

definition write_sstable ::
  "checksum \<Rightarrow> entry list \<Rightarrow> nat \<Rightarrow> nat \<Rightarrow> (lsm_error, write_result) result" where
  "write_sstable crc es ps bloom_bits_per_key =
     rbind (rfold (write_step crc ps ((ps + (2 ^ 64 - page_header_size)) mod 2 ^ 64)) es
        \<lparr>ws_file = [], ws_fence = fence_new, ws_bloom = bloom_new (length es) bloom_bits_per_key,
         ws_page = [], ws_size = 0, ws_offset = 0, ws_count = 0\<rparr>) (\<lambda>ws.
     rbind (if ws_page ws \<noteq> [] then flush_page crc ps ws else Inr ws) (\<lambda>ws.
       Inr \<lparr>wr_file = ws_file ws, wr_fence = ws_fence ws, wr_bloom = ws_bloom ws,
            wr_entry_count = length es, wr_page_count = ws_count ws\<rparr>))"


section \<open>Reader\<close>

text \<open>The \<^verbatim>\<open>data_end\<close> field of a page, peeked at to find pages larger than one page size, and the
  extra bytes such a page needs.\<close>

definition peek_data_end :: "byte list \<Rightarrow> nat" where
  "peek_data_end buf = le_nat (take 4 (drop 2 buf))"

definition read_rest :: "byte list \<Rightarrow> byte list \<Rightarrow> (lsm_error, byte list) result" where
  "read_rest buf rest =
     (if length buf < peek_data_end buf
      then rbind (eof (read_exact (peek_data_end buf - length buf) rest)) (\<lambda>(extra, r). Inr (buf @ extra))
      else Inr buf)"

definition read_page :: "checksum \<Rightarrow> byte list \<Rightarrow> nat \<Rightarrow> nat \<Rightarrow> (lsm_error, page) result" where
  "read_page crc file ps offset =
     rbind (eof (read_exact ps (drop offset file))) (\<lambda>(buf, rest).
     rbind (if page_header_size \<le> length buf then read_rest buf rest else Inr buf) (page_decode crc))"

definition read_page_by_index :: "checksum \<Rightarrow> byte list \<Rightarrow> nat \<Rightarrow> nat \<Rightarrow> (lsm_error, page) result" where
  "read_page_by_index crc file ps i = read_page crc file ps (i * ps)"

function read_pages_from :: "checksum \<Rightarrow> byte list \<Rightarrow> nat \<Rightarrow> nat \<Rightarrow> (lsm_error, page list) result" where
  "read_pages_from crc file ps offset =
     (if offset < length file then
        let read_size = min (length file - offset) ps;
            buf = take read_size (drop offset file)
        in if length buf < page_header_size then Inr []
           else rbind (read_rest buf (drop (offset + read_size) file)) (\<lambda>buf.
                rbind (page_decode crc buf) (\<lambda>p.
                  let aligned_size = div_ceil (max (length buf) ps) ps * ps
                  in rbind (read_pages_from crc file ps (offset + aligned_size)) (\<lambda>rest. Inr (p # rest))))
      else Inr [])"
  by pat_completeness auto
termination
proof (relation "measure (\<lambda>(crc, file, ps, offset). length file - offset)")
  fix crc :: checksum and data ps offset read_size and buf buf' :: "byte list" and p aligned_size
  assume "offset < length data" and "read_size = min (length data - offset) ps"
    and "buf = take read_size (drop offset data)" and "\<not> length buf < page_header_size"
    and a: "aligned_size = div_ceil (max (length buf') ps) ps * ps"
  then have "0 < ps" by (cases ps) (auto simp: page_header_size_def)
  then have "ps \<le> aligned_size" using div_ceil_bounds(1) [of ps "max (length buf') ps"] by (simp add: a)
  with \<open>0 < ps\<close> \<open>offset < length data\<close>
  show "((crc, data, ps, offset + aligned_size), crc, data, ps, offset)
      \<in> measure (\<lambda>(crc, data, ps, offset). length data - offset)" by simp
qed simp

declare read_pages_from.simps [simp del]

definition read_all_pages :: "checksum \<Rightarrow> byte list \<Rightarrow> nat \<Rightarrow> (lsm_error, page list) result" where
  "read_all_pages crc file ps = read_pages_from crc file ps 0"


section \<open>Layout\<close>

text \<open>A file as the sequence of its page images, and the fence index that goes with it.\<close>

definition file_of :: "checksum \<Rightarrow> nat \<Rightarrow> entry list list \<Rightarrow> byte list" where
  "file_of crc ps pgs = concat (map (page_image crc ps) pgs)"

fun fence_of :: "nat \<Rightarrow> nat \<Rightarrow> entry list list \<Rightarrow> fence_entry list" where
  "fence_of ps off [] = []"
| "fence_of ps off (pg # pgs) = (fst (hd pg), off) # fence_of ps (off + page_span ps pg) pgs"

definition file_span :: "nat \<Rightarrow> entry list list \<Rightarrow> nat" where
  "file_span ps pgs = sum_list (map (page_span ps) pgs)"

lemma length_file_of [simp]: "0 < ps \<Longrightarrow> length (file_of crc ps pgs) = file_span ps pgs"
  by (induction pgs) (simp_all add: file_of_def file_span_def)

lemma fence_of_append:
  "fence_of ps off (xs @ ys) = fence_of ps off xs @ fence_of ps (off + file_span ps xs) ys"
  by (induction xs arbitrary: off) (simp_all add: file_span_def add.assoc)

lemma length_fence_of [simp]: "length (fence_of ps off pgs) = length pgs"
  by (induction pgs arbitrary: off) simp_all

lemma fence_of_nth:
  "i < length pgs \<Longrightarrow> fence_of ps off pgs ! i = (fst (hd (pgs ! i)), off + file_span ps (take i pgs))"
proof (induction pgs arbitrary: i off)
  case (Cons pg pgs)
  then show ?case by (cases i) (simp_all add: file_span_def)
qed simp

text \<open>What the writer has done after a prefix of the entries.\<close>

definition written :: "checksum \<Rightarrow> nat \<Rightarrow> nat \<Rightarrow> bloom_filter \<Rightarrow> entry list \<Rightarrow> entry list list \<Rightarrow> write_state \<Rightarrow> bool" where
  "written crc ps cap b es pgs ws \<longleftrightarrow>
     concat pgs @ ws_page ws = es \<and> ws_file ws = file_of crc ps pgs \<and>
     fn_entries (ws_fence ws) = fence_of ps 0 pgs \<and> ws_offset ws = file_span ps pgs \<and>
     ws_count ws = length pgs \<and> ws_size ws = sum_list (map entry_size (ws_page ws)) \<and>
     ws_bloom ws = fold bloom_insert (map fst es) b \<and> [] \<notin> set pgs \<and>
     (\<forall>pg\<in>set (ws_page ws # pgs). length pg \<le> 1 \<or> sum_list (map entry_size pg) \<le> cap)"

lemma flush_page_ok:
  assumes "0 < ps" and "written crc ps cap b es pgs ws" and "ws_page ws \<noteq> []"
  shows "\<exists>ws'. flush_page crc ps ws = Inr ws' \<and> written crc ps cap b es (pgs @ [ws_page ws]) ws' \<and>
           ws_page ws' = []"
  using assms
  by (auto simp: flush_page_def page_encode_ok written_def fence_add_def fence_of_append file_of_def
      file_span_def)

lemma write_step_ok:
  assumes "0 < ps" and w: "written crc ps cap b es pgs ws"
  shows "\<exists>pgs' ws'. write_step crc ps cap e ws = Inr ws' \<and> written crc ps cap b (es @ [e]) pgs' ws'"
proof -
  have add: "written crc ps cap b (es @ [e]) pgs'
      (ws'\<lparr>ws_bloom := bloom_insert (fst e) (ws_bloom ws'), ws_page := ws_page ws' @ [e],
           ws_size := ws_size ws' + entry_size e\<rparr>)"
    if "written crc ps cap b es pgs' ws'" "ws_page ws' = [] \<or> ws_size ws' + entry_size e \<le> cap" for pgs' ws'
    using that by (auto simp: written_def)
  show ?thesis
  proof (cases "cap < ws_size ws + entry_size e \<and> ws_page ws \<noteq> []")
    case True
    from flush_page_ok [OF assms] True obtain ws' where
      "flush_page crc ps ws = Inr ws'" "written crc ps cap b es (pgs @ [ws_page ws]) ws'" "ws_page ws' = []"
      by blast
    with True add [of "pgs @ [ws_page ws]" ws'] show ?thesis by (auto simp: write_step_def)
  next
    case False
    with add [OF w] show ?thesis by (auto simp: write_step_def not_less)
  qed
qed

lemma write_steps_ok:
  assumes "0 < ps" and "written crc ps cap b es pgs ws"
  shows "\<exists>pgs' ws'. rfold (write_step crc ps cap) es' ws = Inr ws' \<and> written crc ps cap b (es @ es') pgs' ws'"
  using assms(2)
proof (induction es' arbitrary: es pgs ws)
  case Nil
  then show ?case by auto
next
  case (Cons e es')
  from write_step_ok [OF assms(1) Cons.prems, of e] obtain pgs1 ws1 where
    "write_step crc ps cap e ws = Inr ws1" "written crc ps cap b (es @ [e]) pgs1 ws1" by blast
  with Cons.IH [of "es @ [e]" pgs1 ws1] show ?case by simp
qed

definition pages_ok :: "nat \<Rightarrow> entry list \<Rightarrow> entry list list \<Rightarrow> bool" where
  "pages_ok ps es pgs \<longleftrightarrow> concat pgs = es \<and> [] \<notin> set pgs \<and>
     (\<forall>pg\<in>set pgs. length pg \<le> 1 \<or> sum_list (map entry_size pg) \<le> ps - page_header_size)"

lemma write_sstable_ok:
  assumes "page_header_size \<le> ps" and "ps < 2 ^ 64"
  shows "\<exists>pgs. pages_ok ps es pgs \<and> write_sstable crc es ps bpk =
     Inr \<lparr>wr_file = file_of crc ps pgs, wr_fence = \<lparr>fn_entries = fence_of ps 0 pgs\<rparr>,
          wr_bloom = fold bloom_insert (map fst es) (bloom_new (length es) bpk),
          wr_entry_count = length es, wr_page_count = length pgs\<rparr>"
proof -
  let ?cap = "ps - page_header_size" and ?b = "bloom_new (length es) bpk"
  have ps: "0 < ps" using assms(1) by (simp add: page_header_size_def)
  have cap: "(ps + (2 ^ 64 - page_header_size)) mod 2 ^ 64 = ?cap"
  proof -
    have "ps + (2 ^ 64 - page_header_size) = ?cap + 2 ^ 64" using assms(1) by (simp add: page_header_size_def)
    moreover have "?cap < 2 ^ 64" using assms(2) by simp
    ultimately show ?thesis by (metis mod_add_self2 mod_less)
  qed
  let ?ws0 = "\<lparr>ws_file = [], ws_fence = fence_new, ws_bloom = ?b, ws_page = [], ws_size = 0,
    ws_offset = 0, ws_count = 0\<rparr>"
  have "written crc ps ?cap ?b [] [] ?ws0" by (simp add: written_def file_of_def file_span_def fence_new_def)
  from write_steps_ok [OF ps this, of es] obtain pgs ws where
    w: "rfold (write_step crc ps ?cap) es ?ws0 = Inr ws" "written crc ps ?cap ?b es pgs ws" by auto
  have "\<exists>pgs ws'. (if ws_page ws \<noteq> [] then flush_page crc ps ws else Inr ws) = Inr ws' \<and>
      written crc ps ?cap ?b es pgs ws' \<and> ws_page ws' = []"
    using w(2) flush_page_ok [OF ps w(2)] by (cases "ws_page ws = []") auto
  then obtain pgs' ws' where d: "(if ws_page ws \<noteq> [] then flush_page crc ps ws else Inr ws) = Inr ws'"
    "written crc ps ?cap ?b es pgs' ws'" "ws_page ws' = []" by blast
  have "write_sstable crc es ps bpk = Inr \<lparr>wr_file = ws_file ws', wr_fence = ws_fence ws', wr_bloom = ws_bloom ws',
            wr_entry_count = length es, wr_page_count = ws_count ws'\<rparr>"
    unfolding write_sstable_def cap w(1) rbind_simps d(1) ..
  with d(2,3) show ?thesis by (auto simp: written_def pages_ok_def intro!: exI [of _ pgs'])
qed


section \<open>Reading back\<close>

text \<open>What fits the format: an entry within the widths, also alone in a page.\<close>

definition entries_fit :: "nat \<Rightarrow> entry list \<Rightarrow> bool" where
  "entries_fit ps es \<longleftrightarrow> page_header_size \<le> ps \<and> ps \<le> 2 ^ 17 \<and>
     list_all (\<lambda>e. entry_fits e \<and> page_header_size + entry_size e < 2 ^ 32) es"

lemma count_le_size: "3 * length es \<le> sum_list (map entry_size es)"
  by (induction es) (auto simp: entry_size_def)

lemma pages_fit:
  assumes "entries_fit ps es" and "pages_ok ps es pgs" and "pg \<in> set pgs"
  shows "page_fits pg"
proof -
  have sub: "set pg \<subseteq> set es" using assms(2,3) by (auto simp: pages_ok_def)
  with assms(1) have l: "list_all (\<lambda>e. entry_fits e \<and> page_header_size + entry_size e < 2 ^ 32) pg"
    by (auto simp: entries_fit_def list_all_iff)
  consider "length pg \<le> 1" | "sum_list (map entry_size pg) \<le> ps - page_header_size"
    using assms(2,3) by (auto simp: pages_ok_def)
  then show ?thesis
  proof cases
    case 1
    then show ?thesis using l by (cases pg) (auto simp: page_fits_def page_header_size_def)
  next
    case 2
    moreover have "page_header_size \<le> ps" "ps \<le> 131072" using assms(1) by (simp_all add: entries_fit_def)
    ultimately have "length pg < 2 ^ 16" "page_header_size + sum_list (map entry_size pg) < 2 ^ 32"
      using count_le_size [of pg] by simp_all
    with l show ?thesis by (simp add: page_fits_def list_all_iff)
  qed
qed

lemma peek_image:
  assumes "page_fits pg" and "page_header_size \<le> n"
  shows "peek_data_end (take n (page_image crc ps pg @ post)) = page_header_size + sum_list (map entry_size pg)"
proof -
  let ?m = "page_header_size + sum_list (map entry_size pg)"
  have "take 4 (drop 2 (take n (page_image crc ps pg @ post))) = le_bytes 4 ?m"
    using assms(2) by (simp add: page_image_def page_bytes_def page_header_size_def drop_take min_def take_take)
  moreover have "?m < 256 ^ 4" using assms(1) by (simp add: page_fits_def)
  ultimately show ?thesis by (simp add: peek_data_end_def le_nat_le_bytes)
qed

text \<open>Reading at least one page size, and on to the end of the data when that is not enough, gives
  the page.\<close>

lemma read_rest_image:
  assumes "page_fits pg" and "page_header_size \<le> ps"
  shows "\<exists>buf. read_rest (take ps (page_image crc ps pg @ post)) (drop ps (page_image crc ps pg @ post)) = Inr buf \<and>
           page_decode crc buf = Inr \<lparr>pg_entries = pg\<rparr> \<and>
           div_ceil (max (length buf) ps) ps * ps = page_span ps pg"
proof -
  let ?n = "page_header_size + sum_list (map entry_size pg)"
  have ps: "0 < ps" using assms(2) by (simp add: page_header_size_def)
  let ?img = "page_image crc ps pg" 
  have len: "length ?img = page_span ps pg" "ps \<le> page_span ps pg" "?n \<le> page_span ps pg"
    using page_span_bounds [OF ps] ps by auto
  define B R where "B = take ps (?img @ post)" and "R = drop ps (?img @ post)"
  have peek: "peek_data_end B = ?n" unfolding B_def by (rule peek_image [OF assms])
  have tk: "length B = ps" unfolding B_def using len by simp
  have "\<exists>buf. read_rest B R = Inr buf \<and> page_decode crc buf = Inr \<lparr>pg_entries = pg\<rparr> \<and>
      div_ceil (max (length buf) ps) ps * ps = page_span ps pg"
  proof (cases "?n \<le> ps")
    case True
    have "B = page_bytes crc pg @ take (ps - ?n) (drop ?n (?img @ post))"
      unfolding B_def using True len by (simp add: page_image_def)
    then have "page_decode crc B = Inr \<lparr>pg_entries = pg\<rparr>" using page_decode_bytes [OF assms(1)] by simp
    moreover have "read_rest B R = Inr B" using True tk by (simp add: read_rest_def peek)
    moreover have "div_ceil (max ps ps) ps * ps = page_span ps pg"
      using page_span_small [OF True] div_ceil_mult [OF ps, of 1] by simp
    ultimately show ?thesis using tk by simp
  next
    case False
    have "take (?n - ps) R = drop ps (page_bytes crc pg)" and r: "?n - ps \<le> length R"
      unfolding R_def using False len by (simp_all add: page_image_def)
    moreover have "B = take ps (page_bytes crc pg)"
      unfolding B_def using False by (simp add: page_image_def)
    ultimately have "B @ take (?n - ps) R = page_bytes crc pg" by (simp only: append_take_drop_id)
    with r have "read_rest B R = Inr (page_bytes crc pg)"
      using False tk by (simp add: read_rest_def peek read_exact_def)
    moreover have "page_decode crc (page_bytes crc pg) = Inr \<lparr>pg_entries = pg\<rparr>"
      using page_decode_bytes [OF assms(1), of crc "[]"] by simp
    ultimately show ?thesis using False by (simp add: page_span_def max_def)
  qed
  then show ?thesis unfolding B_def R_def .
qed

lemma file_split:
  assumes "0 < ps" and "i < length pgs"
  shows "drop (file_span ps (take i pgs)) (file_of crc ps pgs) =
    page_image crc ps (pgs ! i) @ file_of crc ps (drop (Suc i) pgs)"
proof -
  have "pgs = take i pgs @ pgs ! i # drop (Suc i) pgs" using assms(2) by (rule id_take_nth_drop)
  then have "file_of crc ps pgs =
      file_of crc ps (take i pgs) @ page_image crc ps (pgs ! i) @ file_of crc ps (drop (Suc i) pgs)"
    unfolding file_of_def by (metis concat.simps(2) concat_append list.simps(9) map_append)
  then show ?thesis using length_file_of [OF assms(1), of crc "take i pgs"] by simp
qed

lemma read_page_ok:
  assumes ps: "page_header_size \<le> ps" and "\<And>pg. pg \<in> set pgs \<Longrightarrow> page_fits pg" and "i < length pgs"
  shows "read_page crc (file_of crc ps pgs) ps (file_span ps (take i pgs)) = Inr \<lparr>pg_entries = pgs ! i\<rparr>"
proof -
  let ?pg = "pgs ! i" and ?post = "file_of crc ps (drop (Suc i) pgs)"
  have ps0: "0 < ps" using ps by (simp add: page_header_size_def)
  note split = file_split [OF ps0 assms(3), of crc]
  have "page_fits ?pg" using assms(2,3) by simp
  from read_rest_image [OF this ps, of crc ?post] obtain buf where
    b: "read_rest (take ps (page_image crc ps ?pg @ ?post)) (drop ps (page_image crc ps ?pg @ ?post)) = Inr buf"
      "page_decode crc buf = Inr \<lparr>pg_entries = ?pg\<rparr>" by blast
  have l: "ps \<le> length (page_image crc ps ?pg @ ?post)" using page_span_bounds(2) [OF ps0, of ?pg] ps0 by simp
  then have "read_exact ps (page_image crc ps ?pg @ ?post) =
      Some (take ps (page_image crc ps ?pg @ ?post), drop ps (page_image crc ps ?pg @ ?post))"
    unfolding read_exact_def by simp
  moreover have "page_header_size \<le> length (take ps (page_image crc ps ?pg @ ?post))"
    using l ps by (simp only: length_take)
  ultimately show ?thesis unfolding read_page_def split
    by (simp only: eof_simps rbind_simps prod.case if_True b)
qed

lemma read_pages_from_ok:
  assumes "page_header_size \<le> ps" and "\<And>pg. pg \<in> set pgs \<Longrightarrow> page_fits pg"
    and "i \<le> length pgs"
  shows "read_pages_from crc (file_of crc ps pgs) ps (file_span ps (take i pgs)) =
     Inr (map (\<lambda>pg. \<lparr>pg_entries = pg\<rparr>) (drop i pgs))"
  using assms(3)
proof (induction "length pgs - i" arbitrary: i)
  case 0
  then have "i = length pgs" by simp
  moreover have "0 < ps" using assms(1) by (simp add: page_header_size_def)
  ultimately show ?case by (subst read_pages_from.simps) simp
next
  case (Suc d)
  let ?pg = "pgs ! i" and ?post = "file_of crc ps (drop (Suc i) pgs)"
  let ?off = "file_span ps (take i pgs)" and ?file = "file_of crc ps pgs"
  have i: "i < length pgs" using Suc by simp
  have ps0: "0 < ps" using assms(1) by (simp add: page_header_size_def)
  note split = file_split [OF ps0 i, of crc]
  have l: "ps \<le> length (drop ?off ?file)" unfolding split using page_span_bounds(2) [OF ps0, of ?pg] ps0 by simp
  then have rs: "min (length ?file - ?off) ps = ps" "?off < length ?file" using ps0 by auto
  have "page_fits ?pg" using assms(2) i by simp
  from read_rest_image [OF this assms(1), of crc ?post] obtain buf where
    b: "read_rest (take ps (drop ?off ?file)) (drop (?off + ps) ?file) = Inr buf"
      "page_decode crc buf = Inr \<lparr>pg_entries = ?pg\<rparr>" "div_ceil (max (length buf) ps) ps * ps = page_span ps ?pg"
    unfolding split [symmetric] by (auto simp: add.commute)
  have hd: "\<not> length (take ps (drop ?off ?file)) < page_header_size" using l assms(1) by (simp only: length_take)
  have next_off: "?off + page_span ps ?pg = file_span ps (take (Suc i) pgs)"
    using i by (simp add: take_Suc_conv_app_nth file_span_def)
  have IH: "read_pages_from crc ?file ps (file_span ps (take (Suc i) pgs)) =
      Inr (map (\<lambda>pg. \<lparr>pg_entries = pg\<rparr>) (drop (Suc i) pgs))"
    using Suc.hyps(1) [of "Suc i"] Suc.hyps(2) i by simp
  show ?case
    using hd b IH i
    by (subst read_pages_from.simps)
      (simp only: rs if_True if_False Let_def rbind_simps next_off Cons_nth_drop_Suc [symmetric] list.map)
qed

end
