(* ===== verification/Lsm_Cache.thy ===== *)
theory Lsm_Cache
  imports Lsm_Page "HOL-Library.AList"
begin

text \<open>
  The block cache (\<^verbatim>\<open>cache.rs\<close>) with its clock-sweep eviction.  The hash map is an association
  list with distinct keys, of which only lookup, update, removal and size are used.  The cache
  never holds a page under a key other than the last one inserted there, keeps to its capacity,
  and evicts an entry that was used since the last sweep only when all of them were.
\<close>

record cache_key =
  ck_run_id :: nat
  ck_page_index :: nat

record cache_entry =
  ce_page :: page
  ce_referenced :: bool

record block_cache =
  bc_map :: "(cache_key \<times> cache_entry) list"
  bc_keys :: "cache_key list"
  bc_hand :: nat
  bc_capacity :: nat

definition cache_new :: "nat \<Rightarrow> block_cache" where
  "cache_new capacity = \<lparr>bc_map = [], bc_keys = [], bc_hand = 0, bc_capacity = capacity\<rparr>"

definition cache_get :: "cache_key \<Rightarrow> block_cache \<Rightarrow> page option \<times> block_cache" where
  "cache_get key c =
     (case map_of (bc_map c) key of
        Some e \<Rightarrow> (Some (ce_page e), c\<lparr>bc_map := AList.update key (e\<lparr>ce_referenced := True\<rparr>) (bc_map c)\<rparr>)
      | None \<Rightarrow> (None, c))"

text \<open>\<^verbatim>\<open>Vec::swap_remove\<close> moves the last element into the gap.\<close>

definition swap_remove :: "nat \<Rightarrow> 'a list \<Rightarrow> 'a list" where
  "swap_remove i xs = butlast (xs[i := last xs])"

text \<open>Taking the key under the hand out of the ring.\<close>

definition drop_hand :: "block_cache \<Rightarrow> block_cache" where
  "drop_hand c = (let keys = swap_remove (bc_hand c) (bc_keys c) in
     c\<lparr>bc_keys := keys, bc_hand := (if keys \<noteq> [] then bc_hand c mod length keys else 0)\<rparr>)"

definition evict_key :: "cache_key \<Rightarrow> block_cache \<Rightarrow> block_cache" where
  "evict_key key c = drop_hand (c\<lparr>bc_map := AList.delete key (bc_map c)\<rparr>)"

text \<open>The sweep of \<^verbatim>\<open>evict_one\<close>, with the number of rounds left; indexing the ring out of range
  panics.\<close>

fun evict_sweep :: "nat \<Rightarrow> nat \<Rightarrow> block_cache \<Rightarrow> (lsm_error, block_cache) result" where
  "evict_sweep rounds len c =
     (if length (bc_keys c) \<le> bc_hand c then Inl Panic
      else let key = bc_keys c ! bc_hand c in
        case rounds of
          0 \<Rightarrow> Inr (evict_key key c)
        | Suc n \<Rightarrow>
            (case map_of (bc_map c) key of
               Some e \<Rightarrow>
                 if ce_referenced e then
                   evict_sweep n len
                     (c\<lparr>bc_map := AList.update key (e\<lparr>ce_referenced := False\<rparr>) (bc_map c),
                        bc_hand := (bc_hand c + 1) mod len\<rparr>)
                 else Inr (evict_key key c)
             | None \<Rightarrow> Inr (drop_hand c)))"

declare evict_sweep.simps [simp del]

definition evict_one :: "block_cache \<Rightarrow> (lsm_error, block_cache) result" where
  "evict_one c = (if bc_keys c = [] then Inr c
     else evict_sweep (length (bc_keys c) * 2) (length (bc_keys c)) c)"

partial_function (option) evict_until :: "block_cache \<Rightarrow> (lsm_error, block_cache) comp" where
  "evict_until c =
     (if bc_capacity c \<le> length (bc_map c) then
        (case evict_one c of Inl e \<Rightarrow> Some (Inl e) | Inr c' \<Rightarrow> evict_until c')
      else Some (Inr c))"

declare evict_until.simps [code]

definition cache_insert :: "cache_key \<Rightarrow> page \<Rightarrow> block_cache \<Rightarrow> (lsm_error, block_cache) comp" where
  "cache_insert key p c =
     (if bc_capacity c = 0 then Some (Inr c)
      else case map_of (bc_map c) key of
        Some e \<Rightarrow> Some (Inr (c\<lparr>bc_map := AList.update key (e\<lparr>ce_page := p, ce_referenced := True\<rparr>) (bc_map c)\<rparr>))
      | None \<Rightarrow> cbind (evict_until c) (\<lambda>c.
          Some (Inr (c\<lparr>bc_keys := bc_keys c @ [key],
                       bc_map := AList.update key \<lparr>ce_page = p, ce_referenced = True\<rparr> (bc_map c)\<rparr>))))"

definition invalidate_run :: "nat \<Rightarrow> block_cache \<Rightarrow> block_cache" where
  "invalidate_run run_id c =
     (let keys = filter (\<lambda>k. ck_run_id k \<noteq> run_id) (bc_keys c) in
      c\<lparr>bc_keys := keys,
        bc_map := filter (\<lambda>(k, _). ck_run_id k \<noteq> run_id) (bc_map c),
        bc_hand := (if keys \<noteq> [] then bc_hand c mod length keys else 0)\<rparr>)"


section \<open>Invariant\<close>

text \<open>The ring lists exactly the keys of the map, once each, and the hand is on it.\<close>

definition cache_ring :: "block_cache \<Rightarrow> bool" where
  "cache_ring c \<longleftrightarrow> distinct (bc_keys c) \<and> distinct (map fst (bc_map c)) \<and>
     set (bc_keys c) = fst ` set (bc_map c) \<and> (bc_hand c = 0 \<or> bc_hand c < length (bc_keys c))"

definition cache_inv :: "block_cache \<Rightarrow> bool" where
  "cache_inv c \<longleftrightarrow> cache_ring c \<and> length (bc_map c) \<le> bc_capacity c"

definition cached :: "block_cache \<Rightarrow> cache_key \<rightharpoonup> page" where
  "cached c k = map_option ce_page (map_of (bc_map c) k)"

definition referenced :: "block_cache \<Rightarrow> cache_key \<Rightarrow> bool" where
  "referenced c k = (case map_of (bc_map c) k of Some e \<Rightarrow> ce_referenced e | None \<Rightarrow> False)"

lemma swap_remove_facts:
  assumes "distinct xs" and "i < length xs"
  shows "distinct (swap_remove i xs)" and "set (swap_remove i xs) = set xs - {xs ! i}"
    and "length (swap_remove i xs) = length xs - 1"
proof -
  obtain ys y where xs: "xs = ys @ [y]" using assms(2) by (cases xs rule: rev_cases) auto
  have e: "swap_remove i xs = (if i = length ys then ys else ys[i := y])"
    using assms(2) by (auto simp: swap_remove_def xs list_update_append butlast_append split: nat.splits)
  have y: "y \<notin> set ys" "distinct ys" using assms(1) by (auto simp: xs)
  show "distinct (swap_remove i xs)" unfolding e using y by (simp add: distinct_list_update)
  show "length (swap_remove i xs) = length xs - 1" unfolding e by (simp add: xs)
  show "set (swap_remove i xs) = set xs - {xs ! i}"
  proof (cases "i = length ys")
    case True
    then show ?thesis unfolding e using y by (auto simp: xs)
  next
    case False
    then have i: "i < length ys" using assms(2) by (simp add: xs)
    then have "set (ys[i := y]) = insert y (set ys - {ys ! i})"
      by (rule set_update_distinct [OF y(2)])
    with i False y show ?thesis unfolding e by (auto simp: xs nth_append)
  qed
qed

lemma length_ring: "cache_ring c \<Longrightarrow> length (bc_map c) = length (bc_keys c)"
  by (metis cache_ring_def distinct_card list.set_map length_map)

text \<open>Marking an entry changes neither the ring nor the pages.\<close>

lemma mark_entry:
  fixes b :: bool
  assumes "map_of (bc_map c) k = Some e"
  defines "c' \<equiv> c\<lparr>bc_map := AList.update k (e\<lparr>ce_referenced := b\<rparr>) (bc_map c)\<rparr>"
  shows "cached c' = cached c" and "cache_ring c' = cache_ring c"
    and "length (bc_map c') = length (bc_map c)"
    and "referenced c' = (referenced c)(k := b)"
proof -
  have k: "k \<in> set (map fst (bc_map c))" using assms(1) by (metis domI dom_map_of_conv_image_fst list.set_map)
  have m: "map fst (AList.update k (e\<lparr>ce_referenced := b\<rparr>) (bc_map c)) = map fst (bc_map c)"
    using k by (simp add: AList.update_keys)
  show "cached c' = cached c" unfolding c'_def using assms(1) by (auto simp: cached_def fun_eq_iff AList.update_conv)
  have "fst ` set (AList.update k (e\<lparr>ce_referenced := b\<rparr>) (bc_map c)) = fst ` set (bc_map c)"
    using m by (metis list.set_map)
  with m show "cache_ring c' = cache_ring c" unfolding cache_ring_def c'_def by simp
  show "length (bc_map c') = length (bc_map c)" unfolding c'_def using m
    by (metis block_cache.select_convs(1) block_cache.surjective block_cache.update_convs(1) length_map)
  show "referenced c' = (referenced c)(k := b)"
    unfolding c'_def by (auto simp: referenced_def fun_eq_iff AList.update_conv)
qed

lemma alist_delete_keys: "fst ` set (AList.delete k m) = fst ` set m - {k}"
  by (auto simp: AList.delete_eq)

lemma evict_key_ok:
  assumes "cache_ring c" and "bc_keys c \<noteq> []"
  defines "k \<equiv> bc_keys c ! bc_hand c"
  shows "cache_ring (evict_key k c)" and "cached (evict_key k c) = (cached c)(k := None)"
    and "Suc (length (bc_map (evict_key k c))) = length (bc_map c)"
    and "bc_capacity (evict_key k c) = bc_capacity c"
proof -
  have h: "bc_hand c < length (bc_keys c)" "distinct (bc_keys c)" using assms(1,2) by (auto simp: cache_ring_def)
  note s = swap_remove_facts [OF h(2,1)]
  show ring: "cache_ring (evict_key k c)"
    using assms(1) s(1,2) alist_delete_keys [of k "bc_map c"]
    unfolding cache_ring_def evict_key_def drop_hand_def Let_def k_def
    by (simp add: AList.distinct_delete)
  show "cached (evict_key k c) = (cached c)(k := None)"
    by (auto simp: cached_def evict_key_def drop_hand_def Let_def fun_eq_iff AList.delete_conv)
  show "bc_capacity (evict_key k c) = bc_capacity c" by (simp add: evict_key_def drop_hand_def Let_def)
  have "length (bc_keys (evict_key k c)) = length (bc_keys c) - 1"
    using s(3) by (simp add: evict_key_def drop_hand_def Let_def)
  with assms(2) show "Suc (length (bc_map (evict_key k c))) = length (bc_map c)"
    unfolding length_ring [OF ring] length_ring [OF assms(1)] by simp
qed

lemma advance_hand:
  "cache_ring c \<Longrightarrow> i < length (bc_keys c) \<Longrightarrow> cache_ring (c\<lparr>bc_hand := i\<rparr>)"
  by (simp add: cache_ring_def)

lemma evict_sweep_ok:
  assumes "cache_ring c" and "bc_keys c \<noteq> []" and "len = length (bc_keys c)"
  shows "\<exists>c' k. evict_sweep n len c = Inr c' \<and> cache_ring c' \<and> cached c' = (cached c)(k := None) \<and>
           Suc (length (bc_map c')) = length (bc_map c) \<and> bc_capacity c' = bc_capacity c"
  using assms
proof (induction n arbitrary: c)
  case 0
  then have "evict_sweep 0 len c = Inr (evict_key (bc_keys c ! bc_hand c) c)"
    by (subst evict_sweep.simps) (auto simp: cache_ring_def)
  with evict_key_ok [OF 0(1,2)] show ?case by blast
next
  case (Suc n)
  let ?k = "bc_keys c ! bc_hand c"
  have h: "bc_hand c < length (bc_keys c)" using Suc.prems by (auto simp: cache_ring_def)
  with Suc.prems(1) have "?k \<in> fst ` set (bc_map c)" by (metis cache_ring_def nth_mem)
  then obtain e where e: "map_of (bc_map c) ?k = Some e" by (metis map_of_eq_None_iff not_Some_eq)
  show ?case
  proof (cases "ce_referenced e")
    case False
    with e h have "evict_sweep (Suc n) len c = Inr (evict_key ?k c)"
      by (subst evict_sweep.simps) simp
    with evict_key_ok [OF Suc.prems(1,2)] show ?thesis by blast
  next
    case True
    define c1 where "c1 = c\<lparr>bc_map := AList.update ?k (e\<lparr>ce_referenced := False\<rparr>) (bc_map c)\<rparr>"
    define c2 where "c2 = c1\<lparr>bc_hand := (bc_hand c + 1) mod len\<rparr>"
    note m = mark_entry [OF e, where b = False, folded c1_def]
    have "cache_ring c2" unfolding c2_def
      using m(2) Suc.prems by (intro advance_hand) (simp_all add: c1_def)
    moreover have "bc_keys c2 = bc_keys c" "bc_capacity c2 = bc_capacity c" by (simp_all add: c2_def c1_def)
    moreover have "cached c2 = cached c" "length (bc_map c2) = length (bc_map c)"
      using m(1,3) by (simp_all add: c2_def cached_def fun_eq_iff)
    moreover have "evict_sweep (Suc n) len c = evict_sweep n len c2"
      using e h True by (subst evict_sweep.simps) (simp add: c2_def c1_def)
    ultimately show ?thesis using Suc.IH [of c2] Suc.prems(2,3) by simp
  qed
qed

lemma evict_one_ok:
  assumes "cache_ring c" and "bc_keys c \<noteq> []"
  shows "\<exists>c' k. evict_one c = Inr c' \<and> cache_ring c' \<and> cached c' = (cached c)(k := None) \<and>
           Suc (length (bc_map c')) = length (bc_map c) \<and> bc_capacity c' = bc_capacity c"
  using evict_sweep_ok [OF assms refl] assms(2) by (simp add: evict_one_def)

section \<open>Second chance\<close>

text \<open>The evicted key is the first unreferenced one from the hand on.\<close>

lemma evict_sweep_first:
  assumes "cache_ring c" and "len = length (bc_keys c)" and "d < n" and "d < len"
    and "\<not> referenced c (bc_keys c ! ((bc_hand c + d) mod len))"
    and "\<And>d'. d' < d \<Longrightarrow> referenced c (bc_keys c ! ((bc_hand c + d') mod len))"
  shows "\<exists>c'. evict_sweep n len c = Inr c' \<and>
           cached c' = (cached c)(bc_keys c ! ((bc_hand c + d) mod len) := None)"
  using assms
proof (induction n arbitrary: c d)
  case (Suc n)
  let ?k = "bc_keys c ! bc_hand c"
  have h: "bc_hand c < len" using Suc.prems by (auto simp: cache_ring_def)
  with Suc.prems(1,2) have "?k \<in> fst ` set (bc_map c)" by (metis cache_ring_def nth_mem)
  then obtain e where e: "map_of (bc_map c) ?k = Some e" by (metis map_of_eq_None_iff not_Some_eq)
  then have r: "referenced c ?k = ce_referenced e" by (simp add: referenced_def)
  show ?case
  proof (cases d)
    case 0
    with Suc.prems(5) h r e Suc.prems(2) have "evict_sweep (Suc n) len c = Inr (evict_key ?k c)"
      by (subst evict_sweep.simps) simp
    moreover have "bc_keys c \<noteq> []" using h Suc.prems(2) by auto
    ultimately show ?thesis using evict_key_ok(2) [OF Suc.prems(1)] h 0 by (simp add: fun_eq_iff)
  next
    case (Suc d0)
    then have "ce_referenced e" using Suc.prems(6) [of 0] r h by simp
    define c1 where "c1 = c\<lparr>bc_map := AList.update ?k (e\<lparr>ce_referenced := False\<rparr>) (bc_map c)\<rparr>"
    define c2 where "c2 = c1\<lparr>bc_hand := (bc_hand c + 1) mod len\<rparr>"
    note m = mark_entry [OF e, where b = False, folded c1_def]
    have "(bc_hand c + 1) mod len < length (bc_keys c)" 
      using h Suc.prems(2) mod_less_divisor [of len "bc_hand c + 1"] by linarith
    then have ring: "cache_ring c2" unfolding c2_def
      using m(2) Suc.prems(1) by (intro advance_hand) (simp_all add: c1_def)
    have k2: "bc_keys c2 = bc_keys c" and h2: "bc_hand c2 = (bc_hand c + 1) mod len"
      by (simp_all add: c2_def c1_def)
    have "cached c2 = cached c" using m(1) by (simp add: c2_def cached_def fun_eq_iff)
    moreover have "evict_sweep (Suc n) len c = evict_sweep n len c2"
      using e h \<open>ce_referenced e\<close> Suc.prems(2) by (subst evict_sweep.simps) (simp add: c2_def c1_def)
    moreover have pos: "(bc_hand c2 + j) mod len = (bc_hand c + Suc j) mod len" for j
      unfolding h2 by (simp add: mod_simps)
    moreover have ref: "referenced c2 (bc_keys c ! ((bc_hand c + Suc j) mod len)) =
        referenced c (bc_keys c ! ((bc_hand c + Suc j) mod len))" if "Suc j < len" for j
    proof -
      have "(bc_hand c + Suc j) mod len \<noteq> bc_hand c"
        using h that by (cases "bc_hand c + Suc j < len") (auto simp: mod_if)
      moreover have "(bc_hand c + Suc j) mod len < len" using h by simp
      ultimately have "bc_keys c ! ((bc_hand c + Suc j) mod len) \<noteq> ?k"
        using Suc.prems(1,2) h unfolding cache_ring_def by (metis nth_eq_iff_index_eq)
      moreover have "referenced c2 = referenced c1" by (simp add: c2_def referenced_def fun_eq_iff)
      ultimately show ?thesis by (simp add: m(4))
    qed
    moreover have "referenced c2 (bc_keys c2 ! ((bc_hand c2 + j) mod len))" if "j < d0" for j
      using Suc.prems(4) Suc.prems(6) [of "Suc j"] ref [of j] that \<open>d = Suc d0\<close> unfolding pos k2 by simp
    moreover have "\<not> referenced c2 (bc_keys c2 ! ((bc_hand c2 + d0) mod len))"
      using Suc.prems(4,5) ref [of d0] \<open>d = Suc d0\<close> unfolding pos k2 by simp
    ultimately show ?thesis
      using Suc.IH [OF ring, of d0] Suc.prems(2-4) \<open>d = Suc d0\<close> by (simp add: k2)
  qed
qed simp

text \<open>So an entry that was used since the hand last passed it is evicted only if all were.\<close>

lemma evict_one_second_chance:
  assumes "cache_ring c" and "k \<in> set (bc_keys c)" and "\<not> referenced c k"
  shows "\<exists>c' k'. evict_one c = Inr c' \<and> k' \<in> set (bc_keys c) \<and> \<not> referenced c k' \<and>
           cached c' = (cached c)(k' := None)"
proof -
  let ?len = "length (bc_keys c)"
  let ?at = "\<lambda>d. bc_keys c ! ((bc_hand c + d) mod ?len)"
  have len: "0 < ?len" using assms(2) by (cases "bc_keys c") auto
  then have h: "bc_hand c < ?len" using assms(1) by (auto simp: cache_ring_def)
  from assms(2) obtain i where i: "i < ?len" "bc_keys c ! i = k" by (auto simp: in_set_conv_nth)
  have "(bc_hand c + (i + ?len - bc_hand c) mod ?len) mod ?len = i"
    using h i(1) by (simp add: mod_simps)
  with i have "\<exists>d<?len. \<not> referenced c (?at d)"
    using assms(3) len by (intro exI [of _ "(i + ?len - bc_hand c) mod ?len"]) simp
  then obtain d where d0: "d < ?len" "\<not> referenced c (?at d)"
    and min: "\<forall>d'<d. \<not> (d' < ?len \<and> \<not> referenced c (?at d'))"
    unfolding exists_least_iff [of "\<lambda>d. d < ?len \<and> \<not> referenced c (?at d)"] by blast
  have "referenced c (?at d')" if "d' < d" for d' using min d0(1) that by auto
  note d = d0 this
  have "d < ?len * 2" using d(1) by simp
  from evict_sweep_first [OF assms(1) refl this d]
  show ?thesis using len d(2) by (auto simp: evict_one_def intro!: exI [of _ "?at d"])
qed

section \<open>The cache as a partial copy of what it caches\<close>

lemma evict_until_ok:
  assumes "cache_ring c" and "0 < bc_capacity c"
  shows "\<exists>c'. evict_until c = Some (Inr c') \<and> cache_ring c' \<and> cached c' \<subseteq>\<^sub>m cached c \<and>
           length (bc_map c') < bc_capacity c \<and> bc_capacity c' = bc_capacity c"
  using assms
proof (induction "length (bc_map c)" arbitrary: c rule: less_induct)
  case less
  show ?case
  proof (cases "bc_capacity c \<le> length (bc_map c)")
    case False
    with less.prems show ?thesis by (subst evict_until.simps) (auto simp: map_le_refl)
  next
    case True
    with less.prems length_ring [OF less.prems(1)] have "bc_keys c \<noteq> []" by auto
    from evict_one_ok [OF less.prems(1) this] obtain c1 k where
      c1: "evict_one c = Inr c1" "cache_ring c1" "cached c1 = (cached c)(k := None)"
        "Suc (length (bc_map c1)) = length (bc_map c)" "bc_capacity c1 = bc_capacity c" by blast
    have le: "cached c1 \<subseteq>\<^sub>m cached c" by (simp add: c1(3) map_le_def)
    have "length (bc_map c1) < length (bc_map c)" using c1(4) by simp
    from less.hyps [OF this c1(2)] c1(5) less.prems(2) obtain c2 where
      c2: "evict_until c1 = Some (Inr c2)" "cache_ring c2" "cached c2 \<subseteq>\<^sub>m cached c1"
        "length (bc_map c2) < bc_capacity c" "bc_capacity c2 = bc_capacity c" by auto
    from c2 map_le_trans [OF c2(3) le] True show ?thesis
      by (subst evict_until.simps) (simp add: c1(1))
  qed
qed

lemma alist_update_new:
  assumes "map_of m k = None" and "distinct (map fst m)"
  shows "distinct (map fst (AList.update k v m))"
    and "fst ` set (AList.update k v m) = insert k (fst ` set m)"
    and "length (AList.update k v m) = Suc (length m)"
proof -
  from assms(1) have "AList.update k v m = m @ [(k, v)]"
    by (induction m) (auto split: if_splits)
  with assms show "distinct (map fst (AList.update k v m))"
    and "fst ` set (AList.update k v m) = insert k (fst ` set m)"
    and "length (AList.update k v m) = Suc (length m)"
    by (auto simp: map_of_eq_None_iff)
qed

lemma cache_insert_ok:
  assumes "cache_inv c"
  shows "\<exists>c'. cache_insert k p c = Some (Inr c') \<and> cache_inv c' \<and> bc_capacity c' = bc_capacity c \<and>
           cached c' \<subseteq>\<^sub>m (cached c)(k \<mapsto> p) \<and> (0 < bc_capacity c \<longrightarrow> cached c' k = Some p)"
proof (cases "bc_capacity c = 0")
  case True
  with assms have "bc_map c = []" by (simp add: cache_inv_def)
  then have "cached c = Map.empty" by (simp add: cached_def fun_eq_iff)
  with True assms show ?thesis by (simp add: cache_insert_def)
next
  case cap: False
  have ring: "cache_ring c" using assms by (simp add: cache_inv_def)
  show ?thesis
  proof (cases "map_of (bc_map c) k")
    case (Some e)
    let ?m = "AList.update k (e\<lparr>ce_page := p, ce_referenced := True\<rparr>) (bc_map c)"
    have "k \<in> set (map fst (bc_map c))" using Some by (metis domI dom_map_of_conv_image_fst list.set_map)
    then have m: "map fst ?m = map fst (bc_map c)" by (simp add: AList.update_keys)
    then have "fst ` set ?m = fst ` set (bc_map c)" "length ?m = length (bc_map c)"
      by (metis list.set_map, metis length_map)
    with m assms have "cache_inv (c\<lparr>bc_map := ?m\<rparr>)" by (simp add: cache_inv_def cache_ring_def)
    moreover have "cached (c\<lparr>bc_map := ?m\<rparr>) = (cached c)(k \<mapsto> p)"
      by (auto simp: cached_def fun_eq_iff AList.update_conv)
    ultimately show ?thesis using cap Some by (simp add: cache_insert_def map_le_refl)
  next
    case None
    from evict_until_ok [OF ring] cap obtain c1 where
      c1: "evict_until c = Some (Inr c1)" "cache_ring c1" "cached c1 \<subseteq>\<^sub>m cached c"
        "length (bc_map c1) < bc_capacity c" "bc_capacity c1 = bc_capacity c" by auto
    have "cached c k = None" using None by (simp add: cached_def)
    with c1(3) have "cached c1 k = None" by (metis domIff map_le_implies_dom_le subsetD)
    then have n: "map_of (bc_map c1) k = None" by (simp add: cached_def)
    let ?c = "c1\<lparr>bc_keys := bc_keys c1 @ [k],
                 bc_map := AList.update k \<lparr>ce_page = p, ce_referenced = True\<rparr> (bc_map c1)\<rparr>"
    have "k \<notin> set (bc_keys c1)" using n c1(2) by (simp add: cache_ring_def map_of_eq_None_iff)
    then have "cache_inv ?c"
      using alist_update_new [OF n, of "\<lparr>ce_page = p, ce_referenced = True\<rparr>"] c1
      by (auto simp: cache_inv_def cache_ring_def)
    moreover have "cached ?c = (cached c1)(k \<mapsto> p)"
      by (auto simp: cached_def fun_eq_iff AList.update_conv)
    moreover have "(cached c1)(k \<mapsto> p) \<subseteq>\<^sub>m (cached c)(k \<mapsto> p)"
      using c1(3) by (rule map_le_upd)
    ultimately show ?thesis using cap None c1 by (simp add: cache_insert_def)
  qed
qed

lemma cache_get_ok:
  assumes "cache_inv c"
  shows "fst (cache_get k c) = cached c k" and "cache_inv (snd (cache_get k c))"
    and "cached (snd (cache_get k c)) = cached c"
    and "bc_capacity (snd (cache_get k c)) = bc_capacity c"
  using assms mark_entry [of c k, where b = True]
  by (auto simp: cache_get_def cached_def cache_inv_def split: option.splits)

lemma invalidate_run_ok:
  assumes "cache_inv c"
  shows "cache_inv (invalidate_run i c)"
    and "cached (invalidate_run i c) = (\<lambda>k. if ck_run_id k = i then None else cached c k)"
    and "bc_capacity (invalidate_run i c) = bc_capacity c"
proof -
  have "distinct (map fst (filter (\<lambda>(k, _). ck_run_id k \<noteq> i) (bc_map c)))"
    using assms by (simp add: cache_inv_def cache_ring_def distinct_map_filter)
  moreover have "{k \<in> fst ` set m. ck_run_id k \<noteq> i} = fst ` {x \<in> set m. case x of (k, _) \<Rightarrow> ck_run_id k \<noteq> i}"
    for m :: "(cache_key \<times> cache_entry) list" by force
  moreover have "length (filter (\<lambda>(k, _). ck_run_id k \<noteq> i) (bc_map c)) \<le> bc_capacity c"
    using assms by (meson cache_inv_def le_trans length_filter_le)
  ultimately show "cache_inv (invalidate_run i c)"
    using assms by (auto simp: cache_inv_def cache_ring_def invalidate_run_def Let_def)
  show "cached (invalidate_run i c) = (\<lambda>k. if ck_run_id k = i then None else cached c k)"
    using map_of_filter_key [of "\<lambda>k. ck_run_id k \<noteq> i" "bc_map c"]
    by (auto simp: cached_def invalidate_run_def Let_def fun_eq_iff)
  show "bc_capacity (invalidate_run i c) = bc_capacity c" by (simp add: invalidate_run_def Let_def)
qed

lemma cache_inv_new [simp]: "cache_inv (cache_new n)" and cached_new [simp]: "cached (cache_new n) = Map.empty"
  by (simp_all add: cache_inv_def cache_ring_def cache_new_def cached_def fun_eq_iff)

text \<open>What a reader of pages relies on: as long as the cache holds only what the source holds,
  a hit is the source's page and filling a miss keeps it so.\<close>

locale read_cache =
  fixes get :: "'k \<Rightarrow> 'c \<Rightarrow> 'p option \<times> 'c"
    and put :: "'k \<Rightarrow> 'p \<Rightarrow> 'c \<Rightarrow> ('e, 'c) comp"
    and view :: "'c \<Rightarrow> 'k \<rightharpoonup> 'p"
    and inv :: "'c \<Rightarrow> bool"
  assumes get_view: "inv c \<Longrightarrow> get k c = (r, c') \<Longrightarrow> r = view c k \<and> inv c' \<and> view c' = view c"
    and put_view: "inv c \<Longrightarrow> \<exists>c'. put k p c = Some (Inr c') \<and> inv c' \<and> view c' \<subseteq>\<^sub>m (view c)(k \<mapsto> p)"
begin

lemma hit:
  assumes "inv c" and "view c \<subseteq>\<^sub>m source" and "get k c = (Some p, c')"
  shows "source k = Some p \<and> inv c' \<and> view c' \<subseteq>\<^sub>m source"
  using get_view [OF assms(1,3)] assms(2) by (metis domI map_le_def)

lemma miss:
  assumes "inv c" and "view c \<subseteq>\<^sub>m source" and "get k c = (None, c')" and "source k = Some p"
  shows "\<exists>c''. put k p c' = Some (Inr c'') \<and> inv c'' \<and> view c'' \<subseteq>\<^sub>m source"
proof -
  from get_view [OF assms(1,3)] have c': "inv c'" "view c' = view c" by auto
  from put_view [OF c'(1), of k p] obtain c'' where
    c'': "put k p c' = Some (Inr c'')" "inv c''" "view c'' \<subseteq>\<^sub>m (view c')(k \<mapsto> p)" by blast
  have "(view c')(k \<mapsto> p) \<subseteq>\<^sub>m source" using assms(2,4) c'(2) by (auto simp: map_le_def)
  with c'' show ?thesis by (blast intro: map_le_trans)
qed

end

interpretation blocks: read_cache cache_get cache_insert cached cache_inv
proof unfold_locales
  show "r = cached c k \<and> cache_inv c' \<and> cached c' = cached c"
    if "cache_inv c" "cache_get k c = (r, c')" for c k r c'
    using cache_get_ok [OF that(1), of k] that(2) by simp
  show "\<exists>c'. cache_insert k p c = Some (Inr c') \<and> cache_inv c' \<and> cached c' \<subseteq>\<^sub>m (cached c)(k \<mapsto> p)"
    if "cache_inv c" for c k p
    using cache_insert_ok [OF that, of k p] by blast
qed

end
