(* ===== verification/Lsm_Run.thy ===== *)
theory Lsm_Run
  imports Lsm_Sstable Lsm_Cache
begin

text \<open>
  A sorted run (\<^verbatim>\<open>run.rs\<close>): its three files in the active directory, the in-memory fence index
  and Bloom filter, and lookups and scans over them.  A run written from strictly sorted entries
  answers every lookup and scan with those entries, with or without the block cache, and so does
  the run opened again from its files.
\<close>

record run_files =
  rf_data :: "byte list"
  rf_bloom :: "byte list"
  rf_index :: "byte list"

text \<open>The active directory: the files of each run, by run id.\<close>

type_synonym run_dir = "nat \<rightharpoonup> run_files"

record run =
  rn_id :: nat
  rn_fence :: fence_index
  rn_bloom :: bloom_filter
  rn_entry_count :: nat
  rn_page_count :: nat
  rn_page_size :: nat

definition run_write ::
  "checksum \<Rightarrow> nat \<Rightarrow> entry list \<Rightarrow> nat \<Rightarrow> nat \<Rightarrow> run_dir \<Rightarrow> (lsm_error, run \<times> run_dir) result" where
  "run_write crc i es ps bloom_bits_per_key dir =
     rbind (write_sstable crc es ps bloom_bits_per_key) (\<lambda>wr.
       Inr (\<lparr>rn_id = i, rn_fence = wr_fence wr, rn_bloom = wr_bloom wr,
             rn_entry_count = wr_entry_count wr, rn_page_count = wr_page_count wr, rn_page_size = ps\<rparr>,
            dir(i \<mapsto> \<lparr>rf_data = wr_file wr, rf_bloom = bloom_to_bytes (wr_bloom wr),
                     rf_index = fence_to_bytes (wr_fence wr)\<rparr>)))"

definition run_open :: "checksum \<Rightarrow> run_dir \<Rightarrow> nat \<Rightarrow> nat \<Rightarrow> (lsm_error, run) result" where
  "run_open crc dir i ps =
     (case dir i of
        None \<Rightarrow> Inl (Io NotFound)
      | Some f \<Rightarrow>
          (case bloom_from_bytes (rf_bloom f) of
             None \<Rightarrow> Inl (Io InvalidData)
           | Some bloom \<Rightarrow>
               rbind (fence_from_bytes (rf_index f)) (\<lambda>fence.
               if ps = 0 then Inl Panic
               else rbind (read_all_pages crc (rf_data f) ps) (\<lambda>pages.
                 Inr \<lparr>rn_id = i, rn_fence = fence, rn_bloom = bloom,
                      rn_entry_count = sum_list (map (length \<circ> pg_entries) pages),
                      rn_page_count = length (rf_data f) div ps, rn_page_size = ps\<rparr>))))"

text \<open>The data file is opened anew at each read.\<close>

definition run_data :: "run_dir \<Rightarrow> run \<Rightarrow> (lsm_error, byte list) result" where
  "run_data dir r = (case dir (rn_id r) of None \<Rightarrow> Inl (Io NotFound) | Some f \<Rightarrow> Inr (rf_data f))"

definition run_read_page :: "checksum \<Rightarrow> run_dir \<Rightarrow> run \<Rightarrow> nat \<Rightarrow> (lsm_error, page) result" where
  "run_read_page crc dir r off =
     rbind (run_data dir r) (\<lambda>data. read_page crc data (rn_page_size r) off)"

definition run_cache_key :: "run \<Rightarrow> nat \<Rightarrow> cache_key" where
  "run_cache_key r off = \<lparr>ck_run_id = rn_id r, ck_page_index = (off div rn_page_size r) mod 2 ^ 32\<rparr>"

definition run_get ::
  "checksum \<Rightarrow> run_dir \<Rightarrow> run \<Rightarrow> key \<Rightarrow> block_cache option \<Rightarrow>
     (lsm_error, lsm_value option option \<times> block_cache option) result" where
  "run_get crc dir r key cache =
     (if \<not> may_contain (rn_bloom r) key then Inr (None, cache)
      else case find_page (rn_fence r) key of
        None \<Rightarrow> Inr (None, cache)
      | Some off \<Rightarrow>
          if rn_page_size r = 0 then Inl Panic
          else case (case cache of None \<Rightarrow> (None, None)
                     | Some c \<Rightarrow> map_prod id Some (cache_get (run_cache_key r off) c)) of
                 (Some p, cache) \<Rightarrow> Inr (page_search p key, cache)
               | (None, cache) \<Rightarrow>
                   rbind (run_read_page crc dir r off) (\<lambda>p. Inr (page_search p key, cache)))"

definition run_get_with_cache_insert ::
  "checksum \<Rightarrow> run_dir \<Rightarrow> run \<Rightarrow> key \<Rightarrow> block_cache \<Rightarrow>
     (lsm_error, lsm_value option option \<times> block_cache) comp" where
  "run_get_with_cache_insert crc dir r key cache =
     (if \<not> may_contain (rn_bloom r) key then Some (Inr (None, cache))
      else case find_page (rn_fence r) key of
        None \<Rightarrow> Some (Inr (None, cache))
      | Some off \<Rightarrow>
          if rn_page_size r = 0 then Some (Inl Panic)
          else case cache_get (run_cache_key r off) cache of
                 (Some p, cache) \<Rightarrow> Some (Inr (page_search p key, cache))
               | (None, cache) \<Rightarrow>
                   cbind (Some (run_read_page crc dir r off)) (\<lambda>p.
                   cbind (cache_insert (run_cache_key r off) p cache) (\<lambda>cache.
                     Some (Inr (page_search p key, cache)))))"

definition scan_all :: "checksum \<Rightarrow> run_dir \<Rightarrow> run \<Rightarrow> (lsm_error, entry list) result" where
  "scan_all crc dir r =
     rbind (run_data dir r) (\<lambda>data.
     rbind (read_all_pages crc data (rn_page_size r)) (\<lambda>pages.
       Inr (concat (map pg_entries pages))))"

definition scan_range :: "checksum \<Rightarrow> run_dir \<Rightarrow> run \<Rightarrow> key \<Rightarrow> key \<Rightarrow> (lsm_error, entry list) result" where
  "scan_range crc dir r from to =
     rbind (rmap (run_read_page crc dir r) (find_pages_in_range (rn_fence r) from to)) (\<lambda>pages.
       Inr (concat (map (\<lambda>p. filter (\<lambda>(k, v). from \<le> k \<and> k \<le> to) (pg_entries p)) pages)))"

definition delete_files :: "nat \<Rightarrow> run_dir \<Rightarrow> run_dir" where
  "delete_files i dir = dir(i := None)"


section \<open>What a run holds\<close>

text \<open>The sizes within which every width of the formats and the page index of the cache key is
  enough.\<close>

definition run_fits :: "nat \<Rightarrow> nat \<Rightarrow> entry list \<Rightarrow> bool" where
  "run_fits ps bpk es \<longleftrightarrow> entries_fit ps es \<and>
     length es * (page_header_size + ps) + sum_list (map entry_size es) < 2 ^ 32 * ps \<and>
     length es * bpk + 128 < 2 ^ 32 \<and> length es < 2 ^ 32"

text \<open>The run \<open>r\<close> and its files are those of the entries \<open>es\<close>, cut into the pages \<open>pgs\<close>.\<close>

definition run_layout :: "checksum \<Rightarrow> run_dir \<Rightarrow> run \<Rightarrow> entry list \<Rightarrow> entry list list \<Rightarrow> bool" where
  "run_layout crc dir r es pgs \<longleftrightarrow>
     pages_ok (rn_page_size r) es pgs \<and> entries_fit (rn_page_size r) es \<and> sorted_keys es \<and>
     file_span (rn_page_size r) pgs < 2 ^ 32 * rn_page_size r \<and> length pgs < 2 ^ 32 \<and>
     bloom_inv (rn_bloom r) \<and> bl_num_bits (rn_bloom r) < 2 ^ 32 \<and>
     (\<forall>k\<in>fst ` set es. may_contain (rn_bloom r) k) \<and>
     fn_entries (rn_fence r) = fence_of (rn_page_size r) 0 pgs \<and>
     dir (rn_id r) = Some \<lparr>rf_data = file_of crc (rn_page_size r) pgs,
       rf_bloom = bloom_to_bytes (rn_bloom r), rf_index = fence_to_bytes (rn_fence r)\<rparr>"

definition run_holds :: "checksum \<Rightarrow> run_dir \<Rightarrow> run \<Rightarrow> entry list \<Rightarrow> bool" where
  "run_holds crc dir r es \<longleftrightarrow> (\<exists>pgs. run_layout crc dir r es pgs)"

lemma file_span_le:
  assumes "0 < ps"
  shows "file_span ps pgs \<le> length pgs * (page_header_size + ps) + sum_list (map entry_size (concat pgs))"
proof (induction pgs)
  case (Cons pg pgs)
  have "page_span ps pg < (page_header_size + sum_list (map entry_size pg)) + ps"
    unfolding page_span_def by (rule div_ceil_bounds(2) [OF assms])
  with Cons show ?case by (simp add: file_span_def)
qed (simp add: file_span_def)

lemma pages_ok_length: "pages_ok ps es pgs \<Longrightarrow> length pgs \<le> length es"
proof -
  have "[] \<notin> set pgs \<Longrightarrow> length pgs \<le> length (concat pgs)"
  proof (induction pgs)
    case (Cons pg pgs)
    then show ?case by (cases pg) auto
  qed simp
  then show "pages_ok ps es pgs \<Longrightarrow> length pgs \<le> length es" by (auto simp: pages_ok_def)
qed

lemma run_write_ok:
  assumes "run_fits ps bpk es" and "sorted_keys es"
  shows "\<exists>r dir'. run_write crc i es ps bpk dir = Inr (r, dir') \<and> run_holds crc dir' r es \<and>
           rn_id r = i \<and> rn_page_size r = ps \<and> rn_entry_count r = length es \<and>
           (\<forall>j. j \<noteq> i \<longrightarrow> dir' j = dir j)"
proof -
  have fit: "entries_fit ps es" "page_header_size \<le> ps" "ps < 2 ^ 64"
    using assms(1) by (auto simp: run_fits_def entries_fit_def)
  have ps: "0 < ps" using fit(2) by (simp add: page_header_size_def)
  from write_sstable_ok [OF fit(2,3), of es crc bpk] obtain pgs where
    p: "pages_ok ps es pgs" and w: "write_sstable crc es ps bpk =
     Inr \<lparr>wr_file = file_of crc ps pgs, wr_fence = \<lparr>fn_entries = fence_of ps 0 pgs\<rparr>,
          wr_bloom = fold bloom_insert (map fst es) (bloom_new (length es) bpk),
          wr_entry_count = length es, wr_page_count = length pgs\<rparr>" by blast
  let ?bl = "fold bloom_insert (map fst es) (bloom_new (length es) bpk)"
  have c: "concat pgs = es" using p by (simp add: pages_ok_def)
  have "file_span ps pgs \<le> length es * (page_header_size + ps) + sum_list (map entry_size es)"
    using file_span_le [OF ps, of pgs, unfolded c]
      mult_le_mono1 [OF pages_ok_length [OF p], of "page_header_size + ps"] by linarith
  then have span: "file_span ps pgs < 2 ^ 32 * ps" using assms(1) by (simp add: run_fits_def)
  have len: "length pgs < 2 ^ 32" using pages_ok_length [OF p] assms(1) by (simp add: run_fits_def)
  have "div_ceil (max (min (length es * bpk) (2 ^ 64 - 1)) 64) 8 * 8 < max (min (length es * bpk) (2 ^ 64 - 1)) 64 + 8"
    by (rule div_ceil_bounds(2)) simp
  also have "\<dots> < 2 ^ 32" using assms(1) by (simp add: run_fits_def)
  finally have bits: "bl_num_bits ?bl < 2 ^ 32" by (simp add: bloom_new_def Let_def)
  have "run_layout crc (dir(i \<mapsto> \<lparr>rf_data = file_of crc ps pgs, rf_bloom = bloom_to_bytes ?bl,
        rf_index = fence_to_bytes \<lparr>fn_entries = fence_of ps 0 pgs\<rparr>\<rparr>))
      \<lparr>rn_id = i, rn_fence = \<lparr>fn_entries = fence_of ps 0 pgs\<rparr>, rn_bloom = ?bl,
       rn_entry_count = length es, rn_page_count = length pgs, rn_page_size = ps\<rparr> es pgs"
    using p fit(1) assms(2) span len bits bloom_build [OF bloom_inv_new]
    by (simp add: run_layout_def)
  then show ?thesis unfolding run_write_def w run_holds_def by auto
qed


section \<open>Lookup and scan over pages\<close>

lemma sorted_keys_nth_page:
  assumes "sorted_keys (concat pgs)" and "[] \<notin> set pgs"
  shows "\<lbrakk>i < length pgs; x \<in> set (pgs ! i)\<rbrakk> \<Longrightarrow> fst (hd (pgs ! i)) \<le> fst x"
    and "\<lbrakk>i < j; j < length pgs; x \<in> set (pgs ! i)\<rbrakk> \<Longrightarrow> fst x < fst (hd (pgs ! j))"
proof -
  have 1: "sorted_keys (pgs ! i) \<and> pgs ! i \<noteq> []" if "i < length pgs" for i
    using assms that by (induction pgs arbitrary: i) (auto simp: nth_Cons' sorted_keys_append split: nat.splits)
  show "fst (hd (pgs ! i)) \<le> fst x" if "i < length pgs" "x \<in> set (pgs ! i)"
    using 1 [OF that(1)] that(2) by (cases "pgs ! i") (fastforce intro: less_imp_le)+
  show "fst x < fst (hd (pgs ! j))" if "i < j" "j < length pgs" "x \<in> set (pgs ! i)"
    using assms that
  proof (induction pgs arbitrary: i j)
    case (Cons pg pgs)
    show ?case
    proof (cases i)
      case 0
      with Cons.prems obtain j' where j: "j = Suc j'" "j' < length pgs" by (cases j) auto
      then have "pgs ! j' \<in> set pgs" by simp
      moreover from this Cons.prems(2) have "pgs ! j' \<noteq> []" by auto
      ultimately have "hd (pgs ! j') \<in> set (concat pgs)" unfolding set_concat by (blast intro: hd_in_set)
      moreover have "\<forall>x\<in>set pg. \<forall>y\<in>set (concat pgs). fst x < fst y"
        using Cons.prems(1) by (simp add: sorted_keys_append)
      ultimately show ?thesis using Cons.prems(5) 0 j by auto
    next
      case (Suc i')
      with Cons.prems obtain j' where "j = Suc j'" by (cases j) auto
      with Cons Suc show ?thesis by (auto simp: sorted_keys_append)
    qed
  qed simp
qed

lemma fence_of_sorted:
  assumes "sorted_keys (concat pgs)" and "[] \<notin> set pgs"
  shows "sorted_keys (fence_of ps off pgs)"
proof -
  have "fst (hd (pgs ! i)) < fst (hd (pgs ! j))" if "i < j" "j < length pgs" for i j
  proof -
    have "pgs ! i \<in> set pgs" using that by simp
    then have "pgs ! i \<noteq> []" using assms(2) by auto
    then show ?thesis by (intro sorted_keys_nth_page(2) [OF assms that] hd_in_set)
  qed
  then show ?thesis unfolding sorted_keys_def by (simp add: sorted_wrt_iff_nth_less fence_of_nth)
qed

text \<open>The page before the fence position is the only one that can have the key.\<close>

lemma map_of_pages:
  fixes ps off :: nat
  assumes "sorted_keys (concat pgs)" and "[] \<notin> set pgs"
  defines "n \<equiv> \<lambda>k. pages_upto (fence_of ps off pgs) k"
  shows "map_of (concat pgs) k = (if n k = 0 then None else map_of (pgs ! (n k - 1)) k)"
proof -
  have n: "i < n k \<longleftrightarrow> fst (hd (pgs ! i)) \<le> k" if "i < length pgs" for i
    unfolding n_def using that pages_upto_less [OF fence_of_sorted [OF assms(1,2)], of i ps off k]
    by (simp add: fence_of_nth)
  have nle: "n k \<le> length pgs" unfolding n_def using pages_upto_le [of "fence_of ps off pgs" k] by simp
  have mem: "(k, v) \<in> set (concat pgs) \<longleftrightarrow> 0 < n k \<and> (k, v) \<in> set (pgs ! (n k - 1))" for v
  proof
    assume "(k, v) \<in> set (concat pgs)"
    then obtain i where i: "i < length pgs" "(k, v) \<in> set (pgs ! i)"
      unfolding set_concat by (metis UN_E in_set_conv_nth)
    have "i < n k" using n [OF i(1)] sorted_keys_nth_page(1) [OF assms(1,2) i] by simp
    moreover have "\<not> Suc i < n k"
    proof
      assume s: "Suc i < n k"
      then have "Suc i < length pgs" using nle by simp
      with sorted_keys_nth_page(2) [OF assms(1,2) lessI this i(2)] n s show False by fastforce
    qed
    ultimately have "n k - 1 = i" by simp
    with i \<open>i < n k\<close> show "0 < n k \<and> (k, v) \<in> set (pgs ! (n k - 1))" by auto
  next
    assume "0 < n k \<and> (k, v) \<in> set (pgs ! (n k - 1))"
    moreover from this nle have "n k - 1 < length pgs" by linarith
    then have "pgs ! (n k - 1) \<in> set pgs" by (rule nth_mem)
    ultimately show "(k, v) \<in> set (concat pgs)" by auto
  qed
  have d: "distinct (map fst (concat pgs))" using assms(1) by (rule sorted_keys_distinct)
  show ?thesis
  proof (cases "n k = 0")
    case True
    with mem show ?thesis by (auto simp: map_of_eq_None_iff)
  next
    case False
    then have "n k - 1 < length pgs" using nle by simp
    then have "sorted_keys (pgs ! (n k - 1))"
      using assms(1) by (metis concat.simps(2) concat_append id_take_nth_drop sorted_keys_append)
    then have "distinct (map fst (pgs ! (n k - 1)))" by (rule sorted_keys_distinct)
    then have "map_of (concat pgs) k = Some v \<longleftrightarrow> map_of (pgs ! (n k - 1)) k = Some v" for v
      using mem False d by simp
    with False show ?thesis by (metis not_Some_eq)
  qed
qed

lemma concat_filter_upt:
  assumes "\<And>i. i < n \<Longrightarrow> \<not> (a \<le> i \<and> i < b) \<Longrightarrow> g i = []" and "b \<le> n"
  shows "concat (map g [0..<n]) = concat (map g [a..<b])"
proof -
  have "concat (map g xs) = concat (map g (filter (\<lambda>i. a \<le> i \<and> i < b) xs))"
    if "set xs \<subseteq> {..<n}" for xs using that assms(1) by (induction xs) auto
  moreover have "filter (\<lambda>i. a \<le> i \<and> i < b) [0..<n] = [a..<b]"
  proof (cases "a \<le> b")
    case True
    then have "[0..<n] = [0..<a] @ [a..<b] @ [b..<n]"
      using assms(2) upt_add_eq_append [of 0 a "n - a"] upt_add_eq_append [of a b "n - b"] by simp
    moreover have "filter (\<lambda>i. a \<le> i \<and> i < b) [0..<a] = []" "filter (\<lambda>i. a \<le> i \<and> i < b) [b..<n] = []"
      "filter (\<lambda>i. a \<le> i \<and> i < b) [a..<b] = [a..<b]"
      by (auto simp: filter_empty_conv filter_id_conv)
    ultimately show ?thesis by (simp only: filter_append append_Nil append_Nil2)
  next
    case False
    then show ?thesis by (auto simp: filter_empty_conv)
  qed
  ultimately show ?thesis by (metis atLeastLessThan_upt atLeast0LessThan order_refl)
qed

lemma range_pages:
  fixes ps off :: nat and lo hi :: key
  assumes "sorted_keys (concat pgs)" and "[] \<notin> set pgs"
  defines "n \<equiv> \<lambda>k. pages_upto (fence_of ps off pgs) k"
    and "P \<equiv> \<lambda>e. case e of (k, v) \<Rightarrow> lo \<le> k \<and> k \<le> hi"
  shows "concat (map (\<lambda>i. filter P (pgs ! i)) [n lo - 1..<n hi]) = filter P (concat pgs)"
proof -
  have n: "i < n k \<longleftrightarrow> fst (hd (pgs ! i)) \<le> k" if "i < length pgs" for i k
    unfolding n_def using that pages_upto_less [OF fence_of_sorted [OF assms(1,2)], of i ps off k]
    by (simp add: fence_of_nth)
  have nle: "n k \<le> length pgs" for k unfolding n_def using pages_upto_le [of "fence_of ps off pgs" k] by simp
  have empty: "filter P (pgs ! i) = []" if i: "i < length pgs" "\<not> (n lo - 1 \<le> i \<and> i < n hi)" for i
  proof -
    have "\<not> P x" if x: "x \<in> set (pgs ! i)" for x
    proof (cases "n hi \<le> i")
      case True
      then have "hi < fst (hd (pgs ! i))" using n [OF i(1), of hi] by (simp add: not_le [symmetric])
      with sorted_keys_nth_page(1) [OF assms(1,2) i(1) x] show ?thesis by (auto simp: P_def)
    next
      case False
      with i(2) have "Suc i < n lo" by auto
      then have "Suc i < length pgs" "fst (hd (pgs ! Suc i)) \<le> lo" using nle [of lo] n [of "Suc i" lo] by auto
      with sorted_keys_nth_page(2) [OF assms(1,2) lessI _ x] show ?thesis by (fastforce simp: P_def)
    qed
    then show ?thesis by (simp add: filter_empty_conv)
  qed
  have "filter P (concat pgs) = concat (map (\<lambda>i. filter P (pgs ! i)) [0..<length pgs])"
    by (subst map_nth [of pgs, symmetric]) (simp only: filter_concat map_map comp_def)
  with concat_filter_upt [of "length pgs" "n lo - 1" "n hi" "\<lambda>i. filter P (pgs ! i)"] empty nle
  show ?thesis by simp
qed


section \<open>Lookup, scan, reopen\<close>

text \<open>The pages a cache of the runs may hold.\<close>

definition dir_pages :: "checksum \<Rightarrow> run_dir \<Rightarrow> (nat \<rightharpoonup> run) \<Rightarrow> cache_key \<rightharpoonup> page" where
  "dir_pages crc dir runs ck =
     (case runs (ck_run_id ck) of
        None \<Rightarrow> None
      | Some r \<Rightarrow>
          (case run_read_page crc dir r (ck_page_index ck * rn_page_size r) of
             Inl _ \<Rightarrow> None | Inr p \<Rightarrow> Some p))"

lemma file_span_dvd: "ps dvd file_span ps pgs"
  by (induction pgs) (simp_all add: file_span_def page_span_def)

lemma file_span_take: "i < length pgs \<Longrightarrow> 0 < ps \<Longrightarrow> file_span ps (take i pgs) < file_span ps pgs"
proof -
  assume i: "i < length pgs" and ps: "0 < ps"
  have "file_span ps pgs = file_span ps (take i pgs) + page_span ps (pgs ! i) + file_span ps (drop (Suc i) pgs)"
    using id_take_nth_drop [OF i] unfolding file_span_def
    by (metis add.assoc list.simps(9) map_append sum_list.Cons sum_list_append)
  with page_span_bounds(2) [OF ps, of "pgs ! i"] ps show ?thesis by simp
qed

lemma run_layoutD:
  assumes "run_layout crc dir r es pgs"
  shows "concat pgs = es" and "[] \<notin> set pgs" and "sorted_keys (concat pgs)"
    and "page_header_size \<le> rn_page_size r" and "0 < rn_page_size r"
    and "\<And>pg. pg \<in> set pgs \<Longrightarrow> page_fits pg" and "sorted_keys (fn_entries (rn_fence r))"
  using assms fence_of_sorted [of pgs "rn_page_size r" 0] pages_fit [of "rn_page_size r" es pgs]
  by (auto simp: run_layout_def pages_ok_def entries_fit_def page_header_size_def)

lemma layout_read_page:
  assumes l: "run_layout crc dir r es pgs" and i: "i < length pgs"
  shows "run_read_page crc dir r (snd (fn_entries (rn_fence r) ! i)) = Inr \<lparr>pg_entries = pgs ! i\<rparr>"
    and "run_cache_key r (snd (fn_entries (rn_fence r) ! i)) =
      \<lparr>ck_run_id = rn_id r, ck_page_index = snd (fn_entries (rn_fence r) ! i) div rn_page_size r\<rparr>"
    and "snd (fn_entries (rn_fence r) ! i) div rn_page_size r * rn_page_size r = snd (fn_entries (rn_fence r) ! i)"
proof -
  note D = run_layoutD [OF l]
  let ?off = "file_span (rn_page_size r) (take i pgs)"
  have off: "snd (fn_entries (rn_fence r) ! i) = ?off" using l i by (simp add: run_layout_def fence_of_nth)
  show "run_read_page crc dir r (snd (fn_entries (rn_fence r) ! i)) = Inr \<lparr>pg_entries = pgs ! i\<rparr>"
    using l read_page_ok [OF D(4,6) i] unfolding off
    by (simp add: run_read_page_def run_data_def run_layout_def)
  have "?off < 2 ^ 32 * rn_page_size r"
    using l file_span_take [OF i D(5)] by (simp add: run_layout_def)
  then have "?off div rn_page_size r < 2 ^ 32" by (rule less_mult_imp_div_less)
  then show "run_cache_key r (snd (fn_entries (rn_fence r) ! i)) =
      \<lparr>ck_run_id = rn_id r, ck_page_index = snd (fn_entries (rn_fence r) ! i) div rn_page_size r\<rparr>"
    unfolding off run_cache_key_def by simp
  show "snd (fn_entries (rn_fence r) ! i) div rn_page_size r * rn_page_size r = snd (fn_entries (rn_fence r) ! i)"
    unfolding off by (simp add: file_span_dvd)
qed

text \<open>Either the filter or the fence index rules the key out, or the page found decides.\<close>

lemma layout_lookup:
  assumes l: "run_layout crc dir r es pgs"
  shows "\<not> may_contain (rn_bloom r) k \<Longrightarrow> map_of es k = None"
    and "find_page (rn_fence r) k = None \<Longrightarrow> map_of es k = None"
    and "find_page (rn_fence r) k = Some off \<Longrightarrow>
      \<exists>i<length pgs. off = snd (fn_entries (rn_fence r) ! i) \<and> page_search \<lparr>pg_entries = pgs ! i\<rparr> k = map_of es k"
proof -
  note D = run_layoutD [OF l]
  let ?n = "pages_upto (fn_entries (rn_fence r)) k"
  have f: "fn_entries (rn_fence r) = fence_of (rn_page_size r) 0 pgs" using l by (simp add: run_layout_def)
  have m: "map_of es k = (if ?n = 0 then None else map_of (pgs ! (?n - 1)) k)"
    using map_of_pages [OF D(3,2)] unfolding f D(1) by blast
  have nle: "?n \<le> length pgs" using pages_upto_le [of "fn_entries (rn_fence r)" k] by (simp add: f)
  show "map_of es k = None" if "\<not> may_contain (rn_bloom r) k"
    using l that by (auto simp: run_layout_def map_of_eq_None_iff)
  show "map_of es k = None" if "find_page (rn_fence r) k = None"
    using that m by (simp add: find_page_upto [OF D(7)] Let_def split: if_splits)
  show "\<exists>i<length pgs. off = snd (fn_entries (rn_fence r) ! i) \<and> page_search \<lparr>pg_entries = pgs ! i\<rparr> k = map_of es k"
    if "find_page (rn_fence r) k = Some off"
  proof (intro exI conjI)
    have n: "?n \<noteq> 0" "off = snd (fn_entries (rn_fence r) ! (?n - 1))"
      using that by (simp_all add: find_page_upto [OF D(7)] Let_def split: if_splits)
    then show lt: "?n - 1 < length pgs" using nle by linarith
    show "off = snd (fn_entries (rn_fence r) ! (?n - 1))" by (rule n(2))
    have "sorted_keys (pgs ! (?n - 1))"
      using D(3) id_take_nth_drop [OF lt] by (metis concat.simps(2) concat_append sorted_keys_append)
    then show "page_search \<lparr>pg_entries = pgs ! (?n - 1)\<rparr> k = map_of es k"
      using n(1) m by (simp add: page_search_map_of)
  qed
qed

lemma run_get_cached_ok:
  assumes h: "run_holds crc dir r es" and runs: "runs (rn_id r) = Some r"
    and c: "cache_inv c" "cached c \<subseteq>\<^sub>m dir_pages crc dir runs"
  shows "\<exists>c'. run_get_with_cache_insert crc dir r k c = Some (Inr (map_of es k, c')) \<and>
           cache_inv c' \<and> cached c' \<subseteq>\<^sub>m dir_pages crc dir runs"
proof -
  from h obtain pgs where l: "run_layout crc dir r es pgs" by (auto simp: run_holds_def)
  note look = layout_lookup [OF l, of k]
  show ?thesis
  proof (cases "may_contain (rn_bloom r) k \<and> find_page (rn_fence r) k \<noteq> None")
    case False
    with look(1,2) c show ?thesis by (auto simp: run_get_with_cache_insert_def)
  next
    case True
    then obtain off where off: "find_page (rn_fence r) k = Some off" by auto
    from look(3) [OF off] obtain i where i: "i < length pgs" "off = snd (fn_entries (rn_fence r) ! i)"
      and s: "page_search \<lparr>pg_entries = pgs ! i\<rparr> k = map_of es k" by blast
    let ?ck = "run_cache_key r off"
    note rd = layout_read_page [OF l i(1), folded i(2)]
    have src: "dir_pages crc dir runs ?ck = Some \<lparr>pg_entries = pgs ! i\<rparr>"
      unfolding rd(2) dir_pages_def by (simp add: runs rd)
    have ps: "rn_page_size r \<noteq> 0" using run_layoutD(5) [OF l] by simp
    show ?thesis
    proof (cases "cache_get ?ck c")
      case (Pair res c1)
      show ?thesis
      proof (cases res)
        case (Some p)
        with blocks.hit [OF c, of ?ck p c1] Pair src have "p = \<lparr>pg_entries = pgs ! i\<rparr>" "cache_inv c1"
          "cached c1 \<subseteq>\<^sub>m dir_pages crc dir runs" by simp_all
        with Pair Some True off ps s show ?thesis by (simp add: run_get_with_cache_insert_def)
      next
        case None
        with blocks.miss [OF c _ src] Pair obtain c2 where
          "cache_insert ?ck \<lparr>pg_entries = pgs ! i\<rparr> c1 = Some (Inr c2)" "cache_inv c2"
          "cached c2 \<subseteq>\<^sub>m dir_pages crc dir runs" by blast
        with Pair None True off ps s rd(1) show ?thesis by (simp add: run_get_with_cache_insert_def)
      qed
    qed
  qed
qed

lemma layout_read_all:
  assumes l: "run_layout crc dir r es pgs"
  shows "read_all_pages crc (file_of crc (rn_page_size r) pgs) (rn_page_size r) =
    Inr (map (\<lambda>pg. \<lparr>pg_entries = pg\<rparr>) pgs)"
  using read_pages_from_ok [OF run_layoutD(4,6) [OF l], where i = 0]
  by (simp add: read_all_pages_def file_span_def)

lemma scan_all_ok:
  assumes "run_holds crc dir r es"
  shows "scan_all crc dir r = Inr es"
proof -
  from assms obtain pgs where l: "run_layout crc dir r es pgs" by (auto simp: run_holds_def)
  then have "run_data dir r = Inr (file_of crc (rn_page_size r) pgs)"
    by (simp add: run_data_def run_layout_def)
  with layout_read_all [OF l] run_layoutD(1) [OF l] show ?thesis by (simp add: scan_all_def comp_def)
qed

lemma rmap_map_all:
  "(\<And>x. x \<in> set xs \<Longrightarrow> f (h x) = Inr (g x)) \<Longrightarrow> rmap f (map h xs) = Inr (map g xs)"
  by (induction xs) simp_all

lemma scan_range_ok:
  assumes "run_holds crc dir r es"
  shows "scan_range crc dir r from to = Inr (filter (\<lambda>(k, v). from \<le> k \<and> k \<le> to) es)"
proof -
  from assms obtain pgs where l: "run_layout crc dir r es pgs" by (auto simp: run_holds_def)
  note D = run_layoutD [OF l]
  let ?f = "fn_entries (rn_fence r)"
  let ?is = "[pages_upto ?f from - 1..<pages_upto ?f to]"
  have f: "?f = fence_of (rn_page_size r) 0 pgs" using l by (simp add: run_layout_def)
  have "pages_upto ?f to \<le> length pgs" using pages_upto_le [of ?f to] by (simp add: f)
  then have "rmap (run_read_page crc dir r) (map (\<lambda>i. snd (?f ! i)) ?is) =
      Inr (map (\<lambda>i. \<lparr>pg_entries = pgs ! i\<rparr>) ?is)"
    using layout_read_page(1) [OF l]
    by (intro rmap_map_all) auto
  then show ?thesis
    using range_pages [OF D(3,2), where ps = "rn_page_size r" and off = 0 and lo = "from" and hi = to]
    unfolding scan_range_def find_pages_upto [OF D(7)] f D(1) by (simp add: comp_def)
qed

lemma run_get_ok:
  assumes "run_holds crc dir r es"
  shows "run_get crc dir r k None = Inr (map_of es k, None)"
proof -
  from assms obtain pgs where l: "run_layout crc dir r es pgs" by (auto simp: run_holds_def)
  note look = layout_lookup [OF l, of k]
  show ?thesis
  proof (cases "find_page (rn_fence r) k")
    case None
    with look show ?thesis by (auto simp: run_get_def)
  next
    case (Some off)
    from look(3) [OF Some] obtain i where i: "i < length pgs" "off = snd (fn_entries (rn_fence r) ! i)"
      and s: "page_search \<lparr>pg_entries = pgs ! i\<rparr> k = map_of es k" by blast
    with Some look(1) layout_read_page(1) [OF l i(1)] run_layoutD(5) [OF l] show ?thesis
      by (auto simp: run_get_def)
  qed
qed

lemma fence_of_fits:
  assumes l: "run_layout crc dir r es pgs"
  shows "fence_fits (fn_entries (rn_fence r))"
proof -
  note D = run_layoutD [OF l]
  have f: "fn_entries (rn_fence r) = fence_of (rn_page_size r) 0 pgs" using l by (simp add: run_layout_def)
  have "length (fst (hd (pgs ! i))) < 2 ^ 16 \<and> file_span (rn_page_size r) (take i pgs) < 2 ^ 64"
    if i: "i < length pgs" for i
  proof
    have "pgs ! i \<in> set pgs" using i by simp
    then have "hd (pgs ! i) \<in> set es" using D(1,2) by (metis UN_I hd_in_set set_concat)
    then show "length (fst (hd (pgs ! i))) < 2 ^ 16"
      using l by (auto simp: run_layout_def entries_fit_def list_all_iff entry_fits_def)
    have "file_span (rn_page_size r) (take i pgs) < 2 ^ 32 * rn_page_size r"
      using l file_span_take [OF i D(5)] by (simp add: run_layout_def)
    also have "\<dots> \<le> 2 ^ 32 * 2 ^ 17" using l by (simp add: run_layout_def entries_fit_def)
    finally show "file_span (rn_page_size r) (take i pgs) < 2 ^ 64" by simp
  qed
  then show ?thesis using l unfolding f
    by (auto simp: fence_fits_def run_layout_def list_all_length fence_of_nth)
qed

text \<open>Reopening a run from its files finds the same index and filter; only the page count
  differs, which counts a page larger than the page size several times.\<close>

lemma run_open_ok:
  assumes "run_holds crc dir r es"
  shows "\<exists>r'. run_open crc dir (rn_id r) (rn_page_size r) = Inr r' \<and> run_holds crc dir r' es \<and>
           rn_id r' = rn_id r \<and> rn_page_size r' = rn_page_size r \<and> rn_entry_count r' = length es"
proof -
  from assms obtain pgs where l: "run_layout crc dir r es pgs" by (auto simp: run_holds_def)
  note D = run_layoutD [OF l]
  have d: "dir (rn_id r) = Some \<lparr>rf_data = file_of crc (rn_page_size r) pgs,
       rf_bloom = bloom_to_bytes (rn_bloom r), rf_index = fence_to_bytes (rn_fence r)\<rparr>"
    and b: "bloom_inv (rn_bloom r)" "bl_num_bits (rn_bloom r) < 2 ^ 32" using l by (simp_all add: run_layout_def)
  have n: "sum_list (map length pgs) = length es" unfolding D(1) [symmetric] by (simp add: length_concat)
  let ?r = "r\<lparr>rn_entry_count := length es,
      rn_page_count := length (file_of crc (rn_page_size r) pgs) div rn_page_size r\<rparr>"
  have "run_open crc dir (rn_id r) (rn_page_size r) = Inr ?r"
    using D(5) unfolding run_open_def d
    by (simp add: bloom_roundtrip [OF b] fence_roundtrip [OF fence_of_fits [OF l]] layout_read_all [OF l] comp_def)
      (rule run.equality, simp_all add: n)
  moreover have "run_layout crc dir ?r es pgs" using l by (simp add: run_layout_def)
  ultimately show ?thesis by (auto simp: run_holds_def)
qed

text \<open>A run depends only on its own files.\<close>

lemma run_holds_frame:
  "run_holds crc dir r es \<Longrightarrow> dir' (rn_id r) = dir (rn_id r) \<Longrightarrow> run_holds crc dir' r es"
  by (auto simp: run_holds_def run_layout_def)

end
