(* ===== verification/Lsm_Merge.thy ===== *)
theory Lsm_Merge
  imports Lsm_Memtable
begin

text \<open>
  The k-way merge of sorted runs (\<^verbatim>\<open>merge.rs\<close>): a heap of the front entries of the inputs,
  ordered by key and then by recency, with the source input packed into the low digits of the
  sequence number.  The result is strictly sorted and maps every key to its newest entry.
\<close>


section \<open>The heap\<close>

record heap_entry =
  he_key :: key
  he_value :: "lsm_value option"
  he_seq :: nat

text \<open>\<^verbatim>\<open>Ord for HeapEntry\<close>: smaller keys are greater, and among equal keys the higher
  sequence number is greater.\<close>

definition he_cmp :: "heap_entry \<Rightarrow> heap_entry \<Rightarrow> ordering" where
  "he_cmp a b = (case cmp (he_key b) (he_key a) of
     Equal \<Rightarrow> cmp (he_seq a) (he_seq b) | c \<Rightarrow> c)"

text \<open>\<^verbatim>\<open>BinaryHeap::pop\<close> takes out a greatest element.\<close>

fun heap_max :: "heap_entry \<Rightarrow> heap_entry list \<Rightarrow> heap_entry" where
  "heap_max m [] = m"
| "heap_max m (x # xs) = heap_max (if he_cmp m x = Less then x else m) xs"

definition heap_pop :: "heap_entry list \<Rightarrow> (heap_entry \<times> heap_entry list) option" where
  "heap_pop h = (case h of [] \<Rightarrow> None
     | x # xs \<Rightarrow> let m = heap_max x xs in Some (m, remove1 m h))"


section \<open>Merging\<close>

type_synonym merge_input = "nat \<times> entry list"

definition seq_base :: nat where "seq_base = 1000000"

text \<open>Arithmetic on \<^verbatim>\<open>usize\<close> of 64 bits, which wraps around in a release build.\<close>

definition usize_wrap :: "nat \<Rightarrow> nat" where "usize_wrap n = n mod 2 ^ 64"

text \<open>Seeding: the first entry of each non-empty input goes to the heap.\<close>

definition seed_heap :: "merge_input list \<Rightarrow> heap_entry list" where
  "seed_heap inputs =
     map (\<lambda>i. \<lparr>he_key = fst (hd (snd (inputs ! i))), he_value = snd (hd (snd (inputs ! i))),
               he_seq = usize_wrap (fst (inputs ! i) * seq_base + i)\<rparr>)
       (filter (\<lambda>i. snd (inputs ! i) \<noteq> []) [0..<length inputs])"

definition seed_iters :: "merge_input list \<Rightarrow> merge_input list" where
  "seed_iters inputs = map (\<lambda>(s, es). (s, tl es)) inputs"

text \<open>Advancing the source iterator of a popped entry.\<close>

definition merge_advance ::
  "merge_input list \<Rightarrow> heap_entry list \<Rightarrow> heap_entry \<Rightarrow> merge_input list \<times> heap_entry list" where
  "merge_advance iters heap e =
     (let i = he_seq e mod seq_base; base = he_seq e - i in
      case snd (iters ! i) of
        [] \<Rightarrow> (iters, heap)
      | (k, v) # rest \<Rightarrow>
          (iters[i := (fst (iters ! i), rest)],
           \<lparr>he_key = k, he_value = v, he_seq = base + i\<rparr> # heap))"

definition merge_weight :: "merge_input list \<Rightarrow> heap_entry list \<Rightarrow> nat" where
  "merge_weight iters heap = length heap + sum_list (map (length \<circ> snd) iters)"

lemma heap_max_in: "heap_max m xs \<in> insert m (set xs)"
proof (induction xs arbitrary: m)
  case (Cons x xs)
  show ?case using Cons.IH [of "if he_cmp m x = Less then x else m"] by auto
qed simp

lemma heap_popD:
  assumes "heap_pop h = Some (e, h')"
  shows "e \<in> set h" and "h' = remove1 e h" and "length h = Suc (length h')"
proof -
  from assms obtain x xs where h: "h = x # xs" and e: "e = heap_max x xs" and h': "h' = remove1 e h"
    by (auto simp: heap_pop_def Let_def split: list.splits)
  from heap_max_in [of x xs] show m: "e \<in> set h" by (simp add: h e)
  show "h' = remove1 e h" by (rule h')
  show "length h = Suc (length h')"
    using m length_pos_if_in_set [OF m] by (simp add: h' length_remove1)
qed

lemma sum_list_update_less:
  "i < length xs \<Longrightarrow> sum_list (map f (xs[i := x])) + f (xs ! i) = sum_list (map f xs) + (f x :: nat)"
proof (induction xs arbitrary: i)
  case (Cons a xs)
  then show ?case by (cases i) auto
qed simp

lemma merge_advance_weight:
  assumes "heap_pop h = Some (e, h')" and "he_seq e mod seq_base < length iters"
    and "merge_advance iters h' e = (iters', h'')"
  shows "merge_weight iters' h'' < merge_weight iters h"
proof (cases "snd (iters ! (he_seq e mod seq_base))")
  case Nil
  with assms(3) heap_popD(3) [OF assms(1)] show ?thesis
    by (simp add: merge_advance_def merge_weight_def Let_def)
next
  case (Cons a rest)
  let ?i = "he_seq e mod seq_base"
  have "sum_list (map (length \<circ> snd) (iters[?i := (fst (iters ! ?i), rest)])) + length (snd (iters ! ?i)) =
      sum_list (map (length \<circ> snd) iters) + length rest"
    using sum_list_update_less [OF assms(2), of "length \<circ> snd" "(fst (iters ! ?i), rest)"] by simp
  with Cons assms(3) heap_popD(3) [OF assms(1)] show ?thesis
    by (auto simp: merge_advance_def merge_weight_def Let_def split: prod.splits)
qed

function merge_loop ::
  "bool \<Rightarrow> merge_input list \<Rightarrow> heap_entry list \<Rightarrow> key option \<Rightarrow> (lsm_error, entry list) result" where
  "merge_loop drop_tombstones iters heap last_key =
     (case heap_pop heap of
        None \<Rightarrow> Inr []
      | Some (e, heap') \<Rightarrow>
          if length iters \<le> he_seq e mod seq_base then Inl Panic
          else let (iters', heap'') = merge_advance iters heap' e in
            if last_key = Some (he_key e) then merge_loop drop_tombstones iters' heap'' last_key
            else if drop_tombstones \<and> he_value e = None
              then merge_loop drop_tombstones iters' heap'' (Some (he_key e))
            else rbind (merge_loop drop_tombstones iters' heap'' (Some (he_key e)))
                   (\<lambda>rest. Inr ((he_key e, he_value e) # rest)))"
  by pat_completeness auto
termination
  by (relation "measure (\<lambda>(d, iters, heap, l). merge_weight iters heap)")
    (auto simp: linorder_not_le intro: merge_advance_weight)

declare merge_loop.simps [simp del]

definition merge_entries :: "merge_input list \<Rightarrow> bool \<Rightarrow> (lsm_error, entry list) result" where
  "merge_entries inputs drop_tombstones =
     merge_loop drop_tombstones (seed_iters inputs) (seed_heap inputs) None"



section \<open>Correctness\<close>

definition src :: "heap_entry \<Rightarrow> nat" where
  "src h = he_seq h mod seq_base"

text \<open>Everything still to be merged: the heap and the rest of each input, tagged with the
  position of the input.\<close>

definition pending :: "merge_input list \<Rightarrow> heap_entry list \<Rightarrow> (nat \<times> entry) set" where
  "pending iters heap = (\<lambda>h. (src h, he_key h, he_value h)) ` set heap \<union>
     {(i, e). i < length iters \<and> e \<in> set (snd (iters ! i))}"

definition merge_inv :: "merge_input list \<Rightarrow> heap_entry list \<Rightarrow> key option \<Rightarrow> bool" where
  "merge_inv iters heap l \<longleftrightarrow>
     length iters \<le> seq_base \<and> sorted (map fst iters) \<and> distinct (map src heap) \<and>
     (\<forall>h\<in>set heap. src h < length iters \<and> he_seq h = fst (iters ! src h) * seq_base + src h \<and>
        (\<forall>(k, v)\<in>set (snd (iters ! src h)). he_key h < k) \<and>
        (\<forall>x. l = Some x \<longrightarrow> x \<le> he_key h)) \<and>
     (\<forall>i<length iters. sorted_keys (snd (iters ! i)) \<and>
        (snd (iters ! i) \<noteq> [] \<longrightarrow> (\<exists>h\<in>set heap. src h = i)))"

lemma seq_base_pos [simp]: "0 < seq_base"
  by (simp add: seq_base_def)

lemma he_cmp_Less:
  "he_cmp a b = Less \<longleftrightarrow> he_key b < he_key a \<or> (he_key a = he_key b \<and> he_seq a < he_seq b)"
  by (auto simp: he_cmp_def cmp_def split: ordering.splits if_splits)

lemma heap_max_ge:
  "x \<in> insert m (set xs) \<Longrightarrow> he_key (heap_max m xs) < he_key x \<or>
     (he_key (heap_max m xs) = he_key x \<and> he_seq x \<le> he_seq (heap_max m xs))"
proof (induction xs arbitrary: m x)
  case (Cons y ys)
  let ?m = "if he_cmp m y = Less then y else m"
  have "\<exists>z\<in>insert ?m (set ys). he_key z < he_key x \<or> (he_key z = he_key x \<and> he_seq x \<le> he_seq z)"
    using Cons.prems by (auto simp: he_cmp_Less)
  then obtain z where z: "z \<in> insert ?m (set ys)"
    "he_key z < he_key x \<or> (he_key z = he_key x \<and> he_seq x \<le> he_seq z)" by blast
  from Cons.IH [OF z(1)] z(2) show ?case
    by (auto dest: less_trans order_trans)
qed simp

lemma heap_pop_greatest:
  assumes "heap_pop h = Some (e, h')" and "x \<in> set h"
  shows "he_key e < he_key x \<or> (he_key e = he_key x \<and> he_seq x \<le> he_seq e)"
proof -
  from assms(1) obtain y ys where "h = y # ys" "e = heap_max y ys"
    by (auto simp: heap_pop_def Let_def split: list.splits)
  with heap_max_ge [of x y ys] assms(2) show ?thesis by simp
qed

text \<open>In a well-formed state the popped entry has the least pending key, and among the pending
  entries of that key the latest input.\<close>

lemma merge_pop_least:
  assumes inv: "merge_inv iters heap l" and pop: "heap_pop heap = Some (e, heap')"
    and p: "(j, k, v) \<in> pending iters heap"
  shows "he_key e \<le> k" and "k = he_key e \<Longrightarrow> j \<le> src e"
proof -
  have e: "e \<in> set heap" by (rule heap_popD(1) [OF pop])
  obtain h where h: "h \<in> set heap" "src h = j" "he_key h \<le> k"
      "he_key h = k \<longrightarrow> v = he_value h"
  proof -
    from p consider (heap) h where "h \<in> set heap" "src h = j" "he_key h = k" "he_value h = v"
      | (iter) "j < length iters" "(k, v) \<in> set (snd (iters ! j))"
      by (auto simp: pending_def)
    then show ?thesis
    proof cases
      case heap
      then show ?thesis using that [of h] by simp
    next
      case iter
      with inv obtain h where "h \<in> set heap" "src h = j"
        unfolding merge_inv_def by (metis empty_iff empty_set)
      moreover from this inv iter(2) have "he_key h < k"
        unfolding merge_inv_def by fastforce
      ultimately show ?thesis using that [of h] by (auto simp: less_imp_le)
    qed
  qed
  from heap_pop_greatest [OF pop h(1)] h(3) show "he_key e \<le> k" by auto
  assume k: "k = he_key e"
  with heap_pop_greatest [OF pop h(1)] h(3) have "he_seq h \<le> he_seq e" by auto
  note le = this
  have sq: "he_seq h = fst (iters ! j) * seq_base + j" "j < length iters"
    "he_seq e = fst (iters ! src e) * seq_base + src e" "src e < length iters"
    using inv h e unfolding merge_inv_def by auto
  show "j \<le> src e"
  proof (rule ccontr)
    assume n: "\<not> j \<le> src e"
    then have "fst (iters ! src e) \<le> fst (iters ! j)"
      using inv sq unfolding merge_inv_def by (auto simp: sorted_iff_nth_mono_less)
    then have "fst (iters ! src e) * seq_base \<le> fst (iters ! j) * seq_base" by (rule mult_le_mono1)
    with n le sq(1,3) show False by linarith
  qed
qed

text \<open>Advancing takes exactly the popped entry out of the pending ones.\<close>

lemma merge_advance_eq:
  "merge_advance iters heap e = (case snd (iters ! src e) of
      [] \<Rightarrow> (iters, heap)
    | (k, v) # rest \<Rightarrow> (iters[src e := (fst (iters ! src e), rest)],
                        e\<lparr>he_key := k, he_value := v\<rparr> # heap))"
  by (auto simp: merge_advance_def src_def Let_def split: list.splits)

lemma merge_inv_popD:
  assumes "merge_inv iters heap l" and "heap_pop heap = Some (e, heap')"
  shows "e \<in> set heap" and "src e < length iters" and "set heap' = set heap - {e}"
    and "distinct (map src heap')" and "src e \<notin> src ` set heap'"
    and "\<And>k v. (k, v) \<in> set (snd (iters ! src e)) \<Longrightarrow> he_key e < k"
proof -
  have e: "e \<in> set heap" and h: "heap' = remove1 e heap"
    using heap_popD [OF assms(2)] by auto
  have d: "distinct (map src heap)" using assms(1) by (simp add: merge_inv_def)
  then have d': "distinct heap" "inj_on src (set heap)" by (auto simp: distinct_map)
  show "e \<in> set heap" by (rule e)
  show "src e < length iters" using assms(1) e by (auto simp: merge_inv_def)
  show s: "set heap' = set heap - {e}" by (simp add: h d' set_remove1_eq)
  show "distinct (map src heap')"
    using d' by (auto simp: h distinct_map distinct_remove1 inj_on_def set_remove1_eq)
  show "src e \<notin> src ` set heap'" using d' e by (auto simp: s inj_on_def)
  show "he_key e < k" if "(k, v) \<in> set (snd (iters ! src e))" for k v
    using assms(1) e that unfolding merge_inv_def by fastforce
qed

lemma merge_advance_pending:
  assumes inv: "merge_inv iters heap l" and pop: "heap_pop heap = Some (e, heap')"
    and adv: "merge_advance iters heap' e = (iters', heap'')"
  shows "pending iters' heap'' = pending iters heap - {(src e, he_key e, he_value e)}"
proof -
  note P = merge_inv_popD [OF inv pop]
  define I where "I j = set (snd (iters ! j))" for j
  have old: "pending iters heap - {(src e, he_key e, he_value e)} =
      (\<lambda>h. (src h, he_key h, he_value h)) ` set heap' \<union> {(i, x). i < length iters \<and> x \<in> I i}"
    using P(1,3,5,6) unfolding pending_def I_def by (auto simp: image_iff) 
  show ?thesis
  proof (cases "snd (iters ! src e)")
    case Nil
    with adv old show ?thesis by (auto simp: merge_advance_eq pending_def I_def)
  next
    case (Cons x rest)
    obtain k v where x: "x = (k, v)" by (cases x)
    have it: "iters' = iters[src e := (fst (iters ! src e), rest)]"
      and hp: "heap'' = e\<lparr>he_key := k, he_value := v\<rparr> # heap'"
      using adv by (simp_all add: merge_advance_eq Cons x)
    define S S' where "S = {(i, x). i < length iters \<and> x \<in> I i}"
      and "S' = {(i, x). i < length iters' \<and> x \<in> set (snd (iters' ! i))}"
    have "S = insert (src e, k, v) S'"
      using P(2) Cons x by (auto simp: S_def S'_def it I_def nth_list_update split: if_splits)
    moreover have "pending iters' heap'' = insert (src e, k, v)
        ((\<lambda>h. (src h, he_key h, he_value h)) ` set heap') \<union> S'"
      by (simp add: pending_def hp src_def S'_def)
    ultimately show ?thesis unfolding old S_def [symmetric] by simp
  qed
qed

lemma merge_advance_inv:
  assumes inv: "merge_inv iters heap l" and pop: "heap_pop heap = Some (e, heap')"
    and adv: "merge_advance iters heap' e = (iters', heap'')"
  shows "merge_inv iters' heap'' (Some (he_key e))"
proof -
  note P = merge_inv_popD [OF inv pop]
  have le: "he_key e \<le> he_key h" if "h \<in> set heap" for h
    using merge_pop_least(1) [OF inv pop, of "src h" "he_key h" "he_value h"] that
    by (auto simp: pending_def)
  show ?thesis
  proof (cases "snd (iters ! src e)")
    case Nil
    have cover: "\<exists>h\<in>set heap'. src h = i" if i: "i < length iters" "snd (iters ! i) \<noteq> []" for i
    proof -
      from i inv obtain h where "h \<in> set heap" "src h = i" unfolding merge_inv_def by blast
      moreover from i Nil have "i \<noteq> src e" by auto
      ultimately show ?thesis using P(3) by auto
    qed
    from Nil adv have "iters' = iters" "heap'' = heap'" by (simp_all add: merge_advance_eq)
    with inv P(3,4) le cover show ?thesis unfolding merge_inv_def by simp
  next
    case (Cons x rest)
    obtain k v where x: "x = (k, v)" by (cases x)
    let ?e = "e\<lparr>he_key := k, he_value := v\<rparr>"
    have it: "iters' = iters[src e := (fst (iters ! src e), rest)]" and hp: "heap'' = ?e # heap'"
      using adv by (simp_all add: merge_advance_eq Cons x)
    have "sorted_keys ((k, v) # rest)" using inv P(2) Cons x unfolding merge_inv_def by metis
    then have r: "sorted_keys rest" "\<forall>(a, b)\<in>set rest. k < a" by auto
    have se: "src ?e = src e" by (simp add: src_def)
    have f: "map fst iters' = map fst iters" 
      by (rule nth_equalityI) (auto simp: it nth_list_update P(2))
    have sorted: "sorted_keys (snd (iters' ! i))" if "i < length iters" for i
      using inv that r(1) by (cases "i = src e") (auto simp: it merge_inv_def)
    have entry: "src h < length iters' \<and> he_seq h = fst (iters' ! src h) * seq_base + src h \<and>
        (\<forall>(k, v)\<in>set (snd (iters' ! src h)). he_key h < k) \<and> he_key e \<le> he_key h"
      if "h \<in> set heap''" for h
    proof (cases "h = ?e")
      case True
      have "he_seq e = fst (iters ! src e) * seq_base + src e"
        using inv P(1) unfolding merge_inv_def by blast
      moreover have "he_key e \<le> k" using P(6) [of k v] Cons x by simp
      ultimately show ?thesis using True r(2) P(2) by (simp add: it se)
    next
      case False
      with that P(3) have h: "h \<in> set heap" "h \<in> set heap'" by (auto simp: hp)
      with P(5) have "src h \<noteq> src e" by (metis imageI)
      with h inv le show ?thesis unfolding merge_inv_def it by simp
    qed
    have cover: "\<exists>h\<in>set heap''. src h = i" if i: "i < length iters" "snd (iters' ! i) \<noteq> []" for i
    proof (cases "i = src e")
      case True
      then show ?thesis using se by (auto simp: hp)
    next
      case False
      with i inv obtain h where "h \<in> set heap" "src h = i" unfolding merge_inv_def it by auto
      with False P(3) show ?thesis by (auto simp: hp)
    qed
    have "distinct (map src heap'')" using P(4,5) se by (simp add: hp)
    moreover have "length iters' = length iters" by (simp add: it)
    moreover have "length iters \<le> seq_base" "sorted (map fst iters')"
      using inv unfolding merge_inv_def f by blast+
    ultimately show ?thesis using entry cover sorted unfolding merge_inv_def by auto
  qed
qed

text \<open>Inputs whose packed sequence numbers do not wrap around.\<close>

definition seqs_fit :: "merge_input list \<Rightarrow> bool" where
  "seqs_fit inputs \<longleftrightarrow> length inputs \<le> seq_base \<and> (\<forall>s\<in>set (map fst inputs). s < 2 ^ 64 div seq_base)"

lemma packed_seq:
  assumes "seqs_fit inputs" and "i < length inputs"
  shows "usize_wrap (fst (inputs ! i) * seq_base + i) = fst (inputs ! i) * seq_base + i"
proof -
  have "fst (inputs ! i) \<in> set (map fst inputs)" using assms(2) by simp
  then have "fst (inputs ! i) < 2 ^ 64 div seq_base" using assms(1) unfolding seqs_fit_def by blast
  then have "fst (inputs ! i) + 1 \<le> 2 ^ 64 div seq_base" by (simp only: Suc_eq_plus1 [symmetric] Suc_le_eq)
  then have "(fst (inputs ! i) + 1) * seq_base \<le> 2 ^ 64 div seq_base * seq_base" by (rule mult_le_mono1)
  also have "\<dots> \<le> 2 ^ 64" by (rule div_times_less_eq_dividend)
  finally have "fst (inputs ! i) * seq_base + i < 2 ^ 64" using assms by (simp add: seqs_fit_def)
  then show ?thesis by (simp add: usize_wrap_def)
qed

text \<open>The seeded state is well-formed, and holds every entry of every input.\<close>

lemma seed_pending:
  "pending (seed_iters inputs) (seed_heap inputs) =
     {(i, e). i < length inputs \<and> e \<in> set (snd (inputs ! i))}" if "seqs_fit inputs"
proof -
  have s: "src \<lparr>he_key = k, he_value = v, he_seq = a * seq_base + i\<rparr> = i" if "i < length inputs" for i k v a
    using that \<open>seqs_fit inputs\<close> by (simp add: src_def seqs_fit_def)
  have h: "(\<lambda>h. (src h, he_key h, he_value h)) ` set (seed_heap inputs) =
      {(i, hd (snd (inputs ! i))) |i. i < length inputs \<and> snd (inputs ! i) \<noteq> []}"
    by (auto simp: seed_heap_def image_image image_iff packed_seq [OF that] s)
  have m: "e \<in> set xs \<longleftrightarrow> xs \<noteq> [] \<and> (e = hd xs \<or> e \<in> set (tl xs))" for e :: entry and xs
    by (cases xs) auto
  show ?thesis
  proof (rule set_eqI)
    fix p
    show "p \<in> pending (seed_iters inputs) (seed_heap inputs) \<longleftrightarrow>
        p \<in> {(i, e). i < length inputs \<and> e \<in> set (snd (inputs ! i))}"
      using m [of "snd p" "snd (inputs ! fst p)"] unfolding pending_def h
      by (cases p) (auto simp: seed_iters_def split_beta)
  qed
qed

lemma seed_inv:
  assumes "seqs_fit inputs" and "sorted (map fst inputs)"
    and "list_all (sorted_keys \<circ> snd) inputs"
  shows "merge_inv (seed_iters inputs) (seed_heap inputs) None"
proof -
  have s: "src \<lparr>he_key = k, he_value = v, he_seq = a * seq_base + i\<rparr> = i" if "i < length inputs" for i k v a
    using that assms(1) by (simp add: src_def seqs_fit_def)
  note p = packed_seq [OF assms(1)]
  have "map src (seed_heap inputs) = filter (\<lambda>i. snd (inputs ! i) \<noteq> []) [0..<length inputs]"
    by (auto simp: seed_heap_def s p intro!: map_idI)
  then have d: "distinct (map src (seed_heap inputs))" by simp
  have f: "map fst (seed_iters inputs) = map fst inputs" by (auto simp: seed_iters_def)
  have k: "sorted_keys (snd (inputs ! i))" if "i < length inputs" for i
    using assms(3) that by (simp add: list_all_length)
  have n: "seed_iters inputs ! i = (fst (inputs ! i), tl (snd (inputs ! i)))" if "i < length inputs" for i
    using that by (simp add: seed_iters_def split_beta)
  have t: "sorted_keys (tl es)" "es \<noteq> [] \<Longrightarrow> (k, v) \<in> set (tl es) \<Longrightarrow> fst (hd es) < k"
    if "sorted_keys es" for es :: "entry list" and k v
    using that by (cases es; auto)+
  have "\<forall>h\<in>set (seed_heap inputs). src h < length (seed_iters inputs) \<and>
      he_seq h = fst (seed_iters inputs ! src h) * seq_base + src h \<and>
      (\<forall>(k, v)\<in>set (snd (seed_iters inputs ! src h)). he_key h < k) \<and>
      (\<forall>x. None = Some x \<longrightarrow> x \<le> he_key h)"
    using t(2) [OF k] by (auto simp: seed_heap_def s n p) (simp add: seed_iters_def)
  moreover have "\<forall>i<length (seed_iters inputs). sorted_keys (snd (seed_iters inputs ! i)) \<and>
      (snd (seed_iters inputs ! i) \<noteq> [] \<longrightarrow> (\<exists>h\<in>set (seed_heap inputs). src h = i))"
    using t(1) [OF k] by (auto simp: seed_heap_def s n p seed_iters_def split_beta)
  moreover have "length (seed_iters inputs) \<le> seq_base" using assms(1) by (simp add: seed_iters_def seqs_fit_def)
  ultimately show ?thesis unfolding merge_inv_def f using assms(2) d by blast
qed

text \<open>The entry a key should end up with: the one of the latest input that has the key.\<close>

definition winner :: "(nat \<times> entry) set \<Rightarrow> key \<Rightarrow> lsm_value option \<Rightarrow> bool" where
  "winner P k v \<longleftrightarrow> (\<exists>i. (i, k, v) \<in> P \<and> (\<forall>j w. (j, k, w) \<in> P \<longrightarrow> j \<le> i))"

lemma winner_popped:
  assumes inv: "merge_inv iters heap l" and pop: "heap_pop heap = Some (e, heap')"
  shows "winner (pending iters heap) (he_key e) v \<longleftrightarrow> v = he_value e"
proof -
  note P = merge_inv_popD [OF inv pop]
  have in_p: "(src e, he_key e, he_value e) \<in> pending iters heap"
    using P(1) by (auto simp: pending_def)
  have "v = he_value e" if "(src e, he_key e, v) \<in> pending iters heap" for v
    using that P(3,5,6) unfolding pending_def by fastforce
  with in_p merge_pop_least(2) [OF inv pop _ refl] show ?thesis
    unfolding winner_def by (metis le_antisym)
qed

text \<open>What the loop has still to produce.\<close>

definition merge_result ::
  "merge_input list \<Rightarrow> heap_entry list \<Rightarrow> key option \<Rightarrow> entry list \<Rightarrow> bool" where
  "merge_result iters heap l res \<longleftrightarrow> sorted_keys res \<and>
     (\<forall>k v. (k, v) \<in> set res \<longrightarrow> (\<forall>x. l = Some x \<longrightarrow> x < k)) \<and>
     (\<forall>k v. (k, v) \<in> set res \<longleftrightarrow> l \<noteq> Some k \<and> winner (pending iters heap) k v)"

lemma merge_result_step:
  assumes inv: "merge_inv iters heap l" and pop: "heap_pop heap = Some (e, heap')"
    and adv: "merge_advance iters heap' e = (iters', heap'')"
    and res: "merge_result iters' heap'' (Some (he_key e)) rest"
  shows "merge_result iters heap l
    (if l = Some (he_key e) then rest else (he_key e, he_value e) # rest)"
proof -
  have W: "winner (pending iters' heap'') k v \<longleftrightarrow> winner (pending iters heap) k v" if "k \<noteq> he_key e" for k v
    using that unfolding merge_advance_pending [OF inv pop adv] winner_def by auto
  have le: "x \<le> he_key e" if "l = Some x" for x
    using inv merge_inv_popD(1) [OF inv pop] that unfolding merge_inv_def by auto
  show ?thesis
  proof (cases "l = Some (he_key e)")
    case True
    with res W show ?thesis unfolding merge_result_def by auto
  next
    case False
    have gt: "he_key e < k" if "(k, v) \<in> set rest" for k v
      using res that unfolding merge_result_def by blast
    have lt: "x < k" if "l = Some x" "(k, v) \<in> set ((he_key e, he_value e) # rest)" for x k v
    proof -
      have "x < he_key e" using False le [of x] that(1) by auto
      moreover have "he_key e \<le> k" using that(2) gt [of k v] by auto
      ultimately show ?thesis by simp
    qed
    have srt: "sorted_keys ((he_key e, he_value e) # rest)"
      using res gt unfolding merge_result_def by auto
    have mem: "(k, v) \<in> set ((he_key e, he_value e) # rest) \<longleftrightarrow>
        l \<noteq> Some k \<and> winner (pending iters heap) k v" for k v
    proof (cases "k = he_key e")
      case True
      with res False winner_popped [OF inv pop] show ?thesis unfolding merge_result_def by auto
    next
      case k: False
      have "winner (pending iters heap) k v \<longrightarrow> l \<noteq> Some k"
      proof
        assume "winner (pending iters heap) k v"
        then have "he_key e \<le> k" using merge_pop_least(1) [OF inv pop] unfolding winner_def by blast
        with k le [of k] show "l \<noteq> Some k" by auto
      qed
      with k res W [OF k] show ?thesis unfolding merge_result_def by auto
    qed
    from False lt srt mem show ?thesis unfolding merge_result_def by auto
  qed
qed

definition live :: "entry list \<Rightarrow> entry list" where
  "live es = filter (\<lambda>(k, v). v \<noteq> None) es"

lemma merge_loop_ok:
  assumes "merge_inv iters heap l"
  shows "\<exists>res. merge_loop d iters heap l = Inr (if d then live res else res) \<and>
           merge_result iters heap l res"
  using assms
proof (induction d iters heap l rule: merge_loop.induct)
  case (1 d iters heap l)
  show ?case
  proof (cases "heap_pop heap")
    case None
    then have "heap = []" by (auto simp: heap_pop_def Let_def split: list.splits)
    then have "pending iters heap = {}" using "1.prems" unfolding merge_inv_def pending_def by force
    with None show ?thesis
      by (subst merge_loop.simps) (auto simp: merge_result_def winner_def live_def intro!: exI [of _ "[]"])
  next
    case (Some p)
    obtain e heap' where pop: "heap_pop heap = Some (e, heap')" using Some by (cases p) auto
    obtain iters' heap'' where adv: "merge_advance iters heap' e = (iters', heap'')"
      by (cases "merge_advance iters heap' e")
    have bnd: "\<not> length iters \<le> he_seq e mod seq_base"
      using merge_inv_popD(2) [OF "1.prems" pop] by (simp add: src_def)
    have inv': "merge_inv iters' heap'' (Some (he_key e))" by (rule merge_advance_inv [OF "1.prems" pop adv])
    have "\<exists>res. merge_loop d iters' heap'' (Some (he_key e)) = Inr (if d then live res else res) \<and>
        merge_result iters' heap'' (Some (he_key e)) res"
      using "1.IH"(1) [OF pop refl bnd adv [symmetric] refl] "1.IH"(2) [OF pop refl bnd adv [symmetric] refl]
        "1.IH"(3) [OF pop refl bnd adv [symmetric] refl] inv'
      by (cases "l = Some (he_key e)"; cases "d \<and> he_value e = None") auto
    then obtain rest where rest: "merge_loop d iters' heap'' (Some (he_key e)) = Inr (if d then live rest else rest)"
      and res: "merge_result iters' heap'' (Some (he_key e)) rest" by blast
    show ?thesis
      using merge_result_step [OF "1.prems" pop adv res] rest
      by (intro exI [of _ "if l = Some (he_key e) then rest else (he_key e, he_value e) # rest"],
          subst merge_loop.simps) (cases d; auto simp: pop adv bnd live_def)
  qed
qed

lemma overlay_winner:
  assumes "\<And>xs. xs \<in> set xss \<Longrightarrow> sorted_keys xs"
  shows "overlay xss k = Some v \<longleftrightarrow> winner {(i, e). i < length xss \<and> e \<in> set (xss ! i)} k v"
  using assms
proof (induction xss rule: rev_induct)
  case Nil
  then show ?case by (simp add: winner_def)
next
  case (snoc xs xss)
  let ?P = "\<lambda>yss. {(i, e). i < length yss \<and> e \<in> set (yss ! i)}"
  have m: "map_of xs k = Some w \<longleftrightarrow> (k, w) \<in> set xs" for w
    using snoc.prems [of xs] by (simp add: sorted_keys_distinct)
  have P: "(i, k, w) \<in> ?P (xss @ [xs]) \<longleftrightarrow>
      (i, k, w) \<in> ?P xss \<or> (i = length xss \<and> (k, w) \<in> set xs)" for i w
    by (auto simp: nth_append less_Suc_eq)
  have lt: "i < length xss" if "(i, k, w) \<in> ?P xss" for i w using that by simp
  show ?case
  proof (cases "map_of xs k")
    case None
    then have n: "(k, w) \<notin> set xs" for w using m by auto
    have "winner (?P (xss @ [xs])) k v \<longleftrightarrow> winner (?P xss) k v"
      unfolding winner_def P using n by simp
    with None snoc show ?thesis by (simp add: overlay_snoc map_add_def)
  next
    case (Some w)
    then have w: "(k, w') \<in> set xs \<longleftrightarrow> w' = w" for w' using m [of w'] by auto
    have "winner (?P (xss @ [xs])) k v \<longleftrightarrow> v = w"
    proof
      assume "winner (?P (xss @ [xs])) k v"
      then obtain i where i: "(i, k, v) \<in> ?P xss \<or> (i = length xss \<and> v = w)" "length xss \<le> i"
        unfolding winner_def P w by blast
      with lt [of i v] show "v = w" by linarith
    next
      assume "v = w"
      then show "winner (?P (xss @ [xs])) k v"
        unfolding winner_def P w using lt by (intro exI [of _ "length xss"]) (auto intro: less_imp_le)
    qed
    with Some show ?thesis by (auto simp: overlay_snoc map_add_def)
  qed
qed

text \<open>The merge succeeds, its result is strictly sorted and maps every key to the entry of the
  newest input that has it; dropping tombstones only leaves out the entries without a value.\<close>

lemma merge_entries_ok:
  assumes "seqs_fit inputs" and "sorted (map fst inputs)"
    and "list_all (sorted_keys \<circ> snd) inputs"
  shows "\<exists>res. merge_entries inputs d = Inr (if d then live res else res) \<and> sorted_keys res \<and>
           map_of res = overlay (map snd inputs)"
proof -
  from merge_loop_ok [OF seed_inv [OF assms]] obtain res where
    r: "merge_entries inputs d = Inr (if d then live res else res)"
    and res: "merge_result (seed_iters inputs) (seed_heap inputs) None res"
    unfolding merge_entries_def by blast
  have "map_of res k = Some v \<longleftrightarrow> overlay (map snd inputs) k = Some v" for k v
  proof -
    have "map_of res k = Some v \<longleftrightarrow> (k, v) \<in> set res"
      using res by (simp add: merge_result_def sorted_keys_distinct)
    also have "\<dots> \<longleftrightarrow> winner {(i, e). i < length inputs \<and> e \<in> set (snd (inputs ! i))} k v"
      using res by (simp add: merge_result_def seed_pending [OF assms(1)])
    also have "\<dots> \<longleftrightarrow> overlay (map snd inputs) k = Some v"
      using assms(3) by (subst overlay_winner) (auto simp: list_all_iff intro!: arg_cong [where f = "\<lambda>P. winner P k v"])
    finally show ?thesis .
  qed
  then have "map_of res = overlay (map snd inputs)" by (intro ext) (metis option.exhaust)
  with r res show ?thesis by (auto simp: merge_result_def)
qed

text \<open>Small sequence numbers fit.\<close>

lemma seqs_fitI:
  "length inputs \<le> seq_base \<Longrightarrow> (\<And>s. s \<in> set (map fst inputs) \<Longrightarrow> s \<le> seq_base) \<Longrightarrow> seqs_fit inputs"
  by (fastforce simp: seqs_fit_def seq_base_def)

lemma map_of_live:
  "sorted_keys es \<Longrightarrow> map_of (live es) k = (case map_of es k of Some (Some v) \<Rightarrow> Some (Some v) | _ \<Rightarrow> None)"
proof (induction es)
  case (Cons x es)
  obtain a b where x: "x = (a, b)" by (cases x)
  have "map_of es a = None" using Cons.prems by (force simp: x map_of_eq_None_iff)
  with Cons show ?case by (auto simp: x live_def split: option.splits)
qed (simp add: live_def)

lemma sorted_keys_live [simp]: "sorted_keys es \<Longrightarrow> sorted_keys (live es)"
  by (simp add: live_def sorted_keys_filter)

end
