(* ===== verification/Lsm_Compaction.thy ===== *)
theory Lsm_Compaction
  imports Lsm_Run Lsm_Merge
begin

text \<open>
  Levels and compaction (\<^verbatim>\<open>level.rs\<close>, \<^verbatim>\<open>compaction.rs\<close>).  The part of the tree that compaction
  works on is one record: the levels, the table of open runs, the active directory, the block
  cache and the next run id.  A compaction keeps what a reader of the levels can see.
\<close>

record level =
  lv_number :: nat
  lv_run_ids :: "nat list"

definition level_new :: "nat \<Rightarrow> level" where
  "level_new n = \<lparr>lv_number = n, lv_run_ids = []\<rparr>"

definition add_run :: "nat \<Rightarrow> level \<Rightarrow> level" where
  "add_run i l = l\<lparr>lv_run_ids := lv_run_ids l @ [i]\<rparr>"

definition remove_run :: "nat \<Rightarrow> level \<Rightarrow> level" where
  "remove_run i l = l\<lparr>lv_run_ids := filter (\<lambda>j. j \<noteq> i) (lv_run_ids l)\<rparr>"

definition num_runs :: "level \<Rightarrow> nat" where
  "num_runs l = length (lv_run_ids l)"

definition level_is_empty :: "level \<Rightarrow> bool" where
  "level_is_empty l = (lv_run_ids l = [])"

record run_store =
  rs_levels :: "level list"
  rs_runs :: "nat \<rightharpoonup> run"
  rs_dir :: run_dir
  rs_cache :: block_cache
  rs_next_run_id :: nat

definition find_compaction_level :: "level list \<Rightarrow> nat \<Rightarrow> nat option" where
  "find_compaction_level levels ratio =
     find (\<lambda>i. ratio \<le> num_runs (levels ! i)) [0..<length levels]"

text \<open>\<^verbatim>\<open>while levels.len() <= target { levels.push(Level::new(levels.len())) }\<close>\<close>

definition pad_levels :: "nat \<Rightarrow> level list \<Rightarrow> level list" where
  "pad_levels target levels = levels @ map level_new [length levels..<target + 1]"

text \<open>Reading the runs to merge, in order, with their sequence numbers; a run id without an open
  run is passed over.\<close>

fun gather_runs :: "checksum \<Rightarrow> run_store \<Rightarrow> nat \<Rightarrow> nat list \<Rightarrow> (lsm_error, (nat \<times> merge_input) list) result" where
  "gather_runs crc st seq [] = Inr []"
| "gather_runs crc st seq (i # ids) =
     (case rs_runs st i of
        None \<Rightarrow> gather_runs crc st (seq + 1) ids
      | Some r \<Rightarrow>
          rbind (scan_all crc (rs_dir st) r) (\<lambda>es.
          rbind (gather_runs crc st (seq + 1) ids) (\<lambda>rest. Inr ((i, (seq, es)) # rest))))"

definition drop_run :: "nat \<Rightarrow> run_store \<Rightarrow> run_store" where
  "drop_run i st = st\<lparr>rs_runs := (rs_runs st)(i := None), rs_cache := invalidate_run i (rs_cache st),
                      rs_dir := delete_files i (rs_dir st)\<rparr>"

definition is_last_level :: "level list \<Rightarrow> nat \<Rightarrow> bool" where
  "is_last_level levels target \<longleftrightarrow> target = length levels - 1 \<or>
     (target + 1 < length levels \<and> list_all level_is_empty (drop (target + 1) levels))"

text \<open>The merged run is written under the next id, unless nothing is left.\<close>

definition write_merged ::
  "checksum \<Rightarrow> nat \<Rightarrow> nat \<Rightarrow> run_store \<Rightarrow> entry list \<Rightarrow> (lsm_error, run option \<times> run_dir) result" where
  "write_merged crc ps bpk st merged =
     (if merged = [] then Inr (None, rs_dir st)
      else rbind (run_write crc (rs_next_run_id st) merged ps bpk (rs_dir st)) (\<lambda>(r, d). Inr (Some r, d)))"

text \<open>The end of a compaction: the new levels are in place, the consumed runs go, and the new run
  is entered into the table.\<close>

definition install_run :: "level list \<Rightarrow> run_dir \<Rightarrow> nat list \<Rightarrow> nat \<Rightarrow> run option \<Rightarrow> run_store \<Rightarrow> run_store" where
  "install_run levels d consumed new_id new_run st =
     (let st = fold drop_run consumed (st\<lparr>rs_levels := levels, rs_dir := d, rs_next_run_id := new_id + 1\<rparr>)
      in case new_run of
           None \<Rightarrow> st
         | Some r \<Rightarrow> st\<lparr>rs_runs := (rs_runs st)(new_id \<mapsto> r)\<rparr>)"

definition compact_level ::
  "checksum \<Rightarrow> nat \<Rightarrow> nat \<Rightarrow> nat \<Rightarrow> run_store \<Rightarrow> (lsm_error, (nat list \<times> nat) \<times> run_store) result" where
  "compact_level crc ps bpk level_idx st =
     (let target = level_idx + 1;
          levels = pad_levels target (rs_levels st);
          source_run_ids = lv_run_ids (levels ! level_idx);
          is_last = is_last_level levels target;
          include_target = (is_last \<and> \<not> level_is_empty (levels ! target));
          target_run_ids = (if include_target then lv_run_ids (levels ! target) else [])
      in rbind (gather_runs crc st 0 target_run_ids) (\<lambda>from_target.
         rbind (gather_runs crc st (length target_run_ids) source_run_ids) (\<lambda>from_source.
         rbind (merge_entries (map snd (from_target @ from_source)) (is_last \<and> include_target)) (\<lambda>merged.
         let consumed = map fst (from_target @ from_source);
             new_id = rs_next_run_id st
         in rbind (write_merged crc ps bpk st merged) (\<lambda>(new_run, d).
            let levels = levels[level_idx := (levels ! level_idx)\<lparr>lv_run_ids := []\<rparr>];
                levels = levels[target := fold remove_run target_run_ids (levels ! target)];
                levels = (if new_run \<noteq> None then levels[target := add_run new_id (levels ! target)] else levels)
            in Inr ((consumed, new_id), install_run levels d consumed new_id new_run st))))))"


section \<open>What a reader sees\<close>

text \<open>The runs from oldest to newest: deeper levels are older, and later runs of a level newer.\<close>

definition run_order :: "level list \<Rightarrow> nat list" where
  "run_order levels = concat (map lv_run_ids (rev levels))"

definition entries_of :: "checksum \<Rightarrow> run_store \<Rightarrow> nat \<Rightarrow> entry list" where
  "entries_of crc st i =
     (case rs_runs st i of
        None \<Rightarrow> []
      | Some r \<Rightarrow> (case scan_all crc (rs_dir st) r of Inl _ \<Rightarrow> [] | Inr es \<Rightarrow> es))"

definition store_view :: "checksum \<Rightarrow> run_store \<Rightarrow> key \<rightharpoonup> lsm_value option" where
  "store_view crc st = overlay (map (entries_of crc st) (run_order (rs_levels st)))"

text \<open>Tombstones are not visible.\<close>

definition visible :: "(key \<rightharpoonup> lsm_value option) \<Rightarrow> key \<rightharpoonup> lsm_value" where
  "visible m k = (case m k of Some (Some v) \<Rightarrow> Some v | _ \<Rightarrow> None)"

definition store_count :: "checksum \<Rightarrow> run_store \<Rightarrow> nat" where
  "store_count crc st = sum_list (map (length \<circ> entries_of crc st) (run_order (rs_levels st)))"

definition store_bytes :: "checksum \<Rightarrow> run_store \<Rightarrow> nat" where
  "store_bytes crc st =
     sum_list (map (\<lambda>i. sum_list (map entry_size (entries_of crc st i))) (run_order (rs_levels st)))"

definition fits_total :: "nat \<Rightarrow> nat \<Rightarrow> nat \<Rightarrow> nat \<Rightarrow> bool" where
  "fits_total ps bpk n b \<longleftrightarrow> n * (page_header_size + ps) + b < 2 ^ 32 * ps \<and>
     n * bpk + 128 < 2 ^ 32 \<and> n < 2 ^ 32"

text \<open>The invariant: the levels are numbered and list every open run once, run ids are below the
  next one, every run holds its entries, and the cache holds only pages of open runs.\<close>

definition run_good :: "checksum \<Rightarrow> nat \<Rightarrow> run_dir \<Rightarrow> nat \<Rightarrow> run \<Rightarrow> bool" where
  "run_good crc ps dir i r \<longleftrightarrow> rn_id r = i \<and> rn_page_size r = ps \<and> (\<exists>es. es \<noteq> [] \<and> run_holds crc dir r es)"

definition store_inv :: "checksum \<Rightarrow> nat \<Rightarrow> run_store \<Rightarrow> bool" where
  "store_inv crc ps st \<longleftrightarrow>
     rs_levels st \<noteq> [] \<and> map lv_number (rs_levels st) = [0..<length (rs_levels st)] \<and>
     distinct (run_order (rs_levels st)) \<and> set (run_order (rs_levels st)) = dom (rs_runs st) \<and>
     (\<forall>i\<in>dom (rs_runs st). i < rs_next_run_id st) \<and>
     (\<forall>i r. rs_runs st i = Some r \<longrightarrow> run_good crc ps (rs_dir st) i r) \<and>
     cache_inv (rs_cache st) \<and> cached (rs_cache st) \<subseteq>\<^sub>m dir_pages crc (rs_dir st) (rs_runs st)"

lemma visible_map_add: "visible m = visible m' \<Longrightarrow> visible (m ++ n) = visible (m' ++ n)"
proof
  fix k assume "visible m = visible m'"
  then have "visible m k = visible m' k" by simp
  then show "visible (m ++ n) k = visible (m' ++ n) k"
    by (cases "n k") (auto simp: visible_def map_add_def)
qed

lemma overlay_SomeD: "overlay xss k = Some v \<Longrightarrow> \<exists>xs\<in>set xss. map_of xs k = Some v"
  by (induction xss rule: rev_induct) (auto simp: overlay_snoc map_add_Some_iff)

lemma fits_total_mono: "fits_total ps bpk n b \<Longrightarrow> n' \<le> n \<Longrightarrow> b' \<le> b \<Longrightarrow> fits_total ps bpk n' b'"
proof -
  assume f: "fits_total ps bpk n b" and n: "n' \<le> n" and b: "b' \<le> b"
  have "n' * (page_header_size + ps) \<le> n * (page_header_size + ps)" "n' * bpk \<le> n * bpk"
    using n by (rule mult_le_mono1)+
  with f n b show ?thesis unfolding fits_total_def by linarith
qed

lemma sum_list_subset:
  fixes f :: "'a \<Rightarrow> nat"
  assumes "distinct xs" and "set xs \<subseteq> set ys"
  shows "sum_list (map f xs) \<le> sum_list (map f ys)"
proof -
  have "sum_list (map f xs) = sum f (set xs)" by (rule sum_list_distinct_conv_sum_set [OF assms(1)])
  also have "\<dots> \<le> sum f (set ys)" using assms(2) by (intro sum_mono2) auto
  also have "\<dots> \<le> sum_list (map f ys)" by (induction ys) (auto simp: insert_absorb sum.insert_if)
  finally show ?thesis .
qed

lemma entries_of_holds: "rs_runs st i = Some r \<Longrightarrow> run_holds crc (rs_dir st) r es \<Longrightarrow> entries_of crc st i = es"
  by (simp add: entries_of_def scan_all_ok)

lemma store_invD:
  assumes "store_inv crc ps st" and "i \<in> set (run_order (rs_levels st))"
  shows "\<exists>r. rs_runs st i = Some r \<and> rn_id r = i \<and> rn_page_size r = ps \<and>
    run_holds crc (rs_dir st) r (entries_of crc st i) \<and> entries_of crc st i \<noteq> []"
proof -
  from assms obtain r where r: "rs_runs st i = Some r" unfolding store_inv_def by blast
  with assms(1) have "run_good crc ps (rs_dir st) i r" unfolding store_inv_def by blast
  with r entries_of_holds [OF r] show ?thesis by (auto simp: run_good_def)
qed

lemma run_holdsD: "run_holds crc dir r es \<Longrightarrow> sorted_keys es \<and> entries_fit (rn_page_size r) es"
  by (auto simp: run_holds_def run_layout_def)

lemma gather_runs_ok:
  assumes "store_inv crc ps st" and "set ids \<subseteq> set (run_order (rs_levels st))"
  shows "gather_runs crc st seq ids =
    Inr (zip ids (zip [seq..<seq + length ids] (map (entries_of crc st) ids)))"
  using assms(2)
proof (induction ids arbitrary: seq)
  case (Cons i ids)
  then have "i \<in> set (run_order (rs_levels st))" by simp
  from store_invD [OF assms(1) this] obtain r where
    r: "rs_runs st i = Some r" "run_holds crc (rs_dir st) r (entries_of crc st i)" by blast
  have "[seq..<seq + length (i # ids)] = seq # [Suc seq..<Suc seq + length ids]"
    by (subst upt_conv_Cons) (simp_all del: upt_Suc)
  with Cons r show ?case by (simp add: scan_all_ok del: upt_Suc)
qed simp


section \<open>Merging the runs of a compaction\<close>

lemma sum_list_concat_map:
  "sum_list (map f (concat (map g xs))) = sum_list (map (\<lambda>x. sum_list (map f (g x))) xs)"
  by (induction xs) simp_all

lemma run_fits_subset:
  assumes inv: "store_inv crc ps st" and "fits_total ps bpk (store_count crc st) (store_bytes crc st)"
    and ids: "set ids \<subseteq> set (run_order (rs_levels st))" "ids \<noteq> []"
    and es: "sorted_keys es" "set es \<subseteq> set (concat (map (entries_of crc st) ids))"
  shows "run_fits ps bpk es"
proof -
  let ?all = "concat (map (entries_of crc st) (run_order (rs_levels st)))"
  have d: "distinct es" using es(1) by (metis distinct_map sorted_keys_distinct)
  have sub: "set es \<subseteq> set ?all" using es(2) ids by fastforce
  have "sum_list (map (\<lambda>_. 1) es) \<le> sum_list (map (\<lambda>_. 1 :: nat) ?all)"
    and b: "sum_list (map entry_size es) \<le> sum_list (map entry_size ?all)"
    using sum_list_subset [OF d sub] by blast+
  then have n: "length es \<le> length ?all" by (simp only: sum_list_triv) simp
  have "length ?all = store_count crc st" by (simp add: store_count_def length_concat comp_def)
  moreover have "sum_list (map entry_size ?all) = store_bytes crc st"
    by (simp add: store_bytes_def sum_list_concat_map)
  ultimately have "fits_total ps bpk (length es) (sum_list (map entry_size es))"
    using fits_total_mono [OF assms(2)] n b by simp
  moreover have "entries_fit ps es"
  proof -
    have e: "entries_fit ps (entries_of crc st i)" if "i \<in> set ids" for i
      using store_invD [OF inv, of i] ids(1) that run_holdsD by blast
    have "\<exists>i\<in>set ids. x \<in> set (entries_of crc st i)" if "x \<in> set es" for x using es(2) that by auto
    moreover have "page_header_size \<le> ps \<and> ps \<le> 2 ^ 17"
      using e [of "hd ids"] ids(2) by (simp add: entries_fit_def)
    ultimately show ?thesis using e unfolding entries_fit_def list_all_iff by blast
  qed
  ultimately show ?thesis by (simp add: run_fits_def fits_total_def)
qed

lemma merge_runs_ok:
  assumes inv: "store_inv crc ps st" and room: "fits_total ps bpk (store_count crc st) (store_bytes crc st)"
    and ids: "set ids \<subseteq> set (run_order (rs_levels st))" "ids \<noteq> []" "length ids \<le> seq_base"
  shows "\<exists>res. merge_entries (zip [0..<length ids] (map (entries_of crc st) ids)) d = Inr res \<and>
    sorted_keys res \<and> run_fits ps bpk res \<and> set res \<subseteq> set (concat (map (entries_of crc st) ids)) \<and>
    (if d then visible (map_of res) = visible (overlay (map (entries_of crc st) ids))
     else map_of res = overlay (map (entries_of crc st) ids))"
proof -
  let ?E = "map (entries_of crc st) ids"
  let ?in = "zip [0..<length ids] ?E"
  have "sorted_keys (entries_of crc st i)" if "i \<in> set ids" for i
    using store_invD [OF inv, of i] ids(1) that run_holdsD by blast
  then have "list_all (sorted_keys \<circ> snd) ?in" by (auto simp: list_all_iff elim!: in_set_zipE)
  moreover have "map fst ?in = [0..<length ids]" "map snd ?in = ?E" by simp_all
  ultimately obtain res where res: "merge_entries ?in d = Inr (if d then live res else res)"
    "sorted_keys res" "map_of res = overlay ?E"
    using merge_entries_ok [of ?in d] seqs_fitI [of ?in] ids(3) by auto
  have sub: "set res \<subseteq> set (concat ?E)"
  proof
    fix x assume "x \<in> set res"
    then have "overlay ?E (fst x) = Some (snd x)"
      using res(2,3) sorted_keys_distinct by (metis map_of_is_SomeI prod.collapse)
    from overlay_SomeD [OF this] obtain xs where xs: "xs \<in> set ?E" "map_of xs (fst x) = Some (snd x)" ..
    then have "x \<in> set xs" using map_of_SomeD [OF xs(2)] by simp
    with xs(1) show "x \<in> set (concat ?E)" unfolding set_concat by blast
  qed
  define out where "out = (if d then live res else res)"
  have "sorted_keys out" "set out \<subseteq> set (concat ?E)" using res(2) sub by (auto simp: out_def live_def)
  moreover from this have "run_fits ps bpk out" by (intro run_fits_subset [OF inv room ids(1,2)])
  moreover have "visible (map_of (live res)) = visible (map_of res)"
    using map_of_live [OF res(2)] by (auto simp: visible_def fun_eq_iff split: option.splits)
  ultimately show ?thesis using res(1,3) unfolding out_def by (cases d) auto
qed


section \<open>Replacing runs\<close>

lemma drop_runs:
  "fold drop_run ids st =
     st\<lparr>rs_runs := rs_runs st |` (- set ids), rs_dir := rs_dir st |` (- set ids),
        rs_cache := fold invalidate_run ids (rs_cache st)\<rparr>"
  by (induction ids arbitrary: st) (auto simp: drop_run_def delete_files_def restrict_map_def fun_eq_iff)

lemma invalidate_runs:
  assumes "cache_inv c"
  shows "cache_inv (fold invalidate_run ids c)"
    and "cached (fold invalidate_run ids c) = (\<lambda>k. if ck_run_id k \<in> set ids then None else cached c k)"
  using assms by (induction ids arbitrary: c) (auto simp: invalidate_run_ok fun_eq_iff)

text \<open>What a new run has to be: nothing when there are no entries, and otherwise a run of the next
  id in an otherwise unchanged directory.\<close>

definition new_run_ok ::
  "checksum \<Rightarrow> nat \<Rightarrow> run_store \<Rightarrow> entry list \<Rightarrow> run option \<Rightarrow> run_dir \<Rightarrow> bool" where
  "new_run_ok crc ps st res nr d \<longleftrightarrow>
     (case nr of
        None \<Rightarrow> res = [] \<and> d = rs_dir st
      | Some r \<Rightarrow> res \<noteq> [] \<and> run_holds crc d r res \<and> rn_id r = rs_next_run_id st \<and> rn_page_size r = ps \<and>
          (\<forall>j. j \<noteq> rs_next_run_id st \<longrightarrow> d j = rs_dir st j))"

lemma install_run_ok:
  assumes inv: "store_inv crc ps st" and new: "new_run_ok crc ps st res nr d"
    and L: "L \<noteq> []" "map lv_number L = [0..<length L]"
    and ord: "run_order (rs_levels st) = P @ M @ Q"
      "run_order L = P @ (if nr = None then [] else [rs_next_run_id st]) @ Q"
  defines "st' \<equiv> install_run L d M (rs_next_run_id st) nr st"
  shows "store_inv crc ps st'"
    and "\<And>i. i \<in> set P \<union> set Q \<Longrightarrow> entries_of crc st' i = entries_of crc st i"
    and "nr \<noteq> None \<Longrightarrow> entries_of crc st' (rs_next_run_id st) = res"
    and "rs_levels st' = L"
proof -
  let ?n = "rs_next_run_id st"
  have dist: "distinct (P @ M @ Q)" and ids: "set (P @ M @ Q) = dom (rs_runs st)"
    and fresh: "\<And>i. i \<in> dom (rs_runs st) \<Longrightarrow> i < ?n"
    and good: "\<And>i r. rs_runs st i = Some r \<Longrightarrow> run_good crc ps (rs_dir st) i r"
    and cache: "cache_inv (rs_cache st)" "cached (rs_cache st) \<subseteq>\<^sub>m dir_pages crc (rs_dir st) (rs_runs st)"
    using inv unfolding store_inv_def ord(1) by blast+
  have nM: "?n \<notin> set (P @ M @ Q)" using ids fresh by blast
  define runs' where "runs' = (case nr of None \<Rightarrow> rs_runs st |` (- set M)
      | Some r \<Rightarrow> (rs_runs st |` (- set M))(?n \<mapsto> r))"
  define dir' where "dir' = d |` (- set M)"
  define cache' where "cache' = fold invalidate_run M (rs_cache st)"
  have st': "rs_levels st' = L" "rs_runs st' = runs'" "rs_dir st' = dir'" "rs_cache st' = cache'"
    "rs_next_run_id st' = ?n + 1"
    by (simp_all add: st'_def install_run_def drop_runs runs'_def dir'_def cache'_def Let_def split: option.splits)
  have d_eq: "dir' j = rs_dir st j" if "j \<noteq> ?n" "j \<notin> set M" for j
    using new that by (auto simp: restrict_map_def dir'_def new_run_ok_def split: option.splits)
  have old: "runs' j = rs_runs st j" if "j \<in> set P \<union> set Q" for j
    using that nM dist by (auto simp: restrict_map_def runs'_def split: option.splits)
  have dom': "dom runs' = set (run_order L)"
  proof -
    have "dom runs' = (dom (rs_runs st) - set M) \<union> (if nr = None then {} else {?n})"
      by (auto simp: restrict_map_def runs'_def dom_def split: option.splits if_splits)
    also have "\<dots> = set (run_order L)" using dist unfolding ord(2) ids [symmetric] by auto
    finally show ?thesis .
  qed
  have frame: "run_holds crc dir' r es" if "j \<in> set P \<union> set Q" "rn_id r = j" "run_holds crc (rs_dir st) r es" for j r es
  proof -
    have "j \<noteq> ?n" "j \<notin> set M" using that(1) nM dist by auto
    with that d_eq [of j] show ?thesis by (intro run_holds_frame [OF that(3)]) simp
  qed
  have new_holds: "run_holds crc dir' r res \<and> rn_id r = ?n \<and> rn_page_size r = ps \<and> res \<noteq> []" if "nr = Some r" for r
    using new that nM by (auto simp: restrict_map_def new_run_ok_def dir'_def intro: run_holds_frame)
  have lt: "i < ?n" if "i \<in> set P \<union> set Q" for i
  proof (rule fresh)
    show "i \<in> dom (rs_runs st)" using that unfolding ids [symmetric] by auto
  qed
  have "distinct (run_order L)" using dist nM unfolding ord(2) by auto
  moreover have "\<forall>i\<in>dom runs'. i < ?n + 1"
    using lt unfolding dom' ord(2) by (auto simp: less_Suc_eq split: if_splits)
  moreover have "\<forall>i r. runs' i = Some r \<longrightarrow> run_good crc ps dir' i r"
  proof (intro allI impI)
    fix i r assume r: "runs' i = Some r"
    then have "i \<in> set (run_order L)" using dom' by blast
    then consider "i \<in> set P \<union> set Q" | "i = ?n" "nr \<noteq> None" unfolding ord(2) by (auto split: if_splits)
    then show "run_good crc ps dir' i r"
    proof cases
      case 1
      with r old good [of i r] frame [OF 1] show ?thesis by (auto simp: run_good_def)
    next
      case 2
      with r have "nr = Some r" by (auto simp: restrict_map_def runs'_def)
      with new_holds 2 show ?thesis by (auto simp: run_good_def)
    qed
  qed
  moreover have "cache_inv cache'" unfolding cache'_def by (rule invalidate_runs(1) [OF cache(1)])
  moreover have "cached cache' \<subseteq>\<^sub>m dir_pages crc dir' runs'"
    unfolding map_le_def
  proof
    fix ck assume "ck \<in> dom (cached cache')"
    then have c: "ck_run_id ck \<notin> set M" "cached cache' ck = cached (rs_cache st) ck" "ck \<in> dom (cached (rs_cache st))"
      unfolding cache'_def invalidate_runs(2) [OF cache(1)] by (auto split: if_splits)
    then have p: "cached cache' ck = dir_pages crc (rs_dir st) (rs_runs st) ck"
      using cache(2) by (simp add: map_le_def)
    with c obtain r where r: "rs_runs st (ck_run_id ck) = Some r"
      by (auto simp: dir_pages_def split: option.splits)
    then have "ck_run_id ck \<in> dom (rs_runs st)" by blast
    with ids c(1) have PQ: "ck_run_id ck \<in> set P \<union> set Q" by auto
    have "ck_run_id ck \<noteq> ?n" using lt [OF PQ] by simp
    moreover have "rn_id r = ck_run_id ck" using good [OF r] by (simp add: run_good_def)
    ultimately show "cached cache' ck = dir_pages crc dir' runs' ck"
      using p r c(1) old [OF PQ] d_eq [of "ck_run_id ck"]
      by (simp add: dir_pages_def run_read_page_def run_data_def)
  qed
  ultimately show "store_inv crc ps st'" using L dom' unfolding store_inv_def st' by simp
  show "entries_of crc st' i = entries_of crc st i" if "i \<in> set P \<union> set Q" for i
  proof -
    have "i \<in> set (run_order (rs_levels st))" using that unfolding ord(1) by auto
    from store_invD [OF inv this] obtain r where
      r: "rs_runs st i = Some r" "rn_id r = i" "run_holds crc (rs_dir st) r (entries_of crc st i)" by blast
    with old [OF that] frame [OF that r(2,3)] show ?thesis
      by (intro entries_of_holds [of st' i r]) (simp_all add: st')
  qed
  show "entries_of crc st' ?n = res" if nr: "nr \<noteq> None"
  proof -
    from nr obtain r where r: "nr = Some r" by auto
    show ?thesis using new_holds [OF r] by (intro entries_of_holds [of st' ?n r]) (simp_all add: st' runs'_def r)
  qed
  show "rs_levels st' = L" by (rule st')
qed


section \<open>A compaction keeps the view\<close>

lemma run_order_append: "run_order (xs @ ys) = run_order ys @ run_order xs"
  by (simp add: run_order_def)

lemma run_order_Cons: "run_order (l # ls) = run_order ls @ lv_run_ids l"
  by (simp add: run_order_def)

lemma run_order_empty: "list_all level_is_empty ls \<Longrightarrow> run_order ls = []"
  by (induction ls) (auto simp: run_order_def level_is_empty_def)

lemma remove_runs: "lv_run_ids (fold remove_run ids l) = filter (\<lambda>i. i \<notin> set ids) (lv_run_ids l)"
  "lv_number (fold remove_run ids l) = lv_number l"
  by (induction ids arbitrary: l) (auto simp: remove_run_def intro: filter_cong)

lemma pad_levels_split:
  assumes "i < length ls"
  obtains A l1 l2 B where "pad_levels (i + 1) ls = A @ l1 # l2 # B" and "length A = i" and "l1 = ls ! i"
proof -
  let ?p = "pad_levels (i + 1) ls"
  have len: "i + 1 < length ?p" using assms by (simp add: pad_levels_def)
  have "?p = take i ?p @ ?p ! i # ?p ! (i + 1) # drop (i + 2) ?p"
    using len by (metis Cons_nth_drop_Suc Suc_eq_plus1 Suc_lessD add_2_eq_Suc' id_take_nth_drop)
  moreover have "length (take i ?p) = i" using len by simp
  moreover have "?p ! i = ls ! i" using assms by (simp add: pad_levels_def nth_append)
  ultimately show ?thesis using that by blast
qed

lemma pad_levels_order: "run_order (pad_levels t ls) = run_order ls"
  by (simp add: pad_levels_def run_order_def level_new_def comp_def rev_map)

lemma pad_levels_numbers:
  "map lv_number ls = [0..<length ls] \<Longrightarrow> map lv_number (pad_levels t ls) = [0..<length (pad_levels t ls)]"
proof (cases "length ls \<le> t + 1")
  case True
  assume "map lv_number ls = [0..<length ls]"
  moreover have "[0..<length ls] @ [length ls..<t + 1] = [0..<t + 1]"
    using True upt_add_eq_append [of 0 "length ls" "t + 1 - length ls"] by simp
  ultimately show ?thesis using True by (simp add: pad_levels_def level_new_def comp_def del: upt_Suc)
qed (simp add: pad_levels_def)

lemma zip_append_upt:
  "zip S (zip [0..<length S] (map f S)) @ zip T (zip [length S..<length S + length T] (map f T)) =
     zip (S @ T) (zip [0..<length (S @ T)] (map f (S @ T)))"
proof -
  have "[0..<length (S @ T)] = [0..<length S] @ [length S..<length S + length T]"
    using upt_add_eq_append [of 0 "length S" "length T"] by simp
  then show ?thesis by simp
qed

lemma write_merged_ok:
  assumes "run_fits ps bpk es" and "sorted_keys es"
  shows "\<exists>nr d. write_merged crc ps bpk st es = Inr (nr, d) \<and> new_run_ok crc ps st es nr d"
proof (cases "es = []")
  case True
  then show ?thesis by (simp add: write_merged_def new_run_ok_def)
next
  case False
  from run_write_ok [OF assms, of crc "rs_next_run_id st" "rs_dir st"] obtain r d where
    "run_write crc (rs_next_run_id st) es ps bpk (rs_dir st) = Inr (r, d)" "run_holds crc d r es"
    "rn_id r = rs_next_run_id st" "rn_page_size r = ps" "\<forall>j. j \<noteq> rs_next_run_id st \<longrightarrow> d j = rs_dir st j"
    by blast
  with False show ?thesis by (simp add: write_merged_def new_run_ok_def)
qed

text \<open>Replacing the runs \<open>M\<close> by one run with their merged entries.\<close>

lemma replace_merged:
  assumes inv: "store_inv crc ps st" and new: "new_run_ok crc ps st res nr d"
    and L: "L \<noteq> []" "map lv_number L = [0..<length L]"
    and ord: "run_order (rs_levels st) = P @ M @ Q"
      "run_order L = P @ (if nr = None then [] else [rs_next_run_id st]) @ Q"
    and res: "sorted_keys res" "set res \<subseteq> set (concat (map (entries_of crc st) M))"
    and view: "map_of res = overlay (map (entries_of crc st) M) \<or>
      P = [] \<and> visible (map_of res) = visible (overlay (map (entries_of crc st) M))"
  defines "st' \<equiv> install_run L d M (rs_next_run_id st) nr st"
  shows "store_inv crc ps st'" and "rs_levels st' = L"
    and "visible (store_view crc st') = visible (store_view crc st)"
    and "store_count crc st' \<le> store_count crc st" and "store_bytes crc st' \<le> store_bytes crc st"
proof -
  note I = install_run_ok [OF inv new L ord, folded st'_def]
  let ?E = "entries_of crc st" and ?N = "if nr = None then [] else [rs_next_run_id st]"
  show "store_inv crc ps st'" and lv: "rs_levels st' = L" by (rule I)+
  have same: "map (entries_of crc st') P = map ?E P" "map (entries_of crc st') Q = map ?E Q" using I(2) by simp_all
  have nil: "res = []" if "nr = None" using new that by (simp add: new_run_ok_def)
  have "overlay (map (entries_of crc st') ?N) = map_of res"
    using I(3) nil by (auto simp: overlay_def)
  then have v: "store_view crc st' = (overlay (map ?E P) ++ map_of res) ++ overlay (map ?E Q)"
    unfolding store_view_def lv ord(2) map_append overlay_append same by simp
  have v0: "store_view crc st = (overlay (map ?E P) ++ overlay (map ?E M)) ++ overlay (map ?E Q)"
    unfolding store_view_def ord(1) map_append overlay_append by simp
  show "visible (store_view crc st') = visible (store_view crc st)"
    unfolding v v0 using view by (auto intro!: visible_map_add)
  have sum: "sum_list (map g (run_order L)) \<le> sum_list (map f (run_order (rs_levels st)))"
    if "\<And>i. i \<in> set P \<union> set Q \<Longrightarrow> g i = f i" "sum_list (map g ?N) \<le> sum_list (map f M)" for f g :: "nat \<Rightarrow> nat"
  proof -
    have e: "map g P = map f P" "map g Q = map f Q" using that(1) by simp_all
    show ?thesis unfolding ord map_append sum_list_append e using that(2) by linarith
  qed
  have d: "distinct res" using res(1) by (metis distinct_map sorted_keys_distinct)
  have le: "sum_list (map h res) \<le> sum_list (map (\<lambda>i. sum_list (map h (?E i))) M)" for h :: "entry \<Rightarrow> nat"
    using sum_list_subset [OF d res(2), of h] by (simp add: sum_list_concat_map)
  have N: "sum_list (map (\<lambda>i. sum_list (map h (entries_of crc st' i))) ?N) = sum_list (map h res)" for h :: "entry \<Rightarrow> nat"
    using I(3) nil by auto
  show "store_bytes crc st' \<le> store_bytes crc st"
    unfolding store_bytes_def lv using I(2) le [of entry_size] N [of entry_size] by (intro sum) simp_all
  have len: "length xs = sum_list (map (\<lambda>_. 1) xs)" for xs :: "entry list" by (simp add: sum_list_triv)
  show "store_count crc st' \<le> store_count crc st"
    unfolding store_count_def lv comp_def len using I(2) le [of "\<lambda>_. 1"] N [of "\<lambda>_. 1"]
    by (intro sum) (simp_all only:)
qed

text \<open>The levels after a compaction of level \<open>length A\<close>.\<close>

definition compacted_levels :: "level list \<Rightarrow> level \<Rightarrow> level \<Rightarrow> level list \<Rightarrow> nat list \<Rightarrow> nat list \<Rightarrow> level list" where
  "compacted_levels A l1 l2 B T N = A @ l1\<lparr>lv_run_ids := []\<rparr> #
     l2\<lparr>lv_run_ids := filter (\<lambda>i. i \<notin> set T) (lv_run_ids l2) @ N\<rparr> # B"

lemma compact_level_eq:
  assumes lv: "pad_levels (i + 1) (rs_levels st) = A @ l1 # l2 # B" "length A = i"
    and T: "T = (if is_last_level (A @ l1 # l2 # B) (i + 1) then lv_run_ids l2 else [])"
    and inv: "store_inv crc ps st"
    and m: "merge_entries (zip [0..<length (T @ lv_run_ids l1)] (map (entries_of crc st) (T @ lv_run_ids l1))) (T \<noteq> []) = Inr res"
    and w: "write_merged crc ps bpk st res = Inr (nr, d)"
  shows "compact_level crc ps bpk i st = Inr ((T @ lv_run_ids l1, rs_next_run_id st),
    install_run (compacted_levels A l1 l2 B T (if nr = None then [] else [rs_next_run_id st])) d
      (T @ lv_run_ids l1) (rs_next_run_id st) nr st)"
proof -
  let ?lv = "A @ l1 # l2 # B" and ?S = "lv_run_ids l1" and ?E = "entries_of crc st"
  have at: "?lv ! i = l1" "?lv ! (i + 1) = l2" using lv(2) by (simp_all add: nth_append)
  have ids: "set T \<subseteq> set (run_order (rs_levels st))" "set ?S \<subseteq> set (run_order (rs_levels st))"
    unfolding T pad_levels_order [of "i + 1" "rs_levels st", symmetric] lv(1)
    by (auto simp: run_order_append run_order_Cons)
  have incl: "(is_last_level ?lv (i + 1) \<and> \<not> level_is_empty l2) = (T \<noteq> [])"
    "(if T \<noteq> [] then lv_run_ids l2 else []) = T" "(is_last_level ?lv (i + 1) \<and> T \<noteq> []) = (T \<noteq> [])"
    unfolding T by (auto simp: level_is_empty_def)
  note g = gather_runs_ok [OF inv ids(1), of 0] gather_runs_ok [OF inv ids(2), of "length T"]
  have in_eq: "map snd (zip T (zip [0..<0 + length T] (map ?E T)) @ zip ?S (zip [length T..<length T + length ?S] (map ?E ?S))) =
      zip [0..<length (T @ ?S)] (map ?E (T @ ?S))"
    and ids_eq: "map fst (zip T (zip [0..<0 + length T] (map ?E T)) @ zip ?S (zip [length T..<length T + length ?S] (map ?E ?S))) = T @ ?S"
    unfolding add_0 zip_append_upt by simp_all
  have upd: "(let levels = ?lv[i := l1\<lparr>lv_run_ids := []\<rparr>];
        levels = levels[i + 1 := fold remove_run T (levels ! (i + 1))];
        levels = (if nr \<noteq> None then levels[i + 1 := add_run (rs_next_run_id st) (levels ! (i + 1))] else levels)
      in levels) = compacted_levels A l1 l2 B T (if nr = None then [] else [rs_next_run_id st])"
    using lv(2) by (auto simp: compacted_levels_def add_run_def list_update_append nth_append remove_runs
        Let_def intro!: level.equality)
  show ?thesis
    unfolding compact_level_def Let_def lv(1) at incl g rbind_simps in_eq ids_eq m w prod.case
    using upd unfolding Let_def by simp
qed

text \<open>The number of runs at each level, 0 beyond the last.\<close>

definition runs_at :: "level list \<Rightarrow> nat \<Rightarrow> nat" where
  "runs_at ls i = (if i < length ls then num_runs (ls ! i) else 0)"

lemma runs_at_pad [simp]: "runs_at (pad_levels t ls) i = runs_at ls i"
  by (auto simp: runs_at_def pad_levels_def nth_append level_new_def num_runs_def simp del: upt_Suc)

lemma compacted_levels_at:
  fixes l1 l2 :: level and B :: "level list" and T :: "nat list"
  assumes "length A = i" and "length N \<le> 1"
  defines "L \<equiv> compacted_levels A l1 l2 B T N"
  shows "runs_at L i = 0" and "runs_at L (i + 1) \<le> length (lv_run_ids l2) + 1"
    and "\<And>j. j \<noteq> i \<Longrightarrow> j \<noteq> i + 1 \<Longrightarrow> runs_at L j = runs_at (A @ l1 # l2 # B) j"
proof -
  have "length (filter (\<lambda>j. j \<notin> set T) (lv_run_ids l2)) + length N \<le> length (lv_run_ids l2) + 1"
    by (rule add_mono [OF length_filter_le assms(2)])
  then show "runs_at L (i + 1) \<le> length (lv_run_ids l2) + 1"
    using assms(1) by (simp add: L_def compacted_levels_def runs_at_def num_runs_def nth_append)
  show "runs_at L i = 0" and "\<And>j. j \<noteq> i \<Longrightarrow> j \<noteq> i + 1 \<Longrightarrow> runs_at L j = runs_at (A @ l1 # l2 # B) j"
    using assms(1)
    by (auto simp: L_def compacted_levels_def runs_at_def num_runs_def nth_append nth_Cons split: nat.splits)
qed

lemma compact_level_ok:
  assumes inv: "store_inv crc ps st" and room: "fits_total ps bpk (store_count crc st) (store_bytes crc st)"
    and i: "0 < runs_at (rs_levels st) i"
    and small: "runs_at (rs_levels st) i + runs_at (rs_levels st) (i + 1) \<le> seq_base"
  shows "\<exists>out st'. compact_level crc ps bpk i st = Inr (out, st') \<and> store_inv crc ps st' \<and>
    visible (store_view crc st') = visible (store_view crc st) \<and>
    store_count crc st' \<le> store_count crc st \<and> store_bytes crc st' \<le> store_bytes crc st \<and>
    runs_at (rs_levels st') i = 0 \<and>
    runs_at (rs_levels st') (i + 1) \<le> runs_at (rs_levels st) (i + 1) + 1 \<and>
    (\<forall>j. j \<noteq> i \<and> j \<noteq> i + 1 \<longrightarrow> runs_at (rs_levels st') j = runs_at (rs_levels st) j) \<and>
    length (run_order (rs_levels st')) + runs_at (rs_levels st) i \<le> length (run_order (rs_levels st)) + 1"
proof -
  have "i < length (rs_levels st)" using i by (simp add: runs_at_def split: if_splits)
  then obtain A l1 l2 B where
    lv: "pad_levels (i + 1) (rs_levels st) = A @ l1 # l2 # B" "length A = i"
    by (rule pad_levels_split)
  let ?lv = "A @ l1 # l2 # B" and ?S = "lv_run_ids l1" and ?n = "rs_next_run_id st"
  define T where "T = (if is_last_level ?lv (i + 1) then lv_run_ids l2 else [])"
  define P where "P = run_order B @ (if T = [] then lv_run_ids l2 else [])"
  have at: "runs_at (rs_levels st) j = runs_at ?lv j" for j
    unfolding lv(1) [symmetric] by simp
  have Slen: "runs_at (rs_levels st) i = length ?S" "runs_at (rs_levels st) (i + 1) = length (lv_run_ids l2)"
    unfolding at using lv(2) by (simp_all add: runs_at_def num_runs_def nth_append)
  have B: "run_order B = []" if "T \<noteq> []"
    using that lv(2) run_order_empty [of B] by (auto simp: T_def is_last_level_def split: if_splits)
  have ord: "run_order (rs_levels st) = P @ (T @ ?S) @ run_order A"
    unfolding pad_levels_order [of "i + 1" "rs_levels st", symmetric] lv(1)
    using B by (auto simp: P_def T_def run_order_append run_order_Cons)
  have Tle: "length T \<le> length (lv_run_ids l2)" by (simp add: T_def)
  have ids: "set (T @ ?S) \<subseteq> set (run_order (rs_levels st))" "T @ ?S \<noteq> []" "length (T @ ?S) \<le> seq_base"
    using i small Tle unfolding ord Slen by auto
  from merge_runs_ok [OF inv room ids, of "T \<noteq> []"] obtain res where
    m: "merge_entries (zip [0..<length (T @ ?S)] (map (entries_of crc st) (T @ ?S))) (T \<noteq> []) = Inr res"
    and res: "sorted_keys res" "run_fits ps bpk res" "set res \<subseteq> set (concat (map (entries_of crc st) (T @ ?S)))"
    and v: "if T \<noteq> [] then visible (map_of res) = visible (overlay (map (entries_of crc st) (T @ ?S)))
       else map_of res = overlay (map (entries_of crc st) (T @ ?S))" by blast
  from write_merged_ok [OF res(2,1), of crc st] obtain nr d where
    w: "write_merged crc ps bpk st res = Inr (nr, d)" and new: "new_run_ok crc ps st res nr d" by blast
  define N where "N = (if nr = None then [] else [?n])"
  define L where "L = compacted_levels A l1 l2 B T N"
  have num: "map lv_number L = [0..<length L]"
  proof -
    have "map lv_number ?lv = [0..<length ?lv]"
      using pad_levels_numbers [of "rs_levels st" "i + 1"] inv unfolding lv(1) store_inv_def by blast
    then show ?thesis by (simp add: L_def compacted_levels_def)
  qed
  have filt: "filter (\<lambda>j. j \<notin> set T) (lv_run_ids l2) = (if T = [] then lv_run_ids l2 else [])"
    by (auto simp: T_def filter_empty_conv)
  have ordL: "run_order L = P @ N @ run_order A"
    by (simp add: L_def compacted_levels_def run_order_append run_order_Cons filt P_def)
  have view: "map_of res = overlay (map (entries_of crc st) (T @ ?S)) \<or>
      P = [] \<and> visible (map_of res) = visible (overlay (map (entries_of crc st) (T @ ?S)))"
    using v B by (auto simp: P_def split: if_splits)
  have "L \<noteq> []" by (simp add: L_def compacted_levels_def)
  note R = replace_merged [OF inv new this num ord ordL [unfolded N_def] res(1,3) view]
  let ?st = "install_run L d (T @ ?S) ?n nr st"
  have eq: "compact_level crc ps bpk i st = Inr ((T @ ?S, ?n), ?st)"
    unfolding L_def N_def by (rule compact_level_eq [OF lv T_def inv m w])
  have Nle: "length N \<le> 1" by (simp add: N_def)
  note L_at = compacted_levels_at [OF lv(2) Nle, where ?l1.0 = l1 and ?l2.0 = l2 and B = B and T = T, folded L_def]
  have "length (run_order L) + length ?S \<le> length (run_order (rs_levels st)) + 1"
    unfolding ordL ord using Nle by simp
  then show ?thesis using eq R L_at Slen at by auto
qed

end
