(* ===== verification/Lsm_Wal.thy ===== *)
theory Lsm_Wal
  imports Lsm_Page "HOL-Library.Char_ord"
begin

text \<open>
  The write-ahead log (\<^verbatim>\<open>wal.rs\<close>): framed and checksummed operations appended to numbered
  segments, rotated by size, deleted after a flush and replayed in the order of their file
  names.  Replay gives back what was logged, and of a log cut off anywhere the operations that
  are complete.
\<close>

datatype wal_op = WInsert key lsm_value | WDelete key

definition op_insert :: byte where "op_insert = 1"
definition op_delete :: byte where "op_delete = 2"

definition wal_payload :: "wal_op \<Rightarrow> byte list" where
  "wal_payload op = (case op of
     WInsert k v \<Rightarrow> [op_insert] @ le_bytes 2 (length k) @ k @ le_bytes 2 (length v) @ v
   | WDelete k \<Rightarrow> [op_delete] @ le_bytes 2 (length k) @ k)"

definition wal_frame :: "checksum \<Rightarrow> wal_op \<Rightarrow> byte list" where
  "wal_frame crc op = le_bytes 4 (length (wal_payload op)) @ wal_payload op @
     le_bytes 4 (unat (crc (wal_payload op)))"


section \<open>Segments\<close>

text \<open>The segment files by number, oldest first; \<open>None\<close> is a directory that does not exist.\<close>

type_synonym wal_files = "(nat \<times> byte list) list option"

fun dec_digits :: "nat \<Rightarrow> nat list" where
  "dec_digits n = (if n < 10 then [n] else dec_digits (n div 10) @ [n mod 10])"

declare dec_digits.simps [simp del]

text \<open>The file name of a segment, \<^verbatim>\<open>wal-{:06}.log\<close>.\<close>

definition pad6 :: "nat list \<Rightarrow> nat list" where
  "pad6 ds = replicate (6 - length ds) 0 @ ds"

definition segment_name :: "nat \<Rightarrow> string" where
  "segment_name n = ''wal-'' @ map (\<lambda>d. char_of (48 + d)) (pad6 (dec_digits n)) @ ''.log''"

definition open_segment :: "nat \<Rightarrow> wal_files \<Rightarrow> (lsm_error, wal_files) result" where
  "open_segment n d =
     (case d of
        None \<Rightarrow> Inl (Io NotFound)
      | Some fs \<Rightarrow> Inr (Some (if n \<in> fst ` set fs then fs else fs @ [(n, [])])))"

definition segment_append :: "nat \<Rightarrow> byte list \<Rightarrow> wal_files \<Rightarrow> wal_files" where
  "segment_append n bs d = map_option (map (\<lambda>(m, b). (m, if m = n then b @ bs else b))) d"

definition find_max_segment :: "wal_files \<Rightarrow> nat" where
  "find_max_segment d = (case d of None \<Rightarrow> 0 | Some fs \<Rightarrow> fold max (map fst fs) 0)"


section \<open>The writer\<close>

record wal_writer =
  ww_writer :: bool
  ww_segment_num :: nat
  ww_segment_bytes :: nat
  ww_max_segment_size :: nat
  ww_enabled :: bool

definition wal_new :: "nat \<Rightarrow> bool \<Rightarrow> wal_files \<Rightarrow> (lsm_error, wal_writer \<times> wal_files) result" where
  "wal_new max_segment_size enabled d =
     (let d = (if enabled \<and> d = None then Some [] else d);
          segment_num = (if enabled then find_max_segment d + 1 else 0)
      in rbind (if enabled then open_segment segment_num d else Inr d) (\<lambda>d.
           Inr (\<lparr>ww_writer = enabled, ww_segment_num = segment_num, ww_segment_bytes = 0,
                 ww_max_segment_size = max_segment_size, ww_enabled = enabled\<rparr>, d)))"

definition set_enabled :: "bool \<Rightarrow> wal_writer \<Rightarrow> wal_writer" where
  "set_enabled b w = w\<lparr>ww_enabled := b\<rparr>"

definition next_segment :: "wal_writer \<Rightarrow> wal_files \<Rightarrow> (lsm_error, wal_writer \<times> wal_files) result" where
  "next_segment w d =
     rbind (open_segment (ww_segment_num w + 1) d) (\<lambda>d.
       Inr (w\<lparr>ww_segment_num := ww_segment_num w + 1, ww_segment_bytes := 0, ww_writer := True\<rparr>, d))"

definition maybe_rotate :: "wal_writer \<Rightarrow> wal_files \<Rightarrow> (lsm_error, wal_writer \<times> wal_files) result" where
  "maybe_rotate w d =
     (if ww_max_segment_size w \<le> ww_segment_bytes w then next_segment w d else Inr (w, d))"

text \<open>Writing a buffer to the open segment; without one, \<^verbatim>\<open>unwrap\<close> panics.\<close>

definition wal_write :: "byte list \<Rightarrow> wal_writer \<Rightarrow> wal_files \<Rightarrow> (lsm_error, wal_writer \<times> wal_files) result" where
  "wal_write bs w d =
     (if ww_writer w
      then Inr (w\<lparr>ww_segment_bytes := ww_segment_bytes w + length bs\<rparr>, segment_append (ww_segment_num w) bs d)
      else Inl Panic)"

text \<open>\<^verbatim>\<open>log_insert\<close> and \<^verbatim>\<open>log_delete\<close>.\<close>

definition log_op :: "checksum \<Rightarrow> wal_op \<Rightarrow> wal_writer \<Rightarrow> wal_files \<Rightarrow> (lsm_error, wal_writer \<times> wal_files) result" where
  "log_op crc op w d =
     (if \<not> ww_enabled w then Inr (w, d)
      else rbind (maybe_rotate w d) (\<lambda>(w, d). wal_write (wal_frame crc op) w d))"

definition log_insert :: "checksum \<Rightarrow> key \<Rightarrow> lsm_value \<Rightarrow> wal_writer \<Rightarrow> wal_files \<Rightarrow> (lsm_error, wal_writer \<times> wal_files) result" where
  "log_insert crc k v = log_op crc (WInsert k v)"

definition log_delete :: "checksum \<Rightarrow> key \<Rightarrow> wal_writer \<Rightarrow> wal_files \<Rightarrow> (lsm_error, wal_writer \<times> wal_files) result" where
  "log_delete crc k = log_op crc (WDelete k)"

definition batch_ops :: "(key \<times> lsm_value) list \<Rightarrow> key list \<Rightarrow> wal_op list" where
  "batch_ops inserts deletes = map (\<lambda>(k, v). WInsert k v) inserts @ map WDelete deletes"

definition log_batch ::
  "checksum \<Rightarrow> (key \<times> lsm_value) list \<Rightarrow> key list \<Rightarrow> wal_writer \<Rightarrow> wal_files \<Rightarrow>
     (lsm_error, wal_writer \<times> wal_files) result" where
  "log_batch crc inserts deletes w d =
     (if \<not> ww_enabled w \<or> (inserts = [] \<and> deletes = []) then Inr (w, d)
      else rbind (maybe_rotate w d) (\<lambda>(w, d).
             wal_write (concat (map (wal_frame crc) (batch_ops inserts deletes))) w d))"

definition wal_clear :: "wal_writer \<Rightarrow> wal_files \<Rightarrow> (lsm_error, wal_writer \<times> wal_files) result" where
  "wal_clear w d =
     (if \<not> ww_enabled w then Inr (w, d)
      else next_segment (w\<lparr>ww_writer := False\<rparr>) (map_option (\<lambda>_. []) d))"


section \<open>Replay\<close>

definition corrupt :: "nat \<Rightarrow> 'a option \<Rightarrow> (lsm_error, 'a) result" where
  "corrupt offset r = (case r of None \<Rightarrow> Inl (WalCorruption offset) | Some x \<Rightarrow> Inr x)"

definition parse_payload :: "nat \<Rightarrow> byte list \<Rightarrow> (lsm_error, wal_op) result" where
  "parse_payload offset payload =
     rbind (corrupt offset (read_exact 1 payload)) (\<lambda>(op_tag, c).
     rbind (corrupt offset (read_le 2 c)) (\<lambda>(key_len, c).
     rbind (corrupt offset (read_exact key_len c)) (\<lambda>(k, c).
     if op_tag = [op_insert] then
       rbind (corrupt offset (read_le 2 c)) (\<lambda>(value_len, c).
       rbind (corrupt offset (read_exact value_len c)) (\<lambda>(v, c). Inr (WInsert k v)))
     else if op_tag = [op_delete] then Inr (WDelete k)
     else Inl (WalCorruption offset))))"

text \<open>One entry: the operation, the number of bytes consumed, and the rest of the segment.\<close>

definition read_wal_entry :: "checksum \<Rightarrow> nat \<Rightarrow> byte list \<Rightarrow> (lsm_error, (wal_op \<times> nat) \<times> byte list) result" where
  "read_wal_entry crc offset bs =
     rbind (corrupt offset (read_le 4 bs)) (\<lambda>(total_len, bs).
     rbind (corrupt offset (read_exact total_len bs)) (\<lambda>(payload, bs).
     rbind (corrupt offset (read_le 4 bs)) (\<lambda>(expected_crc, bs).
     if unat (crc payload) \<noteq> expected_crc then Inl (WalCorruption offset)
     else rbind (parse_payload offset payload) (\<lambda>op. Inr ((op, 4 + total_len + 4), bs)))))"

lemma corrupt_Inr: "corrupt o1 r = Inr x \<longleftrightarrow> r = Some x"
  by (cases r) (simp_all add: corrupt_def)

lemma read_wal_entry_shorter:
  assumes "read_wal_entry crc offset bs = Inr ((op, n), rest)"
  shows "length rest < length bs"
  using assms unfolding read_wal_entry_def
  by (auto simp: rbind_Inr_iff corrupt_Inr split: if_splits dest!: read_le_SomeD read_exact_SomeD)

function replay_bytes :: "checksum \<Rightarrow> nat \<Rightarrow> byte list \<Rightarrow> wal_op list" where
  "replay_bytes crc offset bs =
     (if bs = [] then []
      else case read_wal_entry crc offset bs of
        Inr ((op, n), rest) \<Rightarrow> op # replay_bytes crc (offset + n) rest
      | Inl e \<Rightarrow> [])"
  by pat_completeness auto
termination
  by (relation "measure (\<lambda>(crc, offset, bs). length bs)") (auto intro: read_wal_entry_shorter)

declare replay_bytes.simps [simp del]

definition replay_segment :: "checksum \<Rightarrow> byte list \<Rightarrow> wal_op list" where
  "replay_segment crc bs = replay_bytes crc 0 bs"

definition replay_wal :: "checksum \<Rightarrow> wal_files \<Rightarrow> wal_op list" where
  "replay_wal crc d =
     (case d of
        None \<Rightarrow> []
      | Some fs \<Rightarrow> concat (map (replay_segment crc \<circ> snd) (sort_key (segment_name \<circ> fst) fs)))"


section \<open>Entries come back\<close>

text \<open>What is read back of an operation: the value length is written with 16 bits, so only that
  part of a longer value returns.\<close>

definition logged :: "wal_op \<Rightarrow> wal_op" where
  "logged op = (case op of
     WInsert k v \<Rightarrow> WInsert k (take (length v mod 2 ^ 16) v) | WDelete k \<Rightarrow> WDelete k)"

definition op_key :: "wal_op \<Rightarrow> key" where
  "op_key op = (case op of WInsert k v \<Rightarrow> k | WDelete k \<Rightarrow> k)"

definition op_framed :: "wal_op \<Rightarrow> bool" where
  "op_framed op \<longleftrightarrow> length (op_key op) < 2 ^ 16 \<and> length (wal_payload op) < 2 ^ 32"

definition op_fits :: "wal_op \<Rightarrow> bool" where
  "op_fits op \<longleftrightarrow> (case op of WInsert k v \<Rightarrow> length k < 2 ^ 16 \<and> length v < 2 ^ 16 | WDelete k \<Rightarrow> length k < 2 ^ 16)"

lemma op_fits_framed: "op_fits op \<Longrightarrow> op_framed op"
  by (auto simp: op_fits_def op_framed_def op_key_def wal_payload_def split: wal_op.splits)

lemma logged_fits: "op_fits op \<Longrightarrow> logged op = op"
  by (auto simp: op_fits_def logged_def split: wal_op.splits)

lemma corrupt_simps [simp]: "corrupt off None = Inl (WalCorruption off)" "corrupt off (Some x) = Inr x"
  by (simp_all add: corrupt_def)

lemma parse_payload_ok: "length (op_key op) < 2 ^ 16 \<Longrightarrow> parse_payload off (wal_payload op) = Inr (logged op)"
proof (cases op)
  case (WInsert k v)
  have "read_exact (length v mod 65536) v = Some (take (length v mod 65536) v, drop (length v mod 65536) v)"
    by (simp add: read_exact_def not_less)
  moreover assume "length (op_key op) < 2 ^ 16"
  ultimately show ?thesis
    using read_le_append_mod [of 2 "length v" v]
    by (simp add: WInsert parse_payload_def wal_payload_def logged_def op_key_def read_le_append
        read_exact_append [of "[_]" 1, simplified])
next
  case (WDelete k)
  assume "length (op_key op) < 2 ^ 16"
  then show ?thesis using read_exact_append [of k "length k" "[]"] read_le_append [of "length k" 2 k]
    by (simp add: WDelete parse_payload_def wal_payload_def logged_def op_key_def
        op_insert_def op_delete_def read_exact_append [of "[_]" 1, simplified])
qed

lemma length_wal_frame: "length (wal_frame crc op) = 4 + length (wal_payload op) + 4"
  by (simp add: wal_frame_def)

lemma crc_less: "unat (crc bs :: 32 word) < 4294967296"
  using unsigned_less [of "crc bs", where 'a = nat] by simp

lemma read_wal_entry_frame [codec]:
  assumes "op_framed op"
  shows "read_wal_entry crc off (wal_frame crc op @ r) = Inr ((logged op, length (wal_frame crc op)), r)"
  using assms crc_less [of crc "wal_payload op"] unfolding length_wal_frame
  by (simp add: read_wal_entry_def wal_frame_def op_framed_def read_le_append parse_payload_ok)

text \<open>An entry of which not all bytes are there is rejected, whatever the checksum function.\<close>

lemma read_wal_entry_torn:
  assumes "op_framed op" and "n < length (wal_frame crc op)"
  shows "read_wal_entry crc off (take n (wal_frame crc op)) = Inl (WalCorruption off)"
proof -
  let ?p = "wal_payload op"
  have len: "length ?p < 4294967296" using assms(1) by (simp add: op_framed_def)
  consider "n < 4" | "4 \<le> n" "n < 4 + length ?p" | "4 + length ?p \<le> n" by linarith
  then show ?thesis
  proof cases
    case 1
    then show ?thesis using assms(2) by (simp add: read_wal_entry_def read_le_def read_exact_def)
  next
    case 2
    then have "take n (wal_frame crc op) = le_bytes 4 (length ?p) @ take (n - 4) ?p"
      by (simp add: wal_frame_def)
    moreover have "read_exact (length ?p) (take (n - 4) ?p) = None" using 2 by (simp add: read_exact_def)
    ultimately show ?thesis using len by (simp add: read_wal_entry_def read_le_append)
  next
    case 3
    then have "take n (wal_frame crc op) = le_bytes 4 (length ?p) @ ?p @ take (n - 4 - length ?p) (le_bytes 4 (unat (crc ?p)))"
      by (simp add: wal_frame_def)
    moreover have "read_le 4 (take (n - 4 - length ?p) (le_bytes 4 (unat (crc ?p)))) = None"
      using 3 assms(2) by (simp add: length_wal_frame read_le_def read_exact_def)
    ultimately show ?thesis using len by (simp add: read_wal_entry_def read_le_append)
  qed
qed

definition wal_bytes :: "checksum \<Rightarrow> wal_op list \<Rightarrow> byte list" where
  "wal_bytes crc ops = concat (map (wal_frame crc) ops)"

text \<open>A segment cut after \<open>n\<close> bytes replays the operations that lie completely before the cut.\<close>

lemma replay_cut:
  assumes "list_all op_framed ops"
  shows "\<exists>m\<le>length ops. replay_bytes crc off (take n (wal_bytes crc ops)) = map logged (take m ops) \<and>
    length (wal_bytes crc (take m ops)) \<le> n \<and>
    (m < length ops \<longrightarrow> n < length (wal_bytes crc (take (Suc m) ops)))"
    (is "\<exists>m\<le>length ops. ?P off n ops m")
  using assms
proof (induction ops arbitrary: off n)
  case Nil
  then show ?case by (simp add: wal_bytes_def replay_bytes.simps)
next
  case (Cons op ops)
  let ?f = "wal_frame crc op"
  show ?case
  proof (cases "length ?f \<le> n")
    case True
    from Cons obtain m where m: "m \<le> length ops" "?P (off + length ?f) (n - length ?f) ops m" by auto
    have "take n (wal_bytes crc (op # ops)) = ?f @ take (n - length ?f) (wal_bytes crc ops)"
      using True by (simp add: wal_bytes_def)
    moreover have "?f \<noteq> []" using length_wal_frame [of crc op] by auto
    ultimately have "replay_bytes crc off (take n (wal_bytes crc (op # ops))) =
        logged op # replay_bytes crc (off + length ?f) (take (n - length ?f) (wal_bytes crc ops))"
      using Cons.prems by (subst replay_bytes.simps) (simp add: read_wal_entry_frame)
    with m True show ?thesis by (intro exI [of _ "Suc m"]) (auto simp: wal_bytes_def)
  next
    case False
    then have "take n (wal_bytes crc (op # ops)) = take n ?f" by (simp add: wal_bytes_def)
    with False Cons.prems have "replay_bytes crc off (take n (wal_bytes crc (op # ops))) = []"
      using read_wal_entry_torn [of op n crc off] by (subst replay_bytes.simps) simp
    with False show ?thesis by (intro exI [of _ 0]) (auto simp: wal_bytes_def)
  qed
qed

lemma replay_segment_ok:
  assumes "list_all op_framed ops"
  shows "replay_segment crc (wal_bytes crc ops) = map logged ops"
proof -
  let ?n = "length (wal_bytes crc ops)"
  from replay_cut [OF assms, of crc 0 ?n] obtain m where
    m: "m \<le> length ops" "replay_bytes crc 0 (take ?n (wal_bytes crc ops)) = map logged (take m ops)"
      "m < length ops \<longrightarrow> ?n < length (wal_bytes crc (take (Suc m) ops))" by blast
  have "length (wal_bytes crc (take k ops)) \<le> ?n" for k
    unfolding wal_bytes_def by (metis append_take_drop_id concat_append le_add1 length_append map_append)
  with m(1,3) have "m = length ops" by (meson le_neq_implies_less not_less)
  with m(2) show ?thesis by (simp add: replay_segment_def)
qed


section \<open>The order of segment names\<close>

text \<open>Fixed-width decimals are ordered as numbers.\<close>

fun fixed_digits :: "nat \<Rightarrow> nat \<Rightarrow> nat list" where
  "fixed_digits 0 n = []"
| "fixed_digits (Suc w) n = fixed_digits w (n div 10) @ [n mod 10]"

lemma length_fixed_digits [simp]: "length (fixed_digits w n) = w"
  by (induction w arbitrary: n) simp_all

lemma fixed_digits_0: "fixed_digits w 0 = replicate w 0"
  by (induction w) (simp_all add: replicate_append_same)

lemma fixed_digits_dec: "n < 10 ^ Suc w \<Longrightarrow>
  replicate (Suc w - length (dec_digits n)) 0 @ dec_digits n = fixed_digits (Suc w) n"
proof (induction w arbitrary: n)
  case 0
  then show ?case by (simp add: dec_digits.simps)
next
  case (Suc w)
  show ?case
  proof (cases "n < 10")
    case True
    then have "dec_digits n = [n]" "n div 10 = 0" "n mod 10 = n" by (simp_all add: dec_digits.simps)
    then show ?thesis by (simp add: fixed_digits_0 replicate_append_same)
  next
    case False
    then have "dec_digits n = dec_digits (n div 10) @ [n mod 10]" by (subst dec_digits.simps) simp
    moreover have "n div 10 < 10 ^ Suc w" using Suc.prems by (simp add: less_mult_imp_div_less)
    ultimately show ?thesis using Suc.IH [of "n div 10"] by simp
  qed
qed

lemma append_less_same_length:
  fixes xs ys :: "'a::linorder list"
  shows "length xs = length ys \<Longrightarrow> xs @ us < ys @ vs \<longleftrightarrow> xs < ys \<or> xs = ys \<and> us < vs"
proof (induction xs arbitrary: ys)
  case (Cons x xs)
  then obtain y zs where "ys = y # zs" "length xs = length zs" by (cases ys) auto
  with Cons.IH [of zs] show ?case by auto
qed simp

lemma fixed_digits_less:
  "n < m \<Longrightarrow> m < 10 ^ w \<Longrightarrow> fixed_digits w n < fixed_digits w m"
proof (induction w arbitrary: n m)
  case (Suc w)
  have m10: "m div 10 < 10 ^ w" using Suc.prems by (simp add: less_mult_imp_div_less)
  consider "n div 10 < m div 10" | "n div 10 = m div 10" "n mod 10 < m mod 10"
    using Suc.prems(1) by (metis div_le_mono div_mult_mod_eq le_neq_implies_less less_imp_le_nat nat_add_left_cancel_less)
  then show ?case
    using Suc.IH [of "n div 10" "m div 10"] m10 by cases (auto simp: append_less_same_length)
qed simp

lemma fixed_digits_small: "d \<in> set (fixed_digits w n) \<Longrightarrow> d < 10"
  by (induction w arbitrary: n) auto

lemma map_char_less:
  "\<lbrakk>xs < ys; \<forall>d\<in>set xs \<union> set ys. d < 10\<rbrakk> \<Longrightarrow>
     map (\<lambda>d. char_of (48 + d)) xs < (map (\<lambda>d. char_of (48 + d)) ys :: string)"
  for xs ys :: "nat list"
proof (induction xs arbitrary: ys)
  case Nil
  then show ?case by (cases ys) auto
next
  case (Cons x xs)
  then obtain y zs where ys: "ys = y # zs" by (cases ys) auto
  have "char_of (48 + x) < (char_of (48 + y) :: char) \<longleftrightarrow> x < y"
    using Cons.prems(2) by (simp add: ys less_char_def)
  with Cons ys show ?case by auto
qed

lemma length_dec_digits: "10 ^ w \<le> n \<Longrightarrow> n < 10 ^ Suc w \<Longrightarrow> length (dec_digits n) = Suc w"
proof (induction w arbitrary: n)
  case 0
  then show ?case by (simp add: dec_digits.simps)
next
  case (Suc w)
  have "(10 :: nat) \<le> 10 ^ Suc w" by (rule self_le_power) simp_all
  then have "10 \<le> n" using Suc.prems(1) by (rule order_trans)
  moreover have "10 ^ w \<le> n div 10" using Suc.prems(1) by (simp add: less_eq_div_iff_mult_less_eq)
  moreover have "n div 10 < 10 ^ Suc w" using Suc.prems(2) by (simp add: less_mult_imp_div_less)
  ultimately show ?case using Suc.IH [of "n div 10"] by (subst dec_digits.simps) simp
qed

text \<open>Numbers of up to six digits, and of seven, are named by that many digits.\<close>

lemma name_digits:
  "n < 1000000 \<Longrightarrow> pad6 (dec_digits n) = fixed_digits 6 n"
  "1000000 \<le> n \<Longrightarrow> n < 10000000 \<Longrightarrow> pad6 (dec_digits n) = fixed_digits 6 (n div 10) @ [n mod 10]"
proof -
  show six: "pad6 (dec_digits n) = fixed_digits 6 n" if "n < 1000000" for n
    using fixed_digits_dec [of n 5] that by (simp add: pad6_def)
  assume n: "1000000 \<le> n" "n < 10000000"
  then have "n div 10 < 1000000" "100000 \<le> n div 10" by (simp_all add: less_mult_imp_div_less)
  then have "length (dec_digits (n div 10)) = 6" using length_dec_digits [of 5 "n div 10"] by simp
  moreover have "dec_digits n = dec_digits (n div 10) @ [n mod 10]" using n by (subst dec_digits.simps) simp
  ultimately show "pad6 (dec_digits n) = fixed_digits 6 (n div 10) @ [n mod 10]"
    using six [of "n div 10"] \<open>n div 10 < 1000000\<close> by (simp add: pad6_def)
qed

text \<open>The order of names that start with six digits.\<close>

definition name_chars :: "nat \<Rightarrow> string" where
  "name_chars n = map (\<lambda>d. char_of (48 + d)) (fixed_digits 6 n)"

lemma name_chars_less: "a < b \<Longrightarrow> b < 1000000 \<Longrightarrow> name_chars a < name_chars b"
  using fixed_digits_less [of a b 6]
  by (auto simp: name_chars_def intro!: map_char_less dest: fixed_digits_small)

lemma six_digits_less:
  assumes "n < 1000000" and "m < 1000000"
  shows "name_chars n @ us < name_chars m @ vs \<longleftrightarrow> n < m \<or> n = m \<and> us < vs"
proof -
  have len: "length (name_chars n) = length (name_chars m)" by (simp add: name_chars_def)
  consider "n < m" | "n = m" | "m < n" by linarith
  then show ?thesis
    unfolding append_less_same_length [OF len]
    using name_chars_less [of n m] name_chars_less [of m n] assms by cases (simp_all add: less_not_sym)
qed

lemma segment_names:
  "n < 1000000 \<Longrightarrow> segment_name n = ''wal-'' @ name_chars n @ ''.log''"
  "1000000 \<le> n \<Longrightarrow> n < 10000000 \<Longrightarrow>
    segment_name n = ''wal-'' @ name_chars (n div 10) @ char_of (48 + n mod 10) # ''.log''"
  by (simp_all add: segment_name_def name_digits name_chars_def)

text \<open>The names of segments below ten million are in the order of the numbers, except that a
  number of seven digits sorts before one of six that is greater than its first six.\<close>

lemma segment_name_order:
  assumes "i < j" and "j < 10000000"
  shows "segment_name j < segment_name i \<longleftrightarrow> i < 1000000 \<and> 1000000 \<le> j \<and> j div 10 < i"
proof -
  have "j div 10 < 1000000" "i div 10 < 1000000" using assms by (simp_all add: less_mult_imp_div_less)
  moreover have "char_of (48 + d) < (char_of (48 + e) :: char) \<longleftrightarrow> d < e" if "d < 10" "e < 10" for d e :: nat
    using that by (simp add: less_char_def)
  moreover have dot: "CHR ''.'' < char_of (48 + d)" if "d < 10" for d :: nat
    using that by (simp add: less_char_def)
  moreover have "\<not> char_of (48 + d) < CHR ''.''" "char_of (48 + d) \<noteq> CHR ''.''" if "d < 10" for d :: nat
    using dot [OF that] by auto
  moreover have "\<not> (j div 10 < i div 10 \<or> j div 10 = i div 10 \<and> j mod 10 < i mod 10)"
    using assms(1) by (metis div_le_mono div_mult_mod_eq less_imp_le_nat nat_add_left_cancel_less not_le order.asym)
  ultimately show ?thesis
    using assms segment_names by (cases "i < 1000000"; cases "j < 1000000") (auto simp: six_digits_less)
qed

lemma segment_name_less: "n < m \<Longrightarrow> m < 1000000 \<Longrightarrow> segment_name n < segment_name m"
  by (simp add: segment_names six_digits_less)


section \<open>What the log holds\<close>

text \<open>The segments are in the order of their numbers and hold the operations one after the other;
  the writer is on the last one.\<close>

definition wal_segments :: "checksum \<Rightarrow> (nat \<times> wal_op list) list \<Rightarrow> (nat \<times> byte list) list" where
  "wal_segments crc segs = map (\<lambda>(n, os). (n, wal_bytes crc os)) segs"

definition files_hold :: "checksum \<Rightarrow> wal_files \<Rightarrow> wal_op list \<Rightarrow> nat \<Rightarrow> bool" where
  "files_hold crc d ops hi \<longleftrightarrow>
     (case d of
        None \<Rightarrow> ops = []
      | Some fs \<Rightarrow> \<exists>segs. fs = wal_segments crc segs \<and> concat (map snd segs) = ops \<and>
          sorted_wrt (<) (map fst segs) \<and> (\<forall>n\<in>set (map fst segs). n \<le> hi))"

definition wal_holds :: "checksum \<Rightarrow> wal_writer \<Rightarrow> wal_files \<Rightarrow> wal_op list \<Rightarrow> bool" where
  "wal_holds crc w d ops \<longleftrightarrow> ww_writer w \<and>
     (\<exists>segs os. d = Some (wal_segments crc (segs @ [(ww_segment_num w, os)])) \<and>
        concat (map snd segs) @ os = ops \<and> sorted_wrt (<) (map fst segs @ [ww_segment_num w]))"

lemma wal_holds_files: "wal_holds crc w d ops \<Longrightarrow> files_hold crc d ops (ww_segment_num w)"
proof -
  assume "wal_holds crc w d ops"
  then obtain segs os where d: "d = Some (wal_segments crc (segs @ [(ww_segment_num w, os)]))"
    and s: "concat (map snd segs) @ os = ops" "sorted_wrt (<) (map fst segs @ [ww_segment_num w])"
    by (auto simp: wal_holds_def)
  from s(2) have "\<forall>n\<in>set (map fst (segs @ [(ww_segment_num w, os)])). n \<le> ww_segment_num w"
    by (fastforce simp: sorted_wrt_append)
  with d s show ?thesis unfolding files_hold_def
    by (auto intro!: exI [of _ "segs @ [(ww_segment_num w, os)]"])
qed

lemma wal_bytes_append: "wal_bytes crc (xs @ ys) = wal_bytes crc xs @ wal_bytes crc ys"
  by (simp add: wal_bytes_def)

lemma next_segment_ok:
  assumes "files_hold crc d ops (ww_segment_num w)" and "d \<noteq> None"
  shows "\<exists>w' d'. next_segment w d = Inr (w', d') \<and> wal_holds crc w' d' ops \<and>
    ww_segment_num w' = ww_segment_num w + 1 \<and> ww_enabled w' = ww_enabled w"
proof -
  let ?n = "ww_segment_num w + 1"
  from assms obtain segs where d: "d = Some (wal_segments crc segs)"
    and s: "concat (map snd segs) = ops" "sorted_wrt (<) (map fst segs)" "\<forall>n\<in>set (map fst segs). n \<le> ww_segment_num w"
    by (auto simp: files_hold_def)
  have "?n \<notin> fst ` set (wal_segments crc segs)" using s(3) by (force simp: wal_segments_def)
  then have "next_segment w d = Inr (w\<lparr>ww_segment_num := ?n, ww_segment_bytes := 0, ww_writer := True\<rparr>,
      Some (wal_segments crc (segs @ [(?n, [])])))"
    by (simp add: next_segment_def open_segment_def d wal_segments_def wal_bytes_def)
  moreover have "sorted_wrt (<) (map fst segs @ [?n])"
    using s(2,3) by (auto simp: sorted_wrt_append le_imp_less_Suc)
  ultimately show ?thesis using s(1) unfolding wal_holds_def
    by (intro exI conjI) (assumption | simp)+
qed

lemma maybe_rotate_ok:
  assumes "wal_holds crc w d ops"
  shows "\<exists>w' d'. maybe_rotate w d = Inr (w', d') \<and> wal_holds crc w' d' ops \<and>
    ww_segment_num w' \<le> ww_segment_num w + 1 \<and> ww_enabled w' = ww_enabled w"
proof (cases "ww_max_segment_size w \<le> ww_segment_bytes w")
  case True
  have "d \<noteq> None" using assms by (auto simp: wal_holds_def)
  from next_segment_ok [OF wal_holds_files [OF assms] this] True show ?thesis
    by (auto simp: maybe_rotate_def)
next
  case False
  with assms show ?thesis by (simp add: maybe_rotate_def)
qed

lemma wal_write_ok:
  assumes "wal_holds crc w d ops"
  shows "\<exists>w' d'. wal_write (wal_bytes crc new) w d = Inr (w', d') \<and> wal_holds crc w' d' (ops @ new) \<and>
    ww_segment_num w' = ww_segment_num w \<and> ww_enabled w' = ww_enabled w"
proof -
  let ?n = "ww_segment_num w"
  from assms obtain segs os where w: "ww_writer w" and d: "d = Some (wal_segments crc (segs @ [(?n, os)]))"
    and s: "concat (map snd segs) @ os = ops" "sorted_wrt (<) (map fst segs @ [?n])"
    by (auto simp: wal_holds_def)
  have "map (\<lambda>(m, b). (m, if m = ?n then b @ bs else b)) (wal_segments crc segs) = wal_segments crc segs" for bs
    using s(2) by (auto simp: wal_segments_def sorted_wrt_append)
  then have "segment_append ?n (wal_bytes crc new) d = Some (wal_segments crc (segs @ [(?n, os @ new)]))"
    by (simp add: segment_append_def d wal_segments_def wal_bytes_append)
  then have "wal_write (wal_bytes crc new) w d =
      Inr (w\<lparr>ww_segment_bytes := ww_segment_bytes w + length (wal_bytes crc new)\<rparr>,
           Some (wal_segments crc (segs @ [(?n, os @ new)])))"
    using w by (simp add: wal_write_def)
  with w s show ?thesis unfolding wal_holds_def
    by (auto intro!: exI [of _ segs] exI [of _ "os @ new"])
qed

lemma rotate_write_ok:
  assumes "wal_holds crc w d ops"
  shows "\<exists>w' d'. rbind (maybe_rotate w d) (\<lambda>(w, d). wal_write (wal_bytes crc new) w d) = Inr (w', d') \<and>
    wal_holds crc w' d' (ops @ new) \<and> ww_segment_num w' \<le> ww_segment_num w + 1 \<and> ww_enabled w' = ww_enabled w"
proof -
  from maybe_rotate_ok [OF assms] obtain w1 d1 where
    r: "maybe_rotate w d = Inr (w1, d1)" "wal_holds crc w1 d1 ops"
      "ww_segment_num w1 \<le> ww_segment_num w + 1" "ww_enabled w1 = ww_enabled w" by blast
  with wal_write_ok [OF r(2), of new] show ?thesis by auto
qed

lemma log_op_ok:
  assumes "wal_holds crc w d ops" and "ww_enabled w"
  shows "\<exists>w' d'. log_op crc op w d = Inr (w', d') \<and> wal_holds crc w' d' (ops @ [op]) \<and>
    ww_segment_num w' \<le> ww_segment_num w + 1 \<and> ww_enabled w'"
  using rotate_write_ok [OF assms(1), of "[op]"] assms(2) by (simp add: log_op_def wal_bytes_def)

lemma log_batch_ok:
  assumes "wal_holds crc w d ops" and "ww_enabled w"
  shows "\<exists>w' d'. log_batch crc ins dels w d = Inr (w', d') \<and> wal_holds crc w' d' (ops @ batch_ops ins dels) \<and>
    ww_segment_num w' \<le> ww_segment_num w + 1 \<and> ww_enabled w'"
proof (cases "ins = [] \<and> dels = []")
  case True
  with assms show ?thesis by (simp add: log_batch_def batch_ops_def)
next
  case False
  with rotate_write_ok [OF assms(1), of "batch_ops ins dels"] assms(2) show ?thesis
    by (auto simp: log_batch_def wal_bytes_def)
qed

lemma wal_clear_ok:
  assumes "wal_holds crc w d ops" and "ww_enabled w"
  shows "\<exists>w' d'. wal_clear w d = Inr (w', d') \<and> wal_holds crc w' d' [] \<and>
    ww_segment_num w' = ww_segment_num w + 1 \<and> ww_enabled w'"
proof -
  have "files_hold crc (Some []) [] (ww_segment_num (w\<lparr>ww_writer := False\<rparr>))"
    by (auto simp: files_hold_def wal_segments_def intro!: exI [of _ "[]"])
  from next_segment_ok [OF this] show ?thesis
    using assms by (auto simp: wal_clear_def wal_holds_def)
qed

lemma fold_max_ge: "x \<in> set xs \<Longrightarrow> x \<le> fold max xs (a::nat)"
proof (induction xs arbitrary: a)
  case (Cons y ys)
  have "a \<le> fold max ys a" for a :: nat by (induction ys arbitrary: a) (auto intro: le_trans max.cobounded2)
  from this [of "max y a"] Cons show ?case by auto
qed simp

lemma wal_new_ok:
  assumes "files_hold crc d ops hi"
  shows "\<exists>w d'. wal_new sz True d = Inr (w, d') \<and> wal_holds crc w d' ops \<and> ww_enabled w"
proof -
  let ?d = "if d = None then Some [] else d"
  let ?w = "\<lparr>ww_writer = True, ww_segment_num = find_max_segment ?d, ww_segment_bytes = 0,
             ww_max_segment_size = sz, ww_enabled = True\<rparr>"
  have "files_hold crc ?d ops (find_max_segment ?d)"
  proof (cases d)
    case None
    with assms show ?thesis by (simp add: files_hold_def wal_segments_def)
  next
    case (Some fs)
    with assms obtain segs where s: "fs = wal_segments crc segs" "concat (map snd segs) = ops"
      "sorted_wrt (<) (map fst segs)" by (auto simp: files_hold_def)
    have "map fst fs = map fst segs" by (auto simp: s(1) wal_segments_def)
    then have "\<forall>n\<in>set (map fst segs). n \<le> find_max_segment d"
      using fold_max_ge [of _ "map fst segs" 0] by (auto simp: find_max_segment_def Some)
    with s show ?thesis by (auto simp: files_hold_def Some)
  qed
  moreover have "?d \<noteq> None" by simp
  ultimately obtain w' d' where
    n: "next_segment ?w ?d = Inr (w', d')" "wal_holds crc w' d' ops" "ww_enabled w' = ww_enabled ?w"
    using next_segment_ok [of crc ?d ops ?w] by auto
  have "wal_new sz True d = next_segment ?w ?d"
    by (simp add: wal_new_def next_segment_def Let_def)
  with n show ?thesis by auto
qed

lemma sort_key_sorted: "sorted (map f xs) \<Longrightarrow> sort_key f xs = xs"
  by (induction xs) (auto simp: insort_is_Cons)

lemma replay_wal_ok:
  assumes "files_hold crc d ops hi" and "list_all op_fits ops" and "hi < 1000000"
  shows "replay_wal crc d = ops"
proof (cases d)
  case None
  with assms show ?thesis by (simp add: files_hold_def replay_wal_def)
next
  case (Some fs)
  with assms(1) obtain segs where s: "fs = wal_segments crc segs" "concat (map snd segs) = ops"
    "sorted_wrt (<) (map fst segs)" "\<forall>n\<in>set (map fst segs). n \<le> hi" by (auto simp: files_hold_def)
  have "sorted (map (segment_name \<circ> fst) fs)"
  proof -
    have "segment_name (map fst segs ! i) < segment_name (map fst segs ! j)"
      if "i < j" "j < length (map fst segs)" for i j
      using s(3,4) assms(3) that by (intro segment_name_less) (auto simp: sorted_wrt_iff_nth_less intro: le_less_trans)
    then have "sorted_wrt (<) (map segment_name (map fst segs))" by (simp add: sorted_wrt_iff_nth_less)
    then show ?thesis by (simp add: s(1) wal_segments_def comp_def split_beta strict_sorted_imp_sorted)
  qed
  moreover have "replay_segment crc (wal_bytes crc os) = os" if "(n, os) \<in> set segs" for n os
  proof -
    have "set os \<subseteq> set ops" using that s(2) by force
    then have f: "list_all op_fits os" using assms(2) by (auto simp: list_all_iff)
    then have "list_all op_framed os" by (auto simp: list_all_iff op_fits_framed)
    moreover have "map logged os = os" using f by (intro map_idI) (auto simp: list_all_iff logged_fits)
    ultimately show ?thesis by (simp add: replay_segment_ok)
  qed
  then have "map (replay_segment crc \<circ> snd) fs = map snd segs" by (auto simp: s(1) wal_segments_def)
  ultimately show ?thesis using s(2) by (simp add: replay_wal_def Some sort_key_sorted)
qed

end
