(* ===== verification/Utf8.thy ===== *)
theory Utf8
  imports Prelude
begin

text \<open>
  The check of \<^verbatim>\<open>String::from_utf8\<close>, used for labels in the storage engine and for the strings of
  Plutus Core.  A string is the list of its UTF-8 bytes.
\<close>

text \<open>\<^verbatim>\<open>String::from_utf8\<close> accepts exactly the shortest encodings of the scalar values.\<close>

definition in_bytes :: "nat \<Rightarrow> nat \<Rightarrow> byte \<Rightarrow> bool" where
  "in_bytes lo hi b \<longleftrightarrow> lo \<le> unat b \<and> unat b \<le> hi"

definition cont_bytes :: "byte list \<Rightarrow> bool" where
  "cont_bytes bs = list_all (in_bytes 0x80 0xBF) bs"

text \<open>The number of bytes of the scalar value at the front, if there is one.\<close>

definition utf8_step :: "byte list \<Rightarrow> nat option" where
  "utf8_step bs =
     (case bs of
        [] \<Rightarrow> None
      | b # r \<Rightarrow>
          if unat b < 0x80 then Some 1
          else if in_bytes 0xC2 0xDF b \<and> 1 \<le> length r \<and> cont_bytes (take 1 r) then Some 2
          else if in_bytes 0xE0 0xEF b \<and> 2 \<le> length r \<and> cont_bytes (take 2 r) \<and>
               (unat b = 0xE0 \<longrightarrow> 0xA0 \<le> unat (hd r)) \<and> (unat b = 0xED \<longrightarrow> unat (hd r) \<le> 0x9F) then Some 3
          else if in_bytes 0xF0 0xF4 b \<and> 3 \<le> length r \<and> cont_bytes (take 3 r) \<and>
               (unat b = 0xF0 \<longrightarrow> 0x90 \<le> unat (hd r)) \<and> (unat b = 0xF4 \<longrightarrow> unat (hd r) \<le> 0x8F) then Some 4
          else None)"

lemma utf8_step_pos: "utf8_step bs = Some n \<Longrightarrow> 0 < n \<and> bs \<noteq> []"
  by (auto simp: utf8_step_def split: list.splits if_splits)

function utf8_valid :: "byte list \<Rightarrow> bool" where
  "utf8_valid bs = (bs = [] \<or> (case utf8_step bs of None \<Rightarrow> False | Some n \<Rightarrow> utf8_valid (drop n bs)))"
  by pat_completeness auto
termination
  by (relation "measure length") (auto dest: utf8_step_pos)

declare utf8_valid.simps [simp del]

lemma utf8_ascii: "list_all (\<lambda>b. unat b < 0x80) bs \<Longrightarrow> utf8_valid bs"
  by (induction bs) (simp_all add: utf8_valid.simps utf8_step_def)

text \<open>\<^verbatim>\<open>s.chars().count()\<close>: every character has one byte that is not a continuation byte.\<close>

definition char_count :: "byte list \<Rightarrow> nat" where
  "char_count bs = length (filter (\<lambda>b. \<not> in_bytes 0x80 0xBF b) bs)"

lemma utf8_step_append:
  assumes "utf8_step a = Some n"
  shows "n \<le> length a \<and> utf8_step (a @ b) = Some n"
proof (cases a)
  case Nil
  with assms show ?thesis by (simp add: utf8_step_def)
next
  case (Cons x r)
  have hd: "r \<noteq> [] \<Longrightarrow> hd (r @ b) = hd r" by simp
  have len: "k \<le> length (r @ b) \<and> take k (r @ b) = take k r" if "k \<le> length r" for k using that by simp
  from assms Cons consider
      (1) "unat x < 0x80" "n = 1"
    | (2) "\<not> unat x < 0x80" "in_bytes 0xC2 0xDF x" "1 \<le> length r" "cont_bytes (take 1 r)" "n = 2"
    | (3) "\<not> unat x < 0x80" "\<not> in_bytes 0xC2 0xDF x" "in_bytes 0xE0 0xEF x" "2 \<le> length r" "cont_bytes (take 2 r)"
        "unat x = 0xE0 \<longrightarrow> 0xA0 \<le> unat (hd r)" "unat x = 0xED \<longrightarrow> unat (hd r) \<le> 0x9F" "n = 3"
    | (4) "\<not> unat x < 0x80" "\<not> in_bytes 0xC2 0xDF x" "\<not> in_bytes 0xE0 0xEF x" "in_bytes 0xF0 0xF4 x" "3 \<le> length r"
        "cont_bytes (take 3 r)" "unat x = 0xF0 \<longrightarrow> 0x90 \<le> unat (hd r)" "unat x = 0xF4 \<longrightarrow> unat (hd r) \<le> 0x8F" "n = 4"
    unfolding utf8_step_def by (simp split: if_splits) (auto simp: in_bytes_def)
  then show ?thesis
  proof cases
    case 1
    then show ?thesis by (simp add: Cons utf8_step_def)
  next
    case 2
    with len [of 1] show ?thesis by (simp only: Cons append_Cons utf8_step_def list.case if_False if_True) simp
  next
    case 3
    then have "hd (r @ b) = hd r" by (intro hd) auto
    with 3 len [of 2] show ?thesis by (simp only: Cons append_Cons utf8_step_def list.case) simp
  next
    case 4
    then have "hd (r @ b) = hd r" by (intro hd) auto
    with 4 len [of 3] show ?thesis by (simp only: Cons append_Cons utf8_step_def list.case) simp
  qed
qed

lemma utf8_valid_append: "utf8_valid a \<Longrightarrow> utf8_valid b \<Longrightarrow> utf8_valid (a @ b)"
proof (induction a rule: utf8_valid.induct)
  case (1 a)
  show ?case
  proof (cases "a = []")
    case False
    with 1(2) obtain n where n: "utf8_step a = Some n" "utf8_valid (drop n a)"
      by (subst (asm) utf8_valid.simps) (auto split: option.splits)
    moreover have "utf8_valid (drop n a @ b)" using 1(1) False n 1(3) by blast
    ultimately show ?thesis using utf8_step_append [OF n(1), of b] by (subst utf8_valid.simps) simp
  qed (use 1 in simp)
qed

end
