(* ===== verification/Lsm_Manifest.thy ===== *)
theory Lsm_Manifest
  imports Lsm_Page Utf8
begin

text \<open>
  The metadata record of \<^verbatim>\<open>snapshot.rs\<close>, which is also the manifest of the tree: a label, the runs
  with their levels, and the next run id.  A label is the list of its UTF-8 bytes.
\<close>

section \<open>The record and its format\<close>

record snapshot_metadata =
  sm_label :: "byte list"
  sm_runs :: "(nat \<times> nat) list"
  sm_next_run_id :: nat

definition meta_run_bytes :: "nat \<times> nat \<Rightarrow> byte list" where
  "meta_run_bytes r = le_bytes 4 (fst r) @ le_bytes 8 (snd r)"

definition meta_to_bytes :: "snapshot_metadata \<Rightarrow> byte list" where
  "meta_to_bytes m = le_bytes 2 (length (sm_label m)) @ sm_label m @ le_bytes 8 (sm_next_run_id m) @
     le_bytes 4 (length (sm_runs m)) @ concat (map meta_run_bytes (sm_runs m))"

fun meta_read_runs :: "nat \<Rightarrow> byte list \<Rightarrow> (lsm_error, (nat \<times> nat) list) result" where
  "meta_read_runs 0 bs = Inr []"
| "meta_read_runs (Suc n) bs =
     rbind (eof (read_le 4 bs)) (\<lambda>(lv, bs).
     rbind (eof (read_le 8 bs)) (\<lambda>(run_id, bs).
     rbind (meta_read_runs n bs) (\<lambda>rs. Inr ((lv, run_id) # rs))))"

definition meta_from_bytes :: "byte list \<Rightarrow> (lsm_error, snapshot_metadata) result" where
  "meta_from_bytes data =
     rbind (eof (read_le 2 data)) (\<lambda>(label_len, c).
     rbind (eof (read_exact label_len c)) (\<lambda>(label, c).
     if \<not> utf8_valid label then Inl Manifest
     else
       rbind (eof (read_le 8 c)) (\<lambda>(next_run_id, c).
       rbind (eof (read_le 4 c)) (\<lambda>(run_count, c).
       rbind (meta_read_runs run_count c) (\<lambda>rs.
         Inr \<lparr>sm_label = label, sm_runs = rs, sm_next_run_id = next_run_id\<rparr>)))))"


section \<open>Round trip\<close>

definition meta_fits :: "snapshot_metadata \<Rightarrow> bool" where
  "meta_fits m \<longleftrightarrow> length (sm_label m) < 2 ^ 16 \<and> utf8_valid (sm_label m) \<and> sm_next_run_id m < 2 ^ 64 \<and>
     length (sm_runs m) < 2 ^ 32 \<and> list_all (\<lambda>(lv, i). lv < 2 ^ 32 \<and> i < 2 ^ 64) (sm_runs m)"

lemma meta_runs_roundtrip [codec]:
  "list_all (\<lambda>(lv, i). lv < 2 ^ 32 \<and> i < 2 ^ 64) rs \<Longrightarrow>
     meta_read_runs (length rs) (concat (map meta_run_bytes rs) @ r) = Inr rs"
  by (induction rs) (auto simp: meta_run_bytes_def read_le_append)

lemma meta_roundtrip [codec]: "meta_fits m \<Longrightarrow> meta_from_bytes (meta_to_bytes m) = Inr m"
  using meta_runs_roundtrip [of "sm_runs m" "[]"]
  by (simp add: meta_from_bytes_def meta_to_bytes_def meta_fits_def read_le_append)

end
