(* ===== verification/Lsm_Tree.thy ===== *)
theory Lsm_Tree
  imports Lsm_Compaction Lsm_Wal Lsm_Manifest
begin

text \<open>
  The tree (\<^verbatim>\<open>tree.rs\<close>): the write buffer, the log, the levels of runs, and the manifest, with
  the operations that compose them.  The files of the database are part of the state.  The tree
  refines a map from keys to values, and what was written survives reopening the database from
  its files.
\<close>

record lsm_tree =
  lt_config :: lsm_config
  lt_memtable :: memtable
  lt_wal :: wal_writer
  lt_wal_files :: wal_files
  lt_store :: run_store
  lt_manifest :: "byte list option"

text \<open>The files that survive the process.\<close>

record lsm_disk =
  ds_dir :: run_dir
  ds_wal :: wal_files
  ds_manifest :: "byte list option"

definition disk_of :: "lsm_tree \<Rightarrow> lsm_disk" where
  "disk_of t = \<lparr>ds_dir = rs_dir (lt_store t), ds_wal = lt_wal_files t, ds_manifest = lt_manifest t\<rparr>"


section \<open>Manifest\<close>

definition level_runs :: "level list \<Rightarrow> (nat \<times> nat) list" where
  "level_runs levels = concat (map (\<lambda>l. map (\<lambda>i. (lv_number l, i)) (lv_run_ids l)) levels)"

text \<open>The bytes of the label \<^verbatim>\<open>"manifest"\<close>.\<close>

definition manifest_label :: "byte list" where
  "manifest_label = [0x6D, 0x61, 0x6E, 0x69, 0x66, 0x65, 0x73, 0x74]"

definition store_manifest :: "run_store \<Rightarrow> byte list" where
  "store_manifest st = meta_to_bytes
     \<lparr>sm_label = manifest_label, sm_runs = level_runs (rs_levels st), sm_next_run_id = rs_next_run_id st\<rparr>"

definition save_manifest :: "lsm_tree \<Rightarrow> lsm_tree" where
  "save_manifest t = t\<lparr>lt_manifest := Some (store_manifest (lt_store t))\<rparr>"

text \<open>One entry of the loaded metadata: a run whose files cannot be opened is left out.\<close>

definition load_run ::
  "checksum \<Rightarrow> run_dir \<Rightarrow> nat \<Rightarrow> nat \<times> nat \<Rightarrow> level list \<times> (nat \<rightharpoonup> run) \<Rightarrow>
     (lsm_error, level list \<times> (nat \<rightharpoonup> run)) result" where
  "load_run crc dir ps e s =
     (let levels = pad_levels (fst e) (fst s);
          levels = levels[fst e := add_run (snd e) (levels ! fst e)]
      in case run_open crc dir (snd e) ps of
           Inr r \<Rightarrow> Inr (levels, (snd s)(snd e \<mapsto> r))
         | Inl Panic \<Rightarrow> Inl Panic
         | Inl _ \<Rightarrow> Inr (levels[fst e := remove_run (snd e) (levels ! fst e)], snd s))"

definition load_manifest ::
  "checksum \<Rightarrow> lsm_disk \<Rightarrow> nat \<Rightarrow> (lsm_error, level list \<times> nat \<times> (nat \<rightharpoonup> run)) result" where
  "load_manifest crc d ps =
     (case ds_manifest d of
        None \<Rightarrow> Inr ([], 0, Map.empty)
      | Some bytes \<Rightarrow>
          (case meta_from_bytes bytes of
             Inl e \<Rightarrow> Inl Manifest
           | Inr m \<Rightarrow>
               rbind (rfold (load_run crc (ds_dir d) ps) (sm_runs m) ([], Map.empty)) (\<lambda>(levels, runs).
                 Inr (levels, sm_next_run_id m, runs))))"


section \<open>Open\<close>

definition op_entry :: "wal_op \<Rightarrow> entry" where
  "op_entry op = (case op of WInsert k v \<Rightarrow> (k, Some v) | WDelete k \<Rightarrow> (k, None))"

definition apply_op :: "wal_op \<Rightarrow> memtable \<Rightarrow> memtable" where
  "apply_op op m = (case op of WInsert k v \<Rightarrow> memtable_insert k v m | WDelete k \<Rightarrow> memtable_delete k m)"

definition tree_open :: "checksum \<Rightarrow> lsm_config \<Rightarrow> lsm_disk \<Rightarrow> (lsm_error, lsm_tree) result" where
  "tree_open crc cfg d =
     rbind (load_manifest crc d (page_size cfg)) (\<lambda>(levels, next_run_id, runs).
     let m = fold apply_op (replay_wal crc (ds_wal d)) memtable_new in
     rbind (wal_new (wal_segment_size cfg) (wal_enabled cfg) (ds_wal d)) (\<lambda>(w, files).
     if page_size cfg = 0 then Inl Panic
     else Inr \<lparr>lt_config = cfg, lt_memtable = m, lt_wal = w, lt_wal_files = files,
          lt_store = \<lparr>rs_levels = (if levels = [] then [level_new 0] else levels), rs_runs = runs,
            rs_dir = ds_dir d, rs_cache = cache_new (cache_capacity cfg), rs_next_run_id = next_run_id\<rparr>,
          lt_manifest = ds_manifest d\<rparr>))"


section \<open>Reads\<close>

text \<open>The runs from newest to oldest: the levels from 0 on, each from its last run back.\<close>

definition lookup_order :: "level list \<Rightarrow> nat list" where
  "lookup_order levels = concat (map (rev \<circ> lv_run_ids) levels)"

fun get_runs :: "checksum \<Rightarrow> run_store \<Rightarrow> nat list \<Rightarrow> key \<Rightarrow> block_cache \<Rightarrow> (lsm_error, lsm_value option \<times> block_cache) comp" where
  "get_runs crc st [] key c = Some (Inr (None, c))"
| "get_runs crc st (i # ids) key c =
     (case rs_runs st i of
        None \<Rightarrow> get_runs crc st ids key c
      | Some r \<Rightarrow>
          cbind (run_get_with_cache_insert crc (rs_dir st) r key c) (\<lambda>(res, c).
            case res of
              Some v \<Rightarrow> Some (Inr (v, c))
            | None \<Rightarrow> get_runs crc st ids key c))"

definition tree_get :: "checksum \<Rightarrow> key \<Rightarrow> lsm_tree \<Rightarrow> (lsm_error, lsm_value option \<times> lsm_tree) comp" where
  "tree_get crc key t =
     (case memtable_get (lt_memtable t) key of
        Some e \<Rightarrow> Some (Inr (e, t))
      | None \<Rightarrow>
          cbind (get_runs crc (lt_store t) (lookup_order (rs_levels (lt_store t))) key (rs_cache (lt_store t)))
            (\<lambda>(v, c). Some (Inr (v, t\<lparr>lt_store := (lt_store t)\<lparr>rs_cache := c\<rparr>\<rparr>))))"

text \<open>The inputs of a range scan, oldest first; a run that cannot be read is left out.\<close>

fun range_inputs :: "checksum \<Rightarrow> run_store \<Rightarrow> key \<Rightarrow> key \<Rightarrow> nat \<Rightarrow> nat list \<Rightarrow> merge_input list" where
  "range_inputs crc st from to seq [] = []"
| "range_inputs crc st from to seq (i # ids) =
     (case rs_runs st i of
        None \<Rightarrow> range_inputs crc st from to seq ids
      | Some r \<Rightarrow>
          (case scan_range crc (rs_dir st) r from to of
             Inl e \<Rightarrow> range_inputs crc st from to seq ids
           | Inr es \<Rightarrow> (seq, es) # range_inputs crc st from to (seq + 1) ids))"

definition tree_range :: "checksum \<Rightarrow> key \<Rightarrow> key \<Rightarrow> lsm_tree \<Rightarrow> (lsm_error, (key \<times> lsm_value) list) result" where
  "tree_range crc from to t =
     rbind (memtable_range (lt_memtable t) from to) (\<lambda>mem_entries.
     let inputs = range_inputs crc (lt_store t) from to 0 (concat (map lv_run_ids (rev (rs_levels (lt_store t)))));
         inputs = (if mem_entries \<noteq> [] then inputs @ [(length inputs, mem_entries)] else inputs)
     in rbind (merge_entries inputs True) (\<lambda>merged.
          Inr (List.map_filter (\<lambda>(k, v). map_option (Pair k) v) merged)))"


section \<open>Writes\<close>

partial_function (option) maybe_compact :: "checksum \<Rightarrow> lsm_tree \<Rightarrow> (lsm_error, lsm_tree) comp" where
  "maybe_compact crc t =
     (case find_compaction_level (rs_levels (lt_store t)) (size_ratio (lt_config t)) of
        None \<Rightarrow> Some (Inr t)
      | Some i \<Rightarrow>
          (case compact_level crc (page_size (lt_config t)) (bloom_filter_bits_per_key (lt_config t)) i (lt_store t) of
             Inl e \<Rightarrow> Some (Inl e)
           | Inr (out, st) \<Rightarrow> maybe_compact crc (save_manifest (t\<lparr>lt_store := st\<rparr>))))"

declare maybe_compact.simps [code]

text \<open>\<^verbatim>\<open>flush_memtable\<close> in its steps: the new run, the cleared log, the saved manifest, compaction.\<close>

definition flush_run :: "checksum \<Rightarrow> entry list \<Rightarrow> lsm_tree \<Rightarrow> (lsm_error, lsm_tree) result" where
  "flush_run crc entries t =
     (let st = lt_store t; run_id = rs_next_run_id st in
      rbind (run_write crc run_id entries (page_size (lt_config t))
               (bloom_filter_bits_per_key (lt_config t)) (rs_dir st)) (\<lambda>(r, d).
      if rs_levels st = [] then Inl Panic
      else Inr (t\<lparr>lt_store := st\<lparr>rs_levels := (rs_levels st)[0 := add_run run_id (rs_levels st ! 0)],
                                  rs_runs := (rs_runs st)(run_id \<mapsto> r), rs_dir := d,
                                  rs_next_run_id := run_id + 1\<rparr>\<rparr>)))"

definition clear_wal :: "lsm_tree \<Rightarrow> (lsm_error, lsm_tree) result" where
  "clear_wal t = rbind (wal_clear (lt_wal t) (lt_wal_files t)) (\<lambda>(w, files).
     Inr (t\<lparr>lt_wal := w, lt_wal_files := files\<rparr>))"

definition flush_memtable :: "checksum \<Rightarrow> lsm_tree \<Rightarrow> (lsm_error, lsm_tree) comp" where
  "flush_memtable crc t =
     (case memtable_drain (lt_memtable t) of (entries, m) \<Rightarrow>
        if entries = [] then Some (Inr (t\<lparr>lt_memtable := m\<rparr>))
        else
          cbind (Some (flush_run crc entries (t\<lparr>lt_memtable := m\<rparr>))) (\<lambda>t.
          cbind (Some (clear_wal t)) (\<lambda>t. maybe_compact crc (save_manifest t))))"

definition flush_if_full :: "checksum \<Rightarrow> lsm_tree \<Rightarrow> (lsm_error, lsm_tree) comp" where
  "flush_if_full crc t =
     (if memtable_size (lt_config t) \<le> mt_approx_bytes (lt_memtable t) then flush_memtable crc t
      else Some (Inr t))"

definition tree_insert :: "checksum \<Rightarrow> key \<Rightarrow> lsm_value \<Rightarrow> lsm_tree \<Rightarrow> (lsm_error, lsm_tree) comp" where
  "tree_insert crc k v t =
     cbind (Some (log_insert crc k v (lt_wal t) (lt_wal_files t))) (\<lambda>(w, files).
       flush_if_full crc (t\<lparr>lt_wal := w, lt_wal_files := files,
                             lt_memtable := memtable_insert k v (lt_memtable t)\<rparr>))"

definition tree_delete :: "checksum \<Rightarrow> key \<Rightarrow> lsm_tree \<Rightarrow> (lsm_error, lsm_tree) comp" where
  "tree_delete crc k t =
     cbind (Some (log_delete crc k (lt_wal t) (lt_wal_files t))) (\<lambda>(w, files).
       flush_if_full crc (t\<lparr>lt_wal := w, lt_wal_files := files,
                             lt_memtable := memtable_delete k (lt_memtable t)\<rparr>))"

definition apply_batch ::
  "checksum \<Rightarrow> (key \<times> lsm_value) list \<Rightarrow> key list \<Rightarrow> lsm_tree \<Rightarrow> (lsm_error, lsm_tree) comp" where
  "apply_batch crc inserts deletes t =
     cbind (Some (log_batch crc inserts deletes (lt_wal t) (lt_wal_files t))) (\<lambda>(w, files).
       let m = fold (\<lambda>(k, v). memtable_insert k v) inserts (lt_memtable t);
           m = fold memtable_delete deletes m
       in flush_if_full crc (t\<lparr>lt_wal := w, lt_wal_files := files, lt_memtable := m\<rparr>))"

definition tree_flush :: "checksum \<Rightarrow> lsm_tree \<Rightarrow> (lsm_error, lsm_tree) comp" where
  "tree_flush crc t =
     (if \<not> memtable_is_empty (lt_memtable t) then flush_memtable crc t else Some (Inr t))"

definition set_wal_enabled :: "bool \<Rightarrow> lsm_tree \<Rightarrow> lsm_tree" where
  "set_wal_enabled b t = t\<lparr>lt_wal := set_enabled b (lt_wal t)\<rparr>"


section \<open>Invariant and abstraction\<close>

text \<open>What a reader of the tree sees: the runs, and over them the write buffer.\<close>

definition tree_view :: "checksum \<Rightarrow> lsm_tree \<Rightarrow> key \<rightharpoonup> lsm_value option" where
  "tree_view crc t = store_view crc (lt_store t) ++ memtable_get (lt_memtable t)"

definition tree_abs :: "checksum \<Rightarrow> lsm_tree \<Rightarrow> key \<rightharpoonup> lsm_value" where
  "tree_abs crc t = visible (tree_view crc t)"

definition config_ok :: "lsm_config \<Rightarrow> bool" where
  "config_ok c \<longleftrightarrow> page_header_size \<le> page_size c \<and> page_size c \<le> 2 ^ 17 \<and>
     2 \<le> size_ratio c \<and> 2 * size_ratio c \<le> seq_base"

definition entry_ok :: "entry \<Rightarrow> bool" where
  "entry_ok e \<longleftrightarrow> entry_fits e \<and> page_header_size + entry_size e < 2 ^ 32"

text \<open>While the log is enabled, replaying it over an empty buffer gives the buffer.\<close>

definition wal_synced :: "checksum \<Rightarrow> lsm_tree \<Rightarrow> bool" where
  "wal_synced crc t \<longleftrightarrow> (ww_enabled (lt_wal t) \<longrightarrow>
     (\<exists>ops. wal_holds crc (lt_wal t) (lt_wal_files t) ops \<and> list_all op_fits ops \<and>
        lt_memtable t = fold apply_op ops memtable_new))"

definition manifest_synced :: "lsm_tree \<Rightarrow> bool" where
  "manifest_synced t \<longleftrightarrow>
     (case lt_manifest t of
        None \<Rightarrow> run_order (rs_levels (lt_store t)) = [] \<and> rs_next_run_id (lt_store t) = 0
      | Some b \<Rightarrow> b = store_manifest (lt_store t))"

definition tree_inv :: "checksum \<Rightarrow> lsm_tree \<Rightarrow> bool" where
  "tree_inv crc t \<longleftrightarrow> config_ok (lt_config t) \<and> memtable_inv (lt_memtable t) \<and>
     list_all entry_ok (mt_entries (lt_memtable t)) \<and> store_inv crc (page_size (lt_config t)) (lt_store t) \<and>
     (\<forall>j. runs_at (rs_levels (lt_store t)) j < size_ratio (lt_config t)) \<and>
     wal_synced crc t \<and> manifest_synced t"

definition entries_bytes :: "entry list \<Rightarrow> nat" where
  "entries_bytes es = sum_list (map entry_size es)"

text \<open>There is room for \<open>n\<close> more entries of \<open>b\<close> bytes in all.\<close>

definition tree_room :: "checksum \<Rightarrow> nat \<Rightarrow> nat \<Rightarrow> lsm_tree \<Rightarrow> bool" where
  "tree_room crc n b t \<longleftrightarrow> fits_total (page_size (lt_config t)) (bloom_filter_bits_per_key (lt_config t))
     (store_count crc (lt_store t) + length (mt_entries (lt_memtable t)) + n)
     (store_bytes crc (lt_store t) + entries_bytes (mt_entries (lt_memtable t)) + b)"


section \<open>Lookup\<close>

lemma lookup_order_rev: "lookup_order levels = rev (run_order levels)"
  by (induction levels) (simp_all add: lookup_order_def run_order_def)

lemma get_runs_ok:
  assumes inv: "store_inv crc ps st" and ids: "set ids \<subseteq> set (run_order (rs_levels st))"
    and c: "cache_inv c" "cached c \<subseteq>\<^sub>m dir_pages crc (rs_dir st) (rs_runs st)"
  shows "\<exists>c'. get_runs crc st (rev ids) k c =
      Some (Inr (visible (overlay (map (entries_of crc st) ids)) k, c')) \<and>
    cache_inv c' \<and> cached c' \<subseteq>\<^sub>m dir_pages crc (rs_dir st) (rs_runs st)"
  using ids c
proof (induction ids arbitrary: c rule: rev_induct)
  case Nil
  then show ?case by (simp add: visible_def)
next
  case (snoc i ids)
  have "i \<in> set (run_order (rs_levels st))" using snoc.prems(1) by simp
  from store_invD [OF inv this] obtain r where r: "rs_runs st i = Some r" "rn_id r = i"
    "run_holds crc (rs_dir st) r (entries_of crc st i)" by blast
  from run_get_cached_ok [OF r(3) _ snoc.prems(2,3), of k] r(1,2) obtain c1 where
    g: "run_get_with_cache_insert crc (rs_dir st) r k c = Some (Inr (map_of (entries_of crc st i) k, c1))"
    and c1: "cache_inv c1" "cached c1 \<subseteq>\<^sub>m dir_pages crc (rs_dir st) (rs_runs st)" by auto
  show ?case
  proof (cases "map_of (entries_of crc st i) k")
    case None
    with snoc.IH [OF _ c1] snoc.prems(1) r g show ?thesis
      by (auto simp: visible_def overlay_snoc map_add_def)
  next
    case (Some v)
    with r g c1 show ?thesis by (cases v) (simp_all add: visible_def overlay_snoc map_add_def)
  qed
qed

lemma store_inv_cache:
  assumes "store_inv crc ps st" and "cache_inv c" and "cached c \<subseteq>\<^sub>m dir_pages crc (rs_dir st) (rs_runs st)"
  shows "store_inv crc ps (st\<lparr>rs_cache := c\<rparr>)" and "store_view crc (st\<lparr>rs_cache := c\<rparr>) = store_view crc st"
proof -
  show "store_inv crc ps (st\<lparr>rs_cache := c\<rparr>)" using assms unfolding store_inv_def by simp
  have "entries_of crc (st\<lparr>rs_cache := c\<rparr>) = entries_of crc st"
    by (rule ext) (simp add: entries_of_def split: option.splits)
  then show "store_view crc (st\<lparr>rs_cache := c\<rparr>) = store_view crc st" by (simp add: store_view_def)
qed

lemma tree_get_ok:
  assumes "tree_inv crc t"
  shows "\<exists>t'. tree_get crc k t = Some (Inr (tree_abs crc t k, t')) \<and> tree_inv crc t' \<and>
    tree_abs crc t' = tree_abs crc t"
proof (cases "memtable_get (lt_memtable t) k")
  case (Some e)
  then have "tree_abs crc t k = e" by (cases e) (simp_all add: tree_abs_def tree_view_def visible_def)
  with Some assms show ?thesis by (simp add: tree_get_def)
next
  case None
  let ?st = "lt_store t"
  have st: "store_inv crc (page_size (lt_config t)) ?st" using assms by (simp add: tree_inv_def)
  then have c: "cache_inv (rs_cache ?st)" "cached (rs_cache ?st) \<subseteq>\<^sub>m dir_pages crc (rs_dir ?st) (rs_runs ?st)"
    by (simp_all add: store_inv_def)
  from get_runs_ok [OF st order_refl c, of k] obtain c' where
    g: "get_runs crc ?st (rev (run_order (rs_levels ?st))) k (rs_cache ?st) =
      Some (Inr (visible (store_view crc ?st) k, c'))"
    and c': "cache_inv c'" "cached c' \<subseteq>\<^sub>m dir_pages crc (rs_dir ?st) (rs_runs ?st)"
    unfolding store_view_def by blast
  let ?t = "t\<lparr>lt_store := ?st\<lparr>rs_cache := c'\<rparr>\<rparr>"
  have "tree_get crc k t = Some (Inr (tree_abs crc t k, ?t))"
    using None g by (simp add: tree_get_def lookup_order_rev tree_abs_def tree_view_def visible_def map_add_def)
  moreover have "tree_inv crc ?t"
    using assms store_inv_cache(1) [OF st c']
    by (simp add: tree_inv_def wal_synced_def manifest_synced_def store_manifest_def split: option.splits)
  moreover have "tree_abs crc ?t = tree_abs crc t"
    using store_inv_cache(2) [OF st c'] by (simp add: tree_abs_def tree_view_def)
  ultimately show ?thesis by blast
qed



section \<open>Range scans\<close>

lemma range_inputs_ok:
  assumes inv: "store_inv crc ps st" and ids: "set ids \<subseteq> set (run_order (rs_levels st))"
  shows "range_inputs crc st lo hi seq ids = zip [seq..<seq + length ids]
    (map (\<lambda>i. filter (\<lambda>(k, v). lo \<le> k \<and> k \<le> hi) (entries_of crc st i)) ids)"
  using ids
proof (induction ids arbitrary: seq)
  case (Cons i ids)
  then have "i \<in> set (run_order (rs_levels st))" by simp
  from store_invD [OF inv this] obtain r where
    r: "rs_runs st i = Some r" "run_holds crc (rs_dir st) r (entries_of crc st i)" by blast
  have "[seq..<seq + length (i # ids)] = seq # [Suc seq..<Suc seq + length ids]"
    by (subst upt_conv_Cons) (simp_all del: upt_Suc)
  with Cons r show ?case by (simp add: scan_range_ok del: upt_Suc)
qed simp

definition key_in :: "key \<Rightarrow> key \<Rightarrow> entry \<Rightarrow> bool" where
  "key_in lo hi e \<longleftrightarrow> lo \<le> fst e \<and> fst e \<le> hi"

lemma overlay_filter:
  "overlay (map (filter (key_in lo hi)) xss) k = (if lo \<le> k \<and> k \<le> hi then overlay xss k else None)"
proof (induction xss rule: rev_induct)
  case (snoc xs xss)
  have "map_of (filter (key_in lo hi) xs) k = (if lo \<le> k \<and> k \<le> hi then map_of xs k else None)"
    using map_of_filter_key [of "\<lambda>k. lo \<le> k \<and> k \<le> hi" xs k]
    by (simp add: key_in_def [abs_def] split_beta')
  with snoc show ?case by (simp add: overlay_snoc map_add_def split: option.splits)
qed simp

lemma map_filter_live:
  assumes "sorted_keys es"
  defines "ys \<equiv> List.map_filter (\<lambda>(k, v). map_option (Pair k) v) es"
  shows "sorted_keys ys" and "map_of ys k = visible (map_of es) k"
proof -
  have m: "map fst ys = map fst (filter (\<lambda>(k, v). v \<noteq> None) es)"
    unfolding ys_def by (induction es) (auto simp: List.map_filter_simps split: option.splits)
  show "sorted_keys ys" using sorted_keys_filter [OF assms(1), of "\<lambda>(k, v). v \<noteq> None"] m
    unfolding sorted_keys_def by simp
  show "map_of ys k = visible (map_of es) k"
    using assms(1) unfolding ys_def
  proof (induction es)
    case (Cons e es)
    obtain a b where e: "e = (a, b)" by (cases e)
    have "map_of es a = None" using Cons.prems by (force simp: e map_of_eq_None_iff)
    with Cons show ?case
      by (cases b) (auto simp: e List.map_filter_simps visible_def)
  qed (simp add: visible_def List.map_filter_simps)
qed

text \<open>A range scan returns, in order, exactly the live entries with a key in the range; a range
  whose bounds are swapped panics.\<close>

lemma tree_range_ok:
  assumes inv: "tree_inv crc t" and runs: "length (run_order (rs_levels (lt_store t))) < seq_base"
  shows "lo \<le> hi \<Longrightarrow> \<exists>ys. tree_range crc lo hi t = Inr ys \<and> sorted_keys ys \<and>
      (\<forall>k. map_of ys k = (if lo \<le> k \<and> k \<le> hi then tree_abs crc t k else None))"
    and "hi < lo \<Longrightarrow> tree_range crc lo hi t = Inl Panic"
proof -
  show "tree_range crc lo hi t = Inl Panic" if "hi < lo"
    using that by (simp add: tree_range_def memtable_range_def)
  assume le: "lo \<le> hi"
  let ?st = "lt_store t" and ?es = "mt_entries (lt_memtable t)" and ?f = "filter (key_in lo hi)"
  let ?ids = "run_order (rs_levels ?st)"
  let ?runs = "map (\<lambda>i. ?f (entries_of crc ?st i)) ?ids"
  have st: "store_inv crc (page_size (lt_config t)) ?st" and m: "sorted_keys ?es"
    using inv by (simp_all add: tree_inv_def memtable_inv_def)
  have f_eq: "filter (\<lambda>(k, v). lo \<le> k \<and> k \<le> hi) = ?f" by (intro ext) (simp add: key_in_def [abs_def] split_beta')
  define ins where "ins = zip [0..<length ?ids] ?runs @ (if ?f ?es = [] then [] else [(length ?ids, ?f ?es)])"
  have srt: "sorted_keys (entries_of crc ?st i)" if "i \<in> set ?ids" for i
    using store_invD [OF st that] run_holdsD by blast
  have "list_all (sorted_keys \<circ> snd) ins"
    using m srt by (auto simp: ins_def list_all_iff elim!: in_set_zipE)
  moreover have "sorted (map fst ins)" "seqs_fit ins"
    using runs by (auto simp: ins_def sorted_append intro!: seqs_fitI)
  ultimately obtain res where res: "merge_entries ins True = Inr (live res)" "sorted_keys res"
    "map_of res = overlay (map snd ins)" using merge_entries_ok [of ins True] by auto
  have ov: "overlay (map snd ins) k = (if lo \<le> k \<and> k \<le> hi then tree_view crc t k else None)" for k
  proof -
    have e: "overlay (map snd ins) = overlay (map ?f (map (entries_of crc ?st) ?ids @ [?es]))"
      by (auto simp: ins_def overlay_snoc comp_def)
    show ?thesis
      unfolding e overlay_filter by (simp add: overlay_snoc tree_view_def store_view_def memtable_get_def [abs_def])
  qed
  let ?ys = "List.map_filter (\<lambda>(k, v). map_option (Pair k) v) (live res)"
  have "tree_range crc lo hi t = rbind (merge_entries ins True)
      (\<lambda>merged. Inr (List.map_filter (\<lambda>(k, v). map_option (Pair k) v) merged))"
    using le by (auto simp: tree_range_def memtable_range_def f_eq run_order_def [symmetric]
        range_inputs_ok [OF st order_refl] Let_def ins_def not_less)
  then have "tree_range crc lo hi t = Inr ?ys" by (simp add: res(1))
  moreover have "map_of ?ys k = (if lo \<le> k \<and> k \<le> hi then tree_abs crc t k else None)" for k
    using map_filter_live(2) [OF sorted_keys_live [OF res(2)], of k] map_of_live [OF res(2), of k] ov [of k]
    by (auto simp: res(3) visible_def tree_abs_def split: option.splits)
  ultimately show "\<exists>ys. tree_range crc lo hi t = Inr ys \<and> sorted_keys ys \<and>
      (\<forall>k. map_of ys k = (if lo \<le> k \<and> k \<le> hi then tree_abs crc t k else None))"
    using map_filter_live(1) [OF sorted_keys_live [OF res(2)]] by blast
qed

end
