(* ===== verification/Lsm_Writes.thy ===== *)
theory Lsm_Writes
  imports Lsm_Tree
begin

text \<open>
  The writes of the tree refine writes to a map: logging, the write buffer, flushes and the
  compactions they trigger.  Compaction ends when the size ratio is at least 2, and never does
  otherwise.
\<close>


section \<open>The compaction loop\<close>

lemma find_compaction_level_Some:
  "find_compaction_level ls ratio = Some i \<Longrightarrow> i < length ls \<and> ratio \<le> runs_at ls i"
  unfolding find_compaction_level_def runs_at_def by (auto simp: find_Some_iff)

lemma find_compaction_level_None:
  "find_compaction_level ls ratio = None \<Longrightarrow> 0 < ratio \<Longrightarrow> runs_at ls i < ratio"
  unfolding find_compaction_level_def runs_at_def by (auto simp: find_None_iff not_le)

text \<open>At most one level is full while a cascade of compactions runs.\<close>

definition one_full :: "nat \<Rightarrow> level list \<Rightarrow> bool" where
  "one_full ratio ls \<longleftrightarrow> (\<exists>h. \<forall>j. runs_at ls j \<le> ratio \<and> (j \<noteq> h \<longrightarrow> runs_at ls j < ratio))"

text \<open>What a step of the tree keeps besides its view.\<close>

definition same_buffer :: "lsm_tree \<Rightarrow> lsm_tree \<Rightarrow> bool" where
  "same_buffer t t' \<longleftrightarrow> lt_config t' = lt_config t \<and> lt_memtable t' = lt_memtable t \<and>
     lt_wal t' = lt_wal t \<and> lt_wal_files t' = lt_wal_files t"

lemma maybe_compact_ok:
  assumes "config_ok (lt_config t)" and "store_inv crc (page_size (lt_config t)) (lt_store t)"
    and "one_full (size_ratio (lt_config t)) (rs_levels (lt_store t))" and "manifest_synced t"
    and "fits_total (page_size (lt_config t)) (bloom_filter_bits_per_key (lt_config t))
      (store_count crc (lt_store t)) (store_bytes crc (lt_store t))"
  shows "\<exists>t'. maybe_compact crc t = Some (Inr t') \<and> same_buffer t t' \<and>
    store_inv crc (page_size (lt_config t)) (lt_store t') \<and> manifest_synced t' \<and>
    (\<forall>j. runs_at (rs_levels (lt_store t')) j < size_ratio (lt_config t)) \<and>
    visible (store_view crc (lt_store t')) = visible (store_view crc (lt_store t)) \<and>
    store_count crc (lt_store t') \<le> store_count crc (lt_store t) \<and>
    store_bytes crc (lt_store t') \<le> store_bytes crc (lt_store t)"
  using assms
proof (induction "length (run_order (rs_levels (lt_store t)))" arbitrary: t rule: less_induct)
  case less
  let ?c = "lt_config t" and ?st = "lt_store t"
  let ?ratio = "size_ratio ?c" and ?ps = "page_size ?c" and ?bpk = "bloom_filter_bits_per_key ?c"
  have ratio: "2 \<le> ?ratio" "2 * ?ratio \<le> seq_base" using less.prems(1) by (simp_all add: config_ok_def)
  show ?case
  proof (cases "find_compaction_level (rs_levels ?st) ?ratio")
    case None
    then have "maybe_compact crc t = Some (Inr t)" by (subst maybe_compact.simps) simp
    with less.prems find_compaction_level_None [OF None] ratio(1) show ?thesis by (auto simp: same_buffer_def)
  next
    case (Some i)
    have i: "?ratio \<le> runs_at (rs_levels ?st) i" using find_compaction_level_Some [OF Some] by blast
    obtain h where h: "\<And>j. runs_at (rs_levels ?st) j \<le> ?ratio" "\<And>j. j \<noteq> h \<Longrightarrow> runs_at (rs_levels ?st) j < ?ratio"
      using less.prems(3) unfolding one_full_def by blast
    have hi: "i = h" using h(2) [of i] i by linarith
    have "runs_at (rs_levels ?st) i + runs_at (rs_levels ?st) (i + 1) \<le> seq_base"
      using h(1) [of i] h(1) [of "i + 1"] ratio by linarith
    moreover have "0 < runs_at (rs_levels ?st) i" using i ratio by linarith
    ultimately obtain out st where c: "compact_level crc ?ps ?bpk i ?st = Inr (out, st)"
      and st: "store_inv crc ?ps st" "visible (store_view crc st) = visible (store_view crc ?st)"
        "store_count crc st \<le> store_count crc ?st" "store_bytes crc st \<le> store_bytes crc ?st"
      and at: "runs_at (rs_levels st) i = 0" "runs_at (rs_levels st) (i + 1) \<le> runs_at (rs_levels ?st) (i + 1) + 1"
        "\<And>j. j \<noteq> i \<Longrightarrow> j \<noteq> i + 1 \<Longrightarrow> runs_at (rs_levels st) j = runs_at (rs_levels ?st) j"
      and len: "length (run_order (rs_levels st)) + runs_at (rs_levels ?st) i \<le> length (run_order (rs_levels ?st)) + 1"
      using compact_level_ok [OF less.prems(2,5)] by blast
    let ?t = "save_manifest (t\<lparr>lt_store := st\<rparr>)"
    have eq: "maybe_compact crc t = maybe_compact crc ?t" by (subst maybe_compact.simps) (simp add: Some c)
    have t: "lt_store ?t = st" "lt_config ?t = ?c" "manifest_synced ?t" "same_buffer t ?t"
      by (simp_all add: save_manifest_def manifest_synced_def same_buffer_def)
    have full: "one_full ?ratio (rs_levels st)"
      unfolding one_full_def
    proof (intro exI [of _ "i + 1"] allI)
      fix j
      show "runs_at (rs_levels st) j \<le> ?ratio \<and> (j \<noteq> i + 1 \<longrightarrow> runs_at (rs_levels st) j < ?ratio)"
        using at(1,2) at(3) [of j] h(2) [of j] h(2) [of "i + 1"] hi ratio
        by (cases "j = i"; cases "j = i + 1") auto
    qed
    have room: "fits_total ?ps ?bpk (store_count crc st) (store_bytes crc st)"
      by (rule fits_total_mono [OF less.prems(5) st(3,4)])
    have "length (run_order (rs_levels st)) < length (run_order (rs_levels ?st))" using len i ratio by linarith
    with less.hyps [of ?t] less.prems(1) st(1) full room t obtain t' where
      "maybe_compact crc ?t = Some (Inr t')" "same_buffer ?t t'" "store_inv crc ?ps (lt_store t')" "manifest_synced t'"
      "\<forall>j. runs_at (rs_levels (lt_store t')) j < ?ratio"
      "visible (store_view crc (lt_store t')) = visible (store_view crc st)"
      "store_count crc (lt_store t') \<le> store_count crc st" "store_bytes crc (lt_store t') \<le> store_bytes crc st"
      by auto
    with eq st t(4) show ?thesis by (auto simp: same_buffer_def)
  qed
qed


section \<open>Flush\<close>

lemma run_order_add:
  "levels \<noteq> [] \<Longrightarrow> run_order (levels[0 := add_run i (levels ! 0)]) = run_order levels @ [i]"
  by (cases levels) (simp_all add: run_order_Cons add_run_def)

lemma runs_at_add:
  "levels \<noteq> [] \<Longrightarrow> runs_at (levels[0 := add_run i (levels ! 0)]) j = runs_at levels j + (if j = 0 then 1 else 0)"
  by (cases levels; cases j) (auto simp: runs_at_def num_runs_def add_run_def)

lemma level_numbers_add:
  "map lv_number (levels[0 := add_run i (levels ! 0)]) = map lv_number levels"
  by (cases levels) (simp_all add: add_run_def)

text \<open>The new run holds the entries of the buffer and is the newest.\<close>

lemma flush_run_ok:
  assumes inv: "store_inv crc (page_size (lt_config t)) (lt_store t)"
    and es: "sorted_keys es" "es \<noteq> []" "list_all entry_ok es"
    and cfg: "config_ok (lt_config t)"
    and room: "fits_total (page_size (lt_config t)) (bloom_filter_bits_per_key (lt_config t))
      (length es) (entries_bytes es)"
  shows "\<exists>st. flush_run crc es t = Inr (t\<lparr>lt_store := st\<rparr>) \<and>
    store_inv crc (page_size (lt_config t)) st \<and>
    store_view crc st = store_view crc (lt_store t) ++ map_of es \<and>
    store_count crc st = store_count crc (lt_store t) + length es \<and>
    store_bytes crc st = store_bytes crc (lt_store t) + entries_bytes es \<and>
    (\<forall>j. runs_at (rs_levels st) j = runs_at (rs_levels (lt_store t)) j + (if j = 0 then 1 else 0)) \<and>
    (\<forall>i. i \<noteq> rs_next_run_id (lt_store t) \<longrightarrow> rs_dir st i = rs_dir (lt_store t) i)"
proof -
  let ?st = "lt_store t" and ?ps = "page_size (lt_config t)" and ?bpk = "bloom_filter_bits_per_key (lt_config t)"
  let ?n = "rs_next_run_id ?st"
  have fit: "run_fits ?ps ?bpk es"
    using es(3) cfg room
    by (simp add: run_fits_def entries_fit_def config_ok_def entry_ok_def [abs_def] fits_total_def entries_bytes_def)
  have lv: "rs_levels ?st \<noteq> []" using inv by (simp add: store_inv_def)
  from run_write_ok [OF fit es(1), of crc ?n "rs_dir ?st"] obtain r d where
    w: "run_write crc ?n es ?ps ?bpk (rs_dir ?st) = Inr (r, d)" "run_holds crc d r es"
    "rn_id r = ?n" "rn_page_size r = ?ps" and d: "\<forall>j. j \<noteq> ?n \<longrightarrow> d j = rs_dir ?st j" by blast
  have new: "new_run_ok crc ?ps ?st es (Some r) d" using w d es(2) by (simp add: new_run_ok_def)
  define L where "L = (rs_levels ?st)[0 := add_run ?n (rs_levels ?st ! 0)]"
  have L: "L \<noteq> []" "map lv_number L = [0..<length L]" "run_order L = run_order (rs_levels ?st) @ [?n]"
    using lv inv by (simp_all add: L_def level_numbers_add run_order_add store_inv_def)
  define st where "st = install_run L d [] ?n (Some r) ?st"
  note I = install_run_ok [OF inv new L(1,2), of "run_order (rs_levels ?st)" "[]" "[]", folded st_def]
  have I1: "store_inv crc ?ps st" and I2: "\<And>i. i \<in> set (run_order (rs_levels ?st)) \<Longrightarrow> entries_of crc st i = entries_of crc ?st i"
    and I3: "entries_of crc st ?n = es" and I4: "rs_levels st = L"
    using I L(3) by simp_all
  have same: "map (entries_of crc st) (run_order (rs_levels ?st)) = map (entries_of crc ?st) (run_order (rs_levels ?st))"
    using I2 by simp
  have sums: "sum_list (map (\<lambda>i. f (entries_of crc st i)) (run_order (rs_levels ?st))) =
      sum_list (map (\<lambda>i. f (entries_of crc ?st i)) (run_order (rs_levels ?st)))" for f :: "entry list \<Rightarrow> nat"
    using I2 by (intro arg_cong [where f = sum_list] map_cong) simp_all
  have "flush_run crc es t = Inr (t\<lparr>lt_store := st\<rparr>)"
    using w(1) lv by (simp add: flush_run_def Let_def st_def install_run_def L_def)
  moreover have "store_view crc st = store_view crc ?st ++ map_of es"
    by (simp add: store_view_def I4 L(3) same I3 overlay_snoc)
  moreover have "store_count crc st = store_count crc ?st + length es"
    "store_bytes crc st = store_bytes crc ?st + entries_bytes es"
    using sums [of length] sums [of entries_bytes]
    by (simp_all add: store_count_def store_bytes_def I4 L(3) I3 comp_def entries_bytes_def)
  moreover have "\<forall>j. runs_at (rs_levels st) j = runs_at (rs_levels ?st) j + (if j = 0 then 1 else 0)"
    unfolding I4 L_def using runs_at_add [OF lv] by blast
  moreover have "rs_dir st = d" by (simp add: st_def install_run_def)
  ultimately show ?thesis using I1 d by blast
qed

text \<open>What the operations on the tree keep or let grow: the configuration, whether the log is
  enabled, and the totals that the formats bound.\<close>

definition tree_count :: "checksum \<Rightarrow> lsm_tree \<Rightarrow> nat" where
  "tree_count crc t = store_count crc (lt_store t) + length (mt_entries (lt_memtable t))"

definition tree_bytes :: "checksum \<Rightarrow> lsm_tree \<Rightarrow> nat" where
  "tree_bytes crc t = store_bytes crc (lt_store t) + entries_bytes (mt_entries (lt_memtable t))"

definition grows :: "checksum \<Rightarrow> nat \<Rightarrow> nat \<Rightarrow> lsm_tree \<Rightarrow> lsm_tree \<Rightarrow> bool" where
  "grows crc n b t t' \<longleftrightarrow> lt_config t' = lt_config t \<and> ww_enabled (lt_wal t') = ww_enabled (lt_wal t) \<and>
     tree_count crc t' \<le> tree_count crc t + n \<and> tree_bytes crc t' \<le> tree_bytes crc t + b"

lemma tree_room_iff:
  "tree_room crc n b t \<longleftrightarrow> fits_total (page_size (lt_config t)) (bloom_filter_bits_per_key (lt_config t))
     (tree_count crc t + n) (tree_bytes crc t + b)"
  by (simp add: tree_room_def tree_count_def tree_bytes_def)

lemma grows_room:
  "grows crc n b t t' \<Longrightarrow> tree_room crc (n + n') (b + b') t \<Longrightarrow> tree_room crc n' b' t'"
  unfolding grows_def tree_room_iff by (auto elim!: fits_total_mono)

lemma mt_entries_new: "mt_entries memtable_new = []"
  by (simp add: memtable_new_def)

lemma clear_wal_ok:
  assumes "wal_synced crc t" and "lt_memtable t' = memtable_new"
    and "lt_wal t' = lt_wal t" and "lt_wal_files t' = lt_wal_files t"
  shows "\<exists>w d. clear_wal t' = Inr (t'\<lparr>lt_wal := w, lt_wal_files := d\<rparr>) \<and>
    wal_synced crc (t'\<lparr>lt_wal := w, lt_wal_files := d\<rparr>) \<and> ww_enabled w = ww_enabled (lt_wal t)"
proof (cases "ww_enabled (lt_wal t)")
  case True
  with assms(1) obtain ops where "wal_holds crc (lt_wal t) (lt_wal_files t) ops" by (auto simp: wal_synced_def)
  from wal_clear_ok [OF this True] obtain w d where
    "wal_clear (lt_wal t) (lt_wal_files t) = Inr (w, d)" "wal_holds crc w d []" "ww_enabled w" by blast
  with True assms show ?thesis
    by (intro exI [of _ w] exI [of _ d]) (auto simp: clear_wal_def wal_synced_def intro!: exI [of _ "[]"])
next
  case False
  with assms show ?thesis
    by (intro exI [of _ "lt_wal t"] exI [of _ "lt_wal_files t"])
      (simp add: clear_wal_def wal_clear_def wal_synced_def)
qed

lemma flush_memtable_ok:
  assumes inv: "tree_inv crc t" and room: "tree_room crc 0 0 t"
  shows "\<exists>t'. flush_memtable crc t = Some (Inr t') \<and> tree_inv crc t' \<and>
    tree_abs crc t' = tree_abs crc t \<and> grows crc 0 0 t t' \<and> lt_memtable t' = memtable_new"
proof -
  let ?m = "lt_memtable t" and ?ps = "page_size (lt_config t)" and ?bpk = "bloom_filter_bits_per_key (lt_config t)"
  have m: "memtable_inv ?m" "sorted_keys (mt_entries ?m)" using inv by (simp_all add: tree_inv_def memtable_inv_def)
  have drain: "memtable_drain ?m = (mt_entries ?m, memtable_new)" by (simp add: memtable_drain_def memtable_new_def)
  show ?thesis
  proof (cases "mt_entries ?m = []")
    case True
    with m(1) have new: "?m = memtable_new" by (auto simp: memtable_inv_def memtable_new_def)
    then have "t\<lparr>lt_memtable := memtable_new\<rparr> = t" by simp
    then have "flush_memtable crc t = Some (Inr t)" unfolding flush_memtable_def drain using True by simp
    with inv new show ?thesis by (simp add: grows_def)
  next
    case False
    let ?t0 = "t\<lparr>lt_memtable := memtable_new\<rparr>" and ?es = "mt_entries ?m"
    have fits: "fits_total ?ps ?bpk (store_count crc (lt_store t) + length ?es) (store_bytes crc (lt_store t) + entries_bytes ?es)"
      using room by (simp add: tree_room_def)
    have "fits_total ?ps ?bpk (length ?es) (entries_bytes ?es)" by (rule fits_total_mono [OF fits]) simp_all
    then obtain st where st: "flush_run crc ?es ?t0 = Inr (?t0\<lparr>lt_store := st\<rparr>)" "store_inv crc ?ps st"
      "store_view crc st = store_view crc (lt_store t) ++ map_of ?es"
      "store_count crc st = store_count crc (lt_store t) + length ?es"
      "store_bytes crc st = store_bytes crc (lt_store t) + entries_bytes ?es"
      "\<forall>j. runs_at (rs_levels st) j = runs_at (rs_levels (lt_store t)) j + (if j = 0 then 1 else 0)"
      using flush_run_ok [of crc ?t0 ?es] inv m(2) False by (auto simp: tree_inv_def)
    obtain w d where c: "clear_wal (?t0\<lparr>lt_store := st\<rparr>) = Inr (?t0\<lparr>lt_store := st, lt_wal := w, lt_wal_files := d\<rparr>)"
      "wal_synced crc (?t0\<lparr>lt_store := st, lt_wal := w, lt_wal_files := d\<rparr>)" "ww_enabled w = ww_enabled (lt_wal t)"
      using clear_wal_ok [of crc t "?t0\<lparr>lt_store := st\<rparr>"] inv by (auto simp: tree_inv_def)
    let ?t1 = "save_manifest (?t0\<lparr>lt_store := st, lt_wal := w, lt_wal_files := d\<rparr>)"
    have ratio: "\<And>j. runs_at (rs_levels (lt_store t)) j < size_ratio (lt_config t)" using inv by (simp add: tree_inv_def)
    have "one_full (size_ratio (lt_config t)) (rs_levels st)"
      unfolding one_full_def using st(6) ratio by (intro exI [of _ 0]) (auto simp: Suc_le_eq less_imp_le)
    then obtain t' where t': "maybe_compact crc ?t1 = Some (Inr t')" "same_buffer ?t1 t'" "store_inv crc ?ps (lt_store t')"
      "manifest_synced t'" "\<forall>j. runs_at (rs_levels (lt_store t')) j < size_ratio (lt_config t)"
      "visible (store_view crc (lt_store t')) = visible (store_view crc st)"
      "store_count crc (lt_store t') \<le> store_count crc st" "store_bytes crc (lt_store t') \<le> store_bytes crc st"
      using maybe_compact_ok [of ?t1 crc] inv st fits
      by (auto simp: tree_inv_def save_manifest_def manifest_synced_def)
    have buf: "lt_config t' = lt_config t" "lt_memtable t' = memtable_new" "lt_wal t' = w" "lt_wal_files t' = d"
      using t'(2) by (simp_all add: same_buffer_def save_manifest_def)
    have "flush_memtable crc t = Some (Inr t')" using False st(1) c(1) t'(1) by (simp add: flush_memtable_def drain)
    moreover have "tree_inv crc t'"
      using inv t' buf c(2) by (simp add: tree_inv_def wal_synced_def mt_entries_new)
    moreover have "tree_abs crc t' = tree_abs crc t"
      unfolding tree_abs_def tree_view_def buf(2)
      using t'(6) st(3) by (simp add: memtable_get_def [abs_def] memtable_new_def)
    moreover have "grows crc 0 0 t t'"
      using t'(7,8) st(4,5) buf c(3)
      by (simp add: grows_def tree_count_def tree_bytes_def entries_bytes_def memtable_new_def)
    ultimately show ?thesis using buf(2) by blast
  qed
qed


section \<open>Writes refine writes to a map\<close>

definition abs_write :: "wal_op \<Rightarrow> (key \<rightharpoonup> lsm_value) \<Rightarrow> key \<rightharpoonup> lsm_value" where
  "abs_write op m = (case op of WInsert k v \<Rightarrow> m(k \<mapsto> v) | WDelete k \<Rightarrow> m(k := None))"

lemma apply_op_write: "apply_op op m = memtable_write (op_entry op) m"
  by (simp add: apply_op_def op_entry_def memtable_insert_write memtable_delete_write split: wal_op.splits)

lemma visible_apply_ops:
  "visible (M ++ memtable_get (fold apply_op ws m)) = fold abs_write ws (visible (M ++ memtable_get m))"
proof (induction ws arbitrary: m)
  case (Cons op ws)
  have "visible (M ++ memtable_get (apply_op op m)) = abs_write op (visible (M ++ memtable_get m))"
    by (cases op) (auto simp: apply_op_write op_entry_def memtable_get_write abs_write_def visible_def fun_eq_iff)
  with Cons.IH [of "apply_op op m"] show ?case by simp
qed simp

lemma bt_insert_sizes:
  "length (bt_insert k v es) \<le> Suc (length es)"
  "entries_bytes (bt_insert k v es) \<le> entries_bytes es + entry_size (k, v)" for es :: "entry list"
  by (induction k v es rule: bt_insert.induct) (auto simp: entries_bytes_def)

lemma apply_ops_all:
  assumes "memtable_inv m" and "list_all entry_ok (mt_entries m)" and "list_all (entry_ok \<circ> op_entry) ws"
  shows "memtable_inv (fold apply_op ws m) \<and> list_all entry_ok (mt_entries (fold apply_op ws m)) \<and>
    length (mt_entries (fold apply_op ws m)) \<le> length (mt_entries m) + length ws \<and>
    entries_bytes (mt_entries (fold apply_op ws m)) \<le>
      entries_bytes (mt_entries m) + entries_bytes (map op_entry ws)"
  using assms
proof (induction ws arbitrary: m)
  case (Cons op ws)
  obtain k v where e: "op_entry op = (k, v)" by (cases "op_entry op")
  let ?m = "apply_op op m"
  have inv: "memtable_inv ?m" using Cons.prems(1) by (simp add: apply_op_write e)
  have es: "mt_entries ?m = bt_insert k v (mt_entries m)" by (simp add: apply_op_write e)
  have ok: "list_all entry_ok (mt_entries ?m)"
    using Cons.prems(2,3) set_bt_insert_subset [of k v "mt_entries m"] by (auto simp: es e list_all_iff)
  show ?case
    using Cons.IH [OF inv ok] Cons.prems(3) bt_insert_sizes [of k v "mt_entries m"]
    by (simp add: es e entries_bytes_def)
qed simp

lemmas apply_ops_ok = apply_ops_all [THEN conjunct1] apply_ops_all [THEN conjunct2, THEN conjunct1]
  apply_ops_all [THEN conjunct2, THEN conjunct2, THEN conjunct1]
  apply_ops_all [THEN conjunct2, THEN conjunct2, THEN conjunct2]

text \<open>What the log must do with the operations \<open>ws\<close>: nothing when it is disabled, and otherwise
  hold them after those it held.\<close>

definition logs :: "checksum \<Rightarrow> wal_op list \<Rightarrow> lsm_tree \<Rightarrow> (lsm_error, wal_writer \<times> wal_files) result \<Rightarrow> bool" where
  "logs crc ws t lg \<longleftrightarrow>
     (if ww_enabled (lt_wal t)
      then \<forall>ops. wal_holds crc (lt_wal t) (lt_wal_files t) ops \<longrightarrow>
             (\<exists>w d. lg = Inr (w, d) \<and> wal_holds crc w d (ops @ ws) \<and> ww_enabled w)
      else lg = Inr (lt_wal t, lt_wal_files t))"

lemma writes_ok:
  assumes inv: "tree_inv crc t" and room: "tree_room crc (length ws) (entries_bytes (map op_entry ws)) t"
    and ok: "list_all (entry_ok \<circ> op_entry) ws" "ww_enabled (lt_wal t) \<Longrightarrow> list_all op_fits ws"
    and lg: "logs crc ws t lg"
  shows "\<exists>t'. cbind (Some lg) (\<lambda>(w, d). flush_if_full crc (t\<lparr>lt_wal := w, lt_wal_files := d,
            lt_memtable := fold apply_op ws (lt_memtable t)\<rparr>)) = Some (Inr t') \<and>
    tree_inv crc t' \<and> tree_abs crc t' = fold abs_write ws (tree_abs crc t) \<and>
    grows crc (length ws) (entries_bytes (map op_entry ws)) t t'"
proof -
  let ?m = "fold apply_op ws (lt_memtable t)"
  have m: "memtable_inv (lt_memtable t)" "list_all entry_ok (mt_entries (lt_memtable t))"
    using inv by (simp_all add: tree_inv_def)
  note A = apply_ops_ok [OF m ok(1)]
  obtain w d where w: "lg = Inr (w, d)" "ww_enabled w = ww_enabled (lt_wal t)"
    "wal_synced crc (t\<lparr>lt_wal := w, lt_wal_files := d, lt_memtable := ?m\<rparr>)"
  proof (cases "ww_enabled (lt_wal t)")
    case True
    with inv obtain ops where ops: "wal_holds crc (lt_wal t) (lt_wal_files t) ops" "list_all op_fits ops"
      "lt_memtable t = fold apply_op ops memtable_new" by (auto simp: tree_inv_def wal_synced_def)
    with lg True obtain w d where w: "lg = Inr (w, d)" "wal_holds crc w d (ops @ ws)" "ww_enabled w"
      by (auto simp: logs_def)
    have "wal_synced crc (t\<lparr>lt_wal := w, lt_wal_files := d, lt_memtable := ?m\<rparr>)"
      unfolding wal_synced_def using w ops ok(2) True by (auto intro!: exI [of _ "ops @ ws"])
    with that [of w d] w True show ?thesis by simp
  next
    case False
    with lg that [of "lt_wal t" "lt_wal_files t"] show ?thesis by (simp add: logs_def wal_synced_def)
  qed
  let ?t = "t\<lparr>lt_wal := w, lt_wal_files := d, lt_memtable := ?m\<rparr>"
  have inv1: "tree_inv crc ?t"
    using inv A(1,2) w(3) by (simp add: tree_inv_def manifest_synced_def split: option.splits)
  have abs1: "tree_abs crc ?t = fold abs_write ws (tree_abs crc t)"
    by (simp add: tree_abs_def tree_view_def visible_apply_ops)
  have g1: "grows crc (length ws) (entries_bytes (map op_entry ws)) t ?t"
    using A(3,4) w(2) by (simp add: grows_def tree_count_def tree_bytes_def)
  have room1: "tree_room crc 0 0 ?t" using grows_room [OF g1, of 0 0] room by simp
  have "\<exists>t'. flush_if_full crc ?t = Some (Inr t') \<and> tree_inv crc t' \<and> tree_abs crc t' = tree_abs crc ?t \<and> grows crc 0 0 ?t t'"
    using flush_memtable_ok [OF inv1 room1] inv1 by (auto simp: flush_if_full_def grows_def)
  with abs1 g1 w(1) show ?thesis by (auto simp: grows_def)
qed

lemma fold_batch:
  "fold memtable_delete dels (fold (\<lambda>(k, v). memtable_insert k v) ins m) = fold apply_op (batch_ops ins dels) m"
proof -
  have "fold (\<lambda>(k, v). memtable_insert k v) ins m = fold apply_op (map (\<lambda>(k, v). WInsert k v) ins) m"
    by (induction ins arbitrary: m) (auto simp: apply_op_def)
  moreover have "fold memtable_delete dels m = fold apply_op (map WDelete dels) m" for m
    by (induction dels arbitrary: m) (auto simp: apply_op_def)
  ultimately show ?thesis by (simp add: batch_ops_def)
qed

lemma logs_op: "logs crc [op] t (log_op crc op (lt_wal t) (lt_wal_files t))"
  unfolding logs_def using log_op_ok [of crc "lt_wal t" "lt_wal_files t"]
  by (fastforce simp: log_op_def)

lemma logs_batch: "logs crc (batch_ops ins dels) t (log_batch crc ins dels (lt_wal t) (lt_wal_files t))"
proof (cases "ww_enabled (lt_wal t)")
  case True
  with log_batch_ok [of crc "lt_wal t" "lt_wal_files t" _ ins dels] show ?thesis
    unfolding logs_def by metis
qed (simp add: logs_def log_batch_def)


section \<open>Sequences of operations\<close>

datatype tree_op =
    TInsert key lsm_value
  | TDelete key
  | TBatch "(key \<times> lsm_value) list" "key list"
  | TFlush

definition tree_step :: "checksum \<Rightarrow> tree_op \<Rightarrow> lsm_tree \<Rightarrow> (lsm_error, lsm_tree) comp" where
  "tree_step crc x t = (case x of
     TInsert k v \<Rightarrow> tree_insert crc k v t
   | TDelete k \<Rightarrow> tree_delete crc k t
   | TBatch ins dels \<Rightarrow> apply_batch crc ins dels t
   | TFlush \<Rightarrow> tree_flush crc t)"

definition op_writes :: "tree_op \<Rightarrow> wal_op list" where
  "op_writes x = (case x of
     TInsert k v \<Rightarrow> [WInsert k v] | TDelete k \<Rightarrow> [WDelete k]
   | TBatch ins dels \<Rightarrow> batch_ops ins dels | TFlush \<Rightarrow> [])"

definition map_effect :: "tree_op \<Rightarrow> (key \<rightharpoonup> lsm_value) \<Rightarrow> key \<rightharpoonup> lsm_value" where
  "map_effect x = fold abs_write (op_writes x)"

text \<open>The tree is ready for the operations \<open>xs\<close>: they fit the formats and there is room for them.\<close>

definition tree_ready :: "checksum \<Rightarrow> tree_op list \<Rightarrow> lsm_tree \<Rightarrow> bool" where
  "tree_ready crc xs t \<longleftrightarrow> (let ws = concat (map op_writes xs) in
     tree_inv crc t \<and> list_all (entry_ok \<circ> op_entry) ws \<and> (ww_enabled (lt_wal t) \<longrightarrow> list_all op_fits ws) \<and>
     tree_room crc (length ws) (entries_bytes (map op_entry ws)) t)"

lemma tree_step_ok:
  assumes "tree_inv crc t" and "list_all (entry_ok \<circ> op_entry) (op_writes x)"
    and "ww_enabled (lt_wal t) \<Longrightarrow> list_all op_fits (op_writes x)"
    and "tree_room crc (length (op_writes x)) (entries_bytes (map op_entry (op_writes x))) t"
  shows "\<exists>t'. tree_step crc x t = Some (Inr t') \<and> tree_inv crc t' \<and>
    tree_abs crc t' = map_effect x (tree_abs crc t) \<and>
    grows crc (length (op_writes x)) (entries_bytes (map op_entry (op_writes x))) t t'"
proof (cases x)
  case (TInsert k v)
  then show ?thesis
    using writes_ok [OF assms(1,4,2,3), of "log_insert crc k v (lt_wal t) (lt_wal_files t)"]
      logs_op [of crc "WInsert k v" t]
    by (simp add: tree_step_def op_writes_def map_effect_def tree_insert_def apply_op_def log_insert_def)
next
  case (TDelete k)
  then show ?thesis
    using writes_ok [OF assms(1,4,2,3), of "log_delete crc k (lt_wal t) (lt_wal_files t)"]
      logs_op [of crc "WDelete k" t]
    by (simp add: tree_step_def op_writes_def map_effect_def tree_delete_def apply_op_def log_delete_def)
next
  case (TBatch ins dels)
  then show ?thesis
    using writes_ok [OF assms(1,4,2,3), of "log_batch crc ins dels (lt_wal t) (lt_wal_files t)"]
      logs_batch [of crc ins dels t]
    by (simp add: tree_step_def op_writes_def map_effect_def apply_batch_def fold_batch Let_def)
next
  case TFlush
  then show ?thesis
    using flush_memtable_ok [OF assms(1)] assms(1,4)
    by (auto simp: tree_step_def op_writes_def map_effect_def tree_flush_def entries_bytes_def grows_def)
qed

interpretation lsm: op_refinement "tree_step crc" "tree_abs crc" map_effect
  "\<lambda>xs t. tree_ready crc xs t \<and> lt_config t = cfg \<and> ww_enabled (lt_wal t) = on" for crc cfg on
proof unfold_locales
  fix x xs t
  assume "tree_ready crc (x # xs) t \<and> lt_config t = cfg \<and> ww_enabled (lt_wal t) = on"
  then have r: "tree_inv crc t" "list_all (entry_ok \<circ> op_entry) (op_writes x)"
    "ww_enabled (lt_wal t) \<Longrightarrow> list_all op_fits (op_writes x)"
    "list_all (entry_ok \<circ> op_entry) (concat (map op_writes xs))"
    "ww_enabled (lt_wal t) \<Longrightarrow> list_all op_fits (concat (map op_writes xs))"
    "tree_room crc (length (op_writes x) + length (concat (map op_writes xs)))
      (entries_bytes (map op_entry (op_writes x)) + entries_bytes (map op_entry (concat (map op_writes xs)))) t"
    and c: "lt_config t = cfg" "ww_enabled (lt_wal t) = on"
    by (auto simp: tree_ready_def Let_def entries_bytes_def)
  have "tree_room crc (length (op_writes x)) (entries_bytes (map op_entry (op_writes x))) t"
    using r(6) unfolding tree_room_iff by (rule fits_total_mono) simp_all
  from tree_step_ok [OF r(1-3) this] obtain t' where
    t': "tree_step crc x t = Some (Inr t')" "tree_inv crc t'" "tree_abs crc t' = map_effect x (tree_abs crc t)"
      "grows crc (length (op_writes x)) (entries_bytes (map op_entry (op_writes x))) t t'" by blast
  have "tree_ready crc xs t' \<and> lt_config t' = cfg \<and> ww_enabled (lt_wal t') = on"
    using t' r c grows_room [OF t'(4) r(6)] by (auto simp: tree_ready_def Let_def grows_def)
  with t' show "\<exists>t'. tree_step crc x t = Some (Inr t') \<and>
      (tree_ready crc xs t' \<and> lt_config t' = cfg \<and> ww_enabled (lt_wal t') = on) \<and>
      tree_abs crc t' = map_effect x (tree_abs crc t)" by blast
qed


section \<open>A ratio of zero\<close>

text \<open>With a size ratio of zero every level counts as full, and the loop has no way to end well.\<close>

lemma compact_level_levels:
  "compact_level crc ps bpk i st = Inr (out, st') \<Longrightarrow> rs_levels st' \<noteq> []"
proof -
  assume "compact_level crc ps bpk i st = Inr (out, st')"
  moreover have "pad_levels (i + 1) (rs_levels st) \<noteq> []" by (simp add: pad_levels_def)
  ultimately show ?thesis unfolding compact_level_def Let_def
    by (elim rbind_InrE) (auto simp: install_run_def drop_runs Let_def split: option.splits if_splits)
qed


lemma maybe_compact_ratio_zero:
  assumes "maybe_compact crc t = Some r" and "size_ratio (lt_config t) = 0" and "rs_levels (lt_store t) \<noteq> []"
  shows "\<exists>e. r = Inl e"
proof -
  let ?P = "\<lambda>(crc :: checksum) t (r :: (lsm_error, lsm_tree) result).
      size_ratio (lt_config t) = 0 \<and> rs_levels (lt_store t) \<noteq> [] \<longrightarrow> (\<exists>e. r = Inl e)"
  have "?P crc t r"
  proof (rule maybe_compact.raw_induct [where P = ?P, OF _ assms(1)], safe)
    fix f crc t r
    assume IH: "\<And>crc t y. f crc t = Some y \<Longrightarrow> ?P crc t y"
      and z: "size_ratio (lt_config t) = 0" and l: "rs_levels (lt_store t) \<noteq> []"
      and eq: "(case find_compaction_level (rs_levels (lt_store t)) (size_ratio (lt_config t)) of
         None \<Rightarrow> Some (Inr t)
       | Some i \<Rightarrow>
           (case compact_level crc (page_size (lt_config t)) (bloom_filter_bits_per_key (lt_config t)) i (lt_store t) of
              Inl e \<Rightarrow> Some (Inl e)
            | Inr (out, st) \<Rightarrow> f crc (save_manifest (t\<lparr>lt_store := st\<rparr>)))) = Some r"
    obtain i where "find_compaction_level (rs_levels (lt_store t)) 0 = Some i"
      using l by (cases "find_compaction_level (rs_levels (lt_store t)) 0")
        (auto simp: find_compaction_level_def find_None_iff)
    with eq z IH show "\<exists>e. r = Inl e"
      by (auto split: sum.splits prod.splits dest!: compact_level_levels simp: save_manifest_def)
  qed
  with assms show ?thesis by blast
qed

end
