(* ===== verification/Lsm_Recovery.thy ===== *)
theory Lsm_Recovery
  imports Lsm_Writes
begin

text \<open>
  Opening a database from its files (\<^verbatim>\<open>LsmTree::open\<close>, \<^verbatim>\<open>load_manifest\<close> and the replay of the log).
  The files a process leaves behind at any point between two operations give back the same map.
  The two windows inside a flush and inside a compaction, in which the files do not yet fit
  together, are described as they are: what is lost when the process stops there.
\<close>

section \<open>Levels by index\<close>

definition ids_at :: "level list \<Rightarrow> nat \<Rightarrow> nat list" where
  "ids_at L j = (if j < length L then lv_run_ids (L ! j) else [])"

abbreviation numbered :: "level list \<Rightarrow> bool" where
  "numbered L \<equiv> map lv_number L = [0..<length L]"

lemma numbered_nth: "numbered L \<Longrightarrow> j < length L \<Longrightarrow> lv_number (L ! j) = j"
  by (metis add_cancel_left_left length_map nth_map nth_upt)

lemma concat_levels:
  assumes "length L \<le> N" and "\<And>l j. j < length L \<Longrightarrow> L ! j = l \<Longrightarrow> f l = g j (ids_at L j)"
    and "\<And>j. g j [] = []"
  shows "concat (map f L) = concat (map (\<lambda>j. g j (ids_at L j)) [0..<N])"
proof -
  have "[0..<N] = [0..<length L] @ [length L..<N]"
    using upt_add_eq_append [of 0 "length L" "N - length L"] assms(1) by simp
  moreover have "concat (map (\<lambda>j. g j (ids_at L j)) [length L..<N]) = []"
    using assms(3) by (simp add: ids_at_def)
  moreover have "map f L = map (\<lambda>j. g j (ids_at L j)) [0..<length L]"
    by (rule nth_equalityI) (simp_all add: assms(2))
  ultimately show ?thesis by simp
qed

lemma run_order_ids:
  assumes "length L \<le> N"
  shows "run_order L = concat (rev (map (ids_at L) [0..<N]))"
proof -
  have "concat (map (rev \<circ> lv_run_ids) L) = concat (map (\<lambda>j. rev (ids_at L j)) [0..<N])"
    by (rule concat_levels [OF assms]) (simp_all add: ids_at_def)
  then have "rev (run_order L) = rev (concat (rev (map (ids_at L) [0..<N])))"
    by (simp add: run_order_def rev_concat rev_map comp_def)
  then show ?thesis by simp
qed

lemma level_runs_ids:
  assumes "numbered L" and "length L \<le> N"
  shows "level_runs L = concat (map (\<lambda>j. map (Pair j) (ids_at L j)) [0..<N])"
  unfolding level_runs_def
  by (rule concat_levels [OF assms(2)]) (auto simp: ids_at_def numbered_nth [OF assms(1)])

lemma level_runs_at:
  assumes "numbered L"
  shows "map snd (filter (\<lambda>e. fst e = j \<and> P (snd e)) (level_runs L)) = filter P (ids_at L j)"
proof -
  have "filter (\<lambda>e. fst e = j \<and> P (snd e)) (concat (map (\<lambda>j. map (Pair j) (f j)) [0..<N])) =
      (if j < N then map (Pair j) (filter P (f j)) else [])" for N and f :: "nat \<Rightarrow> nat list"
    by (induction N) (auto simp: filter_map comp_def less_Suc_eq)
  then show ?thesis using assms by (simp add: level_runs_ids [OF assms order_refl] comp_def ids_at_def)
qed

lemma level_runs_order: "set (map snd (level_runs L)) = set (run_order L)"
  and level_runs_distinct: "distinct (map snd (level_runs L)) = distinct (run_order L)"
proof -
  have "map snd (level_runs L) = concat (map lv_run_ids L)"
    by (simp add: level_runs_def map_concat comp_def)
  moreover have "set (concat (map lv_run_ids L)) = set (run_order L)" by (auto simp: run_order_def)
  moreover have "distinct (concat (map lv_run_ids L)) = distinct (run_order L)"
    unfolding run_order_def by (induction L) auto
  ultimately show "set (map snd (level_runs L)) = set (run_order L)"
    and "distinct (map snd (level_runs L)) = distinct (run_order L)" by simp_all
qed

lemma ids_at_pad [simp]: "ids_at (pad_levels t L) j = ids_at L j"
  by (auto simp: ids_at_def pad_levels_def nth_append level_new_def simp del: upt_Suc)

lemma ids_at_update:
  assumes "l < length L"
  shows "ids_at (L[l := f (L ! l)]) j = (if j = l then lv_run_ids (f (L ! l)) else ids_at L j)"
  using assms by (simp add: ids_at_def)

lemma numbered_update: "numbered L \<Longrightarrow> lv_number (f (L ! l)) = lv_number (L ! l) \<Longrightarrow> numbered (L[l := f (L ! l)])"
  by (cases "l < length L") (simp_all add: map_update list_update_beyond numbered_nth list_update_same_conv)


section \<open>Loading the manifest\<close>

text \<open>The runs that open.\<close>

definition opened_runs :: "checksum \<Rightarrow> run_dir \<Rightarrow> nat \<Rightarrow> nat \<rightharpoonup> run" where
  "opened_runs crc dir ps i = (case run_open crc dir i ps of Inl _ \<Rightarrow> None | Inr r \<Rightarrow> Some r)"

lemma load_run_ok:
  assumes "numbered L" and "run_open crc dir i ps \<noteq> Inl Panic" and "i \<notin> set (ids_at L l)"
  shows "\<exists>L'. load_run crc dir ps (l, i) (L, R) = Inr (L', R ++ (opened_runs crc dir ps |` {i})) \<and> numbered L' \<and>
    (\<forall>j. ids_at L' j = ids_at L j @ (if j = l \<and> opened_runs crc dir ps i \<noteq> None then [i] else []))"
proof -
  let ?P = "pad_levels l L"
  let ?A = "?P[l := add_run i (?P ! l)]"
  have l: "l < length ?P" by (simp add: pad_levels_def)
  have ids: "lv_run_ids (?P ! l) = ids_at L l" using l ids_at_pad [of l L l] by (simp add: ids_at_def)
  have n: "numbered ?P" using pad_levels_numbers [OF assms(1)] .
  have A: "numbered ?A" "\<And>j. ids_at ?A j = ids_at L j @ (if j = l then [i] else [])" "?A ! l = add_run i (?P ! l)"
    using numbered_update [OF n, of "add_run i" l] l ids by (simp_all add: ids_at_update add_run_def)
  show ?thesis
  proof (cases "run_open crc dir i ps")
    case (Inr r)
    with A show ?thesis by (auto simp: load_run_def Let_def opened_runs_def fun_eq_iff map_add_def restrict_map_def)
  next
    case (Inl e)
    let ?B = "?A[l := remove_run i (?A ! l)]"
    have "numbered ?B" using numbered_update [OF A(1), of "remove_run i" l] by (simp add: remove_run_def)
    moreover have "ids_at ?B j = ids_at L j" for j
      using l ids assms(3) by (auto simp: ids_at_update A(2,3) remove_run_def add_run_def filter_id_conv)
    ultimately show ?thesis using Inl assms(2)
      by (cases e) (auto simp: load_run_def Let_def opened_runs_def fun_eq_iff map_add_def restrict_map_def)
  qed
qed

lemma load_runs_ok:
  assumes "numbered L" and "\<forall>e\<in>set es. run_open crc dir (snd e) ps \<noteq> Inl Panic" and "distinct (map snd es)"
    and "\<forall>e\<in>set es. \<forall>j. snd e \<notin> set (ids_at L j)"
  shows "\<exists>L'. rfold (load_run crc dir ps) es (L, R) = Inr (L', R ++ (opened_runs crc dir ps |` (snd ` set es))) \<and>
    numbered L' \<and> (\<forall>j. ids_at L' j = ids_at L j @
      map snd (filter (\<lambda>e. fst e = j \<and> opened_runs crc dir ps (snd e) \<noteq> None) es))"
  using assms
proof (induction es arbitrary: L R)
  case Nil
  then show ?case by simp
next
  case (Cons e es)
  obtain l i where e: "e = (l, i)" by (cases e)
  from load_run_ok [OF Cons.prems(1), of crc dir i ps l R] Cons.prems(2,4) e obtain L1 where
    L1: "load_run crc dir ps (l, i) (L, R) = Inr (L1, R ++ (opened_runs crc dir ps |` {i}))" "numbered L1"
      "\<forall>j. ids_at L1 j = ids_at L j @ (if j = l \<and> opened_runs crc dir ps i \<noteq> None then [i] else [])" by auto
  have "\<forall>e\<in>set es. \<forall>j. snd e \<notin> set (ids_at L1 j)" using Cons.prems(3,4) L1(3) e by force
  from Cons.IH [OF L1(2) _ _ this, of "R ++ (opened_runs crc dir ps |` {i})"] Cons.prems(2,3) obtain L2 where
    L2: "rfold (load_run crc dir ps) es (L1, R ++ (opened_runs crc dir ps |` {i})) =
        Inr (L2, R ++ (opened_runs crc dir ps |` {i}) ++ (opened_runs crc dir ps |` (snd ` set es)))" "numbered L2"
      "\<forall>j. ids_at L2 j = ids_at L1 j @ map snd (filter (\<lambda>e. fst e = j \<and> opened_runs crc dir ps (snd e) \<noteq> None) es)"
    by auto
  have "R ++ (opened_runs crc dir ps |` {i}) ++ (opened_runs crc dir ps |` (snd ` set es)) =
      R ++ (opened_runs crc dir ps |` (snd ` set (e # es)))"
    by (auto simp: e fun_eq_iff map_add_def restrict_map_def split: option.splits)
  with L1 L2 e show ?case by auto
qed


text \<open>The manifest has room for the numbers of the store.\<close>

definition manifest_fits :: "run_store \<Rightarrow> bool" where
  "manifest_fits st \<longleftrightarrow> length (rs_levels st) \<le> 2 ^ 32 \<and> length (run_order (rs_levels st)) < 2 ^ 32 \<and>
     rs_next_run_id st \<le> 2 ^ 64 - 1"

lemma level_runs_length: "length (level_runs L) = length (run_order L)"
  unfolding level_runs_def run_order_def by (induction L) simp_all

lemma store_manifest_read:
  assumes "store_inv crc ps st" and "manifest_fits st"
  shows "meta_from_bytes (store_manifest st) =
    Inr \<lparr>sm_label = manifest_label, sm_runs = level_runs (rs_levels st), sm_next_run_id = rs_next_run_id st\<rparr>"
proof -
  have "lv < 2 ^ 32 \<and> i < 2 ^ 64" if "(lv, i) \<in> set (level_runs (rs_levels st))" for lv i
  proof -
    from that obtain l where l: "l \<in> set (rs_levels st)" "lv = lv_number l" by (auto simp: level_runs_def)
    then have "lv \<in> set (map lv_number (rs_levels st))" by simp
    then have "lv < length (rs_levels st)" using assms(1) by (simp only: store_inv_def) simp
    moreover have "i \<in> set (map snd (level_runs (rs_levels st)))" using that by force
    then have "i < rs_next_run_id st" using assms(1) unfolding level_runs_order store_inv_def by blast
    ultimately show ?thesis using assms(2) by (simp add: manifest_fits_def)
  qed
  moreover have "utf8_valid manifest_label" by (rule utf8_ascii) (simp add: manifest_label_def)
  ultimately show ?thesis unfolding store_manifest_def using assms(2)
    by (intro meta_roundtrip) (auto simp: meta_fits_def manifest_fits_def level_runs_length list_all_iff manifest_label_def)
qed

lemma load_manifest_runs:
  assumes "store_inv crc ps (lt_store t)" and "manifest_fits (lt_store t)" and "manifest_synced t"
    and "ds_manifest d = lt_manifest t"
  shows "load_manifest crc d ps =
    rbind (rfold (load_run crc (ds_dir d) ps) (level_runs (rs_levels (lt_store t))) ([], Map.empty))
      (\<lambda>(L, R). Inr (L, rs_next_run_id (lt_store t), R))"
proof (cases "lt_manifest t")
  case None
  with assms(3) have "level_runs (rs_levels (lt_store t)) = []" "rs_next_run_id (lt_store t) = 0"
    using level_runs_length [of "rs_levels (lt_store t)"] by (simp_all add: manifest_synced_def)
  with None assms(4) show ?thesis by (simp add: load_manifest_def)
next
  case (Some b)
  with assms(3,4) store_manifest_read [OF assms(1,2)] show ?thesis
    by (simp add: load_manifest_def manifest_synced_def)
qed

text \<open>The store that a loaded manifest makes.\<close>

definition opened_store :: "level list \<Rightarrow> (nat \<rightharpoonup> run) \<Rightarrow> run_dir \<Rightarrow> nat \<Rightarrow> nat \<Rightarrow> run_store" where
  "opened_store L R dir n next_id = \<lparr>rs_levels = (if L = [] then [level_new 0] else L), rs_runs = R,
     rs_dir = dir, rs_cache = cache_new n, rs_next_run_id = next_id\<rparr>"

text \<open>The files of the runs of \<open>st\<close> are there unchanged, or gone.\<close>

definition dir_keeps :: "run_store \<Rightarrow> run_dir \<Rightarrow> bool" where
  "dir_keeps st dir \<longleftrightarrow> (\<forall>i\<in>dom (rs_runs st). dir i = rs_dir st i \<or> dir i = None)"

lemma opened_runs_ok:
  assumes "store_inv crc ps st" and "dir_keeps st dir" and "i \<in> set (run_order (rs_levels st))"
  shows "if dir i = None then run_open crc dir i ps = Inl (Io NotFound)
    else \<exists>r. run_open crc dir i ps = Inr r \<and> rn_id r = i \<and> rn_page_size r = ps \<and>
      run_holds crc dir r (entries_of crc st i)"
proof -
  from store_invD [OF assms(1,3)] obtain r where
    r: "rs_runs st i = Some r" "rn_id r = i" "rn_page_size r = ps" "run_holds crc (rs_dir st) r (entries_of crc st i)"
    by blast
  show ?thesis
  proof (cases "dir i")
    case None
    then show ?thesis by (simp add: run_open_def)
  next
    case (Some f)
    have "i \<in> dom (rs_runs st)" using r(1) by auto
    with assms(2) r(2) Some have "dir (rn_id r) = rs_dir st (rn_id r)" by (force simp: dir_keeps_def)
    with r(4) have "run_holds crc dir r (entries_of crc st i)" by (rule run_holds_frame)
    from run_open_ok [OF this] r Some show ?thesis by auto
  qed
qed

lemma run_order_filter:
  assumes "\<And>j. ids_at L' j = filter P (ids_at L j)"
  shows "run_order L' = filter P (run_order L)"
proof -
  let ?N = "max (length L) (length L')"
  have "run_order L' = concat (rev (map (ids_at L') [0..<?N]))" by (rule run_order_ids) simp
  also have "\<dots> = filter P (concat (rev (map (ids_at L) [0..<?N])))"
    by (simp add: ext [of "ids_at L'", OF assms] filter_concat rev_map comp_def)
  also have "concat (rev (map (ids_at L) [0..<?N])) = run_order L" by (rule run_order_ids [symmetric]) simp
  finally show ?thesis .
qed

lemma opened_store_inv:
  assumes inv: "store_inv crc ps st" and dir: "dir_keeps st dir"
    and L: "L \<noteq> []" "numbered L" "\<And>j. ids_at L j = filter (\<lambda>i. dir i \<noteq> None) (ids_at (rs_levels st) j)"
    and R: "R = opened_runs crc dir ps |` set (run_order (rs_levels st))"
    and S: "S = \<lparr>rs_levels = L, rs_runs = R, rs_dir = dir, rs_cache = cache_new n, rs_next_run_id = rs_next_run_id st\<rparr>"
  shows "store_inv crc ps S"
    and "i \<in> set (run_order (rs_levels st)) \<Longrightarrow> dir i \<noteq> None \<Longrightarrow> entries_of crc S i = entries_of crc st i"
proof -
  note opn = opened_runs_ok [OF inv dir]
  have R': "if dir i = None then R i = None else \<exists>r. R i = Some r \<and> rn_id r = i \<and> rn_page_size r = ps \<and>
      run_holds crc dir r (entries_of crc st i)" if "i \<in> set (run_order (rs_levels st))" for i
    using opn [OF that] that by (auto simp: R opened_runs_def)
  have R0: "R i = None" if "i \<notin> set (run_order (rs_levels st))" for i using that by (simp add: R)
  note ord = run_order_filter [OF L(3)]
  have dom: "set (run_order L) = dom R"
  proof (intro set_eqI)
    fix i show "i \<in> set (run_order L) \<longleftrightarrow> i \<in> dom R"
      using R' [of i] R0 [of i] by (cases "i \<in> set (run_order (rs_levels st))") (auto simp: ord split: if_splits)
  qed
  have good: "run_good crc ps dir i r" if "R i = Some r" for i r
  proof -
    have i: "i \<in> set (run_order (rs_levels st))" using that R0 [of i] by (cases "i \<in> set (run_order (rs_levels st))") auto
    from store_invD [OF inv i] R' [OF i] that show ?thesis unfolding run_good_def by (auto split: if_splits)
  qed
  have "set (run_order L) \<subseteq> dom (rs_runs st)" using inv unfolding store_inv_def ord by auto
  then have "\<forall>i\<in>dom R. i < rs_next_run_id st" using inv unfolding store_inv_def dom by blast
  moreover have "distinct (run_order L)" using inv unfolding store_inv_def ord by simp
  ultimately show "store_inv crc ps S" using L(1,2) dom good unfolding store_inv_def S by simp
  assume i: "i \<in> set (run_order (rs_levels st))" "dir i \<noteq> None"
  with R' [OF i(1)] obtain r where r: "R i = Some r" "run_holds crc dir r (entries_of crc st i)" by auto
  with scan_all_ok [OF r(2)] show "entries_of crc S i = entries_of crc st i" by (simp add: entries_of_def S)
qed

lemma load_store_ok:
  assumes inv: "store_inv crc ps st" and dir: "dir_keeps st dir"
  shows "\<exists>L R. rfold (load_run crc dir ps) (level_runs (rs_levels st)) ([], Map.empty) = Inr (L, R) \<and>
    store_inv crc ps (opened_store L R dir n (rs_next_run_id st)) \<and>
    (\<forall>j. ids_at (rs_levels (opened_store L R dir n (rs_next_run_id st))) j =
       filter (\<lambda>i. dir i \<noteq> None) (ids_at (rs_levels st) j)) \<and>
    (\<forall>i\<in>set (run_order (rs_levels st)). dir i \<noteq> None \<longrightarrow>
       entries_of crc (opened_store L R dir n (rs_next_run_id st)) i = entries_of crc st i)"
proof -
  let ?es = "level_runs (rs_levels st)" and ?O = "opened_runs crc dir ps"
  note opn = opened_runs_ok [OF inv dir]
  have ids: "snd ` set ?es = set (run_order (rs_levels st))" using level_runs_order [of "rs_levels st"] by simp
  have O: "?O i \<noteq> None \<longleftrightarrow> dir i \<noteq> None" if "i \<in> set (run_order (rs_levels st))" for i
    using opn [OF that] by (auto simp: opened_runs_def split: if_splits)
  have "\<exists>L. rfold (load_run crc dir ps) ?es ([], Map.empty) = Inr (L, Map.empty ++ (?O |` (snd ` set ?es))) \<and>
      numbered L \<and> (\<forall>j. ids_at L j = ids_at [] j @ map snd (filter (\<lambda>e. fst e = j \<and> ?O (snd e) \<noteq> None) ?es))"
  proof (rule load_runs_ok)
    show "\<forall>e\<in>set ?es. run_open crc dir (snd e) ps \<noteq> Inl Panic"
    proof
      fix e assume "e \<in> set ?es"
      then have "snd e \<in> set (run_order (rs_levels st))" using ids by blast
      from opn [OF this] show "run_open crc dir (snd e) ps \<noteq> Inl Panic" by (auto split: if_splits)
    qed
    show "distinct (map snd ?es)" using inv by (simp add: level_runs_distinct store_inv_def)
  qed (simp_all add: ids_at_def)
  then obtain L where L: "rfold (load_run crc dir ps) ?es ([], Map.empty) = Inr (L, ?O |` set (run_order (rs_levels st)))"
      "numbered L" "\<And>j. ids_at L j = map snd (filter (\<lambda>e. fst e = j \<and> ?O (snd e) \<noteq> None) ?es)"
    by (auto simp: ids ids_at_def)
  let ?L = "if L = [] then [level_new 0] else L"
  have ids_L: "ids_at L j = filter (\<lambda>i. dir i \<noteq> None) (ids_at (rs_levels st) j)" for j
  proof -
    have "ids_at L j = filter (\<lambda>i. ?O i \<noteq> None) (ids_at (rs_levels st) j)"
      unfolding L(3) using inv by (intro level_runs_at) (simp add: store_inv_def)
    also have "\<dots> = filter (\<lambda>i. dir i \<noteq> None) (ids_at (rs_levels st) j)"
    proof (rule filter_cong [OF refl])
      fix i assume "i \<in> set (ids_at (rs_levels st) j)"
      then have "i \<in> set (run_order (rs_levels st))"
        by (force simp: ids_at_def run_order_def split: if_splits)
      then show "(?O i \<noteq> None) = (dir i \<noteq> None)" by (rule O)
    qed
    finally show ?thesis .
  qed
  have ids_new: "ids_at ?L j = ids_at L j" "numbered ?L" "?L \<noteq> []" for j
    using L(2) by (simp_all add: ids_at_def level_new_def)
  note S = opened_store_inv [OF inv dir ids_new(3,2) _ refl refl, unfolded ids_new(1), OF ids_L,
      where n = n, folded opened_store_def]
  have "ids_at (rs_levels (opened_store L R dir n k)) = ids_at L" for R k
    by (simp add: opened_store_def ext [OF ids_new(1)])
  with L(1) S ids_L show ?thesis by (intro exI [of _ L] exI conjI) (assumption | simp)+
qed



section \<open>Opening\<close>

text \<open>The files hold the store of \<open>t\<close>, perhaps with some runs gone, and the log of \<open>ops\<close>.\<close>

definition disk_holds :: "checksum \<Rightarrow> lsm_config \<Rightarrow> lsm_tree \<Rightarrow> wal_op list \<Rightarrow> lsm_disk \<Rightarrow> bool" where
  "disk_holds crc cfg t ops d \<longleftrightarrow> config_ok cfg \<and> wal_enabled cfg \<and> store_inv crc (page_size cfg) (lt_store t) \<and>
     manifest_synced t \<and> manifest_fits (lt_store t) \<and> dir_keeps (lt_store t) (ds_dir d) \<and>
     ds_manifest d = lt_manifest t \<and> list_all op_fits ops \<and>
     (\<exists>hi<1000000. files_hold crc (ds_wal d) ops hi)"

definition kept_view :: "checksum \<Rightarrow> run_store \<Rightarrow> run_dir \<Rightarrow> key \<rightharpoonup> lsm_value option" where
  "kept_view crc st dir = overlay (map (entries_of crc st) (filter (\<lambda>i. dir i \<noteq> None) (run_order (rs_levels st))))"

lemma runs_at_ids: "runs_at L j = length (ids_at L j)"
  by (simp add: runs_at_def ids_at_def num_runs_def)

lemma level_runs_eq:
  assumes "numbered L" and "numbered L'" and "\<And>j. ids_at L' j = ids_at L j"
  shows "level_runs L' = level_runs L"
proof -
  let ?N = "max (length L) (length L')"
  have "level_runs L' = concat (map (\<lambda>j. map (Pair j) (ids_at L' j)) [0..<?N])"
    by (rule level_runs_ids [OF assms(2)]) simp
  also have "\<dots> = level_runs L" unfolding assms(3) by (rule level_runs_ids [OF assms(1), symmetric]) simp
  finally show ?thesis .
qed

lemma reopen_ok:
  assumes d: "disk_holds crc cfg t ops d"
  shows "\<exists>t'. tree_open crc cfg d = Inr t' \<and> lt_config t' = cfg \<and> lt_memtable t' = fold apply_op ops memtable_new \<and>
    ww_enabled (lt_wal t') \<and> wal_synced crc t' \<and> store_inv crc (page_size cfg) (lt_store t') \<and>
    store_view crc (lt_store t') = kept_view crc (lt_store t) (ds_dir d) \<and>
    (\<forall>j. ids_at (rs_levels (lt_store t')) j = filter (\<lambda>i. ds_dir d i \<noteq> None) (ids_at (rs_levels (lt_store t)) j)) \<and>
    rs_next_run_id (lt_store t') = rs_next_run_id (lt_store t) \<and> lt_manifest t' = lt_manifest t"
proof -
  let ?st = "lt_store t" and ?n = "cache_capacity cfg" and ?next = "rs_next_run_id (lt_store t)"
  have inv: "store_inv crc (page_size cfg) ?st" and dir: "dir_keeps ?st (ds_dir d)" and ps: "page_size cfg \<noteq> 0"
    using d by (auto simp: disk_holds_def config_ok_def page_header_size_def)
  from d obtain hi where hi: "hi < 1000000" "files_hold crc (ds_wal d) ops hi" and fits: "list_all op_fits ops"
    by (auto simp: disk_holds_def)
  from wal_new_ok [OF hi(2)] obtain w f where
    w: "wal_new (wal_segment_size cfg) True (ds_wal d) = Inr (w, f)" "wal_holds crc w f ops" "ww_enabled w" by blast
  from load_store_ok [OF inv dir, of ?n] obtain L R where
    L: "rfold (load_run crc (ds_dir d) (page_size cfg)) (level_runs (rs_levels ?st)) ([], Map.empty) = Inr (L, R)"
      "store_inv crc (page_size cfg) (opened_store L R (ds_dir d) ?n ?next)"
      "\<And>j. ids_at (rs_levels (opened_store L R (ds_dir d) ?n ?next)) j =
        filter (\<lambda>i. ds_dir d i \<noteq> None) (ids_at (rs_levels ?st) j)"
      "\<And>i. i \<in> set (run_order (rs_levels ?st)) \<Longrightarrow> ds_dir d i \<noteq> None \<Longrightarrow>
        entries_of crc (opened_store L R (ds_dir d) ?n ?next) i = entries_of crc ?st i" by blast
  define t' where "t' = \<lparr>lt_config = cfg, lt_memtable = fold apply_op ops memtable_new, lt_wal = w, lt_wal_files = f,
    lt_store = opened_store L R (ds_dir d) ?n ?next, lt_manifest = lt_manifest t\<rparr>"
  have "load_manifest crc d (page_size cfg) = Inr (L, ?next, R)"
    using load_manifest_runs [OF inv, of d] d L(1) by (simp add: disk_holds_def)
  with w(1) ps d replay_wal_ok [OF hi(2) fits hi(1)] have "tree_open crc cfg d = Inr t'"
    by (simp add: tree_open_def t'_def opened_store_def disk_holds_def)
  moreover have "wal_synced crc t'" using w fits by (auto simp: wal_synced_def t'_def)
  moreover have "store_view crc (lt_store t') = kept_view crc ?st (ds_dir d)"
    unfolding store_view_def kept_view_def t'_def lsm_tree.simps run_order_filter [OF L(3)]
    by (rule arg_cong [of _ _ overlay], rule map_cong [OF refl]) (simp add: L(4))
  ultimately show ?thesis using w(3) L(2,3) by (simp add: t'_def opened_store_def)
qed

text \<open>Between two operations nothing is lost: the files give back a tree with the same map.\<close>

lemma kept_view_all:
  assumes "store_inv crc ps st"
  shows "\<forall>i\<in>set (run_order (rs_levels st)). dir i = rs_dir st i \<Longrightarrow> kept_view crc st dir = store_view crc st"
    and "\<And>i. i \<in> set (run_order (rs_levels st)) \<Longrightarrow> rs_dir st i \<noteq> None"
proof -
  show some: "rs_dir st i \<noteq> None" if "i \<in> set (run_order (rs_levels st))" for i
    using store_invD [OF assms that] by (auto simp: run_holds_def run_layout_def)
  show "kept_view crc st dir = store_view crc st" if "\<forall>i\<in>set (run_order (rs_levels st)). dir i = rs_dir st i"
  proof -
    have "filter (\<lambda>i. dir i \<noteq> None) (run_order (rs_levels st)) = run_order (rs_levels st)"
      using that some by (auto simp: filter_id_conv)
    then show ?thesis by (simp add: kept_view_def store_view_def)
  qed
qed

lemma op_fits_entry_ok: "op_fits op \<Longrightarrow> entry_ok (op_entry op)"
  by (cases op) (auto simp: op_fits_def entry_ok_def entry_fits_def op_entry_def entry_size_def page_header_size_def opt_len_def)

lemma reopen_synced:
  assumes d: "disk_holds crc cfg t ops d" and few: "\<forall>j. runs_at (rs_levels (lt_store t)) j < size_ratio cfg"
    and dir: "\<forall>i\<in>set (run_order (rs_levels (lt_store t))). ds_dir d i = rs_dir (lt_store t) i"
  shows "\<exists>t'. tree_open crc cfg d = Inr t' \<and> tree_inv crc t' \<and>
    tree_abs crc t' = visible (store_view crc (lt_store t) ++ memtable_get (fold apply_op ops memtable_new))"
proof -
  have inv: "store_inv crc (page_size cfg) (lt_store t)" using d by (simp add: disk_holds_def)
  from reopen_ok [OF d] obtain t' where
    t': "tree_open crc cfg d = Inr t'" "lt_config t' = cfg" "lt_memtable t' = fold apply_op ops memtable_new"
      "wal_synced crc t'" "store_inv crc (page_size cfg) (lt_store t')"
      "store_view crc (lt_store t') = kept_view crc (lt_store t) (ds_dir d)"
      "\<And>j. ids_at (rs_levels (lt_store t')) j = filter (\<lambda>i. ds_dir d i \<noteq> None) (ids_at (rs_levels (lt_store t)) j)"
      "rs_next_run_id (lt_store t') = rs_next_run_id (lt_store t)" "lt_manifest t' = lt_manifest t" by blast
  have ids: "ids_at (rs_levels (lt_store t')) j = ids_at (rs_levels (lt_store t)) j" for j
  proof -
    have "i \<in> set (run_order (rs_levels (lt_store t)))" if "i \<in> set (ids_at (rs_levels (lt_store t)) j)" for i
      using that by (force simp: ids_at_def run_order_def split: if_splits)
    with dir kept_view_all(2) [OF inv] show ?thesis unfolding t'(7) by (auto simp: filter_id_conv)
  qed
  have "run_order (rs_levels (lt_store t')) = run_order (rs_levels (lt_store t))"
    using run_order_filter [of "rs_levels (lt_store t')" "\<lambda>_. True"] ids by simp
  moreover have "level_runs (rs_levels (lt_store t')) = level_runs (rs_levels (lt_store t))"
    using inv t'(5) by (intro level_runs_eq ids) (simp_all add: store_inv_def)
  ultimately have "manifest_synced t'"
    using d t'(8,9) by (auto simp: disk_holds_def manifest_synced_def store_manifest_def split: option.splits)
  moreover have "memtable_inv (fold apply_op ops memtable_new)"
    "list_all entry_ok (mt_entries (fold apply_op ops memtable_new))"
  proof -
    have e: "list_all (entry_ok \<circ> op_entry) ops"
      using d op_fits_entry_ok by (auto simp: disk_holds_def list_all_iff)
    have m: "memtable_inv memtable_new" "list_all entry_ok (mt_entries memtable_new)"
      by (simp_all add: memtable_new_def memtable_inv_def)
    show "memtable_inv (fold apply_op ops memtable_new)"
      "list_all entry_ok (mt_entries (fold apply_op ops memtable_new))" using apply_ops_ok [OF m e] by simp_all
  qed
  moreover have "runs_at (rs_levels (lt_store t')) j < size_ratio cfg" for j
    using few by (simp add: runs_at_ids ids)
  ultimately have "tree_inv crc t'"
    using t'(2-5) d by (simp add: tree_inv_def disk_holds_def)
  then show ?thesis using t' kept_view_all(1) [OF inv dir] by (auto simp: tree_abs_def tree_view_def)
qed

text \<open>The files of a tree at rest.\<close>

lemma disk_of_holds:
  assumes "tree_inv crc t" and "ww_enabled (lt_wal t)" and "wal_enabled (lt_config t)"
    and "ww_segment_num (lt_wal t) < 1000000" and "manifest_fits (lt_store t)"
  shows "\<exists>ops. disk_holds crc (lt_config t) t ops (disk_of t) \<and> lt_memtable t = fold apply_op ops memtable_new"
proof -
  from assms obtain ops where "wal_holds crc (lt_wal t) (lt_wal_files t) ops" "list_all op_fits ops"
    "lt_memtable t = fold apply_op ops memtable_new" by (auto simp: tree_inv_def wal_synced_def)
  with assms wal_holds_files show ?thesis
    by (auto simp: disk_holds_def tree_inv_def disk_of_def dir_keeps_def
        intro!: exI [of _ ops] exI [of _ "ww_segment_num (lt_wal t)"])
qed

lemma reopen_rest:
  assumes "tree_inv crc t" and "ww_enabled (lt_wal t)" and "wal_enabled (lt_config t)"
    and "ww_segment_num (lt_wal t) < 1000000" and "manifest_fits (lt_store t)"
  shows "\<exists>t'. tree_open crc (lt_config t) (disk_of t) = Inr t' \<and> tree_inv crc t' \<and> tree_abs crc t' = tree_abs crc t"
proof -
  from disk_of_holds [OF assms] obtain ops where
    ops: "disk_holds crc (lt_config t) t ops (disk_of t)" "lt_memtable t = fold apply_op ops memtable_new" by blast
  from reopen_synced [OF ops(1)] assms(1) ops(2) show ?thesis
    by (simp add: tree_inv_def disk_of_def tree_abs_def tree_view_def)
qed


section \<open>Stopping inside a flush\<close>

text \<open>The drained buffer is written as a run, then the log is cleared, then the manifest is saved.\<close>

definition drained :: "lsm_tree \<Rightarrow> lsm_tree" where
  "drained t = t\<lparr>lt_memtable := memtable_new\<rparr>"

lemma flush_run_drained:
  assumes "tree_inv crc t" and "tree_room crc 0 0 t" and "mt_entries (lt_memtable t) \<noteq> []"
  shows "\<exists>st. flush_run crc (mt_entries (lt_memtable t)) (drained t) = Inr ((drained t)\<lparr>lt_store := st\<rparr>) \<and>
    (\<forall>i\<in>set (run_order (rs_levels (lt_store t))). rs_dir st i = rs_dir (lt_store t) i)"
proof -
  let ?es = "mt_entries (lt_memtable t)"
  have es: "sorted_keys ?es" "?es \<noteq> []" "list_all entry_ok ?es" and cfg: "config_ok (lt_config (drained t))"
    and inv: "store_inv crc (page_size (lt_config (drained t))) (lt_store (drained t))"
    using assms by (simp_all add: tree_inv_def memtable_inv_def drained_def)
  have "fits_total (page_size (lt_config (drained t))) (bloom_filter_bits_per_key (lt_config (drained t)))
      (length ?es) (entries_bytes ?es)"
    using assms(2) unfolding tree_room_def drained_def by (auto elim: fits_total_mono)
  from flush_run_ok [OF inv es cfg this] obtain st where
    st: "flush_run crc ?es (drained t) = Inr ((drained t)\<lparr>lt_store := st\<rparr>)"
      "\<forall>i. i \<noteq> rs_next_run_id (lt_store t) \<longrightarrow> rs_dir st i = rs_dir (lt_store t) i" by (auto simp: drained_def)
  moreover have "i \<noteq> rs_next_run_id (lt_store t)" if "i \<in> set (run_order (rs_levels (lt_store t)))" for i
    using that inv by (auto simp: store_inv_def drained_def)
  ultimately show ?thesis by blast
qed

lemma flush_window:
  assumes inv: "tree_inv crc t" and wal: "ww_enabled (lt_wal t)" "wal_enabled (lt_config t)"
    and few: "ww_segment_num (lt_wal t) + 1 < 1000000" "manifest_fits (lt_store t)"
    and st: "\<forall>i\<in>set (run_order (rs_levels (lt_store t))). rs_dir st i = rs_dir (lt_store t) i"
  defines "t1 \<equiv> (drained t)\<lparr>lt_store := st\<rparr>"
  shows "\<exists>t'. tree_open crc (lt_config t) (disk_of t1) = Inr t' \<and> tree_inv crc t' \<and> tree_abs crc t' = tree_abs crc t"
    and "\<exists>t2 t'. clear_wal t1 = Inr t2 \<and> tree_open crc (lt_config t) (disk_of t2) = Inr t' \<and> tree_inv crc t' \<and>
      tree_abs crc t' = visible (store_view crc (lt_store t))"
proof -
  have runs: "\<forall>j. runs_at (rs_levels (lt_store t)) j < size_ratio (lt_config t)" using inv by (simp add: tree_inv_def)
  have keeps: "dir_keeps (lt_store t) (rs_dir st)"
    using st inv unfolding dir_keeps_def by (auto simp: tree_inv_def store_inv_def)
  from inv wal(1) obtain ops where ops: "wal_holds crc (lt_wal t) (lt_wal_files t) ops" "list_all op_fits ops"
    "lt_memtable t = fold apply_op ops memtable_new" by (auto simp: tree_inv_def wal_synced_def)
  have d1: "disk_holds crc (lt_config t) t ops (disk_of t1)"
    using inv wal(2) few keeps ops(2) wal_holds_files [OF ops(1)]
    by (auto simp: disk_holds_def tree_inv_def disk_of_def t1_def drained_def intro!: exI [of _ "ww_segment_num (lt_wal t)"])
  from reopen_synced [OF d1 runs] st ops(3) show
    "\<exists>t'. tree_open crc (lt_config t) (disk_of t1) = Inr t' \<and> tree_inv crc t' \<and> tree_abs crc t' = tree_abs crc t"
    by (simp add: disk_of_def t1_def tree_abs_def tree_view_def)
  from wal_clear_ok [OF ops(1) wal(1)] obtain w f where
    w: "wal_clear (lt_wal t) (lt_wal_files t) = Inr (w, f)" "wal_holds crc w f []"
      "ww_segment_num w = ww_segment_num (lt_wal t) + 1" by blast
  let ?t2 = "t1\<lparr>lt_wal := w, lt_wal_files := f\<rparr>"
  have d2: "disk_holds crc (lt_config t) t [] (disk_of ?t2)"
    using inv wal(2) few keeps wal_holds_files [OF w(2)] w(3)
    by (auto simp: disk_holds_def tree_inv_def disk_of_def t1_def drained_def intro!: exI [of _ "ww_segment_num w"])
  have c: "clear_wal t1 = Inr ?t2" using w(1) by (simp add: clear_wal_def t1_def drained_def)
  have "memtable_get memtable_new = Map.empty" by (rule ext) (simp add: memtable_get_def memtable_new_def)
  with reopen_synced [OF d2 runs] st c show "\<exists>t2 t'. clear_wal t1 = Inr t2 \<and> tree_open crc (lt_config t) (disk_of t2) = Inr t' \<and>
      tree_inv crc t' \<and> tree_abs crc t' = visible (store_view crc (lt_store t))"
    by (auto simp: disk_of_def t1_def)
qed


section \<open>Stopping inside a compaction\<close>

lemma compact_level_dir:
  assumes "compact_level crc ps bpk i st = Inr ((consumed, new_id), st')" and "j \<noteq> rs_next_run_id st"
  shows "rs_dir st' j = (if j \<in> set consumed then None else rs_dir st j)"
  using assms unfolding compact_level_def Let_def
  by (elim rbind_InrE) (auto simp: install_run_def drop_runs write_merged_def run_write_def Let_def restrict_map_def
     split: option.splits if_splits elim!: rbind_InrE)

lemma gather_runs_ids: "gather_runs crc st seq ids = Inr xs \<Longrightarrow> map fst xs = filter (\<lambda>i. rs_runs st i \<noteq> None) ids"
  by (induction ids arbitrary: seq xs) (auto split: option.splits elim!: rbind_InrE)

lemma compact_level_consumed:
  assumes "compact_level crc ps bpk i st = Inr ((consumed, new_id), st')" and "store_inv crc ps st"
  shows "set (ids_at (rs_levels st) i) \<subseteq> set consumed"
proof -
  have "lv_run_ids (pad_levels (i + 1) (rs_levels st) ! i) = ids_at (rs_levels st) i"
  proof -
    have "i < length (pad_levels (i + 1) (rs_levels st))" by (simp add: pad_levels_def)
    then show ?thesis using ids_at_pad [of "i + 1" "rs_levels st" i] by (simp add: ids_at_def)
  qed
  with assms(1) obtain seq xs ys where "gather_runs crc st seq (ids_at (rs_levels st) i) = Inr ys"
    and "consumed = map fst (xs @ ys)"
    unfolding compact_level_def Let_def by (elim rbind_InrE) (auto split: prod.splits)
  then have "set consumed \<supseteq> set (filter (\<lambda>i. rs_runs st i \<noteq> None) (ids_at (rs_levels st) i))"
    using gather_runs_ids by fastforce
  moreover have "set (ids_at (rs_levels st) i) \<subseteq> dom (rs_runs st)"
    using assms(2) by (force simp: store_inv_def ids_at_def run_order_def)
  ultimately show ?thesis by auto
qed

text \<open>The consumed runs are deleted before the manifest that still names them is replaced.  A tree
  opened from the files in between has none of their entries.\<close>

lemma compaction_window:
  assumes d: "disk_holds crc cfg t ops (disk_of t)"
    and c: "compact_level crc (page_size cfg) bpk i (lt_store t) = Inr ((consumed, new_id), st)"
  shows "\<exists>t'. tree_open crc cfg ((disk_of t)\<lparr>ds_dir := rs_dir st\<rparr>) = Inr t' \<and>
    tree_abs crc t' = visible (overlay (map (entries_of crc (lt_store t))
      (filter (\<lambda>j. j \<notin> set consumed) (run_order (rs_levels (lt_store t))))) ++
      memtable_get (fold apply_op ops memtable_new))"
proof -
  have inv: "store_inv crc (page_size cfg) (lt_store t)" using d by (simp add: disk_holds_def)
  have dir: "rs_dir st j = (if j \<in> set consumed then None else rs_dir (lt_store t) j)"
    if "j \<in> set (run_order (rs_levels (lt_store t)))" for j
    using that inv by (intro compact_level_dir [OF c]) (auto simp: store_inv_def)
  have "dir_keeps (lt_store t) (rs_dir st)"
    using dir inv unfolding dir_keeps_def by (simp add: store_inv_def)
  then have d': "disk_holds crc cfg t ops ((disk_of t)\<lparr>ds_dir := rs_dir st\<rparr>)"
    using d by (simp add: disk_holds_def disk_of_def)
  have "filter (\<lambda>j. rs_dir st j \<noteq> None) (run_order (rs_levels (lt_store t))) =
      filter (\<lambda>j. j \<notin> set consumed) (run_order (rs_levels (lt_store t)))"
    using dir kept_view_all(2) [OF inv] by (intro filter_cong) auto
  with reopen_ok [OF d'] show ?thesis by (auto simp: tree_abs_def tree_view_def kept_view_def)
qed


section \<open>A new database\<close>

definition empty_disk :: lsm_disk where
  "empty_disk = \<lparr>ds_dir = Map.empty, ds_wal = None, ds_manifest = None\<rparr>"

lemma open_empty:
  assumes "config_ok cfg" and "wal_enabled cfg"
  shows "\<exists>t. tree_open crc cfg empty_disk = Inr t \<and> tree_inv crc t \<and> tree_abs crc t = Map.empty \<and>
    lt_config t = cfg \<and> ww_enabled (lt_wal t) \<and> tree_count crc t = 0 \<and> tree_bytes crc t = 0 \<and>
    lt_memtable t = memtable_new \<and> rs_levels (lt_store t) = [level_new 0] \<and> rs_next_run_id (lt_store t) = 0 \<and>
    ww_segment_num (lt_wal t) \<le> 1"
proof -
  from wal_new_ok [of crc None "[]" 0 "wal_segment_size cfg"] obtain w f where
    w: "wal_new (wal_segment_size cfg) True None = Inr (w, f)" "wal_holds crc w f []" "ww_enabled w"
    by (auto simp: files_hold_def)
  define st where "st = opened_store [] Map.empty Map.empty (cache_capacity cfg) 0"
  define t where "t = \<lparr>lt_config = cfg, lt_memtable = memtable_new, lt_wal = w, lt_wal_files = f, lt_store = st,
    lt_manifest = None\<rparr>"
  have "page_size cfg \<noteq> 0" using assms(1) by (auto simp: config_ok_def page_header_size_def)
  moreover have "replay_wal crc None = []" by (simp add: replay_wal_def)
  ultimately have opn: "tree_open crc cfg empty_disk = Inr t"
    using w assms(2) by (simp add: tree_open_def empty_disk_def load_manifest_def t_def st_def opened_store_def)
  have ord: "run_order (rs_levels st) = []" by (simp add: st_def opened_store_def run_order_def level_new_def)
  have inv: "store_inv crc ps st" for ps
    by (simp add: store_inv_def ord) (simp add: st_def opened_store_def level_new_def)
  have "runs_at (rs_levels st) j = 0" for j
    by (simp add: runs_at_def st_def opened_store_def level_new_def num_runs_def)
  then have "tree_inv crc t" using assms w inv ord
    by (auto simp: tree_inv_def t_def wal_synced_def manifest_synced_def config_ok_def memtable_inv_def
        memtable_new_def st_def opened_store_def intro!: exI [of _ "[]"])
  moreover have "tree_abs crc t = Map.empty"
    by (rule ext) (simp add: tree_abs_def tree_view_def visible_def store_view_def ord t_def memtable_get_def memtable_new_def)
  moreover have "tree_count crc t = 0" "tree_bytes crc t = 0"
    by (simp_all add: tree_count_def tree_bytes_def store_count_def store_bytes_def ord t_def memtable_new_def entries_bytes_def)
  moreover have "ww_segment_num w \<le> 1"
    using w(1) by (auto simp: wal_new_def find_max_segment_def Let_def elim!: rbind_InrE split: option.splits if_splits)
  ultimately show ?thesis using opn w(3) by (simp add: t_def st_def opened_store_def)
qed

lemma default_config_ok: "config_ok default_config" "wal_enabled default_config"
  by (simp_all add: config_ok_def default_config_def page_header_size_def seq_base_def)

text \<open>One insert into a new database stays in the buffer.\<close>

lemma one_insert:
  "\<exists>t. tree_inv crc t \<and> tree_room crc 0 0 t \<and> mt_entries (lt_memtable t) = [([1], Some [7])] \<and>
     lt_config t = default_config \<and> ww_enabled (lt_wal t) \<and> ww_segment_num (lt_wal t) + 1 < 1000000 \<and>
     rs_levels (lt_store t) = [level_new 0] \<and> rs_next_run_id (lt_store t) = 0"
proof -
  from open_empty [OF default_config_ok, of crc] obtain t where t: "tree_inv crc t" "lt_config t = default_config"
    "ww_enabled (lt_wal t)" "tree_count crc t = 0" "tree_bytes crc t = 0" "lt_memtable t = memtable_new"
    "rs_levels (lt_store t) = [level_new 0]" "rs_next_run_id (lt_store t) = 0" "ww_segment_num (lt_wal t) \<le> 1"
    by blast
  have room: "tree_room crc 1 (entries_bytes [([1], Some [7])]) t"
    by (simp add: tree_room_iff t fits_total_def default_config_def page_header_size_def entries_bytes_def entry_size_def)
  from t(1,3) obtain ops where "wal_holds crc (lt_wal t) (lt_wal_files t) ops" by (auto simp: tree_inv_def wal_synced_def)
  from log_op_ok [OF this t(3), of "WInsert [1] [7]"] obtain w f where
    w: "log_insert crc [1] [7] (lt_wal t) (lt_wal_files t) = Inr (w, f)" "ww_segment_num w \<le> ww_segment_num (lt_wal t) + 1"
    by (auto simp: log_insert_def)
  let ?t = "t\<lparr>lt_wal := w, lt_wal_files := f, lt_memtable := memtable_insert [1] [7] (lt_memtable t)\<rparr>"
  have "tree_step crc (TInsert [1] [7]) t = Some (Inr ?t)"
    using w(1) t(2,6) by (simp add: tree_step_def tree_insert_def flush_if_full_def default_config_def
        memtable_insert_def memtable_new_def Let_def)
  moreover obtain t' where "tree_step crc (TInsert [1] [7]) t = Some (Inr t')" "tree_inv crc t'"
    "grows crc 1 (entries_bytes [([1], Some [7])]) t t'"
    using tree_step_ok [OF t(1), of "TInsert [1] [7]"] room
    by (auto simp: op_writes_def op_entry_def entry_ok_def entry_fits_def opt_len_def op_fits_def
        entry_size_def page_header_size_def)
  ultimately have "tree_inv crc ?t" "grows crc 1 (entries_bytes [([1], Some [7])]) t ?t" by simp_all
  moreover from this grows_room [of crc 1 _ t ?t 0 0] room have "tree_room crc 0 0 ?t" by simp
  moreover have "mt_entries (memtable_insert [1] [7] memtable_new) = [([1], Some [7])]"
    by (simp add: memtable_insert_def memtable_new_def Let_def)
  ultimately show ?thesis using t w(2) by (intro exI [of _ ?t]) (auto simp: grows_def)
qed

lemma flush_run_store:
  assumes "flush_run crc es t = Inr t'"
  shows "rs_levels (lt_store t') =
      (rs_levels (lt_store t))[0 := add_run (rs_next_run_id (lt_store t)) (rs_levels (lt_store t) ! 0)]"
    and "rs_next_run_id (lt_store t') = rs_next_run_id (lt_store t) + 1"
  using assms by (auto simp: flush_run_def Let_def elim!: rbind_InrE split: if_splits)

text \<open>Flushed, the same database has one run.\<close>

lemma one_run:
  "\<exists>t. disk_holds crc default_config t [] (disk_of t) \<and> rs_levels (lt_store t) = [\<lparr>lv_number = 0, lv_run_ids = [0]\<rparr>] \<and>
     store_view crc (lt_store t) = [[1] \<mapsto> Some [7]] \<and>
     fits_total 65536 10 (store_count crc (lt_store t)) (store_bytes crc (lt_store t))"
proof -
  let ?es = "[([1], Some [7])] :: entry list"
  from one_insert [of crc] obtain t where t: "tree_inv crc t" "tree_room crc 0 0 t"
    "mt_entries (lt_memtable t) = ?es" "lt_config t = default_config" "ww_enabled (lt_wal t)"
    "ww_segment_num (lt_wal t) + 1 < 1000000" "rs_levels (lt_store t) = [level_new 0]" "rs_next_run_id (lt_store t) = 0"
    by blast
  have inv: "store_inv crc (page_size (lt_config t)) (lt_store t)" and e: "sorted_keys ?es" "?es \<noteq> []" "list_all entry_ok ?es"
    using t(1,3) by (simp_all add: tree_inv_def memtable_inv_def)
  have room: "fits_total (page_size (lt_config t)) (bloom_filter_bits_per_key (lt_config t)) (length ?es) (entries_bytes ?es)"
    using t(2,3) unfolding tree_room_def by (auto elim: fits_total_mono)
  have ord: "run_order (rs_levels (lt_store t)) = []" by (simp add: t(7) level_new_def run_order_def)
  from flush_run_ok [OF inv e _ room] t(4) default_config_ok obtain st where
    st: "flush_run crc ?es t = Inr (t\<lparr>lt_store := st\<rparr>)" "store_inv crc 65536 st" "store_view crc st = [[1] \<mapsto> Some [7]]"
      "store_count crc st = length ?es" "store_bytes crc st = entries_bytes ?es"
    by (auto simp: store_view_def store_count_def store_bytes_def ord default_config_def)
  have lv: "rs_levels st = [\<lparr>lv_number = 0, lv_run_ids = [0]\<rparr>]" "rs_next_run_id st = 1"
    using flush_run_store [OF st(1)] t(7,8) by (simp_all add: add_run_def level_new_def)
  from t(1,5) obtain ops where "wal_holds crc (lt_wal t) (lt_wal_files t) ops" by (auto simp: tree_inv_def wal_synced_def)
  from wal_clear_ok [OF this t(5)] obtain w f where
    w: "wal_holds crc w f []" "ww_segment_num w = ww_segment_num (lt_wal t) + 1" by blast
  let ?t = "save_manifest (t\<lparr>lt_store := st, lt_wal_files := f\<rparr>)"
  have "disk_holds crc default_config ?t [] (disk_of ?t)"
    using wal_holds_files [OF w(1)] w(2) t(6) st(2) lv default_config_ok
    by (auto simp: disk_holds_def save_manifest_def disk_of_def manifest_synced_def manifest_fits_def dir_keeps_def
        run_order_def default_config_def intro!: exI [of _ "ww_segment_num w"])
  moreover have "fits_total 65536 10 (store_count crc st) (store_bytes crc st)"
    using room t(4) by (simp add: st(4,5) default_config_def)
  ultimately show ?thesis using st(3) lv(1) by (intro exI [of _ ?t]) (simp add: save_manifest_def)
qed

end
