(* ===== verification/Lsm_Theorems.thy ===== *)
theory Lsm_Theorems
  imports Lsm_Recovery
begin

text \<open>
  The properties of the storage engine, stated over the operations of the model: first those of
  the whole tree, then those of its parts.
\<close>

section \<open>The tree\<close>

text \<open>C1: take a configuration whose page size is between the page header and 128 KiB and
  whose size ratio is between 2 and half a million, with the log switched on; and any sequence of
  inserts, deletes, batches and flushes whose keys and values are below 64 KiB and whose number and
  size, over the whole life of the database, fit the 32-bit counters of the run format.  From an
  empty directory the database then answers every lookup as the map that applies the same writes
  does, and no operation fails or hangs.  If moreover the log is below its millionth segment and the
  counters of the manifest fit, opening the files that are on disk gives the same answers.\<close>

theorem lsm_durable:
  assumes "config_ok cfg" and "wal_enabled cfg" and "list_all op_fits (concat (map op_writes xs))"
    and "fits_total (page_size cfg) (bloom_filter_bits_per_key cfg) (length (concat (map op_writes xs)))
      (entries_bytes (map op_entry (concat (map op_writes xs))))"
  shows "\<exists>t0 t. tree_open crc cfg empty_disk = Inr t0 \<and> cfold (tree_step crc) xs t0 = Some (Inr t) \<and>
    (\<forall>k. \<exists>t1. tree_get crc k t = Some (Inr (fold map_effect xs Map.empty k, t1))) \<and>
    (ww_segment_num (lt_wal t) < 1000000 \<and> manifest_fits (lt_store t) \<longrightarrow>
      (\<exists>t2. tree_open crc cfg (disk_of t) = Inr t2 \<and>
        (\<forall>k. \<exists>t3. tree_get crc k t2 = Some (Inr (fold map_effect xs Map.empty k, t3)))))"
proof -
  from open_empty [OF assms(1,2)] obtain t0 where t0: "tree_open crc cfg empty_disk = Inr t0" "tree_inv crc t0"
    "tree_abs crc t0 = Map.empty" "lt_config t0 = cfg" "ww_enabled (lt_wal t0)" "tree_count crc t0 = 0"
    "tree_bytes crc t0 = 0" by blast
  have "tree_ready crc xs t0"
    using t0 assms(3,4) op_fits_entry_ok by (auto simp: tree_ready_def Let_def tree_room_iff list_all_iff)
  with lsm.run_ok [of crc xs t0 cfg True] t0 obtain t where t: "cfold (tree_step crc) xs t0 = Some (Inr t)"
    "tree_inv crc t" "tree_abs crc t = fold map_effect xs Map.empty" "lt_config t = cfg" "ww_enabled (lt_wal t)"
    by (auto simp: tree_ready_def Let_def)
  have "\<exists>t2. tree_open crc cfg (disk_of t) = Inr t2 \<and> tree_inv crc t2 \<and> tree_abs crc t2 = tree_abs crc t"
    if "ww_segment_num (lt_wal t) < 1000000" "manifest_fits (lt_store t)"
    by (rule reopen_rest [OF t(2,5) assms(2) [folded t(4)] that, unfolded t(4)])
  with t0(1) t tree_get_ok show ?thesis by metis
qed

theorem lsm_durable_witness:
  "\<exists>t0 t. tree_open (\<lambda>_. 0) default_config empty_disk = Inr t0 \<and>
     cfold (tree_step (\<lambda>_. 0)) [TInsert [1] [7], TFlush, TBatch [([2], [8])] [[1]]] t0 = Some (Inr t) \<and>
     (\<exists>t1. tree_get (\<lambda>_. 0) [2] t = Some (Inr (Some [8], t1))) \<and> (\<exists>t1. tree_get (\<lambda>_. 0) [1] t = Some (Inr (None, t1)))"
proof -
  let ?xs = "[TInsert [1] [7], TFlush, TBatch [([2], [8])] [[1]]]"
  have "config_ok default_config" "wal_enabled default_config"
    by (simp_all add: config_ok_def default_config_def page_header_size_def seq_base_def)
  moreover have "list_all op_fits (concat (map op_writes ?xs))"
    by (simp add: op_writes_def batch_ops_def op_fits_def)
  moreover have "fits_total (page_size default_config) (bloom_filter_bits_per_key default_config)
      (length (concat (map op_writes ?xs))) (entries_bytes (map op_entry (concat (map op_writes ?xs))))"
    by (simp add: op_writes_def batch_ops_def fits_total_def default_config_def page_header_size_def
        entries_bytes_def op_entry_def entry_size_def)
  moreover have "fold map_effect ?xs Map.empty [2] = Some [8]" "fold map_effect ?xs Map.empty [1] = None"
    by (simp_all add: map_effect_def op_writes_def batch_ops_def abs_write_def)
  ultimately show ?thesis using lsm_durable [of default_config ?xs "\<lambda>_. 0"] by metis
qed

text \<open>C10: in a tree that satisfies the invariant and has fewer than a million runs, a lookup
  returns the value of the key in the map of the tree and leaves the map as it is; a range scan
  returns, in strictly increasing key order, exactly the pairs of that map with a key in the closed
  interval, and panics on reversed bounds.\<close>

theorem lsm_get_range:
  assumes "tree_inv crc t" and "length (run_order (rs_levels (lt_store t))) < seq_base"
  shows "(\<exists>t'. tree_get crc k t = Some (Inr (tree_abs crc t k, t')) \<and> tree_inv crc t' \<and> tree_abs crc t' = tree_abs crc t) \<and>
    (if hi < lo then tree_range crc lo hi t = Inl Panic
     else \<exists>ys. tree_range crc lo hi t = Inr ys \<and> sorted_keys ys \<and>
       (\<forall>k. map_of ys k = (if lo \<le> k \<and> k \<le> hi then tree_abs crc t k else None)))"
  using tree_get_ok [OF assms(1), of k] tree_range_ok(1) [OF assms, of lo hi]
    tree_range_ok(2) [OF assms, of hi lo] by (cases "hi < lo") (auto simp: not_less)

theorem lsm_get_range_witness:
  "\<exists>t. mt_entries (lt_memtable t) = [([1], Some [7])] \<and> tree_range (\<lambda>_. 0) [0] [2] t = Inr [([1], [7])] \<and>
     tree_range (\<lambda>_. 0) [2] [3] t = Inr [] \<and> tree_range (\<lambda>_. 0) [2] [1] t = Inl Panic"
proof -
  from one_insert [of "\<lambda>_. 0"] obtain t where t: "tree_inv (\<lambda>_. 0) t"
    "mt_entries (lt_memtable t) = [([1], Some [7])]" "rs_levels (lt_store t) = [level_new 0]" by blast
  then have runs: "length (run_order (rs_levels (lt_store t))) < seq_base"
    by (simp add: run_order_def level_new_def seq_base_def)
  have abs: "tree_abs (\<lambda>_. 0) t k = (if k = [1] then Some [7] else None)" for k
    using t by (simp add: tree_abs_def tree_view_def visible_def memtable_get_def store_view_def run_order_def
        level_new_def overlay_def map_add_def)
  note range = lsm_get_range [OF t(1) runs]
  from range [of "[1]" "[2]" "[0]"] obtain ys where ys: "tree_range (\<lambda>_. 0) [0] [2] t = Inr ys" "sorted_keys ys"
    "\<forall>k. map_of ys k = (if [0] \<le> k \<and> k \<le> [2] then tree_abs (\<lambda>_. 0) t k else None)" by auto
  have "ys = [([1], [7])]" using ys(2,3) by (intro sorted_keys_eqI) (auto simp: abs)
  moreover from range [of "[1]" "[3]" "[2]"] obtain zs where zs: "tree_range (\<lambda>_. 0) [2] [3] t = Inr zs" "sorted_keys zs"
    "\<forall>k. map_of zs k = (if [2] \<le> k \<and> k \<le> [3] then tree_abs (\<lambda>_. 0) t k else None)" by auto
  have "map_of zs = Map.empty" using zs(3) by (intro ext) (auto simp: abs)
  then have "zs = []" by simp
  moreover have "tree_range (\<lambda>_. 0) [2] [1] t = Inl Panic" using range [of "[1]" "[1]" "[2]"] by auto
  ultimately show ?thesis using t(2) ys(1) zs(1) by blast
qed

text \<open>C23: a flush first writes the drained buffer as a run.  If the process stops
  there, opening the files gives back the whole map: the log still has what the new run holds.\<close>

theorem flush_run_then_crash:
  assumes "tree_inv crc t" and "tree_room crc 0 0 t" and "mt_entries (lt_memtable t) \<noteq> []"
    and "ww_enabled (lt_wal t)" and "wal_enabled (lt_config t)"
    and "ww_segment_num (lt_wal t) + 1 < 1000000" and "manifest_fits (lt_store t)"
  shows "\<exists>t1 t'. flush_run crc (mt_entries (lt_memtable t)) (drained t) = Inr t1 \<and>
    tree_open crc (lt_config t) (disk_of t1) = Inr t' \<and> tree_inv crc t' \<and> tree_abs crc t' = tree_abs crc t"
  using flush_run_drained [OF assms(1-3)] flush_window(1) [OF assms(1,4-7)] by blast

theorem flush_run_then_crash_witness:
  "\<exists>t t1 t'. flush_run (\<lambda>_. 0) [([1], Some [7])] (drained t) = Inr t1 \<and>
     tree_open (\<lambda>_. 0) default_config (disk_of t1) = Inr t' \<and> tree_abs (\<lambda>_. 0) t' [1] = Some [7]"
proof -
  from one_insert [of "\<lambda>_. 0"] obtain t where t: "tree_inv (\<lambda>_. 0) t" "tree_room (\<lambda>_. 0) 0 0 t"
    "mt_entries (lt_memtable t) = [([1], Some [7])]" "lt_config t = default_config" "ww_enabled (lt_wal t)"
    "ww_segment_num (lt_wal t) + 1 < 1000000" "rs_levels (lt_store t) = [level_new 0]" "rs_next_run_id (lt_store t) = 0"
    by blast
  have fits: "manifest_fits (lt_store t)" by (simp add: manifest_fits_def t level_new_def run_order_def)
  have "tree_abs (\<lambda>_. 0) t [1] = Some [7]"
    using t(1,3) by (simp add: tree_abs_def tree_view_def visible_def memtable_get_def)
  with flush_run_then_crash [OF t(1,2) _ t(5) _ t(6) fits] t(3,4) default_config_ok(2) show ?thesis
    by (metis list.distinct(1))
qed

text \<open>C24: the flush then clears the log, before the manifest names the new run.
  If the process stops there, the files open without error to the map of the old runs alone: every
  write that was in the buffer is gone.\<close>

theorem flush_clear_then_crash:
  assumes "tree_inv crc t" and "tree_room crc 0 0 t" and "mt_entries (lt_memtable t) \<noteq> []"
    and "ww_enabled (lt_wal t)" and "wal_enabled (lt_config t)"
    and "ww_segment_num (lt_wal t) + 1 < 1000000" and "manifest_fits (lt_store t)"
  shows "\<exists>t1 t2 t'. flush_run crc (mt_entries (lt_memtable t)) (drained t) = Inr t1 \<and> clear_wal t1 = Inr t2 \<and>
    tree_open crc (lt_config t) (disk_of t2) = Inr t' \<and> tree_inv crc t' \<and>
    tree_abs crc t' = visible (store_view crc (lt_store t))"
  using flush_run_drained [OF assms(1-3)] flush_window(2) [OF assms(1,4-7)] by blast

theorem flush_clear_then_crash_witness:
  "\<exists>t t1 t2 t'. tree_abs (\<lambda>_. 0) t [1] = Some [7] \<and> flush_run (\<lambda>_. 0) [([1], Some [7])] (drained t) = Inr t1 \<and>
     clear_wal t1 = Inr t2 \<and> tree_open (\<lambda>_. 0) default_config (disk_of t2) = Inr t' \<and> tree_abs (\<lambda>_. 0) t' [1] = None"
proof -
  from one_insert [of "\<lambda>_. 0"] obtain t where t: "tree_inv (\<lambda>_. 0) t" "tree_room (\<lambda>_. 0) 0 0 t"
    "mt_entries (lt_memtable t) = [([1], Some [7])]" "lt_config t = default_config" "ww_enabled (lt_wal t)"
    "ww_segment_num (lt_wal t) + 1 < 1000000" "rs_levels (lt_store t) = [level_new 0]" "rs_next_run_id (lt_store t) = 0"
    by blast
  have fits: "manifest_fits (lt_store t)" by (simp add: manifest_fits_def t level_new_def run_order_def)
  have "tree_abs (\<lambda>_. 0) t [1] = Some [7]"
    using t(1,3) by (simp add: tree_abs_def tree_view_def visible_def memtable_get_def)
  moreover have "visible (store_view (\<lambda>_. 0) (lt_store t)) [1] = None"
    by (simp add: visible_def store_view_def t level_new_def run_order_def)
  ultimately show ?thesis
    using flush_clear_then_crash [OF t(1,2) _ t(5) _ t(6) fits] t(3,4) default_config_ok(2)
    by (metis list.distinct(1))
qed

text \<open>C25: a compaction deletes the files of the runs it consumed, all runs of the
  compacted level among them, before the manifest that names them is replaced.  If the process
  stops in between, the files open without error to a map without any entry of those runs: the
  merged run that holds them is named nowhere.\<close>

theorem compaction_then_crash:
  assumes "disk_holds crc cfg t ops (disk_of t)"
    and "compact_level crc (page_size cfg) bpk i (lt_store t) = Inr ((consumed, new_id), st)"
  shows "set (ids_at (rs_levels (lt_store t)) i) \<subseteq> set consumed \<and>
    (\<exists>t'. tree_open crc cfg ((disk_of t)\<lparr>ds_dir := rs_dir st\<rparr>) = Inr t' \<and>
      tree_abs crc t' = visible (overlay (map (entries_of crc (lt_store t))
        (filter (\<lambda>j. j \<notin> set consumed) (run_order (rs_levels (lt_store t))))) ++
        memtable_get (fold apply_op ops memtable_new)))"
  using compaction_window [OF assms] compact_level_consumed [OF assms(2)] assms(1) by (simp add: disk_holds_def)

theorem compaction_then_crash_witness:
  "\<exists>t t' out st. compact_level (\<lambda>_. 0) 65536 10 0 (lt_store t) = Inr (out, st) \<and>
     store_view (\<lambda>_. 0) (lt_store t) [1] = Some (Some [7]) \<and>
     tree_open (\<lambda>_. 0) default_config ((disk_of t)\<lparr>ds_dir := rs_dir st\<rparr>) = Inr t' \<and> tree_abs (\<lambda>_. 0) t' [1] = None"
proof -
  from one_run [of "\<lambda>_. 0"] obtain t where
    t: "disk_holds (\<lambda>_. 0) default_config t [] (disk_of t)" "rs_levels (lt_store t) = [\<lparr>lv_number = 0, lv_run_ids = [0]\<rparr>]"
      "store_view (\<lambda>_. 0) (lt_store t) = [[1] \<mapsto> Some [7]]"
      "fits_total 65536 10 (store_count (\<lambda>_. 0) (lt_store t)) (store_bytes (\<lambda>_. 0) (lt_store t))" by blast
  have "page_size default_config = 65536" by (simp add: default_config_def)
  then have "store_inv (\<lambda>_. 0) 65536 (lt_store t)" using t(1) by (simp add: disk_holds_def)
  from compact_level_ok [OF this t(4), of 0] obtain consumed n st where
    c: "compact_level (\<lambda>_. 0) (page_size default_config) 10 0 (lt_store t) = Inr ((consumed, n), st)"
    by (auto simp: t(2) runs_at_def num_runs_def seq_base_def default_config_def)
  from compaction_then_crash [OF t(1) c] t(2) c obtain t' where "compact_level (\<lambda>_. 0) 65536 10 0 (lt_store t) = Inr ((consumed, n), st)"
    "tree_open (\<lambda>_. 0) default_config ((disk_of t)\<lparr>ds_dir := rs_dir st\<rparr>) = Inr t'"
    "tree_abs (\<lambda>_. 0) t' = visible (memtable_get memtable_new)"
    by (auto simp: ids_at_def run_order_def default_config_def)
  moreover have "visible (memtable_get memtable_new) [1] = None"
    by (simp add: visible_def memtable_get_def memtable_new_def)
  ultimately show ?thesis using t(3) by (metis fun_upd_same)
qed

text \<open>C13: a flush ends, also through the compactions it starts; it empties the buffer,
  keeps the map and the invariant, and leaves every level below the configured number of runs.\<close>

theorem flush_settles:
  assumes "tree_inv crc t" and "tree_room crc 0 0 t"
  shows "\<exists>t'. flush_memtable crc t = Some (Inr t') \<and> tree_inv crc t' \<and> tree_abs crc t' = tree_abs crc t \<and>
    lt_memtable t' = memtable_new \<and> (\<forall>j. runs_at (rs_levels (lt_store t')) j < size_ratio (lt_config t'))"
  using flush_memtable_ok [OF assms] by (auto simp: tree_inv_def)

theorem flush_settles_witness:
  "\<exists>t t'. mt_entries (lt_memtable t) = [([1], Some [7])] \<and> flush_memtable (\<lambda>_. 0) t = Some (Inr t') \<and>
     lt_memtable t' = memtable_new \<and> tree_abs (\<lambda>_. 0) t' [1] = Some [7]"
proof -
  from one_insert [of "\<lambda>_. 0"] obtain t where t: "tree_inv (\<lambda>_. 0) t" "tree_room (\<lambda>_. 0) 0 0 t"
    "mt_entries (lt_memtable t) = [([1], Some [7])]" by blast
  then have "tree_abs (\<lambda>_. 0) t [1] = Some [7]"
    by (simp add: tree_abs_def tree_view_def visible_def memtable_get_def)
  with flush_settles [OF t(1,2)] t(3) show ?thesis by metis
qed

text \<open>C29: with a size ratio of zero, which the configuration does not exclude, every
  level counts as full: a flush of a buffer that is not empty never returns with success.\<close>

theorem flush_ratio_zero:
  assumes "size_ratio (lt_config t) = 0" and "mt_entries (lt_memtable t) \<noteq> []"
  shows "flush_memtable crc t \<noteq> Some (Inr t')"
proof
  assume "flush_memtable crc t = Some (Inr t')"
  with assms(2) obtain t1 t2 where "flush_run crc (mt_entries (lt_memtable t)) (t\<lparr>lt_memtable := memtable_new\<rparr>) = Inr t1"
    "clear_wal t1 = Inr t2" "maybe_compact crc (save_manifest t2) = Some (Inr t')"
    by (auto simp: flush_memtable_def memtable_drain_def memtable_new_def elim!: cbind_InrE)
  moreover from this have "size_ratio (lt_config (save_manifest t2)) = 0" "rs_levels (lt_store (save_manifest t2)) \<noteq> []"
    using assms(1) by (auto simp: flush_run_def clear_wal_def save_manifest_def Let_def elim!: rbind_InrE split: if_splits)
  ultimately show False using maybe_compact_ratio_zero by blast
qed

theorem flush_ratio_zero_witness:
  "\<exists>t. size_ratio (lt_config t) = 0 \<and> mt_entries (lt_memtable t) = [([1], Some [7])] \<and>
     (\<forall>t'. flush_memtable (\<lambda>_. 0) t \<noteq> Some (Inr t'))"
proof -
  from one_insert [of "\<lambda>_. 0"] obtain t :: lsm_tree where t: "mt_entries (lt_memtable t) = [([1], Some [7])]" by blast
  let ?t = "t\<lparr>lt_config := default_config\<lparr>size_ratio := 0\<rparr>\<rparr>"
  show ?thesis using flush_ratio_zero [of ?t "\<lambda>_. 0"] t by (intro exI [of _ ?t]) simp
qed


section \<open>Compaction and merge\<close>

text \<open>C14: compacting a level that has runs succeeds, keeps the invariant and what
  can be looked up, moves every run of the level away, adds at most one run to the next level and
  none elsewhere, and never lets the number or the size of the entries grow.\<close>

theorem compaction_keeps_map:
  assumes "store_inv crc ps st" and "fits_total ps bpk (store_count crc st) (store_bytes crc st)"
    and "0 < runs_at (rs_levels st) i" and "runs_at (rs_levels st) i + runs_at (rs_levels st) (i + 1) \<le> seq_base"
  shows "\<exists>out st'. compact_level crc ps bpk i st = Inr (out, st') \<and> store_inv crc ps st' \<and>
    visible (store_view crc st') = visible (store_view crc st) \<and>
    store_count crc st' \<le> store_count crc st \<and> store_bytes crc st' \<le> store_bytes crc st \<and>
    runs_at (rs_levels st') i = 0 \<and> runs_at (rs_levels st') (i + 1) \<le> runs_at (rs_levels st) (i + 1) + 1 \<and>
    (\<forall>j. j \<noteq> i \<and> j \<noteq> i + 1 \<longrightarrow> runs_at (rs_levels st') j = runs_at (rs_levels st) j)"
  using compact_level_ok [OF assms] by blast

theorem compaction_keeps_map_witness:
  "\<exists>st out st'. runs_at (rs_levels st) 0 = 1 \<and> compact_level (\<lambda>_. 0) 65536 10 0 st = Inr (out, st') \<and>
     runs_at (rs_levels st') 0 = 0 \<and> visible (store_view (\<lambda>_. 0) st') [1] = Some [7]"
proof -
  from one_run [of "\<lambda>_. 0"] obtain t where
    t: "disk_holds (\<lambda>_. 0) default_config t [] (disk_of t)" "rs_levels (lt_store t) = [\<lparr>lv_number = 0, lv_run_ids = [0]\<rparr>]"
      "store_view (\<lambda>_. 0) (lt_store t) = [[1] \<mapsto> Some [7]]"
      "fits_total 65536 10 (store_count (\<lambda>_. 0) (lt_store t)) (store_bytes (\<lambda>_. 0) (lt_store t))" by blast
  have inv: "store_inv (\<lambda>_. 0) 65536 (lt_store t)" using t(1) by (simp add: disk_holds_def default_config_def)
  have one: "runs_at (rs_levels (lt_store t)) 0 = 1" "runs_at (rs_levels (lt_store t)) (0 + 1) = 0"
    by (simp_all add: t(2) runs_at_def num_runs_def)
  have "visible (store_view (\<lambda>_. 0) (lt_store t)) [1] = Some [7]" by (simp add: t(3) visible_def)
  moreover obtain out st' where "compact_level (\<lambda>_. 0) 65536 10 0 (lt_store t) = Inr (out, st')"
    "visible (store_view (\<lambda>_. 0) st') = visible (store_view (\<lambda>_. 0) (lt_store t))" "runs_at (rs_levels st') 0 = 0"
    using compaction_keeps_map [OF inv t(4), of 0] one by (force simp: seq_base_def)
  ultimately show ?thesis using one(1) by metis
qed

text \<open>C15: the heap merge of at most a million sorted inputs, whose sequence numbers do
  not fall and are below the 64-bit range divided by a million, is sorted without duplicates; each
  key has the entry of the newest input that has the key; and with \<^verbatim>\<open>drop_tombstones\<close> exactly the
  deletions are left out.\<close>

theorem merge_newest_wins:
  assumes "length inputs \<le> 1000000" and "\<forall>s\<in>set (map fst inputs). s < 2 ^ 64 div 1000000"
    and "sorted (map fst inputs)" and "list_all (sorted_keys \<circ> snd) inputs"
  shows "\<exists>res. merge_entries inputs False = Inr res \<and> sorted_keys res \<and> map_of res = overlay (map snd inputs) \<and>
    merge_entries inputs True = Inr (filter (\<lambda>(k, v). v \<noteq> None) res)"
proof -
  have fit: "seqs_fit inputs" using assms(1,2) by (simp add: seqs_fit_def seq_base_def)
  from merge_entries_ok [OF fit assms(3,4), of False] obtain res where
    res: "merge_entries inputs False = Inr res" "sorted_keys res" "map_of res = overlay (map snd inputs)" by auto
  from merge_entries_ok [OF fit assms(3,4), of True] obtain res' where
    res': "merge_entries inputs True = Inr (live res')" "sorted_keys res'" "map_of res' = overlay (map snd inputs)" by auto
  have "res' = res" using res(2,3) res'(2,3) by (intro sorted_keys_eqI) simp_all
  with res res' show ?thesis by (auto simp: live_def)
qed

theorem merge_newest_wins_witness:
  "merge_entries [(0, [([1], Some [7]), ([2], Some [8])]), (1, [([1], None)])] True = Inr [([2], Some [8])]"
proof -
  let ?in = "[(0, [([1], Some [7]), ([2], Some [8])]), (1, [([1], None)])] :: merge_input list"
  from merge_newest_wins [of ?in] obtain res where
    res: "sorted_keys res" "map_of res = overlay (map snd ?in)" "merge_entries ?in True = Inr (filter (\<lambda>(k, v). v \<noteq> None) res)"
    by auto
  have "res = [([1], None), ([2], Some [8])]"
    using res(1,2) by (intro sorted_keys_eqI) (auto simp: overlay_def)
  with res(3) show ?thesis by simp
qed


section \<open>Pages and runs\<close>

text \<open>C21: a page within the widths of the format is encoded to a whole number of page
  sizes, and decoding these bytes, or any longer buffer that starts with them, gives the page back;
  a search in the decoded page of sorted entries finds exactly what is stored under the key.\<close>

theorem page_roundtrip:
  assumes "page_fits es" and "0 < ps" and "sorted_keys es"
  shows "\<exists>bs. page_encode crc \<lparr>pg_entries = es\<rparr> ps = Inr bs \<and> ps dvd length bs \<and>
    page_decode crc (bs @ rest) = Inr \<lparr>pg_entries = es\<rparr> \<and> page_search \<lparr>pg_entries = es\<rparr> k = map_of es k"
  using page_decode_bytes [OF assms(1), of crc] page_encode_ok [OF assms(2)] page_search_map_of [OF assms(3)]
    length_page_image [OF assms(2)] by (simp add: page_image_def page_span_def)

theorem page_roundtrip_witness:
  "\<exists>bs. page_encode (\<lambda>_. 5) \<lparr>pg_entries = [([1], Some [7]), ([2], None)]\<rparr> 8 = Inr bs \<and> 8 dvd length bs \<and>
     page_decode (\<lambda>_. 5) (bs @ [9]) = Inr \<lparr>pg_entries = [([1], Some [7]), ([2], None)]\<rparr>"
  using page_roundtrip [of "[([1], Some [7]), ([2], None)]" 8 "\<lambda>_. 5" "[9]"]
  by (auto simp: page_fits_def entry_fits_def opt_len_def page_header_size_def entry_size_def)

text \<open>A page whose data region does not have the checksum stored in its
  header is never decoded; the error carries both checksums when the header is in range.\<close>

lemma page_corruption_detected:
  assumes "unat (crc (drop page_header_size (take (peek_data_end buf) buf))) \<noteq> le_nat (take 4 (drop 6 buf))"
  shows "page_decode crc buf =
    (if length buf < page_header_size then Inl (Io UnexpectedEof)
     else if length buf < peek_data_end buf \<or> peek_data_end buf < page_header_size then Inl (Io InvalidData)
     else Inl (ChecksumMismatch (le_nat (take 4 (drop 6 buf)))
       (unat (crc (drop page_header_size (take (peek_data_end buf) buf))))))"
  using assms by (auto simp: page_decode_def peek_data_end_def read_le_def read_exact_def eof_def page_header_size_def Let_def)

text \<open>C16: a run written from sorted entries that fit the format can be looked up by
  key, scanned, scanned by a range and opened again from its files, always with exactly those
  entries; the files of other runs are not touched.\<close>

theorem run_holds_entries:
  assumes "run_fits ps bpk es" and "sorted_keys es"
  shows "\<exists>r dir'. run_write crc i es ps bpk dir = Inr (r, dir') \<and> (\<forall>j. j \<noteq> i \<longrightarrow> dir' j = dir j) \<and>
    run_get crc dir' r k None = Inr (map_of es k, None) \<and> scan_all crc dir' r = Inr es \<and>
    scan_range crc dir' r lo hi = Inr (filter (\<lambda>(k, v). lo \<le> k \<and> k \<le> hi) es) \<and>
    (\<exists>r'. run_open crc dir' i ps = Inr r' \<and> scan_all crc dir' r' = Inr es \<and> rn_entry_count r' = length es)"
proof -
  from run_write_ok [OF assms, of crc i dir] obtain r dir' where
    r: "run_write crc i es ps bpk dir = Inr (r, dir')" "run_holds crc dir' r es" "rn_id r = i" "rn_page_size r = ps"
      "\<forall>j. j \<noteq> i \<longrightarrow> dir' j = dir j" by blast
  from run_open_ok [OF r(2)] r(3,4) obtain r' where
    r': "run_open crc dir' i ps = Inr r'" "run_holds crc dir' r' es" "rn_entry_count r' = length es" by blast
  show ?thesis using r r' run_get_ok [OF r(2)] scan_all_ok [OF r(2)] scan_range_ok [OF r(2)] scan_all_ok [OF r'(2)] by blast
qed

theorem run_holds_entries_witness:
  "\<exists>r dir'. run_write (\<lambda>_. 0) 3 [([1], Some [7]), ([2], None)] 16 10 Map.empty = Inr (r, dir') \<and>
     run_get (\<lambda>_. 0) dir' r [2] None = Inr (Some None, None) \<and>
     scan_range (\<lambda>_. 0) dir' r [0] [1] = Inr [([1], Some [7])]"
  using run_holds_entries [of 16 10 "[([1], Some [7]), ([2], None)]" "\<lambda>_. 0" 3 Map.empty "[2]" "[0]" "[1]"]
  by (auto simp: run_fits_def entries_fit_def entry_fits_def opt_len_def page_header_size_def entry_size_def)

text \<open>C20: a lookup through the block cache returns what the run holds for the key,
  whatever coherent pages the cache has, and leaves a coherent cache within its capacity.\<close>

theorem cached_lookup_agrees:
  assumes "run_holds crc dir r es" and "runs (rn_id r) = Some r" and "cache_inv c"
    and "cached c \<subseteq>\<^sub>m dir_pages crc dir runs"
  shows "\<exists>c'. run_get_with_cache_insert crc dir r k c = Some (Inr (map_of es k, c')) \<and>
    cache_inv c' \<and> cached c' \<subseteq>\<^sub>m dir_pages crc dir runs"
  by (rule run_get_cached_ok [OF assms])

theorem cached_lookup_agrees_witness:
  "\<exists>r dir c. run_write (\<lambda>_. 0) 3 [([1], Some [7])] 16 10 Map.empty = Inr (r, dir) \<and>
     run_get_with_cache_insert (\<lambda>_. 0) dir r [1] (cache_new 2) = Some (Inr (Some (Some [7]), c)) \<and> cache_inv c"
proof -
  have "run_fits 16 10 [([1], Some [7])]"
    by (simp add: run_fits_def entries_fit_def entry_fits_def opt_len_def page_header_size_def entry_size_def)
  from run_write_ok [OF this, of "\<lambda>_. 0" 3 Map.empty] obtain r dir where
    r: "run_write (\<lambda>_. 0) 3 [([1], Some [7])] 16 10 Map.empty = Inr (r, dir)" "run_holds (\<lambda>_. 0) dir r [([1], Some [7])]"
    by auto
  from cached_lookup_agrees [OF r(2), of "[rn_id r \<mapsto> r]" "cache_new 2" "[1]"] r(1) show ?thesis by auto
qed


section \<open>Filter, index and cache\<close>

text \<open>C26: a filter sized for any number of keys and built from any keys reports
  each of them as possibly present, and still does after it was written out and read back, as long
  as its size fits the 32-bit field.\<close>

theorem bloom_no_false_negative:
  assumes "k \<in> set ks"
  shows "may_contain (fold bloom_insert ks (bloom_new n bpk)) k \<and>
    (bl_num_bits (fold bloom_insert ks (bloom_new n bpk)) < 2 ^ 32 \<longrightarrow>
      (\<exists>f. bloom_from_bytes (bloom_to_bytes (fold bloom_insert ks (bloom_new n bpk))) = Some f \<and> may_contain f k))"
  using bloom_build [OF bloom_inv_new [of n bpk]] bloom_roundtrip [of "fold bloom_insert ks (bloom_new n bpk)"] assms
  by auto

theorem bloom_no_false_negative_witness:
  "[1, 2] \<in> set [[1], [1, 2]] \<and> may_contain (fold bloom_insert [[1], [1, 2]] (bloom_new 2 10)) [1, 2]"
  using bloom_no_false_negative [of "[1, 2]" "[[1], [1, 2]]" 2 10] by simp

text \<open>The fence index of pages with rising first keys sends a key to the last page
  that starts at or before it, and to no page when every page starts after it; it survives being
  written out and read back.\<close>

lemma fence_finds_page:
  assumes "sorted_keys (fn_entries f)" and "fence_fits (fn_entries f)"
  shows "fence_from_bytes (fence_to_bytes f) = Inr f \<and>
    (case find_page f k of
       None \<Rightarrow> \<forall>e\<in>set (fn_entries f). k < fst e
     | Some off \<Rightarrow> \<exists>i<length (fn_entries f). snd (fn_entries f ! i) = off \<and>
         fst (fn_entries f ! i) \<le> k \<and> (\<forall>j<length (fn_entries f). i < j \<longrightarrow> k < fst (fn_entries f ! j)))"
proof -
  let ?es = "fn_entries f" and ?n = "pages_upto (fn_entries f) k"
  have less: "j < ?n \<longleftrightarrow> fst (?es ! j) \<le> k" if "j < length ?es" for j
    by (rule pages_upto_less [OF assms(1) that])
  have n: "?n \<le> length ?es" by (simp add: pages_upto_def)
  show ?thesis
  proof (cases ?n)
    case 0
    then have "\<forall>e\<in>set ?es. k < fst e" using less by (metis in_set_conv_nth not_le not_less_zero)
    with 0 show ?thesis using fence_roundtrip [OF assms(2)] find_page_upto [OF assms(1), of k] by simp
  next
    case (Suc i)
    then have "i < length ?es" "fst (?es ! i) \<le> k" "\<forall>j<length ?es. i < j \<longrightarrow> k < fst (?es ! j)"
      using n less by (metis Suc_le_lessD, metis Suc_le_lessD lessI, metis Suc_leI not_le)
    with Suc show ?thesis using fence_roundtrip [OF assms(2)] find_page_upto [OF assms(1), of k] by auto
  qed
qed

text \<open>An insert into the block cache ends, keeps the cache within its
  capacity and its clock ring intact, holds the new page when the capacity is not zero, and leaves
  every other key with its old page or none.\<close>

theorem cache_insert_bounded:
  assumes "cache_inv c"
  shows "\<exists>c'. cache_insert k p c = Some (Inr c') \<and> cache_inv c' \<and> length (bc_map c') \<le> bc_capacity c \<and>
    (0 < bc_capacity c \<longrightarrow> cached c' k = Some p) \<and>
    (\<forall>k'. k' \<noteq> k \<longrightarrow> cached c' k' = cached c k' \<or> cached c' k' = None)"
proof -
  obtain c' where c': "cache_insert k p c = Some (Inr c') \<and> cache_inv c' \<and> bc_capacity c' = bc_capacity c \<and>
      cached c' \<subseteq>\<^sub>m (cached c)(k \<mapsto> p) \<and> (0 < bc_capacity c \<longrightarrow> cached c' k = Some p)"
    using cache_insert_ok [OF assms] by (rule exE)
  have "cached c' k' = cached c k' \<or> cached c' k' = None" if "k' \<noteq> k" for k'
  proof (cases "cached c' k'")
    case (Some q)
    then have "cached c' k' = ((cached c)(k \<mapsto> p)) k'" using c' unfolding map_le_def by blast
    with that show ?thesis by simp
  qed simp
  with c' show ?thesis by (intro exI [of _ c']) (simp add: cache_inv_def)
qed

theorem cache_insert_bounded_witness:
  "\<exists>c. cache_insert \<lparr>ck_run_id = 1, ck_page_index = 0\<rparr> \<lparr>pg_entries = []\<rparr> (cache_new 1) = Some (Inr c) \<and>
     cached c \<lparr>ck_run_id = 1, ck_page_index = 0\<rparr> = Some \<lparr>pg_entries = []\<rparr>"
proof -
  have "0 < bc_capacity (cache_new 1)" by (simp add: cache_new_def)
  with cache_insert_bounded [OF cache_inv_new [of 1], of "\<lparr>ck_run_id = 1, ck_page_index = 0\<rparr>" "\<lparr>pg_entries = []\<rparr>"]
  show ?thesis by blast
qed

text \<open>When some page of the cache was not used since the hand last passed it,
  an eviction takes such a page, and only that page; the pages in use stay.\<close>

theorem cache_second_chance:
  assumes "cache_ring c" and "k \<in> set (bc_keys c)" and "\<not> referenced c k"
  shows "\<exists>c' k'. evict_one c = Inr c' \<and> k' \<in> set (bc_keys c) \<and> \<not> referenced c k' \<and>
    cached c' = (cached c)(k' := None)"
  by (rule evict_one_second_chance [OF assms])

theorem cache_second_chance_witness:
  "\<exists>c'. evict_one \<lparr>
      bc_map = [(\<lparr>ck_run_id = 1, ck_page_index = 0\<rparr>, \<lparr>ce_page = \<lparr>pg_entries = []\<rparr>, ce_referenced = True\<rparr>),
                (\<lparr>ck_run_id = 1, ck_page_index = 1\<rparr>, \<lparr>ce_page = \<lparr>pg_entries = []\<rparr>, ce_referenced = False\<rparr>)],
      bc_keys = [\<lparr>ck_run_id = 1, ck_page_index = 0\<rparr>, \<lparr>ck_run_id = 1, ck_page_index = 1\<rparr>], bc_hand = 0, bc_capacity = 2\<rparr> = Inr c' \<and>
     cached c' \<lparr>ck_run_id = 1, ck_page_index = 0\<rparr> = Some \<lparr>pg_entries = []\<rparr>"
proof -
  let ?a = "\<lparr>ck_run_id = 1, ck_page_index = 0\<rparr>" and ?b = "\<lparr>ck_run_id = 1, ck_page_index = 1\<rparr>"
  let ?c = "\<lparr>
      bc_map = [(?a, \<lparr>ce_page = \<lparr>pg_entries = []\<rparr>, ce_referenced = True\<rparr>),
                (?b, \<lparr>ce_page = \<lparr>pg_entries = []\<rparr>, ce_referenced = False\<rparr>)],
      bc_keys = [?a, ?b], bc_hand = 0, bc_capacity = 2\<rparr>"
  have "cache_ring ?c" by (simp add: cache_ring_def)
  from cache_second_chance [OF this, of ?b] obtain c' k' where "evict_one ?c = Inr c'" "k' \<in> {?a, ?b}"
    "\<not> referenced ?c k'" "cached c' = (cached ?c)(k' := None)" by (auto simp: referenced_def)
  moreover from this have "k' = ?b" by (auto simp: referenced_def)
  moreover have "cached ?c ?a = Some \<lparr>pg_entries = []\<rparr>" by (simp add: cached_def)
  ultimately show ?thesis by (intro exI [of _ c']) simp
qed


section \<open>Log, manifest and buffer\<close>

text \<open>C22: a log segment cut at any byte replays exactly the operations whose frames lie
  completely before the cut, in order; each value comes back as the prefix that its 16-bit length
  field counts.\<close>

theorem wal_torn_tail:
  assumes "list_all op_framed ops"
  shows "\<exists>m\<le>length ops. replay_segment crc (take n (concat (map (wal_frame crc) ops))) = map logged (take m ops) \<and>
    length (concat (map (wal_frame crc) (take m ops))) \<le> n \<and>
    (m < length ops \<longrightarrow> n < length (concat (map (wal_frame crc) (take (Suc m) ops))))"
  using replay_cut [OF assms, of crc 0 n] by (simp add: replay_segment_def wal_bytes_def)

theorem wal_torn_tail_witness:
  "\<exists>m\<le>2. replay_segment (\<lambda>_. 0) (take 20 (concat (map (wal_frame (\<lambda>_. 0)) [WInsert [1] [7], WDelete [1]]))) =
     take m [WInsert [1] [7], WDelete [1]]"
proof -
  let ?ops = "[WInsert [1] [7], WDelete [1]] :: wal_op list"
  have "list_all op_framed ?ops" by (simp add: op_framed_def op_key_def wal_payload_def)
  from wal_torn_tail [OF this, of "\<lambda>_. 0" 20] obtain m where
    m: "m \<le> length ?ops"
      "replay_segment (\<lambda>_. 0) (take 20 (concat (map (wal_frame (\<lambda>_. 0)) ?ops))) = map logged (take m ?ops)" by blast
  have "map logged ?ops = ?ops" by (simp add: logged_def)
  then have "map logged (take m ?ops) = take m ?ops" by (metis take_map)
  with m show ?thesis by (intro exI [of _ m]) (metis One_nat_def Suc_1 length_Cons list.size(3))
qed

text \<open>C27: the log writes the length of a value with 16 bits.  A value of 65536 bytes
  or more, which the write buffer and the pages take, is replayed cut to its length modulo 65536,
  without an error.\<close>

theorem wal_long_value_cut:
  assumes "length k < 2 ^ 16" and "2 ^ 16 \<le> length v" and "length v < 2 ^ 31"
  shows "replay_segment crc (wal_frame crc (WInsert k v)) = [WInsert k (take (length v mod 2 ^ 16) v)] \<and>
    take (length v mod 2 ^ 16) v \<noteq> v \<and> entry_fits (k, Some v)"
proof -
  have "list_all op_framed [WInsert k v]" using assms by (simp add: op_framed_def op_key_def wal_payload_def)
  from replay_segment_ok [OF this, of crc] have
    "replay_segment crc (wal_frame crc (WInsert k v)) = [WInsert k (take (length v mod 2 ^ 16) v)]"
    by (simp add: wal_bytes_def logged_def)
  moreover have "length (take (length v mod 2 ^ 16) v) < 2 ^ 16"
    by (rule le_less_trans [of _ "length v mod 2 ^ 16"]) simp_all
  then have "take (length v mod 2 ^ 16) v \<noteq> v" using assms(2) by (metis not_le)
  ultimately show ?thesis using assms by (simp add: entry_fits_def opt_len_def)
qed

theorem wal_long_value_cut_witness:
  "replay_segment (\<lambda>_. 0) (wal_frame (\<lambda>_. 0) (WInsert [1] (replicate 65537 9))) = [WInsert [1] [9]]"
  using wal_long_value_cut [of "[1]" "replicate 65537 9" "\<lambda>_. 0"] by simp

text \<open>C28: log segments are replayed in the order of their file names, whose numbers
  are padded to six digits.  Of two segments below number ten million the newer one is replayed
  first exactly when its number has seven digits, the older one's at most six, and the first six
  digits of the newer are below the older; the older writes are then applied last.\<close>

theorem wal_segment_order:
  assumes "i < j" and "j < 10000000"
  shows "replay_wal crc (Some [(i, old), (j, new)]) =
    (if i < 1000000 \<and> 1000000 \<le> j \<and> j div 10 < i
     then replay_segment crc new @ replay_segment crc old
     else replay_segment crc old @ replay_segment crc new)"
  using segment_name_order [OF assms] by (auto simp: replay_wal_def not_le)

theorem wal_segment_order_witness:
  "replay_wal (\<lambda>_. 0) (Some [(999999, wal_frame (\<lambda>_. 0) (WInsert [1] [7])), (1000000, wal_frame (\<lambda>_. 0) (WInsert [1] [8]))]) =
     [WInsert [1] [8], WInsert [1] [7]] \<and>
   replay_wal (\<lambda>_. 0) (Some [(1000000, wal_frame (\<lambda>_. 0) (WInsert [1] [7])), (1000001, wal_frame (\<lambda>_. 0) (WInsert [1] [8]))]) =
     [WInsert [1] [7], WInsert [1] [8]]"
proof -
  have "replay_segment (\<lambda>_. 0) (wal_frame (\<lambda>_. 0) (WInsert [1] [x])) = [WInsert [1] [x]]" for x
    using replay_segment_ok [of "[WInsert [1] [x]]" "\<lambda>_. 0"]
    by (simp add: op_framed_def op_key_def wal_payload_def wal_bytes_def logged_def)
  then show ?thesis
    using wal_segment_order [of 999999 1000000 "\<lambda>_. 0"] wal_segment_order [of 1000000 1000001 "\<lambda>_. 0"] by simp
qed

text \<open>Metadata with a UTF-8 label and numbers within the widths of the format
  comes back from its bytes.\<close>

lemma manifest_roundtrip: "meta_fits m \<Longrightarrow> meta_from_bytes (meta_to_bytes m) = Inr m"
  by (rule meta_roundtrip)

text \<open>Any sequence of inserts and deletes leaves the write buffer with exactly
  the last write of each key, strictly sorted, with a byte count equal to the bytes it holds.\<close>

theorem memtable_refines_map:
  assumes "memtable_inv m"
  shows "memtable_inv (fold memtable_write es m) \<and>
    memtable_get (fold memtable_write es m) = fold map_write es (memtable_get m)"
  using memtable_writes [OF assms] by blast

theorem memtable_refines_map_witness:
  "memtable_inv memtable_new \<and>
   memtable_get (fold memtable_write [([1], Some [7]), ([1], None)] memtable_new) [1] = Some None"
  using memtable_refines_map [of memtable_new "[([1], Some [7]), ([1], None)]"]
  by (simp add: map_write_def)

end
