(* ===== verification/Uplc_Term.thy ===== *)
theory Uplc_Term
  imports Utf8
begin

text \<open>
  The syntax of Untyped Plutus Core (\<^verbatim>\<open>dugite-uplc\<close>): the builtin functions with their wire numbers,
  arities and availability, the semantics variants, Plutus data, constants and terms, the eager
  scope check, and the values and environments of the machine.  Unbounded integers are HOL's
  integers, strings the lists of their UTF-8 bytes, 64-bit indices and tags natural numbers.
  The \<^verbatim>\<open>Rc\<close> pointers of the code only share immutable terms, so terms are plain trees.
\<close>


section \<open>Languages and semantics variants\<close>

datatype script_language = PlutusV1 | PlutusV2 | PlutusV3 | PlutusV4

datatype semantics_variant = VariantA | VariantB | VariantC | VariantD | VariantE

definition chang_pv :: nat where "chang_pv = 9"
definition van_rossem_pv :: nat where "van_rossem_pv = 11"

definition latest_variant :: semantics_variant where "latest_variant = VariantE"

definition for_script :: "script_language \<Rightarrow> nat \<Rightarrow> semantics_variant" where
  "for_script language major_pv =
     (if language = PlutusV1 \<or> language = PlutusV2 then
        if major_pv < chang_pv then VariantA
        else if major_pv < van_rossem_pv then VariantB
        else VariantD
      else if major_pv < van_rossem_pv then VariantC
      else VariantE)"

definition cons_byte_string_strict :: "semantics_variant \<Rightarrow> bool" where
  "cons_byte_string_strict v \<longleftrightarrow> v = VariantC \<or> v = VariantE"

definition bitwise_max_input_enforced :: "semantics_variant \<Rightarrow> bool" where
  "bitwise_max_input_enforced v \<longleftrightarrow> v = VariantD \<or> v = VariantE"

definition text_costed_by_byte_length :: "semantics_variant \<Rightarrow> bool" where
  "text_costed_by_byte_length v \<longleftrightarrow> v = VariantD \<or> v = VariantE"

definition case_on_constant_available :: "semantics_variant \<Rightarrow> bool" where
  "case_on_constant_available v \<longleftrightarrow> v = VariantD \<or> v = VariantE"

definition constr_data_requires_word64 :: "semantics_variant \<Rightarrow> bool" where
  "constr_data_requires_word64 v \<longleftrightarrow> v = VariantD \<or> v = VariantE"


section \<open>Builtin functions\<close>

text \<open>The builtins come in families by what they work on; a builtin is a family with one of its
  functions, under the names of the code.\<close>

datatype integer_fun =
    AddInteger | SubtractInteger | MultiplyInteger | DivideInteger | QuotientInteger |
    RemainderInteger | ModInteger | EqualsInteger | LessThanInteger | LessThanEqualsInteger |
    ExpModInteger

datatype bytes_fun =
    AppendByteString | ConsByteString | SliceByteString | LengthOfByteString | IndexByteString |
    EqualsByteString | LessThanByteString | LessThanEqualsByteString | IntegerToByteString |
    ByteStringToInteger

datatype crypto_fun =
    Sha2_256 | Sha3_256 | Blake2b_256 | VerifyEd25519Signature | VerifyEcdsaSecp256k1Signature |
    VerifySchnorrSecp256k1Signature | Keccak_256 | Blake2b_224 | Ripemd_160

datatype string_fun =
    AppendString | EqualsString | EncodeUtf8 | DecodeUtf8

datatype control_fun =
    IfThenElse | ChooseUnit | Trace | FstPair | SndPair

datatype list_fun =
    ChooseList | MkCons | HeadList | TailList | NullList | DropList | LengthOfArray | ListToArray
    | IndexArray

datatype data_fun =
    ChooseData | ConstrData | MapData | ListData | IData | BData | UnConstrData | UnMapData |
    UnListData | UnIData | UnBData | EqualsData | MkPairData | MkNilData | MkNilPairData |
    SerialiseData

datatype bls_fun =
    Bls12_381_G1_Add | Bls12_381_G1_Neg | Bls12_381_G1_ScalarMul | Bls12_381_G1_Equal |
    Bls12_381_G1_Compress | Bls12_381_G1_Uncompress | Bls12_381_G1_HashToGroup | Bls12_381_G2_Add
    | Bls12_381_G2_Neg | Bls12_381_G2_ScalarMul | Bls12_381_G2_Equal | Bls12_381_G2_Compress |
    Bls12_381_G2_Uncompress | Bls12_381_G2_HashToGroup | Bls12_381_MillerLoop |
    Bls12_381_MulMlResult | Bls12_381_FinalVerify | Bls12_381_G1_MultiScalarMul |
    Bls12_381_G2_MultiScalarMul

datatype bits_fun =
    AndByteString | OrByteString | XorByteString | ComplementByteString | ReadBit | WriteBits |
    ReplicateByte | ShiftByteString | RotateByteString | CountSetBits | FindFirstSetBit

datatype value_fun =
    InsertCoin | LookupCoin | UnionValue | ValueContains | ValueData | UnValueData | ScaleValue

datatype builtin_id =
    IntegerFun integer_fun
  | BytesFun bytes_fun
  | CryptoFun crypto_fun
  | StringFun string_fun
  | ControlFun control_fun
  | ListFun list_fun
  | DataFun data_fun
  | BlsFun bls_fun
  | BitsFun bits_fun
  | ValueFun value_fun

text \<open>The discriminants of the enumeration.\<close>

primrec integer_fun_as_u8 :: "integer_fun \<Rightarrow> nat" where
  "integer_fun_as_u8 AddInteger = 0"
| "integer_fun_as_u8 SubtractInteger = 1"
| "integer_fun_as_u8 MultiplyInteger = 2"
| "integer_fun_as_u8 DivideInteger = 3"
| "integer_fun_as_u8 QuotientInteger = 4"
| "integer_fun_as_u8 RemainderInteger = 5"
| "integer_fun_as_u8 ModInteger = 6"
| "integer_fun_as_u8 EqualsInteger = 7"
| "integer_fun_as_u8 LessThanInteger = 8"
| "integer_fun_as_u8 LessThanEqualsInteger = 9"
| "integer_fun_as_u8 ExpModInteger = 87"

primrec bytes_fun_as_u8 :: "bytes_fun \<Rightarrow> nat" where
  "bytes_fun_as_u8 AppendByteString = 10"
| "bytes_fun_as_u8 ConsByteString = 11"
| "bytes_fun_as_u8 SliceByteString = 12"
| "bytes_fun_as_u8 LengthOfByteString = 13"
| "bytes_fun_as_u8 IndexByteString = 14"
| "bytes_fun_as_u8 EqualsByteString = 15"
| "bytes_fun_as_u8 LessThanByteString = 16"
| "bytes_fun_as_u8 LessThanEqualsByteString = 17"
| "bytes_fun_as_u8 IntegerToByteString = 73"
| "bytes_fun_as_u8 ByteStringToInteger = 74"

primrec crypto_fun_as_u8 :: "crypto_fun \<Rightarrow> nat" where
  "crypto_fun_as_u8 Sha2_256 = 18"
| "crypto_fun_as_u8 Sha3_256 = 19"
| "crypto_fun_as_u8 Blake2b_256 = 20"
| "crypto_fun_as_u8 VerifyEd25519Signature = 21"
| "crypto_fun_as_u8 VerifyEcdsaSecp256k1Signature = 52"
| "crypto_fun_as_u8 VerifySchnorrSecp256k1Signature = 53"
| "crypto_fun_as_u8 Keccak_256 = 71"
| "crypto_fun_as_u8 Blake2b_224 = 72"
| "crypto_fun_as_u8 Ripemd_160 = 86"

primrec string_fun_as_u8 :: "string_fun \<Rightarrow> nat" where
  "string_fun_as_u8 AppendString = 22"
| "string_fun_as_u8 EqualsString = 23"
| "string_fun_as_u8 EncodeUtf8 = 24"
| "string_fun_as_u8 DecodeUtf8 = 25"

primrec control_fun_as_u8 :: "control_fun \<Rightarrow> nat" where
  "control_fun_as_u8 IfThenElse = 26"
| "control_fun_as_u8 ChooseUnit = 27"
| "control_fun_as_u8 Trace = 28"
| "control_fun_as_u8 FstPair = 29"
| "control_fun_as_u8 SndPair = 30"

primrec list_fun_as_u8 :: "list_fun \<Rightarrow> nat" where
  "list_fun_as_u8 ChooseList = 31"
| "list_fun_as_u8 MkCons = 32"
| "list_fun_as_u8 HeadList = 33"
| "list_fun_as_u8 TailList = 34"
| "list_fun_as_u8 NullList = 35"
| "list_fun_as_u8 DropList = 88"
| "list_fun_as_u8 LengthOfArray = 89"
| "list_fun_as_u8 ListToArray = 90"
| "list_fun_as_u8 IndexArray = 91"

primrec data_fun_as_u8 :: "data_fun \<Rightarrow> nat" where
  "data_fun_as_u8 ChooseData = 36"
| "data_fun_as_u8 ConstrData = 37"
| "data_fun_as_u8 MapData = 38"
| "data_fun_as_u8 ListData = 39"
| "data_fun_as_u8 IData = 40"
| "data_fun_as_u8 BData = 41"
| "data_fun_as_u8 UnConstrData = 42"
| "data_fun_as_u8 UnMapData = 43"
| "data_fun_as_u8 UnListData = 44"
| "data_fun_as_u8 UnIData = 45"
| "data_fun_as_u8 UnBData = 46"
| "data_fun_as_u8 EqualsData = 47"
| "data_fun_as_u8 MkPairData = 48"
| "data_fun_as_u8 MkNilData = 49"
| "data_fun_as_u8 MkNilPairData = 50"
| "data_fun_as_u8 SerialiseData = 51"

primrec bls_fun_as_u8 :: "bls_fun \<Rightarrow> nat" where
  "bls_fun_as_u8 Bls12_381_G1_Add = 54"
| "bls_fun_as_u8 Bls12_381_G1_Neg = 55"
| "bls_fun_as_u8 Bls12_381_G1_ScalarMul = 56"
| "bls_fun_as_u8 Bls12_381_G1_Equal = 57"
| "bls_fun_as_u8 Bls12_381_G1_Compress = 58"
| "bls_fun_as_u8 Bls12_381_G1_Uncompress = 59"
| "bls_fun_as_u8 Bls12_381_G1_HashToGroup = 60"
| "bls_fun_as_u8 Bls12_381_G2_Add = 61"
| "bls_fun_as_u8 Bls12_381_G2_Neg = 62"
| "bls_fun_as_u8 Bls12_381_G2_ScalarMul = 63"
| "bls_fun_as_u8 Bls12_381_G2_Equal = 64"
| "bls_fun_as_u8 Bls12_381_G2_Compress = 65"
| "bls_fun_as_u8 Bls12_381_G2_Uncompress = 66"
| "bls_fun_as_u8 Bls12_381_G2_HashToGroup = 67"
| "bls_fun_as_u8 Bls12_381_MillerLoop = 68"
| "bls_fun_as_u8 Bls12_381_MulMlResult = 69"
| "bls_fun_as_u8 Bls12_381_FinalVerify = 70"
| "bls_fun_as_u8 Bls12_381_G1_MultiScalarMul = 92"
| "bls_fun_as_u8 Bls12_381_G2_MultiScalarMul = 93"

primrec bits_fun_as_u8 :: "bits_fun \<Rightarrow> nat" where
  "bits_fun_as_u8 AndByteString = 75"
| "bits_fun_as_u8 OrByteString = 76"
| "bits_fun_as_u8 XorByteString = 77"
| "bits_fun_as_u8 ComplementByteString = 78"
| "bits_fun_as_u8 ReadBit = 79"
| "bits_fun_as_u8 WriteBits = 80"
| "bits_fun_as_u8 ReplicateByte = 81"
| "bits_fun_as_u8 ShiftByteString = 82"
| "bits_fun_as_u8 RotateByteString = 83"
| "bits_fun_as_u8 CountSetBits = 84"
| "bits_fun_as_u8 FindFirstSetBit = 85"

primrec value_fun_as_u8 :: "value_fun \<Rightarrow> nat" where
  "value_fun_as_u8 InsertCoin = 94"
| "value_fun_as_u8 LookupCoin = 95"
| "value_fun_as_u8 UnionValue = 96"
| "value_fun_as_u8 ValueContains = 97"
| "value_fun_as_u8 ValueData = 98"
| "value_fun_as_u8 UnValueData = 99"
| "value_fun_as_u8 ScaleValue = 100"

primrec as_u8 :: "builtin_id \<Rightarrow> nat" where
  "as_u8 (IntegerFun f) = integer_fun_as_u8 f"
| "as_u8 (BytesFun f) = bytes_fun_as_u8 f"
| "as_u8 (CryptoFun f) = crypto_fun_as_u8 f"
| "as_u8 (StringFun f) = string_fun_as_u8 f"
| "as_u8 (ControlFun f) = control_fun_as_u8 f"
| "as_u8 (ListFun f) = list_fun_as_u8 f"
| "as_u8 (DataFun f) = data_fun_as_u8 f"
| "as_u8 (BlsFun f) = bls_fun_as_u8 f"
| "as_u8 (BitsFun f) = bits_fun_as_u8 f"
| "as_u8 (ValueFun f) = value_fun_as_u8 f"

text \<open>The number of forces and of arguments.\<close>

primrec integer_fun_arity_of :: "integer_fun \<Rightarrow> nat \<times> nat" where
  "integer_fun_arity_of AddInteger = (0, 2)"
| "integer_fun_arity_of SubtractInteger = (0, 2)"
| "integer_fun_arity_of MultiplyInteger = (0, 2)"
| "integer_fun_arity_of DivideInteger = (0, 2)"
| "integer_fun_arity_of QuotientInteger = (0, 2)"
| "integer_fun_arity_of RemainderInteger = (0, 2)"
| "integer_fun_arity_of ModInteger = (0, 2)"
| "integer_fun_arity_of EqualsInteger = (0, 2)"
| "integer_fun_arity_of LessThanInteger = (0, 2)"
| "integer_fun_arity_of LessThanEqualsInteger = (0, 2)"
| "integer_fun_arity_of ExpModInteger = (0, 3)"

primrec bytes_fun_arity_of :: "bytes_fun \<Rightarrow> nat \<times> nat" where
  "bytes_fun_arity_of AppendByteString = (0, 2)"
| "bytes_fun_arity_of ConsByteString = (0, 2)"
| "bytes_fun_arity_of SliceByteString = (0, 3)"
| "bytes_fun_arity_of LengthOfByteString = (0, 1)"
| "bytes_fun_arity_of IndexByteString = (0, 2)"
| "bytes_fun_arity_of EqualsByteString = (0, 2)"
| "bytes_fun_arity_of LessThanByteString = (0, 2)"
| "bytes_fun_arity_of LessThanEqualsByteString = (0, 2)"
| "bytes_fun_arity_of IntegerToByteString = (0, 3)"
| "bytes_fun_arity_of ByteStringToInteger = (0, 2)"

primrec crypto_fun_arity_of :: "crypto_fun \<Rightarrow> nat \<times> nat" where
  "crypto_fun_arity_of Sha2_256 = (0, 1)"
| "crypto_fun_arity_of Sha3_256 = (0, 1)"
| "crypto_fun_arity_of Blake2b_256 = (0, 1)"
| "crypto_fun_arity_of VerifyEd25519Signature = (0, 3)"
| "crypto_fun_arity_of VerifyEcdsaSecp256k1Signature = (0, 3)"
| "crypto_fun_arity_of VerifySchnorrSecp256k1Signature = (0, 3)"
| "crypto_fun_arity_of Keccak_256 = (0, 1)"
| "crypto_fun_arity_of Blake2b_224 = (0, 1)"
| "crypto_fun_arity_of Ripemd_160 = (0, 1)"

primrec string_fun_arity_of :: "string_fun \<Rightarrow> nat \<times> nat" where
  "string_fun_arity_of AppendString = (0, 2)"
| "string_fun_arity_of EqualsString = (0, 2)"
| "string_fun_arity_of EncodeUtf8 = (0, 1)"
| "string_fun_arity_of DecodeUtf8 = (0, 1)"

primrec control_fun_arity_of :: "control_fun \<Rightarrow> nat \<times> nat" where
  "control_fun_arity_of IfThenElse = (1, 3)"
| "control_fun_arity_of ChooseUnit = (1, 2)"
| "control_fun_arity_of Trace = (1, 2)"
| "control_fun_arity_of FstPair = (2, 1)"
| "control_fun_arity_of SndPair = (2, 1)"

primrec list_fun_arity_of :: "list_fun \<Rightarrow> nat \<times> nat" where
  "list_fun_arity_of ChooseList = (2, 3)"
| "list_fun_arity_of MkCons = (1, 2)"
| "list_fun_arity_of HeadList = (1, 1)"
| "list_fun_arity_of TailList = (1, 1)"
| "list_fun_arity_of NullList = (1, 1)"
| "list_fun_arity_of DropList = (1, 2)"
| "list_fun_arity_of LengthOfArray = (1, 1)"
| "list_fun_arity_of ListToArray = (1, 1)"
| "list_fun_arity_of IndexArray = (1, 2)"

primrec data_fun_arity_of :: "data_fun \<Rightarrow> nat \<times> nat" where
  "data_fun_arity_of ChooseData = (1, 6)"
| "data_fun_arity_of ConstrData = (0, 2)"
| "data_fun_arity_of MapData = (0, 1)"
| "data_fun_arity_of ListData = (0, 1)"
| "data_fun_arity_of IData = (0, 1)"
| "data_fun_arity_of BData = (0, 1)"
| "data_fun_arity_of UnConstrData = (0, 1)"
| "data_fun_arity_of UnMapData = (0, 1)"
| "data_fun_arity_of UnListData = (0, 1)"
| "data_fun_arity_of UnIData = (0, 1)"
| "data_fun_arity_of UnBData = (0, 1)"
| "data_fun_arity_of EqualsData = (0, 2)"
| "data_fun_arity_of MkPairData = (0, 2)"
| "data_fun_arity_of MkNilData = (0, 1)"
| "data_fun_arity_of MkNilPairData = (0, 1)"
| "data_fun_arity_of SerialiseData = (0, 1)"

primrec bls_fun_arity_of :: "bls_fun \<Rightarrow> nat \<times> nat" where
  "bls_fun_arity_of Bls12_381_G1_Add = (0, 2)"
| "bls_fun_arity_of Bls12_381_G1_Neg = (0, 1)"
| "bls_fun_arity_of Bls12_381_G1_ScalarMul = (0, 2)"
| "bls_fun_arity_of Bls12_381_G1_Equal = (0, 2)"
| "bls_fun_arity_of Bls12_381_G1_Compress = (0, 1)"
| "bls_fun_arity_of Bls12_381_G1_Uncompress = (0, 1)"
| "bls_fun_arity_of Bls12_381_G1_HashToGroup = (0, 2)"
| "bls_fun_arity_of Bls12_381_G2_Add = (0, 2)"
| "bls_fun_arity_of Bls12_381_G2_Neg = (0, 1)"
| "bls_fun_arity_of Bls12_381_G2_ScalarMul = (0, 2)"
| "bls_fun_arity_of Bls12_381_G2_Equal = (0, 2)"
| "bls_fun_arity_of Bls12_381_G2_Compress = (0, 1)"
| "bls_fun_arity_of Bls12_381_G2_Uncompress = (0, 1)"
| "bls_fun_arity_of Bls12_381_G2_HashToGroup = (0, 2)"
| "bls_fun_arity_of Bls12_381_MillerLoop = (0, 2)"
| "bls_fun_arity_of Bls12_381_MulMlResult = (0, 2)"
| "bls_fun_arity_of Bls12_381_FinalVerify = (0, 2)"
| "bls_fun_arity_of Bls12_381_G1_MultiScalarMul = (0, 2)"
| "bls_fun_arity_of Bls12_381_G2_MultiScalarMul = (0, 2)"

primrec bits_fun_arity_of :: "bits_fun \<Rightarrow> nat \<times> nat" where
  "bits_fun_arity_of AndByteString = (0, 3)"
| "bits_fun_arity_of OrByteString = (0, 3)"
| "bits_fun_arity_of XorByteString = (0, 3)"
| "bits_fun_arity_of ComplementByteString = (0, 1)"
| "bits_fun_arity_of ReadBit = (0, 2)"
| "bits_fun_arity_of WriteBits = (0, 3)"
| "bits_fun_arity_of ReplicateByte = (0, 2)"
| "bits_fun_arity_of ShiftByteString = (0, 2)"
| "bits_fun_arity_of RotateByteString = (0, 2)"
| "bits_fun_arity_of CountSetBits = (0, 1)"
| "bits_fun_arity_of FindFirstSetBit = (0, 1)"

primrec value_fun_arity_of :: "value_fun \<Rightarrow> nat \<times> nat" where
  "value_fun_arity_of InsertCoin = (0, 4)"
| "value_fun_arity_of LookupCoin = (0, 3)"
| "value_fun_arity_of UnionValue = (0, 2)"
| "value_fun_arity_of ValueContains = (0, 2)"
| "value_fun_arity_of ValueData = (0, 1)"
| "value_fun_arity_of UnValueData = (0, 1)"
| "value_fun_arity_of ScaleValue = (0, 2)"

primrec arity_of :: "builtin_id \<Rightarrow> nat \<times> nat" where
  "arity_of (IntegerFun f) = integer_fun_arity_of f"
| "arity_of (BytesFun f) = bytes_fun_arity_of f"
| "arity_of (CryptoFun f) = crypto_fun_arity_of f"
| "arity_of (StringFun f) = string_fun_arity_of f"
| "arity_of (ControlFun f) = control_fun_arity_of f"
| "arity_of (ListFun f) = list_fun_arity_of f"
| "arity_of (DataFun f) = data_fun_arity_of f"
| "arity_of (BlsFun f) = bls_fun_arity_of f"
| "arity_of (BitsFun f) = bits_fun_arity_of f"
| "arity_of (ValueFun f) = value_fun_arity_of f"

definition is_available_in :: "builtin_id \<Rightarrow> script_language \<Rightarrow> nat \<Rightarrow> bool" where
  "is_available_in b language major_pv =
     (let raw = as_u8 b;
          by_language = (\<lambda>v1 v2 v3. case language of PlutusV1 \<Rightarrow> v1 | PlutusV2 \<Rightarrow> v2 | _ \<Rightarrow> v3);
          earliest_pv =
            (if raw \<le> 50 then by_language 5 7 9
             else if raw = 51 then by_language 11 7 9
             else if raw \<le> 53 then by_language 11 8 9
             else if raw \<le> 72 then by_language 11 11 9
             else if raw \<le> 74 then by_language 11 10 9
             else if raw \<le> 86 then by_language 11 11 10
             else by_language 11 11 11)
      in earliest_pv \<le> major_pv)"


section \<open>Errors\<close>

text \<open>The texts that go with an error are left out; a machine error keeps its reason.\<close>

datatype machine_reason =
    IndexZero
  | IndexOutOfRange
  | AppliedNonFunction
  | ForcedNonDelay
  | CaseNonEnumerable
  | CaseNonConstr

datatype uplc_error =
    FlatDecode
  | CborDecode
  | Encode
  | ScriptError
  | BudgetExhausted int int
  | BuiltinTypeError builtin_id
  | BuiltinFailure builtin_id
  | NonUnitReturn
  | FreeVariable nat
  | MachineError machine_reason
  | Internal

definition builtin_table :: "builtin_id list" where
  "builtin_table =
     [IntegerFun AddInteger, IntegerFun SubtractInteger, IntegerFun MultiplyInteger,
      IntegerFun DivideInteger, IntegerFun QuotientInteger, IntegerFun RemainderInteger,
      IntegerFun ModInteger, IntegerFun EqualsInteger, IntegerFun LessThanInteger,
      IntegerFun LessThanEqualsInteger, BytesFun AppendByteString, BytesFun ConsByteString,
      BytesFun SliceByteString, BytesFun LengthOfByteString, BytesFun IndexByteString,
      BytesFun EqualsByteString, BytesFun LessThanByteString, BytesFun LessThanEqualsByteString,
      CryptoFun Sha2_256, CryptoFun Sha3_256, CryptoFun Blake2b_256,
      CryptoFun VerifyEd25519Signature, StringFun AppendString, StringFun EqualsString,
      StringFun EncodeUtf8, StringFun DecodeUtf8, ControlFun IfThenElse, ControlFun ChooseUnit,
      ControlFun Trace, ControlFun FstPair, ControlFun SndPair, ListFun ChooseList,
      ListFun MkCons, ListFun HeadList, ListFun TailList, ListFun NullList, DataFun ChooseData,
      DataFun ConstrData, DataFun MapData, DataFun ListData, DataFun IData, DataFun BData,
      DataFun UnConstrData, DataFun UnMapData, DataFun UnListData, DataFun UnIData,
      DataFun UnBData, DataFun EqualsData, DataFun MkPairData, DataFun MkNilData,
      DataFun MkNilPairData, DataFun SerialiseData, CryptoFun VerifyEcdsaSecp256k1Signature,
      CryptoFun VerifySchnorrSecp256k1Signature, BlsFun Bls12_381_G1_Add, BlsFun Bls12_381_G1_Neg,
      BlsFun Bls12_381_G1_ScalarMul, BlsFun Bls12_381_G1_Equal, BlsFun Bls12_381_G1_Compress,
      BlsFun Bls12_381_G1_Uncompress, BlsFun Bls12_381_G1_HashToGroup, BlsFun Bls12_381_G2_Add,
      BlsFun Bls12_381_G2_Neg, BlsFun Bls12_381_G2_ScalarMul, BlsFun Bls12_381_G2_Equal,
      BlsFun Bls12_381_G2_Compress, BlsFun Bls12_381_G2_Uncompress,
      BlsFun Bls12_381_G2_HashToGroup, BlsFun Bls12_381_MillerLoop, BlsFun Bls12_381_MulMlResult,
      BlsFun Bls12_381_FinalVerify, CryptoFun Keccak_256, CryptoFun Blake2b_224,
      BytesFun IntegerToByteString, BytesFun ByteStringToInteger, BitsFun AndByteString,
      BitsFun OrByteString, BitsFun XorByteString, BitsFun ComplementByteString, BitsFun ReadBit,
      BitsFun WriteBits, BitsFun ReplicateByte, BitsFun ShiftByteString, BitsFun RotateByteString,
      BitsFun CountSetBits, BitsFun FindFirstSetBit, CryptoFun Ripemd_160,
      IntegerFun ExpModInteger, ListFun DropList, ListFun LengthOfArray, ListFun ListToArray,
      ListFun IndexArray, BlsFun Bls12_381_G1_MultiScalarMul, BlsFun Bls12_381_G2_MultiScalarMul,
      ValueFun InsertCoin, ValueFun LookupCoin, ValueFun UnionValue, ValueFun ValueContains,
      ValueFun ValueData, ValueFun UnValueData, ValueFun ScaleValue]"

definition from_u8 :: "nat \<Rightarrow> (uplc_error, builtin_id) result" where
  "from_u8 raw = (if raw < length builtin_table then Inr (builtin_table ! raw) else Inl FlatDecode)"


section \<open>Data, constants and terms\<close>

datatype uplc_data =
    DConstr int "uplc_data list"
  | DMap "(uplc_data \<times> uplc_data) list"
  | DList "uplc_data list"
  | DI int
  | DB "byte list"

datatype type_tag =
    TyInteger | TyByteString | TyString | TyUnit | TyBool | TyData
  | TyList type_tag
  | TyPair type_tag type_tag
  | TyG1 | TyG2 | TyMlResult
  | TyArray type_tag
  | TyValue

text \<open>A multi-asset value: policies, each with its tokens and their amounts, in key order.\<close>

type_synonym value_map = "(byte list \<times> (byte list \<times> int) list) list"

datatype uconst =
    CInteger int
  | CByteString "byte list"
  | CString "byte list"
  | CUnit
  | CBool bool
  | CProtoList type_tag "uconst list"
  | CProtoPair type_tag type_tag uconst uconst
  | CData uplc_data
  | CG1 "byte list"
  | CG2 "byte list"
  | CMlResult "byte list"
  | CArray type_tag "uconst list"
  | CValue value_map

fun type_tag_of :: "uconst \<Rightarrow> type_tag" where
  "type_tag_of (CInteger _) = TyInteger"
| "type_tag_of (CByteString _) = TyByteString"
| "type_tag_of (CString _) = TyString"
| "type_tag_of CUnit = TyUnit"
| "type_tag_of (CBool _) = TyBool"
| "type_tag_of (CProtoList t _) = TyList t"
| "type_tag_of (CProtoPair a b _ _) = TyPair a b"
| "type_tag_of (CData _) = TyData"
| "type_tag_of (CG1 _) = TyG1"
| "type_tag_of (CG2 _) = TyG2"
| "type_tag_of (CMlResult _) = TyMlResult"
| "type_tag_of (CArray t _) = TyArray t"
| "type_tag_of (CValue _) = TyValue"

datatype uterm =
    TVar nat
  | TLam uterm
  | TApp uterm uterm
  | TConst uconst
  | TDelay uterm
  | TForce uterm
  | TError
  | TBuiltin builtin_id
  | TConstr nat "uterm list"
  | TCase uterm "uterm list"


section \<open>The eager scope check\<close>

text \<open>Arguments of constructors and the parts of a case are not visited.\<close>

fun scope_go :: "uterm \<Rightarrow> nat \<Rightarrow> (uplc_error, unit) result" where
  "scope_go (TVar i) lvl = (if i = 0 \<or> lvl < i then Inl (FreeVariable i) else Inr ())"
| "scope_go (TLam body) lvl = scope_go body (lvl + 1)"
| "scope_go (TApp f a) lvl = rbind (scope_go f lvl) (\<lambda>_. scope_go a lvl)"
| "scope_go (TForce body) lvl = scope_go body lvl"
| "scope_go (TDelay body) lvl = scope_go body lvl"
| "scope_go _ lvl = Inr ()"

definition check_scope :: "uterm \<Rightarrow> (uplc_error, unit) result" where
  "check_scope t = scope_go t 0"


section \<open>Values and environments\<close>

text \<open>An environment is the list of its values, the innermost binder first; the cached depth of the
  code is the length of the list.\<close>

datatype cek_value =
    VConst uconst
  | VLambda uterm "cek_value list"
  | VDelay uterm "cek_value list"
  | VBuiltin builtin_id nat "cek_value list"
  | VConstr nat "cek_value list"

type_synonym env = "cek_value list"

definition env_lookup :: "env \<Rightarrow> nat \<Rightarrow> (uplc_error, cek_value) result" where
  "env_lookup e index =
     (if index = 0 then Inl (MachineError IndexZero)
      else if length e < index then Inl (MachineError IndexOutOfRange)
      else Inr (e ! (index - 1)))"

definition env_extend :: "env \<Rightarrow> cek_value \<Rightarrow> env" where
  "env_extend e v = v # e"

definition is_unit :: "cek_value \<Rightarrow> bool" where
  "is_unit v = (v = VConst CUnit)"


section \<open>Wire numbers and availability\<close>

lemma builtin_numbers: "from_u8 (as_u8 b) = Inr b"
  by (cases b; rename_tac f; case_tac f) (simp_all add: from_u8_def builtin_table_def)

lemma builtin_table_nth: "n < length builtin_table \<Longrightarrow> as_u8 (builtin_table ! n) = n"
proof -
  assume "n < length builtin_table"
  moreover have "map as_u8 builtin_table = [0..<length builtin_table]"
    by (simp add: builtin_table_def upt_conv_Cons)
  ultimately show ?thesis by (metis add_0 length_map nth_map nth_upt)
qed

text \<open>A builtin once available stays so in later protocol versions, and every builtin needs at least
  one argument to fire.\<close>

lemma available_mono: "is_available_in b l pv \<Longrightarrow> pv \<le> pv' \<Longrightarrow> is_available_in b l pv'"
  by (simp add: is_available_in_def Let_def split: if_splits)

lemma arity_pos: "0 < snd (arity_of b)" and arity_small: "fst (arity_of b) \<le> 2 \<and> snd (arity_of b) \<le> 6"
  by (cases b; rename_tac f; case_tac f; simp)+

end
