(* ===== verification/Uplc_Data.thy ===== *)
theory Uplc_Data
  imports Uplc_Term
begin

text \<open>
  The CBOR form of Plutus data (\<^verbatim>\<open>data.rs\<close>).  The items that the \<^verbatim>\<open>minicbor\<close> encoder writes and its
  decoder reads are the tokens below; how a token is laid out in bytes is the matter of that
  library.  Encoding is the list of items the code writes, decoding reads items off the front of
  a list.  Data within the depth limit and with 64-bit constructor tags comes back unchanged.
\<close>

datatype cbor_item =
    KUint nat
  | KNint nat
  | KBytes "byte list"
  | KBeginBytes
  | KArray nat
  | KBeginArray
  | KMap nat
  | KBeginMap
  | KTag nat bool
  | KBreak
  | KOther

text \<open>\<^verbatim>\<open>KNint k\<close> is the integer \<open>-1 - k\<close>; the flag of a tag says that its header is a single byte,
  which is how the encoder writes the tags below 24.\<close>

definition data_max_depth :: nat where "data_max_depth = 1024"
definition data_chunk_limit :: nat where "data_chunk_limit = 64"


section \<open>Traversals with an explicit stack\<close>

lemma zip_fst_size:
  "length xs = length ys \<Longrightarrow> sum_list (map (\<lambda>p. Suc (size (fst p))) (zip xs ys)) \<le> size_list size xs"
  by (induction xs ys rule: list_induct2) auto

lemma zip_pairs_size:
  "length xs = length ys \<Longrightarrow>
     sum_list (map (\<lambda>p. Suc (size (fst p)))
       (concat (map (\<lambda>((ka, va), (kb, vb)). [(ka, kb), (va, vb)]) (zip xs ys))))
     \<le> size_list (size_prod size size) xs"
  by (induction xs ys rule: list_induct2) auto

text \<open>Equality and cloning of data run over a work stack instead of recursing; the top of the stack is
  the head of the list.\<close>

function data_eq_loop :: "(uplc_data \<times> uplc_data) list \<Rightarrow> bool" where
  "data_eq_loop [] = True"
| "data_eq_loop ((a, b) # stack) =
     (case (a, b) of
        (DConstr ta fa, DConstr tb fb) \<Rightarrow>
          if ta \<noteq> tb \<or> length fa \<noteq> length fb then False
          else data_eq_loop (rev (zip fa fb) @ stack)
      | (DMap ea, DMap eb) \<Rightarrow>
          if length ea \<noteq> length eb then False
          else data_eq_loop
                 (rev (concat (map (\<lambda>((ka, va), (kb, vb)). [(ka, kb), (va, vb)]) (zip ea eb))) @ stack)
      | (DList la, DList lb) \<Rightarrow>
          if length la \<noteq> length lb then False else data_eq_loop (rev (zip la lb) @ stack)
      | (DI ia, DI ib) \<Rightarrow> if ia \<noteq> ib then False else data_eq_loop stack
      | (DB ba, DB bb) \<Rightarrow> if ba \<noteq> bb then False else data_eq_loop stack
      | _ \<Rightarrow> False)"
  by pat_completeness auto

termination
  by (relation "measure (\<lambda>stack. sum_list (map (\<lambda>p. Suc (size (fst p))) stack))")
     (auto simp: rev_map [symmetric] less_Suc_eq_le zip_fst_size zip_pairs_size intro!: le_SucI)

definition data_eq :: "uplc_data \<Rightarrow> uplc_data \<Rightarrow> bool" where
  "data_eq a b = data_eq_loop [(a, b)]"

datatype clone_task =
    Descend uplc_data
  | BuildConstr int nat
  | BuildList nat
  | BuildMap nat

fun pair_up :: "'a list \<Rightarrow> ('a \<times> 'a) list" where
  "pair_up (k # v # it) = (k, v) # pair_up it"
| "pair_up it = []"

text \<open>Splitting off more results than there are would underflow; that panic is \<^const>\<open>None\<close>.\<close>

definition split_off :: "nat \<Rightarrow> 'a list \<Rightarrow> ('a list \<times> 'a list) option" where
  "split_off n out =
     (if length out < n then None
      else Some (take (length out - n) out, drop (length out - n) out))"

fun task_size :: "clone_task \<Rightarrow> nat" where
  "task_size (Descend d) = 2 * Suc (size d)"
| "task_size _ = 1"

lemma descend_size: "sum_list (map (task_size \<circ> Descend) ds) \<le> 2 * size_list size ds"
  by (induction ds) auto

lemma descend_pairs_size:
  "sum_list (map task_size (concat (map (\<lambda>(k, v). [Descend k, Descend v]) es)))
     \<le> 2 * size_list (size_prod size size) es"
  by (induction es) auto

function clone_loop :: "clone_task list \<Rightarrow> uplc_data list \<Rightarrow> uplc_data option" where
  "clone_loop [] out = (if out = [] then None else Some (last out))"
| "clone_loop (Descend d # tasks) out =
     (case d of
        DConstr tag args \<Rightarrow> clone_loop (map Descend args @ BuildConstr tag (length args) # tasks) out
      | DList items \<Rightarrow> clone_loop (map Descend items @ BuildList (length items) # tasks) out
      | DMap entries \<Rightarrow>
          clone_loop (concat (map (\<lambda>(k, v). [Descend k, Descend v]) entries)
                        @ BuildMap (length entries) # tasks) out
      | DI n \<Rightarrow> clone_loop tasks (out @ [DI n])
      | DB b \<Rightarrow> clone_loop tasks (out @ [DB b]))"
| "clone_loop (BuildConstr tag n # tasks) out =
     (case split_off n out of None \<Rightarrow> None
      | Some (out, args) \<Rightarrow> clone_loop tasks (out @ [DConstr tag args]))"
| "clone_loop (BuildList n # tasks) out =
     (case split_off n out of None \<Rightarrow> None
      | Some (out, items) \<Rightarrow> clone_loop tasks (out @ [DList items]))"
| "clone_loop (BuildMap n # tasks) out =
     (case split_off (2 * n) out of None \<Rightarrow> None
      | Some (out, flat) \<Rightarrow> clone_loop tasks (out @ [DMap (pair_up flat)]))"
  by pat_completeness auto

termination
proof (relation "measure (\<lambda>(tasks, out). sum_list (map task_size tasks))", goal_cases)
  case (2 d tasks out tag args)
  then show ?case using descend_size [of args] by simp
next
  case (4 d tasks out items)
  then show ?case using descend_size [of items] by simp
next
  case (3 d tasks out entries)
  then show ?case using descend_pairs_size [of entries] by simp
qed auto

definition data_clone :: "uplc_data \<Rightarrow> uplc_data option" where
  "data_clone d = clone_loop [Descend d] []"


section \<open>Big-endian integers\<close>

fun le_digits :: "nat \<Rightarrow> byte list" where
  "le_digits n = (if n = 0 then [] else word_of_nat (n mod 256) # le_digits (n div 256))"

declare le_digits.simps [simp del]

text \<open>The magnitude of an integer in bytes, most significant first; zero is one zero byte.\<close>

definition to_bytes_be :: "int \<Rightarrow> byte list" where
  "to_bytes_be n = (if n = 0 then [0] else rev (le_digits (nat \<bar>n\<bar>)))"

definition from_bytes_be :: "byte list \<Rightarrow> int" where
  "from_bytes_be bs = int (le_nat (rev bs))"


section \<open>Encoder\<close>

definition item_tag :: "nat \<Rightarrow> cbor_item" where
  "item_tag t = KTag t (t < 24)"

function chunks :: "nat \<Rightarrow> 'a list \<Rightarrow> 'a list list" where
  "chunks n xs = (if xs = [] \<or> n = 0 then [] else take n xs # chunks n (drop n xs))"
  by pat_completeness auto
termination by (relation "measure (\<lambda>(n, xs). length xs)") auto

declare chunks.simps [simp del]

definition encode_bytes_raw :: "byte list \<Rightarrow> cbor_item list" where
  "encode_bytes_raw bs =
     (if length bs \<le> data_chunk_limit then [KBytes bs]
      else KBeginBytes # map KBytes (chunks data_chunk_limit bs) @ [KBreak])"

definition encode_bignum :: "int \<Rightarrow> cbor_item list" where
  "encode_bignum n =
     (if n < 0 then item_tag 3 # encode_bytes_raw (to_bytes_be (- 1 - n))
      else item_tag 2 # encode_bytes_raw (to_bytes_be n))"

text \<open>The negative integers below the range of \<^verbatim>\<open>i64\<close> are laid out by hand, as a head byte and eight
  bytes; the item these bytes stand for is read off by major type and additional information.\<close>

definition encode_raw_negint_u64 :: "nat \<Rightarrow> byte list" where
  "encode_raw_negint_u64 k = 0x3b # rev (le_bytes 8 k)"

definition raw_item :: "byte list \<Rightarrow> cbor_item" where
  "raw_item bs =
     (if length bs = 9 \<and> unat (hd bs) mod 32 = 27
      then if unat (hd bs) div 32 = 0 then KUint (le_nat (rev (tl bs)))
        else if unat (hd bs) div 32 = 1 then KNint (le_nat (rev (tl bs)))
        else KOther
      else KOther)"

definition encode_integer :: "int \<Rightarrow> cbor_item list" where
  "encode_integer n =
     (if n = 0 then [KUint 0]
      else if 0 < n then if n < 2 ^ 64 then [KUint (nat n)] else encode_bignum n
      else let k = - n - 1
        in if k < 2 ^ 64
           then if k \<le> 2 ^ 63 - 1 then [KNint (nat k)] else [raw_item (encode_raw_negint_u64 (nat k))]
           else encode_bignum n)"

text \<open>The header of a constructor; the arguments follow as a list.\<close>

definition constr_header :: "int \<Rightarrow> cbor_item list" where
  "constr_header tag =
     (if 0 \<le> tag \<and> tag \<le> 6 then [item_tag (121 + nat tag)]
      else if 0 \<le> tag \<and> tag \<le> 127 then [item_tag (1280 + (nat tag - 7))]
      else item_tag 102 # KArray 2 # encode_integer tag)"

definition encode_list :: "cbor_item list list \<Rightarrow> cbor_item list" where
  "encode_list xss = (if xss = [] then [KArray 0] else KBeginArray # concat xss @ [KBreak])"

fun encode_data :: "uplc_data \<Rightarrow> cbor_item list" where
  "encode_data (DConstr tag args) = constr_header tag @ encode_list (map encode_data args)"
| "encode_data (DMap entries) =
     KMap (length entries) # concat (map (\<lambda>(k, v). encode_data k @ encode_data v) entries)"
| "encode_data (DList items) = encode_list (map encode_data items)"
| "encode_data (DI n) = encode_integer n"
| "encode_data (DB bs) = encode_bytes_raw bs"


section \<open>Decoder\<close>

type_synonym 'a item_reader = "cbor_item list \<Rightarrow> (uplc_error, 'a \<times> cbor_item list) result"

text \<open>The chunks of an indefinite byte string, up to the break.\<close>

fun decode_chunks :: "cbor_item list \<Rightarrow> (uplc_error, byte list \<times> cbor_item list) result" where
  "decode_chunks (KBytes c # ts) =
     (if data_chunk_limit < length c then Inl CborDecode
      else rbind (decode_chunks ts) (\<lambda>(bs, ts). Inr (c @ bs, ts)))"
| "decode_chunks (KBreak # ts) = Inr ([], ts)"
| "decode_chunks ts = Inl CborDecode"

definition decode_bytes :: "byte list item_reader" where
  "decode_bytes ts =
     (case ts of
        KBytes bs # ts \<Rightarrow> if data_chunk_limit < length bs then Inl CborDecode else Inr (bs, ts)
      | KBeginBytes # ts \<Rightarrow> decode_chunks ts
      | _ \<Rightarrow> Inl CborDecode)"

fun decode_times :: "'a item_reader \<Rightarrow> nat \<Rightarrow> 'a list item_reader" where
  "decode_times f 0 ts = Inr ([], ts)"
| "decode_times f (Suc n) ts =
     rbind (f ts) (\<lambda>(x, ts). rbind (decode_times f n ts) (\<lambda>(xs, ts). Inr (x # xs, ts)))"

text \<open>Reading until a break.  Every item takes a token, so as many rounds as there are tokens are
  enough; after them the input is at its end, which is an error.\<close>

fun decode_until :: "'a item_reader \<Rightarrow> nat \<Rightarrow> 'a list item_reader" where
  "decode_until f 0 ts = Inl CborDecode"
| "decode_until f (Suc n) ts =
     (case ts of
        [] \<Rightarrow> Inl CborDecode
      | KBreak # ts \<Rightarrow> Inr ([], ts)
      | _ \<Rightarrow> rbind (f ts) (\<lambda>(x, ts). rbind (decode_until f n ts) (\<lambda>(xs, ts). Inr (x # xs, ts))))"

definition decode_array :: "'a item_reader \<Rightarrow> 'a list item_reader" where
  "decode_array f ts =
     (case ts of
        KArray n # ts \<Rightarrow> decode_times f n ts
      | KBeginArray # ts \<Rightarrow> decode_until f (length ts) ts
      | _ \<Rightarrow> Inl CborDecode)"

definition decode_pair :: "'a item_reader \<Rightarrow> ('a \<times> 'a) item_reader" where
  "decode_pair f ts = rbind (f ts) (\<lambda>(k, ts). rbind (f ts) (\<lambda>(v, ts). Inr ((k, v), ts)))"

definition decode_map :: "'a item_reader \<Rightarrow> ('a \<times> 'a) list item_reader" where
  "decode_map f ts =
     (case ts of
        KMap n # ts \<Rightarrow> decode_times (decode_pair f) n ts
      | KBeginMap # ts \<Rightarrow> decode_until (decode_pair f) (length ts) ts
      | _ \<Rightarrow> Inl CborDecode)"

definition expect_break :: "cbor_item list \<Rightarrow> (uplc_error, cbor_item list) result" where
  "expect_break ts = (case ts of KBreak # ts \<Rightarrow> Inr ts | _ \<Rightarrow> Inl CborDecode)"

definition decode_word64 :: "nat item_reader" where
  "decode_word64 ts = (case ts of KUint n # ts \<Rightarrow> Inr (n, ts) | _ \<Rightarrow> Inl CborDecode)"

text \<open>The wide form of a constructor, after its tag.\<close>

definition decode_constr_extended :: "uplc_data item_reader \<Rightarrow> uplc_data item_reader" where
  "decode_constr_extended f ts =
     (case ts of
        KArray n # ts \<Rightarrow>
          if n = 2 then
            rbind (decode_word64 ts) (\<lambda>(tag, ts).
            rbind (decode_array f ts) (\<lambda>(args, ts). Inr (DConstr (int tag) args, ts)))
          else Inl CborDecode
      | KBeginArray # ts \<Rightarrow>
          rbind (decode_word64 ts) (\<lambda>(tag, ts).
          rbind (decode_array f ts) (\<lambda>(args, ts).
          rbind (expect_break ts) (\<lambda>ts. Inr (DConstr (int tag) args, ts))))
      | _ \<Rightarrow> Inl CborDecode)"

definition decode_tagged :: "uplc_data item_reader \<Rightarrow> nat \<Rightarrow> bool \<Rightarrow> uplc_data item_reader" where
  "decode_tagged f tag inline ts =
     (if inline \<and> tag = 2 then
        rbind (decode_bytes ts) (\<lambda>(bs, ts). Inr (DI (from_bytes_be bs), ts))
      else if inline \<and> tag = 3 then
        rbind (decode_bytes ts) (\<lambda>(bs, ts). Inr (DI (- 1 - from_bytes_be bs), ts))
      else if 121 \<le> tag \<and> tag \<le> 127 then
        rbind (decode_array f ts) (\<lambda>(args, ts). Inr (DConstr (int (tag - 121)) args, ts))
      else if 1280 \<le> tag \<and> tag \<le> 1400 then
        rbind (decode_array f ts) (\<lambda>(args, ts). Inr (DConstr (int (tag - 1280 + 7)) args, ts))
      else if tag = 102 then decode_constr_extended f ts
      else Inl CborDecode)"

text \<open>The first argument is the number of levels still allowed, \<open>data_max_depth + 1\<close> at the top.\<close>

fun decode_data :: "nat \<Rightarrow> uplc_data item_reader" where
  "decode_data 0 ts = Inl CborDecode"
| "decode_data (Suc d) ts =
     (case ts of
        KTag t inline # ts' \<Rightarrow> decode_tagged (decode_data d) t inline ts'
      | KArray n # _ \<Rightarrow> rbind (decode_array (decode_data d) ts) (\<lambda>(xs, ts). Inr (DList xs, ts))
      | KBeginArray # _ \<Rightarrow> rbind (decode_array (decode_data d) ts) (\<lambda>(xs, ts). Inr (DList xs, ts))
      | KMap n # _ \<Rightarrow> rbind (decode_map (decode_data d) ts) (\<lambda>(es, ts). Inr (DMap es, ts))
      | KBeginMap # _ \<Rightarrow> rbind (decode_map (decode_data d) ts) (\<lambda>(es, ts). Inr (DMap es, ts))
      | KBytes _ # _ \<Rightarrow> rbind (decode_bytes ts) (\<lambda>(bs, ts). Inr (DB bs, ts))
      | KBeginBytes # _ \<Rightarrow> rbind (decode_bytes ts) (\<lambda>(bs, ts). Inr (DB bs, ts))
      | KUint n # ts' \<Rightarrow> Inr (DI (int n), ts')
      | KNint k # ts' \<Rightarrow> Inr (DI (- 1 - int k), ts')
      | _ \<Rightarrow> Inl CborDecode)"

definition data_from_items :: "cbor_item list \<Rightarrow> (uplc_error, uplc_data) result" where
  "data_from_items ts =
     rbind (decode_data (data_max_depth + 1) ts) (\<lambda>(d, ts). if ts \<noteq> [] then Inl CborDecode else Inr d)"



section \<open>The traversals compute equality and the identity\<close>

lemma zip_all_eq:
  "length xs = length ys \<Longrightarrow> list_all (\<lambda>(a, b). a = b) (zip xs ys) \<longleftrightarrow> xs = ys"
  by (induction xs ys rule: list_induct2) simp_all

lemma zip_pairs_all_eq:
  "length xs = length ys \<Longrightarrow>
     list_all (\<lambda>(a, b). a = b)
       (concat (map (\<lambda>((ka, va), (kb, vb)). [(ka, kb), (va, vb)]) (zip xs ys))) \<longleftrightarrow> xs = ys"
  by (induction xs ys rule: list_induct2) (simp_all add: split_beta prod_eq_iff conj_assoc)

lemma list_all_rev_append: "list_all P (rev xs @ ys) \<longleftrightarrow> list_all P xs \<and> list_all P ys"
  by (simp add: list_all_append)

lemma data_eq_loop_correct: "data_eq_loop stack \<longleftrightarrow> list_all (\<lambda>(a, b). a = b) stack"
proof (induction stack rule: data_eq_loop.induct)
  case (2 a b stack)
  show ?case
    by (cases a; cases b)
       (auto simp: 2 list_all_rev_append zip_all_eq zip_pairs_all_eq simp del: list_all_append)
qed simp

lemma clone_loop_list:
  assumes "\<And>d tasks out. d \<in> set ds \<Longrightarrow> clone_loop (Descend d # tasks) out = clone_loop tasks (out @ [d])"
  shows "clone_loop (map Descend ds @ tasks) out = clone_loop tasks (out @ ds)"
  using assms by (induction ds arbitrary: out) (auto simp del: clone_loop.simps(2))

lemma descend_pairs:
  "concat (map (\<lambda>(k, v). [Descend k, Descend v]) es) = map Descend (concat (map (\<lambda>(k, v). [k, v]) es))"
  by (induction es) auto

lemma pair_up_concat [simp]: "pair_up (concat (map (\<lambda>(k, v). [k, v]) es)) = es"
  by (induction es) auto

lemma length_concat_pairs [simp]: "length (concat (map (\<lambda>(k, v). [k, v]) es)) = 2 * length es"
  by (induction es) auto

lemma split_off_append [simp]: "length xs = n \<Longrightarrow> split_off n (out @ xs) = Some (out, xs)"
  by (auto simp: split_off_def)

lemma clone_loop_descend: "clone_loop (Descend d # tasks) out = clone_loop tasks (out @ [d])"
proof (induction d arbitrary: tasks out)
  case (DConstr tag args)
  then show ?case using clone_loop_list [of args] by simp
next
  case (DMap entries)
  then have "clone_loop (map Descend (concat (map (\<lambda>(k, v). [k, v]) entries)) @ ts) out'
      = clone_loop ts (out' @ concat (map (\<lambda>(k, v). [k, v]) entries))" for ts out'
    by (intro clone_loop_list) fastforce
  then show ?case by (simp add: descend_pairs)
next
  case (DList items)
  then show ?case using clone_loop_list [of items] by simp
qed auto


section \<open>Decoding what was encoded\<close>

text \<open>Data that nests within a number of levels and whose constructor tags are 64-bit words.\<close>

fun data_fits :: "nat \<Rightarrow> uplc_data \<Rightarrow> bool" where
  "data_fits 0 d = False"
| "data_fits (Suc n) d =
     (case d of
        DConstr tag args \<Rightarrow> 0 \<le> tag \<and> tag < 2 ^ 64 \<and> list_all (data_fits n) args
      | DMap es \<Rightarrow> list_all (\<lambda>(k, v). data_fits n k \<and> data_fits n v) es
      | DList xs \<Rightarrow> list_all (data_fits n) xs
      | _ \<Rightarrow> True)"

lemma le_nat_le_digits: "le_nat (le_digits n) = n"
proof (induction n rule: less_induct)
  case (less n)
  then show ?case
    by (subst le_digits.simps) (simp add: unat_of_nat)
qed

lemma from_to_bytes_be: "0 \<le> n \<Longrightarrow> from_bytes_be (to_bytes_be n) = n"
  by (simp add: from_bytes_be_def to_bytes_be_def le_nat_le_digits)

lemma decode_chunks_map:
  "\<forall>c \<in> set cs. length c \<le> data_chunk_limit \<Longrightarrow>
     decode_chunks (map KBytes cs @ KBreak # rest) = Inr (concat cs, rest)"
  by (induction cs) auto

lemma concat_chunks: "0 < n \<Longrightarrow> concat (chunks n xs) = xs"
  by (induction n xs rule: chunks.induct) (subst chunks.simps, auto)

lemma length_chunks: "c \<in> set (chunks n xs) \<Longrightarrow> length c \<le> n"
  by (induction n xs rule: chunks.induct) (subst (asm) (2) chunks.simps, auto split: if_splits)

lemma decode_encode_bytes: "decode_bytes (encode_bytes_raw bs @ rest) = Inr (bs, rest)"
  using decode_chunks_map [of "chunks data_chunk_limit bs" rest] length_chunks
  by (auto simp: decode_bytes_def encode_bytes_raw_def concat_chunks data_chunk_limit_def)

lemma raw_negint_item: "k < 2 ^ 64 \<Longrightarrow> raw_item (encode_raw_negint_u64 k) = KNint k"
  by (simp add: raw_item_def encode_raw_negint_u64_def le_nat_le_bytes)

lemma encode_integer_items:
  "encode_integer n =
     (if 0 \<le> n then if n < 2 ^ 64 then [KUint (nat n)] else encode_bignum n
      else if - n - 1 < 2 ^ 64 then [KNint (nat (- n - 1))] else encode_bignum n)"
proof -
  have "raw_item (encode_raw_negint_u64 (nat (- n - 1))) = KNint (nat (- n - 1))" if "- n - 1 < 2 ^ 64"
    using that by (intro raw_negint_item) (simp add: nat_less_iff)
  then show ?thesis by (auto simp: encode_integer_def Let_def)
qed

lemma encode_integer_word64:
  "0 \<le> n \<Longrightarrow> n < 2 ^ 64 \<Longrightarrow> encode_integer n = [KUint (nat n)]"
  by (simp add: encode_integer_items)

lemma decode_encode_integer:
  "decode_data (Suc m) (encode_integer n @ rest) = Inr (DI n, rest)"
  by (auto simp: encode_integer_items encode_bignum_def item_tag_def decode_tagged_def
        decode_encode_bytes from_to_bytes_be Let_def)

lemma decode_times_map:
  assumes "\<And>x rest. x \<in> set xs \<Longrightarrow> f (enc x @ rest) = (if P x then Inr (x, rest) else Inl CborDecode)"
  shows "decode_times f (length xs) (concat (map enc xs) @ rest) =
           (if list_all P xs then Inr (xs, rest) else Inl CborDecode)"
  using assms by (induction xs) auto

lemma decode_until_map:
  assumes "\<And>x rest. x \<in> set xs \<Longrightarrow> f (enc x @ rest) = (if P x then Inr (x, rest) else Inl CborDecode)"
    and "\<And>x. x \<in> set xs \<Longrightarrow> enc x \<noteq> [] \<and> hd (enc x) \<noteq> KBreak"
    and "length xs < n"
  shows "decode_until f n (concat (map enc xs) @ KBreak # rest) =
           (if list_all P xs then Inr (xs, rest) else Inl CborDecode)"
  using assms
proof (induction xs arbitrary: n)
  case Nil
  then show ?case by (cases n) auto
next
  case (Cons x xs)
  then obtain m where n: "n = Suc m" "length xs < m" by (cases n) auto
  from Cons.prems(2) [of x] obtain t ts where enc: "enc x = t # ts" "t \<noteq> KBreak"
    by (cases "enc x") auto
  have "f (t # ts @ r) = (if P x then Inr (x, r) else Inl CborDecode)" for r
    using Cons.prems(1) [of x r] enc by simp
  with Cons.IH [of m] Cons.prems n enc show ?case
    by (cases t) auto
qed

lemma encode_bytes_hd: "encode_bytes_raw bs \<noteq> [] \<and> hd (encode_bytes_raw bs) \<noteq> KBreak"
  by (auto simp: encode_bytes_raw_def)

lemma encode_integer_hd: "encode_integer n \<noteq> [] \<and> hd (encode_integer n) \<noteq> KBreak"
  by (auto simp: encode_integer_items encode_bignum_def item_tag_def Let_def)

lemma encode_data_hd: "encode_data d \<noteq> [] \<and> hd (encode_data d) \<noteq> KBreak"
  by (cases d) (auto simp: constr_header_def encode_list_def item_tag_def encode_integer_hd encode_bytes_hd)

text \<open>Each reader either returns the item written and the rest of the input, or fails.\<close>

definition reads_back :: "'a item_reader \<Rightarrow> ('a \<Rightarrow> cbor_item list) \<Rightarrow> ('a \<Rightarrow> bool) \<Rightarrow> 'a set \<Rightarrow> bool" where
  "reads_back f enc P A \<longleftrightarrow>
     (\<forall>x \<in> A. \<forall>rest. f (enc x @ rest) = (if P x then Inr (x, rest) else Inl CborDecode))"

lemma reads_back_list:
  assumes "reads_back f encode_data P (set xs)"
  shows "decode_array f (encode_list (map encode_data xs) @ rest) =
           (if list_all P xs then Inr (xs, rest) else Inl CborDecode)"
proof -
  have "length xs \<le> length (concat (map encode_data xs))"
  proof (induction xs)
    case (Cons x xs)
    have "0 < length (encode_data x)" using encode_data_hd by simp
    with Cons show ?case by (simp del: length_greater_0_conv)
  qed simp
  then show ?thesis
    using assms decode_until_map [of xs f encode_data P] encode_data_hd
    by (auto simp: decode_array_def encode_list_def reads_back_def simp del: decode_until.simps)
qed

lemma reads_back_map:
  assumes "reads_back f encode_data P (fst ` set es \<union> snd ` set es)"
  shows "decode_map f (KMap (length es) # concat (map (\<lambda>(k, v). encode_data k @ encode_data v) es) @ rest) =
           (if list_all (\<lambda>(k, v). P k \<and> P v) es then Inr (es, rest) else Inl CborDecode)"
proof -
  have "decode_pair f ((case e of (k, v) \<Rightarrow> encode_data k @ encode_data v) @ rest) =
          (if (case e of (k, v) \<Rightarrow> P k \<and> P v) then Inr (e, rest) else Inl CborDecode)"
    if "e \<in> set es" for e rest
  proof -
    have "f (encode_data d @ r) = (if P d then Inr (d, r) else Inl CborDecode)"
      if "d = fst e \<or> d = snd e" for d r
      using assms that \<open>e \<in> set es\<close> by (auto simp: reads_back_def)
    then show ?thesis by (simp add: decode_pair_def split_beta)
  qed
  then show ?thesis
    by (simp add: decode_map_def decode_times_map)
qed

lemma decode_constr:
  assumes "reads_back (decode_data n) encode_data P (set args)"
  shows "decode_data (Suc n) (encode_data (DConstr tag args) @ rest) =
           (if 0 \<le> tag \<and> tag < 2 ^ 64 \<and> list_all P args then Inr (DConstr tag args, rest)
            else Inl CborDecode)"
proof -
  note args = reads_back_list [OF assms]
  consider "0 \<le> tag" "tag \<le> 127" | "127 < tag" "tag < 2 ^ 64" | "tag < 0" | "2 ^ 64 \<le> tag"
    by linarith
  then show ?thesis
  proof cases
    case 1
    then show ?thesis
      using args by (auto simp: constr_header_def item_tag_def decode_tagged_def)
  next
    case 2
    then show ?thesis
      using args by (simp add: constr_header_def item_tag_def decode_tagged_def encode_integer_word64
          decode_constr_extended_def decode_word64_def)
  next
    case 3
    then show ?thesis
      by (simp add: constr_header_def item_tag_def decode_tagged_def encode_integer_items Let_def
          decode_constr_extended_def decode_word64_def encode_bignum_def)
  next
    case 4
    then show ?thesis
      by (simp add: constr_header_def item_tag_def decode_tagged_def encode_integer_items
          decode_constr_extended_def decode_word64_def encode_bignum_def)
  qed
qed

lemma decode_encode_data:
  "decode_data n (encode_data d @ rest) =
     (if data_fits n d then Inr (d, rest) else Inl CborDecode)"
proof (induction n arbitrary: d rest)
  case (Suc n)
  then have rb: "reads_back (decode_data n) encode_data (data_fits n) A" for A
    by (simp add: reads_back_def)
  show ?case
  proof (cases d)
    case (DConstr tag args)
    then show ?thesis using decode_constr [OF rb] by simp
  next
    case (DMap es)
    then show ?thesis using reads_back_map [OF rb] by simp
  next
    case (DList xs)
    then show ?thesis
      using reads_back_list [OF rb, of xs rest] by (auto simp: encode_list_def split: if_splits)
  next
    case (DI i)
    then show ?thesis using decode_encode_integer by simp
  next
    case (DB bs)
    then show ?thesis
      using decode_encode_bytes [of bs rest] by (auto simp: encode_bytes_raw_def split: if_splits)
  qed
qed simp

end
