(* ===== verification/Uplc_Builtins.thy ===== *)
theory Uplc_Builtins
  imports Uplc_Data "HOL-Library.Signed_Division"
begin

text \<open>
  The denotations of the builtins on integers, byte strings, strings, lists, arrays, pairs and data,
  and of the hashes and signature checks (\<^verbatim>\<open>builtin/denotations.rs\<close>); the bitwise, the multi-asset
  and the curve builtins have theories of their own.  Arguments come in a list and are taken in
  order, a missing one being an internal error.  The code outside the repository that denotations
  call, hash functions, signature schemes, modular exponentiation and the byte layout of CBOR
  items, are the fields of a record that every denotation takes as an argument.  A byte vector is
  shorter than \<open>2 ^ 61\<close>, so the saturating product of its length with 8 is the exact one.
\<close>

unbundle bit_operations_syntax

record prims =
  cbor_bytes :: "cbor_item list \<Rightarrow> byte list"
  sha2_256_hash :: "byte list \<Rightarrow> byte list"
  sha3_256_hash :: "byte list \<Rightarrow> byte list"
  blake2b_256_hash :: "byte list \<Rightarrow> byte list"
  blake2b_224_hash :: "byte list \<Rightarrow> byte list"
  keccak_256_hash :: "byte list \<Rightarrow> byte list"
  ripemd_160_hash :: "byte list \<Rightarrow> byte list"
  ed25519_key_ok :: "byte list \<Rightarrow> bool"
  ed25519_verify_strict :: "byte list \<Rightarrow> byte list \<Rightarrow> byte list \<Rightarrow> bool"
  ecdsa_key_ok :: "byte list \<Rightarrow> bool"
  ecdsa_sig_ok :: "byte list \<Rightarrow> bool"
  ecdsa_s_is_high :: "byte list \<Rightarrow> bool"
  ecdsa_verify_prehash :: "byte list \<Rightarrow> byte list \<Rightarrow> byte list \<Rightarrow> bool"
  schnorr_key_ok :: "byte list \<Rightarrow> bool"
  schnorr_sig_ok :: "byte list \<Rightarrow> bool"
  schnorr_verify_raw :: "byte list \<Rightarrow> byte list \<Rightarrow> byte list \<Rightarrow> bool"
  modinv :: "int \<Rightarrow> int \<Rightarrow> int option"
  modpow :: "int \<Rightarrow> int \<Rightarrow> int \<Rightarrow> int"

type_synonym 'a res = "(uplc_error, 'a) result"


section \<open>Taking and unwrapping arguments\<close>

definition next_arg :: "nat \<Rightarrow> cek_value list \<Rightarrow> cek_value res" where
  "next_arg i args = (if i < length args then Inr (args ! i) else Inl Internal)"

definition take_one :: "cek_value list \<Rightarrow> cek_value res" where
  "take_one args = next_arg 0 args"

definition unwrap_integer :: "builtin_id \<Rightarrow> cek_value \<Rightarrow> int res" where
  "unwrap_integer b v = (case v of VConst (CInteger i) \<Rightarrow> Inr i | _ \<Rightarrow> Inl (BuiltinTypeError b))"

definition unwrap_byte_string :: "builtin_id \<Rightarrow> cek_value \<Rightarrow> byte list res" where
  "unwrap_byte_string b v = (case v of VConst (CByteString s) \<Rightarrow> Inr s | _ \<Rightarrow> Inl (BuiltinTypeError b))"

definition unwrap_string :: "builtin_id \<Rightarrow> cek_value \<Rightarrow> byte list res" where
  "unwrap_string b v = (case v of VConst (CString s) \<Rightarrow> Inr s | _ \<Rightarrow> Inl (BuiltinTypeError b))"

definition unwrap_bool :: "builtin_id \<Rightarrow> cek_value \<Rightarrow> bool res" where
  "unwrap_bool b v = (case v of VConst (CBool x) \<Rightarrow> Inr x | _ \<Rightarrow> Inl (BuiltinTypeError b))"

definition unwrap_proto_list :: "builtin_id \<Rightarrow> cek_value \<Rightarrow> (type_tag \<times> uconst list) res" where
  "unwrap_proto_list b v =
     (case v of VConst (CProtoList t xs) \<Rightarrow> Inr (t, xs) | _ \<Rightarrow> Inl (BuiltinTypeError b))"

definition unwrap_proto_pair :: "builtin_id \<Rightarrow> cek_value \<Rightarrow> (uconst \<times> uconst) res" where
  "unwrap_proto_pair b v =
     (case v of VConst (CProtoPair _ _ x y) \<Rightarrow> Inr (x, y) | _ \<Rightarrow> Inl (BuiltinTypeError b))"

definition unwrap_array :: "builtin_id \<Rightarrow> cek_value \<Rightarrow> (type_tag \<times> uconst list) res" where
  "unwrap_array b v = (case v of VConst (CArray t xs) \<Rightarrow> Inr (t, xs) | _ \<Rightarrow> Inl (BuiltinTypeError b))"

definition unwrap_data :: "builtin_id \<Rightarrow> cek_value \<Rightarrow> uplc_data res" where
  "unwrap_data b v = (case v of VConst (CData d) \<Rightarrow> Inr d | _ \<Rightarrow> Inl (BuiltinTypeError b))"

definition unwrap_value :: "builtin_id \<Rightarrow> cek_value \<Rightarrow> value_map res" where
  "unwrap_value b v = (case v of VConst (CValue m) \<Rightarrow> Inr m | _ \<Rightarrow> Inl (BuiltinTypeError b))"

text \<open>Taking the argument at a position and unwrapping it.\<close>

abbreviation arg_integer :: "builtin_id \<Rightarrow> nat \<Rightarrow> cek_value list \<Rightarrow> int res" where
  "arg_integer b i args \<equiv> rbind (next_arg i args) (unwrap_integer b)"

abbreviation arg_bytes :: "builtin_id \<Rightarrow> nat \<Rightarrow> cek_value list \<Rightarrow> byte list res" where
  "arg_bytes b i args \<equiv> rbind (next_arg i args) (unwrap_byte_string b)"

abbreviation arg_string :: "builtin_id \<Rightarrow> nat \<Rightarrow> cek_value list \<Rightarrow> byte list res" where
  "arg_string b i args \<equiv> rbind (next_arg i args) (unwrap_string b)"

abbreviation arg_bool :: "builtin_id \<Rightarrow> nat \<Rightarrow> cek_value list \<Rightarrow> bool res" where
  "arg_bool b i args \<equiv> rbind (next_arg i args) (unwrap_bool b)"

abbreviation arg_list :: "builtin_id \<Rightarrow> nat \<Rightarrow> cek_value list \<Rightarrow> (type_tag \<times> uconst list) res" where
  "arg_list b i args \<equiv> rbind (next_arg i args) (unwrap_proto_list b)"

abbreviation arg_data :: "builtin_id \<Rightarrow> nat \<Rightarrow> cek_value list \<Rightarrow> uplc_data res" where
  "arg_data b i args \<equiv> rbind (next_arg i args) (unwrap_data b)"

abbreviation arg_value :: "builtin_id \<Rightarrow> nat \<Rightarrow> cek_value list \<Rightarrow> value_map res" where
  "arg_value b i args \<equiv> rbind (next_arg i args) (unwrap_value b)"

definition take_two_integers :: "builtin_id \<Rightarrow> cek_value list \<Rightarrow> (int \<times> int) res" where
  "take_two_integers b args =
     rbind (arg_integer b 0 args) (\<lambda>x. rbind (arg_integer b 1 args) (\<lambda>y. Inr (x, y)))"

definition take_two_byte_strings :: "builtin_id \<Rightarrow> cek_value list \<Rightarrow> (byte list \<times> byte list) res" where
  "take_two_byte_strings b args =
     rbind (arg_bytes b 0 args) (\<lambda>x. rbind (arg_bytes b 1 args) (\<lambda>y. Inr (x, y)))"

definition take_two_strings :: "builtin_id \<Rightarrow> cek_value list \<Rightarrow> (byte list \<times> byte list) res" where
  "take_two_strings b args =
     rbind (arg_string b 0 args) (\<lambda>x. rbind (arg_string b 1 args) (\<lambda>y. Inr (x, y)))"


section \<open>Narrowing integers\<close>

definition bigint_to_usize_or_failure :: "builtin_id \<Rightarrow> int \<Rightarrow> nat res" where
  "bigint_to_usize_or_failure b i =
     (if i < 0 then Inl (BuiltinFailure b)
      else if 2 ^ 64 \<le> i then Inl (BuiltinFailure b)
      else Inr (nat i))"

definition bigint_to_i64_or_failure :: "builtin_id \<Rightarrow> int \<Rightarrow> int res" where
  "bigint_to_i64_or_failure b i = (if is_i64 i then Inr i else Inl (BuiltinFailure b))"

definition bigint_to_u8 :: "builtin_id \<Rightarrow> int \<Rightarrow> byte res" where
  "bigint_to_u8 b i =
     (if i < 0 then Inl (BuiltinFailure b)
      else if 255 < i then Inl (BuiltinFailure b)
      else Inr (word_of_int i))"

definition bigint_to_usize_clamped :: "int \<Rightarrow> nat" where
  "bigint_to_usize_clamped i = (if i < 0 then 0 else if 2 ^ 64 \<le> i then 2 ^ 64 - 1 else nat i)"

definition i64_to_usize_clamped :: "int \<Rightarrow> nat" where
  "i64_to_usize_clamped n = nat (max n 0)"


section \<open>Integers\<close>

text \<open>Division and remainder of the big integers truncate toward zero.\<close>

definition divide_haskell_div :: "int \<Rightarrow> int \<Rightarrow> int" where
  "divide_haskell_div a b =
     (let q = a sdiv b; r = a smod b in
      if r \<noteq> 0 \<and> (a < 0) \<noteq> (b < 0) then q - 1 else q)"

definition mod_haskell_mod :: "int \<Rightarrow> int \<Rightarrow> int" where
  "mod_haskell_mod a b =
     (let r = a smod b in if r \<noteq> 0 \<and> (a < 0) \<noteq> (b < 0) then r + b else r)"

definition int_binop :: "builtin_id \<Rightarrow> (int \<Rightarrow> int \<Rightarrow> int res) \<Rightarrow> cek_value list \<Rightarrow> cek_value res" where
  "int_binop b f args =
     rbind (take_two_integers b args) (\<lambda>(x, y). rbind (f x y) (\<lambda>z. Inr (VConst (CInteger z))))"

definition int_cmp :: "builtin_id \<Rightarrow> (int \<Rightarrow> int \<Rightarrow> bool) \<Rightarrow> cek_value list \<Rightarrow> cek_value res" where
  "int_cmp b f args = rbind (take_two_integers b args) (\<lambda>(x, y). Inr (VConst (CBool (f x y))))"

definition nonzero_divisor :: "builtin_id \<Rightarrow> (int \<Rightarrow> int \<Rightarrow> int) \<Rightarrow> int \<Rightarrow> int \<Rightarrow> int res" where
  "nonzero_divisor b f x y = (if y = 0 then Inl (BuiltinFailure b) else Inr (f x y))"

definition exp_mod_bound :: int where "exp_mod_bound = 2 ^ 8191"

definition exp_mod_integer :: "prims \<Rightarrow> cek_value list \<Rightarrow> cek_value res" where
  "exp_mod_integer ext args =
     (let b = IntegerFun ExpModInteger in
      rbind (arg_integer b 0 args) (\<lambda>base.
      rbind (arg_integer b 1 args) (\<lambda>exp.
      rbind (arg_integer b 2 args) (\<lambda>modulus.
        if modulus \<le> 0 then Inl (BuiltinFailure b)
        else if exp_mod_bound \<le> modulus then Inl (BuiltinFailure b)
        else if modulus = 1 then Inr (VConst (CInteger 0))
        else if base < - exp_mod_bound \<or> exp_mod_bound \<le> base \<or> exp < - exp_mod_bound
                \<or> exp_mod_bound \<le> exp then Inl (BuiltinFailure b)
        else if exp < 0 then
          if base = 0 then Inl (BuiltinFailure b)
          else (case modinv ext base modulus of
                  Some i \<Rightarrow> Inr (VConst (CInteger (modpow ext i (- exp) modulus)))
                | None \<Rightarrow> Inl (BuiltinFailure b))
        else Inr (VConst (CInteger (modpow ext base exp modulus)))))))"

primrec denote_integer :: "prims \<Rightarrow> cek_value list \<Rightarrow> integer_fun \<Rightarrow> cek_value res" where
  "denote_integer ext args AddInteger =
     int_binop (IntegerFun AddInteger) (\<lambda>x y. Inr (x + y)) args"
| "denote_integer ext args SubtractInteger =
     int_binop (IntegerFun SubtractInteger) (\<lambda>x y. Inr (x - y)) args"
| "denote_integer ext args MultiplyInteger =
     int_binop (IntegerFun MultiplyInteger) (\<lambda>x y. Inr (x * y)) args"
| "denote_integer ext args DivideInteger =
     int_binop (IntegerFun DivideInteger)
       (nonzero_divisor (IntegerFun DivideInteger) divide_haskell_div) args"
| "denote_integer ext args QuotientInteger =
     int_binop (IntegerFun QuotientInteger)
       (nonzero_divisor (IntegerFun QuotientInteger) (\<lambda>x y. x sdiv y)) args"
| "denote_integer ext args RemainderInteger =
     int_binop (IntegerFun RemainderInteger)
       (nonzero_divisor (IntegerFun RemainderInteger) (\<lambda>x y. x smod y)) args"
| "denote_integer ext args ModInteger =
     int_binop (IntegerFun ModInteger)
       (nonzero_divisor (IntegerFun ModInteger) mod_haskell_mod) args"
| "denote_integer ext args EqualsInteger = int_cmp (IntegerFun EqualsInteger) (\<lambda>x y. x = y) args"
| "denote_integer ext args LessThanInteger = int_cmp (IntegerFun LessThanInteger) (\<lambda>x y. x < y) args"
| "denote_integer ext args LessThanEqualsInteger =
     int_cmp (IntegerFun LessThanEqualsInteger) (\<lambda>x y. x \<le> y) args"
| "denote_integer ext args ExpModInteger = exp_mod_integer ext args"


section \<open>Byte strings\<close>

definition cons_byte_string :: "semantics_variant \<Rightarrow> cek_value list \<Rightarrow> cek_value res" where
  "cons_byte_string variant args =
     (let b = BytesFun ConsByteString in
      rbind (arg_integer b 0 args) (\<lambda>i.
      rbind (arg_bytes b 1 args) (\<lambda>bs.
      rbind (if cons_byte_string_strict variant then bigint_to_u8 b i
             else Inr (word_of_int (i mod 256)))
        (\<lambda>byte. Inr (VConst (CByteString (byte # bs)))))))"

definition slice_byte_string :: "cek_value list \<Rightarrow> cek_value res" where
  "slice_byte_string args =
     (let b = BytesFun SliceByteString in
      rbind (arg_integer b 0 args) (\<lambda>start.
      rbind (arg_integer b 1 args) (\<lambda>len.
      rbind (arg_bytes b 2 args) (\<lambda>bs.
      rbind (bigint_to_i64_or_failure b start) (\<lambda>start.
      rbind (bigint_to_i64_or_failure b len) (\<lambda>len.
        let start = i64_to_usize_clamped start; len = i64_to_usize_clamped len;
            start_clamped = min start (length bs);
            end_clamped = min (min (start_clamped + len) (2 ^ 64 - 1)) (length bs)
        in Inr (VConst (CByteString (take (end_clamped - start_clamped) (drop start_clamped bs))))))))))"

definition index_byte_string :: "cek_value list \<Rightarrow> cek_value res" where
  "index_byte_string args =
     (let b = BytesFun IndexByteString in
      rbind (arg_bytes b 0 args) (\<lambda>bs.
      rbind (arg_integer b 1 args) (\<lambda>i.
        if 0 \<le> i \<and> i < 2 ^ 64 \<and> nat i < length bs
        then Inr (VConst (CInteger (uint (bs ! nat i)))) else Inl (BuiltinFailure b))))"

definition max_int_to_bs_width :: nat where "max_int_to_bs_width = 8192"

definition integer_to_byte_string :: "cek_value list \<Rightarrow> cek_value res" where
  "integer_to_byte_string args =
     (let b = BytesFun IntegerToByteString in
      rbind (arg_bool b 0 args) (\<lambda>endian.
      rbind (arg_integer b 1 args) (\<lambda>width.
      rbind (arg_integer b 2 args) (\<lambda>n.
        if n < 0 then Inl (BuiltinFailure b)
        else rbind (bigint_to_usize_or_failure b width) (\<lambda>width_u.
          if max_int_to_bs_width < width_u then Inl (BuiltinFailure b)
          else let be_bytes = to_bytes_be n in
            if length be_bytes = 1 \<and> be_bytes ! 0 = 0 \<and> width_u = 0 then
              Inr (VConst (CByteString []))
            else rbind
              (if width_u = 0 then
                 if max_int_to_bs_width < length be_bytes then Inl (BuiltinFailure b)
                 else Inr be_bytes
               else
                 if width_u < length be_bytes then Inl (BuiltinFailure b)
                 else Inr (replicate (width_u - length be_bytes) 0 @ be_bytes))
              (\<lambda>be_bytes. Inr (VConst (CByteString (if endian then be_bytes else rev be_bytes)))))))))"

definition byte_string_to_integer :: "cek_value list \<Rightarrow> cek_value res" where
  "byte_string_to_integer args =
     (let b = BytesFun ByteStringToInteger in
      rbind (arg_bool b 0 args) (\<lambda>endian.
      rbind (arg_bytes b 1 args) (\<lambda>bs.
        Inr (VConst (CInteger (from_bytes_be (if endian then bs else rev bs)))))))"

primrec denote_bytes :: "semantics_variant \<Rightarrow> cek_value list \<Rightarrow> bytes_fun \<Rightarrow> cek_value res" where
  "denote_bytes variant args AppendByteString =
     rbind (take_two_byte_strings (BytesFun AppendByteString) args)
       (\<lambda>(x, y). Inr (VConst (CByteString (x @ y))))"
| "denote_bytes variant args ConsByteString = cons_byte_string variant args"
| "denote_bytes variant args SliceByteString = slice_byte_string args"
| "denote_bytes variant args LengthOfByteString =
     rbind (arg_bytes (BytesFun LengthOfByteString) 0 args)
       (\<lambda>bs. Inr (VConst (CInteger (int (length bs)))))"
| "denote_bytes variant args IndexByteString = index_byte_string args"
| "denote_bytes variant args EqualsByteString =
     rbind (take_two_byte_strings (BytesFun EqualsByteString) args)
       (\<lambda>(x, y). Inr (VConst (CBool (x = y))))"
| "denote_bytes variant args LessThanByteString =
     rbind (take_two_byte_strings (BytesFun LessThanByteString) args)
       (\<lambda>(x, y). Inr (VConst (CBool (x < y))))"
| "denote_bytes variant args LessThanEqualsByteString =
     rbind (take_two_byte_strings (BytesFun LessThanEqualsByteString) args)
       (\<lambda>(x, y). Inr (VConst (CBool (x \<le> y))))"
| "denote_bytes variant args IntegerToByteString = integer_to_byte_string args"
| "denote_bytes variant args ByteStringToInteger = byte_string_to_integer args"


section \<open>Strings\<close>

primrec denote_string :: "cek_value list \<Rightarrow> string_fun \<Rightarrow> cek_value res" where
  "denote_string args AppendString =
     rbind (take_two_strings (StringFun AppendString) args) (\<lambda>(x, y). Inr (VConst (CString (x @ y))))"
| "denote_string args EqualsString =
     rbind (take_two_strings (StringFun EqualsString) args) (\<lambda>(x, y). Inr (VConst (CBool (x = y))))"
| "denote_string args EncodeUtf8 =
     rbind (arg_string (StringFun EncodeUtf8) 0 args) (\<lambda>s. Inr (VConst (CByteString s)))"
| "denote_string args DecodeUtf8 =
     rbind (arg_bytes (StringFun DecodeUtf8) 0 args) (\<lambda>bs.
       if utf8_valid bs then Inr (VConst (CString bs)) else Inl (BuiltinFailure (StringFun DecodeUtf8)))"


section \<open>Hashes and signatures\<close>

definition hash_one :: "builtin_id \<Rightarrow> (byte list \<Rightarrow> byte list) \<Rightarrow> cek_value list \<Rightarrow> cek_value res" where
  "hash_one b hash args = rbind (arg_bytes b 0 args) (\<lambda>bs. Inr (VConst (CByteString (hash bs))))"

text \<open>The comparison of \<^verbatim>\<open>pk_is_canonical\<close> from the most significant byte down; equal means not less.\<close>

fun magnitude_less :: "byte list \<Rightarrow> byte list \<Rightarrow> bool" where
  "magnitude_less (x # xs) (y # ys) = (if x < y then True else if y < x then False else magnitude_less xs ys)"
| "magnitude_less _ _ = False"

definition ed25519_p_bytes :: "byte list" where
  "ed25519_p_bytes = 0xed # replicate 30 0xff @ [0x7f]"

definition pk_is_canonical :: "byte list \<Rightarrow> bool" where
  "pk_is_canonical pk =
     (let magnitude = pk[31 := (pk ! 31) AND 0x7f]
      in magnitude_less (rev magnitude) (rev ed25519_p_bytes))"

definition verify_ed25519 :: "prims \<Rightarrow> cek_value list \<Rightarrow> cek_value res" where
  "verify_ed25519 ext args =
     (let b = CryptoFun VerifyEd25519Signature in
      rbind (arg_bytes b 0 args) (\<lambda>pk.
      rbind (arg_bytes b 1 args) (\<lambda>msg.
      rbind (arg_bytes b 2 args) (\<lambda>sig.
        if length pk \<noteq> 32 then Inl (BuiltinFailure b)
        else if length sig \<noteq> 64 then Inl (BuiltinFailure b)
        else if \<not> pk_is_canonical pk then Inr (VConst (CBool False))
        else if \<not> ed25519_key_ok ext pk then Inr (VConst (CBool False))
        else Inr (VConst (CBool (ed25519_verify_strict ext pk msg sig)))))))"

definition verify_ecdsa :: "prims \<Rightarrow> cek_value list \<Rightarrow> cek_value res" where
  "verify_ecdsa ext args =
     (let b = CryptoFun VerifyEcdsaSecp256k1Signature in
      rbind (arg_bytes b 0 args) (\<lambda>pk.
      rbind (arg_bytes b 1 args) (\<lambda>msg.
      rbind (arg_bytes b 2 args) (\<lambda>sig.
        if length pk \<noteq> 33 then Inl (BuiltinFailure b)
        else if length msg \<noteq> 32 then Inl (BuiltinFailure b)
        else if length sig \<noteq> 64 then Inl (BuiltinFailure b)
        else if \<not> ecdsa_key_ok ext pk then Inl (BuiltinFailure b)
        else if list_all (\<lambda>x. x = 0) (take 32 sig) \<or> list_all (\<lambda>x. x = 0) (drop 32 sig)
          then Inr (VConst (CBool False))
        else if \<not> ecdsa_sig_ok ext sig then Inl (BuiltinFailure b)
        else if ecdsa_s_is_high ext sig then Inr (VConst (CBool False))
        else Inr (VConst (CBool (ecdsa_verify_prehash ext pk msg sig)))))))"

definition verify_schnorr :: "prims \<Rightarrow> cek_value list \<Rightarrow> cek_value res" where
  "verify_schnorr ext args =
     (let b = CryptoFun VerifySchnorrSecp256k1Signature in
      rbind (arg_bytes b 0 args) (\<lambda>pk.
      rbind (arg_bytes b 1 args) (\<lambda>msg.
      rbind (arg_bytes b 2 args) (\<lambda>sig.
        if length pk \<noteq> 32 then Inl (BuiltinFailure b)
        else if length sig \<noteq> 64 then Inl (BuiltinFailure b)
        else if \<not> schnorr_key_ok ext pk then Inl (BuiltinFailure b)
        else if \<not> schnorr_sig_ok ext sig then Inr (VConst (CBool False))
        else Inr (VConst (CBool (schnorr_verify_raw ext pk msg sig)))))))"

primrec denote_crypto :: "prims \<Rightarrow> cek_value list \<Rightarrow> crypto_fun \<Rightarrow> cek_value res" where
  "denote_crypto ext args Sha2_256 = hash_one (CryptoFun Sha2_256) (sha2_256_hash ext) args"
| "denote_crypto ext args Sha3_256 = hash_one (CryptoFun Sha3_256) (sha3_256_hash ext) args"
| "denote_crypto ext args Blake2b_256 = hash_one (CryptoFun Blake2b_256) (blake2b_256_hash ext) args"
| "denote_crypto ext args VerifyEd25519Signature = verify_ed25519 ext args"
| "denote_crypto ext args VerifyEcdsaSecp256k1Signature = verify_ecdsa ext args"
| "denote_crypto ext args VerifySchnorrSecp256k1Signature = verify_schnorr ext args"
| "denote_crypto ext args Keccak_256 = hash_one (CryptoFun Keccak_256) (keccak_256_hash ext) args"
| "denote_crypto ext args Blake2b_224 = hash_one (CryptoFun Blake2b_224) (blake2b_224_hash ext) args"
| "denote_crypto ext args Ripemd_160 = hash_one (CryptoFun Ripemd_160) (ripemd_160_hash ext) args"


section \<open>Control and pairs\<close>

text \<open>The trace log is present only when the caller asked for it.\<close>

type_synonym trace_log = "byte list list option"

definition if_then_else :: "cek_value list \<Rightarrow> cek_value res" where
  "if_then_else args =
     rbind (next_arg 0 args) (\<lambda>cond.
     rbind (next_arg 1 args) (\<lambda>then_branch.
     rbind (next_arg 2 args) (\<lambda>else_branch.
       case cond of
         VConst (CBool c) \<Rightarrow> Inr (if c then then_branch else else_branch)
       | _ \<Rightarrow> Inl (BuiltinTypeError (ControlFun IfThenElse)))))"

definition choose_unit :: "cek_value list \<Rightarrow> cek_value res" where
  "choose_unit args =
     rbind (next_arg 0 args) (\<lambda>unit.
     rbind (next_arg 1 args) (\<lambda>rest.
       if is_unit unit then Inr rest else Inl (BuiltinTypeError (ControlFun ChooseUnit))))"

definition denote_trace :: "cek_value list \<Rightarrow> trace_log \<Rightarrow> cek_value res \<times> trace_log" where
  "denote_trace args log =
     (case rbind (next_arg 0 args) (\<lambda>msg. rbind (next_arg 1 args) (\<lambda>rest. Inr (msg, rest))) of
        Inl e \<Rightarrow> (Inl e, log)
      | Inr (VConst (CString s), rest) \<Rightarrow> (Inr rest, map_option (\<lambda>l. l @ [s]) log)
      | Inr _ \<Rightarrow> (Inl (BuiltinTypeError (ControlFun Trace)), log))"

primrec denote_control ::
  "cek_value list \<Rightarrow> trace_log \<Rightarrow> control_fun \<Rightarrow> cek_value res \<times> trace_log" where
  "denote_control args log IfThenElse = (if_then_else args, log)"
| "denote_control args log ChooseUnit = (choose_unit args, log)"
| "denote_control args log Trace = denote_trace args log"
| "denote_control args log FstPair =
     (rbind (take_one args) (\<lambda>v. rbind (unwrap_proto_pair (ControlFun FstPair) v)
        (\<lambda>(x, y). Inr (VConst x))), log)"
| "denote_control args log SndPair =
     (rbind (take_one args) (\<lambda>v. rbind (unwrap_proto_pair (ControlFun SndPair) v)
        (\<lambda>(x, y). Inr (VConst y))), log)"


section \<open>Lists and arrays\<close>

definition choose_list :: "cek_value list \<Rightarrow> cek_value res" where
  "choose_list args =
     rbind (next_arg 0 args) (\<lambda>l.
     rbind (next_arg 1 args) (\<lambda>nil_case.
     rbind (next_arg 2 args) (\<lambda>cons_case.
     rbind (unwrap_proto_list (ListFun ChooseList) l) (\<lambda>(_, elems).
       Inr (if elems = [] then nil_case else cons_case)))))"

definition mk_cons :: "cek_value list \<Rightarrow> cek_value res" where
  "mk_cons args =
     (let b = ListFun MkCons in
      rbind (next_arg 0 args) (\<lambda>head.
      rbind (next_arg 1 args) (\<lambda>l.
      rbind (unwrap_proto_list b l) (\<lambda>(elem_type, elems).
        case head of
          VConst c \<Rightarrow>
            if type_tag_of c \<noteq> elem_type then Inl (BuiltinTypeError b)
            else Inr (VConst (CProtoList elem_type (c # elems)))
        | _ \<Rightarrow> Inl (BuiltinTypeError b)))))"

definition head_list :: "cek_value list \<Rightarrow> cek_value res" where
  "head_list args =
     rbind (take_one args) (\<lambda>v. rbind (unwrap_proto_list (ListFun HeadList) v) (\<lambda>(_, elems).
       case elems of [] \<Rightarrow> Inl (BuiltinFailure (ListFun HeadList)) | c # _ \<Rightarrow> Inr (VConst c)))"

definition tail_list :: "cek_value list \<Rightarrow> cek_value res" where
  "tail_list args =
     rbind (take_one args) (\<lambda>v. rbind (unwrap_proto_list (ListFun TailList) v) (\<lambda>(elem_type, elems).
       case elems of [] \<Rightarrow> Inl (BuiltinFailure (ListFun TailList))
       | _ # cs \<Rightarrow> Inr (VConst (CProtoList elem_type cs))))"

definition drop_list :: "cek_value list \<Rightarrow> cek_value res" where
  "drop_list args =
     (let b = ListFun DropList in
      rbind (arg_integer b 0 args) (\<lambda>count.
      rbind (arg_list b 1 args) (\<lambda>(elem_type, elems).
        let n = bigint_to_usize_clamped count in
        Inr (VConst (CProtoList elem_type (if length elems \<le> n then [] else drop n elems))))))"

definition index_array :: "cek_value list \<Rightarrow> cek_value res" where
  "index_array args =
     (let b = ListFun IndexArray in
      rbind (next_arg 0 args) (\<lambda>arr_val.
      rbind (next_arg 1 args) (\<lambda>i_val.
      rbind (unwrap_array b arr_val) (\<lambda>(_, elems).
      rbind (unwrap_integer b i_val) (\<lambda>i.
        if 0 \<le> i \<and> i < 2 ^ 64 \<and> nat i < length elems then Inr (VConst (elems ! nat i))
        else Inl (BuiltinFailure b))))))"

primrec denote_list :: "cek_value list \<Rightarrow> list_fun \<Rightarrow> cek_value res" where
  "denote_list args ChooseList = choose_list args"
| "denote_list args MkCons = mk_cons args"
| "denote_list args HeadList = head_list args"
| "denote_list args TailList = tail_list args"
| "denote_list args NullList =
     rbind (take_one args) (\<lambda>v. rbind (unwrap_proto_list (ListFun NullList) v)
       (\<lambda>(_, elems). Inr (VConst (CBool (elems = [])))))"
| "denote_list args DropList = drop_list args"
| "denote_list args LengthOfArray =
     rbind (take_one args) (\<lambda>v. rbind (unwrap_array (ListFun LengthOfArray) v)
       (\<lambda>(_, elems). Inr (VConst (CInteger (int (length elems))))))"
| "denote_list args ListToArray =
     rbind (take_one args) (\<lambda>v. rbind (unwrap_proto_list (ListFun ListToArray) v)
       (\<lambda>(elem_type, elems). Inr (VConst (CArray elem_type elems))))"
| "denote_list args IndexArray = index_array args"


section \<open>Data\<close>

definition choose_data :: "cek_value list \<Rightarrow> cek_value res" where
  "choose_data args =
     rbind (arg_data (DataFun ChooseData) 0 args) (\<lambda>d.
     rbind (next_arg 1 args) (\<lambda>constr_case.
     rbind (next_arg 2 args) (\<lambda>map_case.
     rbind (next_arg 3 args) (\<lambda>list_case.
     rbind (next_arg 4 args) (\<lambda>i_case.
     rbind (next_arg 5 args) (\<lambda>b_case.
       Inr (case d of
              DConstr _ _ \<Rightarrow> constr_case
            | DMap _ \<Rightarrow> map_case
            | DList _ \<Rightarrow> list_case
            | DI _ \<Rightarrow> i_case
            | DB _ \<Rightarrow> b_case)))))))"

definition const_data :: "builtin_id \<Rightarrow> uconst \<Rightarrow> uplc_data res" where
  "const_data b c = (case c of CData d \<Rightarrow> Inr d | _ \<Rightarrow> Inl (BuiltinTypeError b))"

definition const_data_pair :: "builtin_id \<Rightarrow> uconst \<Rightarrow> (uplc_data \<times> uplc_data) res" where
  "const_data_pair b c =
     (case c of CProtoPair _ _ (CData k) (CData v) \<Rightarrow> Inr (k, v) | _ \<Rightarrow> Inl (BuiltinTypeError b))"

definition constr_data :: "semantics_variant \<Rightarrow> cek_value list \<Rightarrow> cek_value res" where
  "constr_data variant args =
     (let b = DataFun ConstrData in
      rbind (arg_integer b 0 args) (\<lambda>tag.
      rbind (arg_list b 1 args) (\<lambda>(_, elems).
        if constr_data_requires_word64 variant \<and> \<not> (0 \<le> tag \<and> tag < 2 ^ 64)
        then Inl (BuiltinFailure b)
        else rbind (rmap (const_data b) elems) (\<lambda>ds. Inr (VConst (CData (DConstr tag ds)))))))"

definition map_data :: "cek_value list \<Rightarrow> cek_value res" where
  "map_data args =
     (let b = DataFun MapData in
      rbind (take_one args) (\<lambda>v. rbind (unwrap_proto_list b v) (\<lambda>(_, elems).
      rbind (rmap (const_data_pair b) elems) (\<lambda>es. Inr (VConst (CData (DMap es)))))))"

definition list_data :: "cek_value list \<Rightarrow> cek_value res" where
  "list_data args =
     (let b = DataFun ListData in
      rbind (take_one args) (\<lambda>v. rbind (unwrap_proto_list b v) (\<lambda>(_, elems).
      rbind (rmap (const_data b) elems) (\<lambda>ds. Inr (VConst (CData (DList ds)))))))"

definition un_constr_data :: "cek_value list \<Rightarrow> cek_value res" where
  "un_constr_data args =
     rbind (take_one args) (\<lambda>v. rbind (unwrap_data (DataFun UnConstrData) v) (\<lambda>d.
       case d of
         DConstr tag fs \<Rightarrow>
           Inr (VConst (CProtoPair TyInteger (TyList TyData) (CInteger tag)
                          (CProtoList TyData (map CData fs))))
       | _ \<Rightarrow> Inl (BuiltinFailure (DataFun UnConstrData))))"

definition un_map_data :: "cek_value list \<Rightarrow> cek_value res" where
  "un_map_data args =
     rbind (take_one args) (\<lambda>v. rbind (unwrap_data (DataFun UnMapData) v) (\<lambda>d.
       case d of
         DMap entries \<Rightarrow>
           Inr (VConst (CProtoList (TyPair TyData TyData)
                          (map (\<lambda>(k, v). CProtoPair TyData TyData (CData k) (CData v)) entries)))
       | _ \<Rightarrow> Inl (BuiltinFailure (DataFun UnMapData))))"

definition un_list_data :: "cek_value list \<Rightarrow> cek_value res" where
  "un_list_data args =
     rbind (take_one args) (\<lambda>v. rbind (unwrap_data (DataFun UnListData) v) (\<lambda>d.
       case d of DList items \<Rightarrow> Inr (VConst (CProtoList TyData (map CData items)))
       | _ \<Rightarrow> Inl (BuiltinFailure (DataFun UnListData))))"

definition un_i_data :: "cek_value list \<Rightarrow> cek_value res" where
  "un_i_data args =
     rbind (take_one args) (\<lambda>v. rbind (unwrap_data (DataFun UnIData) v) (\<lambda>d.
       case d of DI i \<Rightarrow> Inr (VConst (CInteger i)) | _ \<Rightarrow> Inl (BuiltinFailure (DataFun UnIData))))"

definition un_b_data :: "cek_value list \<Rightarrow> cek_value res" where
  "un_b_data args =
     rbind (take_one args) (\<lambda>v. rbind (unwrap_data (DataFun UnBData) v) (\<lambda>d.
       case d of DB bs \<Rightarrow> Inr (VConst (CByteString bs)) | _ \<Rightarrow> Inl (BuiltinFailure (DataFun UnBData))))"

definition equals_data :: "cek_value list \<Rightarrow> cek_value res" where
  "equals_data args =
     rbind (arg_data (DataFun EqualsData) 0 args) (\<lambda>a.
     rbind (arg_data (DataFun EqualsData) 1 args) (\<lambda>b. Inr (VConst (CBool (data_eq a b)))))"

definition mk_pair_data :: "cek_value list \<Rightarrow> cek_value res" where
  "mk_pair_data args =
     rbind (arg_data (DataFun MkPairData) 0 args) (\<lambda>a.
     rbind (arg_data (DataFun MkPairData) 1 args) (\<lambda>b.
       Inr (VConst (CProtoPair TyData TyData (CData a) (CData b)))))"

primrec denote_data :: "prims \<Rightarrow> semantics_variant \<Rightarrow> cek_value list \<Rightarrow> data_fun \<Rightarrow> cek_value res" where
  "denote_data ext variant args ChooseData = choose_data args"
| "denote_data ext variant args ConstrData = constr_data variant args"
| "denote_data ext variant args MapData = map_data args"
| "denote_data ext variant args ListData = list_data args"
| "denote_data ext variant args IData =
     rbind (take_one args) (\<lambda>v. rbind (unwrap_integer (DataFun IData) v)
       (\<lambda>i. Inr (VConst (CData (DI i)))))"
| "denote_data ext variant args BData =
     rbind (take_one args) (\<lambda>v. rbind (unwrap_byte_string (DataFun BData) v)
       (\<lambda>bs. Inr (VConst (CData (DB bs)))))"
| "denote_data ext variant args UnConstrData = un_constr_data args"
| "denote_data ext variant args UnMapData = un_map_data args"
| "denote_data ext variant args UnListData = un_list_data args"
| "denote_data ext variant args UnIData = un_i_data args"
| "denote_data ext variant args UnBData = un_b_data args"
| "denote_data ext variant args EqualsData = equals_data args"
| "denote_data ext variant args MkPairData = mk_pair_data args"
| "denote_data ext variant args MkNilData =
     rbind (take_one args) (\<lambda>v. if is_unit v then Inr (VConst (CProtoList TyData []))
       else Inl (BuiltinTypeError (DataFun MkNilData)))"
| "denote_data ext variant args MkNilPairData =
     rbind (take_one args) (\<lambda>v. if is_unit v then Inr (VConst (CProtoList (TyPair TyData TyData) []))
       else Inl (BuiltinTypeError (DataFun MkNilPairData)))"
| "denote_data ext variant args SerialiseData =
     rbind (take_one args) (\<lambda>v. rbind (unwrap_data (DataFun SerialiseData) v)
       (\<lambda>d. Inr (VConst (CByteString (cbor_bytes ext (encode_data d))))))"


section \<open>Rewriting argument lists\<close>

lemma arg_simps [simp]:
  "next_arg 0 (v # vs) = Inr v" "next_arg (Suc n) (v # vs) = next_arg n vs"
  "next_arg (numeral k) (v # vs) = next_arg (pred_numeral k) vs"
  "unwrap_integer b (VConst (CInteger i)) = Inr i"
  "unwrap_byte_string b (VConst (CByteString bs)) = Inr bs"
  "unwrap_bool b (VConst (CBool x)) = Inr x"
  "unwrap_proto_list b (VConst (CProtoList t xs)) = Inr (t, xs)"
  "unwrap_data b (VConst (CData d)) = Inr d"
  "unwrap_value b (VConst (CValue m)) = Inr m"
  by (simp_all add: next_arg_def unwrap_integer_def unwrap_byte_string_def unwrap_bool_def
      unwrap_proto_list_def unwrap_data_def unwrap_value_def)


section \<open>What some of them compute\<close>

text \<open>The corrected quotient and remainder are those of floor division.\<close>

lemma smod_eq_0_iff: "(a :: int) smod b = 0 \<longleftrightarrow> b dvd a"
  by (auto simp: signed_modulo_int_def mod_eq_0_iff_dvd sgn_0_0)

lemma signs_differ:
  "b \<noteq> 0 \<Longrightarrow> \<not> b dvd a \<Longrightarrow> (sgn a \<noteq> sgn b) = ((a < 0) \<noteq> (b < (0 :: int)))"
  by (auto simp: sgn_if split: if_splits)

lemma mod_haskell_mod_floor: "b \<noteq> 0 \<Longrightarrow> mod_haskell_mod a b = a mod b"
  using signs_differ [of b a]
  by (auto simp: mod_haskell_mod_def Let_def smod_eq_0_iff modulo_int_eq_signed_modulo_int)

lemma divide_haskell_div_floor: "b \<noteq> 0 \<Longrightarrow> divide_haskell_div a b = a div b"
  using signs_differ [of b a]
  by (auto simp: divide_haskell_div_def Let_def smod_eq_0_iff divide_int_eq_signed_divide_int)

text \<open>Adding the divisor makes the truncated remainder the one of floor division.\<close>

lemma smod_nonneg: "0 \<le> (x :: int) \<Longrightarrow> 0 < l \<Longrightarrow> x smod l = x mod l"
  by (cases "x = 0") (simp_all add: smod_int_alt_def)

lemma smod_mod: "k smod l mod l = (k :: int) mod l"
proof -
  have "k smod l = k - k sdiv l * l"
    using sdiv_mult_smod_eq [of k l] by linarith
  then show ?thesis by (metis mod_mult_self1 diff_conv_add_uminus mult_minus_left)
qed

lemma smod_to_mod: "0 < (l :: int) \<Longrightarrow> (k smod l + l) smod l = k mod l"
proof -
  assume l: "0 < l"
  have "0 \<le> k smod l + l"
    using l smod_int_range [of l k] by auto
  then show ?thesis using l by (simp add: smod_nonneg smod_mod)
qed

text \<open>A key is canonical when its low 255 bits are below the field modulus.\<close>

lemma magnitude_less_iff:
  "length xs = length ys \<Longrightarrow> magnitude_less xs ys \<longleftrightarrow> le_nat (rev xs) < le_nat (rev ys)"
proof (induction xs ys rule: magnitude_less.induct)
  case (1 x xs y ys)
  have app: "le_nat (zs @ [z]) = le_nat zs + unat z * 256 ^ length zs" for zs z
    by (simp add: le_nat_append)
  have less: "le_nat us + a * 256 ^ length us < le_nat vs + b * 256 ^ length us"
    if "length us = length vs" "a < b" for us vs a b
  proof -
    have "le_nat us + a * 256 ^ length us < (a + 1) * 256 ^ length us"
      using le_nat_less [of us] by simp
    also have "\<dots> \<le> b * 256 ^ length us" using that(2) by (intro mult_right_mono) auto
    finally show ?thesis by linarith
  qed
  consider "x < y" | "y < x" | "x = y" by force
  then show ?case
  proof cases
    case 1
    then have "unat x < unat y" by (simp add: word_less_nat_alt)
    with less [of "rev xs" "rev ys" "unat x" "unat y"] 1 "1.prems" show ?thesis by (simp add: app)
  next
    case 2
    then have "unat y < unat x" by (simp add: word_less_nat_alt)
    with less [of "rev ys" "rev xs" "unat y" "unat x"] 2 "1.prems" show ?thesis
      by (auto simp: app dest: less_imp_not_less)
  next
    case 3
    then show ?thesis using 1 by (simp add: app)
  qed
qed auto

lemma pk_is_canonical_iff:
  assumes "length pk = 32"
  shows "pk_is_canonical pk \<longleftrightarrow> le_nat pk mod 2 ^ 255 < 2 ^ 255 - 19"
proof -
  have ones: "le_nat (replicate n 0xff) = 256 ^ n - 1" for n
    by (induction n) (simp_all add: diff_mult_distrib2)
  obtain xs b where pk: "pk = xs @ [b]" "length xs = 31"
    using assms by (cases pk rule: rev_cases) auto
  have app: "le_nat (xs @ [c]) = le_nat xs + unat c * 2 ^ 248" for c
    using pk(2) by (simp add: le_nat_append mult.commute)
  have "b AND 0x7f = take_bit 7 b" unfolding take_bit_eq_mask mask_eq_exp_minus_1 by simp
  then have "unat (b AND 0x7f) = take_bit 7 (unat b)" by (simp only: unsigned_take_bit_eq)
  then have low: "unat (b AND 0x7f) = unat b mod 128" by (simp only: take_bit_eq_mod) simp
  have "(le_nat xs + unat b * 2 ^ 248) mod (2 ^ 248 * 2 ^ 7) = le_nat xs + (unat b mod 128) * 2 ^ 248"
    unfolding mod_mult2_eq using le_nat_less [of xs] pk(2) by simp
  moreover have "2 ^ 248 * 2 ^ 7 = (2 :: nat) ^ 255" by simp
  ultimately have "le_nat (xs @ [b AND 0x7f]) = le_nat pk mod 2 ^ 255"
    by (simp only: pk(1) app low)
  moreover have "le_nat ed25519_p_bytes = 2 ^ 255 - 19" "length ed25519_p_bytes = 32"
    using ones [of 30] by (simp_all add: ed25519_p_bytes_def le_nat_append)
  ultimately show ?thesis
    using pk by (simp add: pk_is_canonical_def Let_def magnitude_less_iff nth_append list_update_append)
qed

text \<open>The minimal representation of a number, and that reading it back gives the number.\<close>

lemma from_bytes_be_pad: "from_bytes_be (replicate n 0 @ bs) = from_bytes_be bs"
proof -
  have "le_nat (xs @ replicate n 0) = le_nat xs" for xs
    by (induction xs) (induction n, simp_all)
  then show ?thesis by (simp add: from_bytes_be_def)
qed

lemma clamped_slice:
  "start + len \<le> m \<Longrightarrow>
     take (min (min (min start (length bs) + len) m) (length bs) - min start (length bs))
       (drop (min start (length bs)) bs) = take len (drop start bs)"
  by (cases "start \<le> length bs") (simp_all add: min_def)

lemma slice_take_drop:
  assumes "is_i64 start" "is_i64 len"
  shows "slice_byte_string [VConst (CInteger start), VConst (CInteger len), VConst (CByteString bs)] =
           Inr (VConst (CByteString (take (nat len) (drop (nat start) bs))))"
proof -
  have "nat len < 2 ^ 63" "nat start < 2 ^ 63"
    using assms by (auto simp: is_i64_def i64_max_def)
  moreover have "nat (max i 0) = nat i" for i :: int by (simp add: max_def)
  ultimately show ?thesis
    using assms clamped_slice [of "nat start" "nat len" "2 ^ 64 - 1" bs]
    by (simp add: slice_byte_string_def bigint_to_i64_or_failure_def i64_to_usize_clamped_def Let_def)
qed

end
