(* ===== verification/Uplc_Cost.thy ===== *)
theory Uplc_Cost
  imports Uplc_Builtins
begin

text \<open>
  The cost model (\<^verbatim>\<open>builtin/cost.rs\<close>, \<^verbatim>\<open>machine/mod.rs\<close>, \<^verbatim>\<open>machine/cost.rs\<close>): the memory sizes of
  values, the shapes of costing functions with the saturating arithmetic of 64-bit integers, the
  default table for the 101 builtins, what a saturated builtin is charged, and the budget tracker
  with its slippage buffer.  The diagnostic counters that an environment variable switches on are
  left out.
\<close>

section \<open>Saturating arithmetic and budgets\<close>

definition sat_add :: "int \<Rightarrow> int \<Rightarrow> int" where "sat_add a b = sat64 (a + b)"
definition sat_sub :: "int \<Rightarrow> int \<Rightarrow> int" where "sat_sub a b = sat64 (a - b)"
definition sat_mul :: "int \<Rightarrow> int \<Rightarrow> int" where "sat_mul a b = sat64 (a * b)"

record ex_budget =
  cpu :: int
  mem :: int

definition zero_budget :: ex_budget where "zero_budget = \<lparr>cpu = 0, mem = 0\<rparr>"

definition try_subtract :: "ex_budget \<Rightarrow> ex_budget \<Rightarrow> ex_budget option" where
  "try_subtract b other =
     (let new_cpu = sat_sub (cpu b) (cpu other); new_mem = sat_sub (mem b) (mem other) in
      if new_cpu < 0 \<or> new_mem < 0 then None else Some \<lparr>cpu = new_cpu, mem = new_mem\<rparr>)"

definition subtract_saturating :: "ex_budget \<Rightarrow> ex_budget \<Rightarrow> ex_budget" where
  "subtract_saturating b other =
     \<lparr>cpu = sat_sub (cpu b) (cpu other), mem = sat_sub (mem b) (mem other)\<rparr>"

definition add_saturating :: "ex_budget \<Rightarrow> ex_budget \<Rightarrow> ex_budget" where
  "add_saturating b other = \<lparr>cpu = sat_add (cpu b) (cpu other), mem = sat_add (mem b) (mem other)\<rparr>"


section \<open>Sizes\<close>

text \<open>The number of bits of a magnitude.\<close>

fun bit_length :: "nat \<Rightarrow> nat" where
  "bit_length n = (if n = 0 then 0 else Suc (bit_length (n div 2)))"

declare bit_length.simps [simp del]

definition ilog2 :: "nat \<Rightarrow> nat" where "ilog2 n = bit_length n - 1"

definition size_of_integer :: "int \<Rightarrow> int" where
  "size_of_integer n =
     (if n = 0 then 1 else int ((bit_length (nat \<bar>n\<bar>) - 1) div 64 + 1))"

definition memory_usage_integer :: "int \<Rightarrow> int" where
  "memory_usage_integer n =
     (if n = 0 then 1
      else let bits = int (bit_length (nat \<bar>n\<bar>)) in
        if bits = 0 then 1 else (bits - 1) sdiv 64 + 1)"

definition size_of_bytestring :: "byte list \<Rightarrow> int" where
  "size_of_bytestring bs = (int (length bs) - 1) sdiv 8 + 1"

definition size_of_string_by_byte_length :: "byte list \<Rightarrow> int" where
  "size_of_string_by_byte_length s = int (length s) sdiv 4"

definition size_of_string_by_char_count :: "byte list \<Rightarrow> int" where
  "size_of_string_by_char_count s = int (char_count s)"

definition num_bytes_as_num_words :: "int \<Rightarrow> int" where
  "num_bytes_as_num_words n = (let a = \<bar>n\<bar> in if a = 0 then 0 else (a - 1) sdiv 8 + 1)"

text \<open>The magnitude as a 64-bit integer, the greatest one when it does not fit.\<close>

definition integer_costed_literally :: "int \<Rightarrow> int" where
  "integer_costed_literally n = (if \<bar>n\<bar> \<le> i64_max then \<bar>n\<bar> else i64_max)"

definition value_total_size :: "value_map \<Rightarrow> int" where
  "value_total_size m = sum_list (map (\<lambda>(_, inner). int (length inner)) m)"

definition value_max_depth :: "value_map \<Rightarrow> int" where
  "value_max_depth m =
     (let outer_size = length m;
          max_inner = foldl max 0 (map (\<lambda>(_, inner). length inner) m);
          log_outer = (if 0 < outer_size then int (ilog2 outer_size) + 1 else 0);
          log_inner = (if 0 < max_inner then int (ilog2 max_inner) + 1 else 0)
      in log_outer + log_inner)"

definition data_children :: "uplc_data \<Rightarrow> uplc_data list" where
  "data_children d =
     (case d of
        DConstr _ fs \<Rightarrow> fs
      | DMap es \<Rightarrow> concat (map (\<lambda>(k, v). [k, v]) es)
      | DList xs \<Rightarrow> xs
      | _ \<Rightarrow> [])"

lemma data_children_size: "sum_list (map (\<lambda>d. Suc (size d)) (data_children d)) \<le> size d"
proof -
  have "sum_list (map (\<lambda>d. Suc (size d)) xs) \<le> size_list size xs" for xs :: "uplc_data list"
    by (induction xs) auto
  moreover have "sum_list (map (\<lambda>d. Suc (size d)) (concat (map (\<lambda>(k, v). [k, v]) es)))
      \<le> size_list (size_prod size size) es" for es :: "(uplc_data \<times> uplc_data) list"
    by (induction es) auto
  ultimately show ?thesis
    by (auto simp: data_children_def split: uplc_data.split intro: le_SucI)
qed

text \<open>Both measures walk the tree with a stack; children are pushed in order, so the last is popped
  first.\<close>

function data_node_count_loop :: "uplc_data list \<Rightarrow> int \<Rightarrow> int" where
  "data_node_count_loop [] acc = acc"
| "data_node_count_loop (node # stack) acc =
     data_node_count_loop (rev (data_children node) @ stack) (sat_add acc 1)"
  by pat_completeness auto
termination
  by (relation "measure (\<lambda>(stack, acc). sum_list (map (\<lambda>d. Suc (size d)) stack))")
     (auto simp: rev_map [symmetric] less_Suc_eq_le data_children_size)

definition data_node_count :: "uplc_data \<Rightarrow> int" where
  "data_node_count d = data_node_count_loop [d] 0"

function size_of_data_loop :: "uplc_data list \<Rightarrow> int \<Rightarrow> int" where
  "size_of_data_loop [] acc = acc"
| "size_of_data_loop (node # stack) acc =
     size_of_data_loop (rev (data_children node) @ stack)
       (let acc = sat_add acc 4 in
        case node of
          DI n \<Rightarrow> sat_add acc (memory_usage_integer n)
        | DB bs \<Rightarrow> sat_add acc (size_of_bytestring bs)
        | _ \<Rightarrow> acc)"
  by pat_completeness auto
termination
  by (relation "measure (\<lambda>(stack, acc). sum_list (map (\<lambda>d. Suc (size d)) stack))")
     (auto simp: rev_map [symmetric] less_Suc_eq_le data_children_size)

definition size_of_data :: "uplc_data \<Rightarrow> int" where
  "size_of_data d = size_of_data_loop [d] 0"

fun size_of_constant :: "uconst \<Rightarrow> int" where
  "size_of_constant (CInteger n) = size_of_integer n"
| "size_of_constant (CByteString bs) = size_of_bytestring bs"
| "size_of_constant (CString s) = size_of_string_by_char_count s"
| "size_of_constant CUnit = 1"
| "size_of_constant (CBool _) = 1"
| "size_of_constant (CProtoList _ xs) = int (length xs)"
| "size_of_constant (CProtoPair _ _ _ _) = i64_max"
| "size_of_constant (CData d) = size_of_data d"
| "size_of_constant (CG1 _) = 18"
| "size_of_constant (CG2 _) = 36"
| "size_of_constant (CMlResult _) = 72"
| "size_of_constant (CArray _ xs) = int (length xs)"
| "size_of_constant (CValue m) = value_total_size m"

definition size_of_value :: "cek_value \<Rightarrow> int" where
  "size_of_value v = (case v of VConst c \<Rightarrow> size_of_constant c | _ \<Rightarrow> 1)"


section \<open>Costing functions\<close>

datatype linear1 = Linear1 int int
datatype quadratic1 = Quadratic1 int int int
datatype subtracted_sizes_p = SubtractedSizesP int int int
datatype diag_linear_p = DiagLinearP int int int
datatype quad_xy = QuadXY int int int int int int int
datatype const_above_diag_p = ConstAboveDiagP int quad_xy
datatype above_below_diag_p = AboveBelowDiagP quad_xy
datatype const_above_diag_lin_xy_p = ConstAboveDiagLinXYP int int int int
datatype const_above_diag_mul_p = ConstAboveDiagMulP int int int
datatype interaction_xy_p = InteractionXYP int int int int
datatype linear_yz_p = LinearYZP int int int
datatype exp_mod_p = ExpModP int int int

primrec linear1_eval :: "linear1 \<Rightarrow> int \<Rightarrow> int" where
  "linear1_eval (Linear1 intercept slope) x = sat_add intercept (sat_mul slope x)"

primrec quadratic1_eval :: "quadratic1 \<Rightarrow> int \<Rightarrow> int" where
  "quadratic1_eval (Quadratic1 c0 c1 c2) x =
     sat_add (sat_add c0 (sat_mul c1 x)) (sat_mul (sat_mul c2 x) x)"

primrec subtracted_sizes_eval :: "subtracted_sizes_p \<Rightarrow> int \<Rightarrow> int \<Rightarrow> int" where
  "subtracted_sizes_eval (SubtractedSizesP intercept slope minimum) x y =
     max (sat_add intercept (sat_mul slope (sat_sub x y))) minimum"

primrec diag_linear_eval :: "diag_linear_p \<Rightarrow> int \<Rightarrow> int \<Rightarrow> int" where
  "diag_linear_eval (DiagLinearP const intercept slope) x y =
     (if x = y then sat_add intercept (sat_mul slope x) else const)"

text \<open>The coefficients are those of \<open>1, x, y, x\<^sup>2, x y, y\<^sup>2\<close>, then the minimum.\<close>

primrec quad_xy_eval :: "quad_xy \<Rightarrow> int \<Rightarrow> int \<Rightarrow> int" where
  "quad_xy_eval (QuadXY c00 c10 c01 c20 c11 c02 minimum) x y =
     max (sat_add (sat_add (sat_add (sat_add (sat_add c00 (sat_mul c10 x)) (sat_mul c01 y))
            (sat_mul (sat_mul c20 x) x)) (sat_mul (sat_mul c11 x) y)) (sat_mul (sat_mul c02 y) y))
       minimum"

primrec const_above_diag_eval :: "const_above_diag_p \<Rightarrow> int \<Rightarrow> int \<Rightarrow> int" where
  "const_above_diag_eval (ConstAboveDiagP const model) x y =
     (if x < y then const else quad_xy_eval model x y)"

primrec above_below_diag_eval :: "above_below_diag_p \<Rightarrow> int \<Rightarrow> int \<Rightarrow> int" where
  "above_below_diag_eval (AboveBelowDiagP model) x y = quad_xy_eval model (max x y) (min x y)"

primrec const_above_diag_lin_xy_eval :: "const_above_diag_lin_xy_p \<Rightarrow> int \<Rightarrow> int \<Rightarrow> int" where
  "const_above_diag_lin_xy_eval (ConstAboveDiagLinXYP const intercept slope1 slope2) x y =
     (if x < y then const else sat_add (sat_add intercept (sat_mul slope1 x)) (sat_mul slope2 y))"

primrec const_above_diag_mul_eval :: "const_above_diag_mul_p \<Rightarrow> int \<Rightarrow> int \<Rightarrow> int" where
  "const_above_diag_mul_eval (ConstAboveDiagMulP const intercept slope) x y =
     (if x < y then const else sat_add intercept (sat_mul slope (sat_mul x y)))"

primrec interaction_xy_eval :: "interaction_xy_p \<Rightarrow> int \<Rightarrow> int \<Rightarrow> int" where
  "interaction_xy_eval (InteractionXYP c00 c01 c10 c11) x y =
     sat_add (sat_add (sat_add c00 (sat_mul c10 x)) (sat_mul c01 y)) (sat_mul (sat_mul c11 x) y)"

primrec linear_yz_eval :: "linear_yz_p \<Rightarrow> int \<Rightarrow> int \<Rightarrow> int" where
  "linear_yz_eval (LinearYZP intercept slope1 slope2) y z =
     sat_add (sat_add intercept (sat_mul slope1 y)) (sat_mul slope2 z)"

primrec exp_mod_eval :: "exp_mod_p \<Rightarrow> int \<Rightarrow> int \<Rightarrow> int \<Rightarrow> int" where
  "exp_mod_eval (ExpModP c00 c11 c12) aa ee mm =
     (let cost0 = sat_add (sat_add c00 (sat_mul (sat_mul c11 ee) mm))
                    (sat_mul (sat_mul (sat_mul c12 ee) mm) mm)
      in if aa \<le> mm then cost0 else sat_add cost0 (cost0 sdiv 2))"

datatype costing_fun =
    ConstantCost int
  | LinearInX linear1
  | LinearInY linear1
  | LinearInZ linear1
  | AddedSizes linear1
  | MultipliedSizes linear1
  | MinSize linear1
  | MaxSize linear1
  | SubtractedSizes subtracted_sizes_p
  | QuadraticInX quadratic1
  | QuadraticInY quadratic1
  | QuadraticInZ quadratic1
  | LinearOnDiagonal diag_linear_p
  | ConstAboveDiagonal const_above_diag_p
  | AboveAndBelowDiagonal above_below_diag_p
  | ConstAboveDiagonalLinearXY const_above_diag_lin_xy_p
  | ConstAboveDiagonalMul const_above_diag_mul_p
  | WithInteractionXY interaction_xy_p
  | LinearYZ linear_yz_p
  | LinearMaxYZ linear1
  | LiteralInYOrLinearInZ linear1
  | ExpModCost exp_mod_p

primrec costing_eval :: "costing_fun \<Rightarrow> int \<Rightarrow> int \<Rightarrow> int \<Rightarrow> int" where
  "costing_eval (ConstantCost c) x y z = c"
| "costing_eval (LinearInX f) x y z = linear1_eval f x"
| "costing_eval (LinearInY f) x y z = linear1_eval f y"
| "costing_eval (LinearInZ f) x y z = linear1_eval f z"
| "costing_eval (AddedSizes f) x y z = linear1_eval f (sat_add x y)"
| "costing_eval (MultipliedSizes f) x y z = linear1_eval f (sat_mul x y)"
| "costing_eval (MinSize f) x y z = linear1_eval f (min x y)"
| "costing_eval (MaxSize f) x y z = linear1_eval f (max x y)"
| "costing_eval (SubtractedSizes f) x y z = subtracted_sizes_eval f x y"
| "costing_eval (QuadraticInX f) x y z = quadratic1_eval f x"
| "costing_eval (QuadraticInY f) x y z = quadratic1_eval f y"
| "costing_eval (QuadraticInZ f) x y z = quadratic1_eval f z"
| "costing_eval (LinearOnDiagonal f) x y z = diag_linear_eval f x y"
| "costing_eval (ConstAboveDiagonal p) x y z = const_above_diag_eval p x y"
| "costing_eval (AboveAndBelowDiagonal p) x y z = above_below_diag_eval p x y"
| "costing_eval (ConstAboveDiagonalLinearXY p) x y z = const_above_diag_lin_xy_eval p x y"
| "costing_eval (ConstAboveDiagonalMul p) x y z = const_above_diag_mul_eval p x y"
| "costing_eval (WithInteractionXY f) x y z = interaction_xy_eval f x y"
| "costing_eval (LinearYZ f) x y z = linear_yz_eval f y z"
| "costing_eval (LinearMaxYZ f) x y z = linear1_eval f (max y z)"
| "costing_eval (LiteralInYOrLinearInZ f) x y z = (if y = 0 then linear1_eval f z else y)"
| "costing_eval (ExpModCost f) x y z = exp_mod_eval f x y z"


section \<open>The table\<close>

datatype cost_pair = CostPair costing_fun costing_fun

definition constant_pair :: "int \<Rightarrow> int \<Rightarrow> cost_pair" where
  "constant_pair c m = CostPair (ConstantCost c) (ConstantCost m)"

primrec cost_pair_eval :: "cost_pair \<Rightarrow> int \<Rightarrow> int \<Rightarrow> int \<Rightarrow> ex_budget" where
  "cost_pair_eval (CostPair c m) x y z = \<lparr>cpu = costing_eval c x y z, mem = costing_eval m x y z\<rparr>"

definition divmod_quad :: quad_xy where
  "divmod_quad = QuadXY 123203 1716 7305 57 960 (- 900) 85848"

definition divmod_subsize :: subtracted_sizes_p where
  "divmod_subsize = SubtractedSizesP 0 1 1"

type_synonym builtin_costs = "cost_pair list"

definition cost_table_integer :: "cost_pair list" where
  "cost_table_integer =
     [CostPair (MaxSize (Linear1 100788 420)) (MaxSize (Linear1 1 1)),
      CostPair (MaxSize (Linear1 100788 420)) (MaxSize (Linear1 1 1)),
      CostPair (MultipliedSizes (Linear1 90434 519)) (AddedSizes (Linear1 0 1)),
      CostPair (AboveAndBelowDiagonal (AboveBelowDiagP divmod_quad)) (SubtractedSizes divmod_subsize),
      CostPair (ConstAboveDiagonal (ConstAboveDiagP 85848 divmod_quad)) (SubtractedSizes divmod_subsize),
      CostPair (ConstAboveDiagonal (ConstAboveDiagP 85848 divmod_quad)) (LinearInY (Linear1 0 1)),
      CostPair (AboveAndBelowDiagonal (AboveBelowDiagP divmod_quad)) (LinearInY (Linear1 0 1)),
      CostPair (MinSize (Linear1 51775 558)) (ConstantCost 1),
      CostPair (MinSize (Linear1 44749 541)) (ConstantCost 1),
      CostPair (MinSize (Linear1 43285 552)) (ConstantCost 1)]"

definition cost_table_bytes :: "cost_pair list" where
  "cost_table_bytes =
     [CostPair (AddedSizes (Linear1 1000 173)) (AddedSizes (Linear1 0 1)),
      CostPair (LinearInY (Linear1 72010 178)) (AddedSizes (Linear1 0 1)),
      CostPair (LinearInZ (Linear1 20467 1)) (LinearInZ (Linear1 4 0)),
      constant_pair 22100 10,
      constant_pair 13169 4,
      CostPair (LinearOnDiagonal (DiagLinearP 30623 28755 75)) (ConstantCost 1),
      CostPair (MinSize (Linear1 28999 74)) (ConstantCost 1),
      CostPair (MinSize (Linear1 28999 74)) (ConstantCost 1),
      CostPair (LinearInX (Linear1 270652 22588)) (ConstantCost 4),
      CostPair (LinearInX (Linear1 1457325 64566)) (ConstantCost 4),
      CostPair (LinearInX (Linear1 201305 8356)) (ConstantCost 4),
      CostPair (LinearInY (Linear1 53384111 14333)) (ConstantCost 10),
      CostPair (AddedSizes (Linear1 1000 59957)) (AddedSizes (Linear1 4 1)),
      CostPair (LinearOnDiagonal (DiagLinearP 39184 1000 60594)) (ConstantCost 1),
      CostPair (LinearInX (Linear1 1000 42921)) (LinearInX (Linear1 4 2)),
      CostPair (LinearInX (Linear1 91189 769)) (LinearInX (Linear1 4 2))]"

definition cost_table_core :: "cost_pair list" where
  "cost_table_core =
     [constant_pair 76049 1,
      constant_pair 61462 4,
      constant_pair 59498 32,
      constant_pair 141895 32,
      constant_pair 141992 32,
      constant_pair 132994 32,
      constant_pair 72362 32,
      constant_pair 83150 32,
      constant_pair 81663 32,
      constant_pair 74433 32,
      constant_pair 94375 32,
      constant_pair 22151 32,
      constant_pair 68246 32,
      constant_pair 33852 32,
      constant_pair 15299 32,
      constant_pair 11183 32,
      constant_pair 24588 32,
      constant_pair 24623 32,
      constant_pair 25933 32,
      constant_pair 20744 32,
      constant_pair 20142 32,
      CostPair (MinSize (Linear1 898148 27279)) (ConstantCost 1),
      constant_pair 11546 32,
      constant_pair 7243 32,
      constant_pair 7391 32,
      CostPair (LinearInX (Linear1 955506 213312)) (LinearInX (Linear1 0 2)),
      constant_pair 43053543 10,
      CostPair (LinearInY (Linear1 43574283 26308)) (ConstantCost 10)]"

definition cost_table_curve :: "cost_pair list" where
  "cost_table_curve =
     [constant_pair 962335 18,
      constant_pair 267929 18,
      CostPair (LinearInX (Linear1 76433006 8868)) (ConstantCost 18),
      constant_pair 442008 1,
      constant_pair 2780678 6,
      constant_pair 52948122 18,
      CostPair (LinearInX (Linear1 52538055 3756)) (ConstantCost 18),
      constant_pair 1995836 36,
      constant_pair 284546 36,
      CostPair (LinearInX (Linear1 158221314 26549)) (ConstantCost 36),
      constant_pair 901022 1,
      constant_pair 3227919 12,
      constant_pair 74698472 36,
      CostPair (LinearInX (Linear1 166917843 4307)) (ConstantCost 36),
      constant_pair 254006273 72,
      constant_pair 2174038 72,
      constant_pair 333849714 1,
      CostPair (LinearInX (Linear1 2261318 64571)) (ConstantCost 4),
      CostPair (LinearInX (Linear1 207616 8310)) (ConstantCost 4)]"

definition cost_table_bitwise :: "cost_pair list" where
  "cost_table_bitwise =
     [CostPair (QuadraticInZ (Quadratic1 1293828 28716 63)) (LiteralInYOrLinearInZ (Linear1 0 1)),
      CostPair (QuadraticInY (Quadratic1 1006041 43623 251)) (LinearInY (Linear1 0 1)),
      CostPair (LinearYZ (LinearYZP 100181 726 719)) (LinearMaxYZ (Linear1 0 1)),
      CostPair (LinearYZ (LinearYZP 100181 726 719)) (LinearMaxYZ (Linear1 0 1)),
      CostPair (LinearYZ (LinearYZP 100181 726 719)) (LinearMaxYZ (Linear1 0 1)),
      CostPair (LinearInX (Linear1 107878 680)) (LinearInX (Linear1 0 1)),
      constant_pair 95336 1,
      CostPair (LinearInY (Linear1 281145 18848)) (LinearInX (Linear1 0 1)),
      CostPair (LinearInX (Linear1 180194 159)) (LinearInX (Linear1 1 1)),
      CostPair (LinearInX (Linear1 158519 8942)) (LinearInX (Linear1 0 1)),
      CostPair (LinearInX (Linear1 159378 8813)) (LinearInX (Linear1 0 1)),
      CostPair (LinearInX (Linear1 107490 3298)) (ConstantCost 1),
      CostPair (LinearInX (Linear1 106057 655)) (ConstantCost 1),
      CostPair (LinearInX (Linear1 1964219 24520)) (ConstantCost 3),
      CostPair (ExpModCost (ExpModP 607153 231697 53144)) (LinearInZ (Linear1 0 1))]"

definition cost_table_late :: "cost_pair list" where
  "cost_table_late =
     [CostPair (LinearInX (Linear1 116711 1957)) (ConstantCost 4),
      CostPair (ConstantCost 231883) (ConstantCost 10),
      CostPair (LinearInX (Linear1 1000 24838)) (LinearInX (Linear1 7 1)),
      CostPair (ConstantCost 232010) (ConstantCost 32),
      CostPair (LinearInX (Linear1 321837444 25087669)) (ConstantCost 18),
      CostPair (LinearInX (Linear1 617887431 67302824)) (ConstantCost 36),
      CostPair (LinearInZ (Linear1 356924 18413)) (LinearInZ (Linear1 45 21)),
      CostPair (LinearInZ (Linear1 219951 9444)) (ConstantCost 1),
      CostPair (WithInteractionXY (InteractionXYP 1000 183150 172116 6)) (AddedSizes (Linear1 24 21)),
      CostPair (ConstAboveDiagonalLinearXY (ConstAboveDiagLinXYP 213283 618401 1998 28258)) (ConstantCost 1),
      CostPair (LinearInX (Linear1 1000 38159)) (LinearInX (Linear1 2 22)),
      CostPair (QuadraticInX (Quadratic1 1000 95933 1)) (LinearInX (Linear1 1 11)),
      CostPair (LinearInY (Linear1 1000 277577)) (LinearInY (Linear1 12 21))]"

definition builtin_cost_table :: builtin_costs where
  "builtin_cost_table = cost_table_integer @ cost_table_bytes @ cost_table_core @ cost_table_curve @
     cost_table_bitwise @ cost_table_late"

definition builtin_cost_for :: "builtin_costs \<Rightarrow> builtin_id \<Rightarrow> int \<Rightarrow> int \<Rightarrow> int \<Rightarrow> ex_budget" where
  "builtin_cost_for table b x y z = cost_pair_eval (table ! as_u8 b) x y z"


section \<open>Argument sizes\<close>

definition size_at :: "(cek_value \<Rightarrow> int) \<Rightarrow> nat \<Rightarrow> cek_value list \<Rightarrow> int" where
  "size_at f i args = (if i < length args then f (args ! i) else 0)"

definition string_costed_by_byte_len :: "cek_value \<Rightarrow> int" where
  "string_costed_by_byte_len v =
     (case v of VConst (CString s) \<Rightarrow> size_of_string_by_byte_length s | _ \<Rightarrow> 0)"

definition string_costed_by_char_count :: "cek_value \<Rightarrow> int" where
  "string_costed_by_char_count v =
     (case v of VConst (CString s) \<Rightarrow> size_of_string_by_char_count s | _ \<Rightarrow> 0)"

definition text_size :: "semantics_variant \<Rightarrow> cek_value \<Rightarrow> int" where
  "text_size variant =
     (if text_costed_by_byte_length variant then string_costed_by_byte_len
      else string_costed_by_char_count)"

definition width_size :: "cek_value \<Rightarrow> int" where
  "width_size v =
     (case v of VConst (CInteger n) \<Rightarrow> num_bytes_as_num_words (integer_costed_literally n) | _ \<Rightarrow> 0)"

definition literal_size :: "cek_value \<Rightarrow> int" where
  "literal_size v = (case v of VConst (CInteger n) \<Rightarrow> integer_costed_literally n | _ \<Rightarrow> 0)"

definition depth_size :: "cek_value \<Rightarrow> int" where
  "depth_size v = (case v of VConst (CValue m) \<Rightarrow> value_max_depth m | _ \<Rightarrow> 0)"

definition total_size :: "cek_value \<Rightarrow> int" where
  "total_size v = (case v of VConst (CValue m) \<Rightarrow> value_total_size m | _ \<Rightarrow> 0)"

definition node_count_size :: "cek_value \<Rightarrow> int" where
  "node_count_size v = (case v of VConst (CData d) \<Rightarrow> data_node_count d | _ \<Rightarrow> 0)"

definition list_length_size :: "cek_value \<Rightarrow> int" where
  "list_length_size v = (case v of VConst (CProtoList _ xs) \<Rightarrow> int (length xs) | _ \<Rightarrow> 0)"

type_synonym sizes = "int \<times> int \<times> int"

definition default_sizes :: "cek_value list \<Rightarrow> sizes" where
  "default_sizes args =
     (size_at size_of_value 0 args, size_at size_of_value 1 args, size_at size_of_value 2 args)"

primrec string_sizes :: "semantics_variant \<Rightarrow> cek_value list \<Rightarrow> string_fun \<Rightarrow> sizes" where
  "string_sizes variant args AppendString =
     (size_at (text_size variant) 0 args, size_at (text_size variant) 1 args, 0)"
| "string_sizes variant args EqualsString =
     (size_at (text_size variant) 0 args, size_at (text_size variant) 1 args, 0)"
| "string_sizes variant args EncodeUtf8 = (size_at (text_size variant) 0 args, 0, 0)"
| "string_sizes variant args DecodeUtf8 = (size_at size_of_value 0 args, 0, 0)"

primrec bytes_sizes :: "cek_value list \<Rightarrow> bytes_fun \<Rightarrow> sizes" where
  "bytes_sizes args AppendByteString = default_sizes args"
| "bytes_sizes args ConsByteString = default_sizes args"
| "bytes_sizes args SliceByteString = (0, 0, size_at size_of_value 2 args)"
| "bytes_sizes args LengthOfByteString = default_sizes args"
| "bytes_sizes args IndexByteString = default_sizes args"
| "bytes_sizes args EqualsByteString = default_sizes args"
| "bytes_sizes args LessThanByteString = default_sizes args"
| "bytes_sizes args LessThanEqualsByteString = default_sizes args"
| "bytes_sizes args IntegerToByteString = (0, size_at width_size 1 args, size_at size_of_value 2 args)"
| "bytes_sizes args ByteStringToInteger = (0, size_at size_of_value 1 args, 0)"

primrec list_sizes :: "cek_value list \<Rightarrow> list_fun \<Rightarrow> sizes" where
  "list_sizes args ChooseList = default_sizes args"
| "list_sizes args MkCons = default_sizes args"
| "list_sizes args HeadList = default_sizes args"
| "list_sizes args TailList = default_sizes args"
| "list_sizes args NullList = default_sizes args"
| "list_sizes args DropList = (size_at literal_size 0 args, 0, 0)"
| "list_sizes args LengthOfArray = default_sizes args"
| "list_sizes args ListToArray = default_sizes args"
| "list_sizes args IndexArray = default_sizes args"

primrec bits_sizes :: "cek_value list \<Rightarrow> bits_fun \<Rightarrow> sizes" where
  "bits_sizes args AndByteString = (0, size_at size_of_value 1 args, size_at size_of_value 2 args)"
| "bits_sizes args OrByteString = (0, size_at size_of_value 1 args, size_at size_of_value 2 args)"
| "bits_sizes args XorByteString = (0, size_at size_of_value 1 args, size_at size_of_value 2 args)"
| "bits_sizes args ComplementByteString = default_sizes args"
| "bits_sizes args ReadBit = default_sizes args"
| "bits_sizes args WriteBits = (size_at size_of_value 0 args, size_at list_length_size 1 args, 0)"
| "bits_sizes args ReplicateByte = (size_at width_size 0 args, 0, 0)"
| "bits_sizes args ShiftByteString = (size_at size_of_value 0 args, 0, 0)"
| "bits_sizes args RotateByteString = (size_at size_of_value 0 args, 0, 0)"
| "bits_sizes args CountSetBits = default_sizes args"
| "bits_sizes args FindFirstSetBit = default_sizes args"

primrec value_sizes :: "cek_value list \<Rightarrow> value_fun \<Rightarrow> sizes" where
  "value_sizes args InsertCoin = (0, 0, size_at depth_size 3 args)"
| "value_sizes args LookupCoin = (0, 0, size_at depth_size 2 args)"
| "value_sizes args UnionValue = (size_at total_size 0 args, size_at total_size 1 args, 0)"
| "value_sizes args ValueContains = (size_at total_size 0 args, size_at total_size 1 args, 0)"
| "value_sizes args ValueData = (size_at total_size 0 args, 0, 0)"
| "value_sizes args UnValueData = (size_at node_count_size 0 args, 0, 0)"
| "value_sizes args ScaleValue = default_sizes args"

primrec arg_sizes :: "semantics_variant \<Rightarrow> cek_value list \<Rightarrow> builtin_id \<Rightarrow> sizes" where
  "arg_sizes variant args (IntegerFun f) = default_sizes args"
| "arg_sizes variant args (BytesFun f) = bytes_sizes args f"
| "arg_sizes variant args (CryptoFun f) = default_sizes args"
| "arg_sizes variant args (StringFun f) = string_sizes variant args f"
| "arg_sizes variant args (ControlFun f) = default_sizes args"
| "arg_sizes variant args (ListFun f) = list_sizes args f"
| "arg_sizes variant args (DataFun f) = default_sizes args"
| "arg_sizes variant args (BlsFun f) = default_sizes args"
| "arg_sizes variant args (BitsFun f) = bits_sizes args f"
| "arg_sizes variant args (ValueFun f) = value_sizes args f"

definition charge_for_args ::
  "builtin_costs \<Rightarrow> builtin_id \<Rightarrow> cek_value list \<Rightarrow> semantics_variant \<Rightarrow> ex_budget" where
  "charge_for_args table b args variant =
     (let (x, y, z) = arg_sizes variant args b in builtin_cost_for table b x y z)"


section \<open>The budget tracker\<close>

record machine_costs =
  startup_cost :: ex_budget
  var_cost :: ex_budget
  constant_cost :: ex_budget
  lam_cost :: ex_budget
  delay_cost :: ex_budget
  force_cost :: ex_budget
  apply_cost :: ex_budget
  builtin_cost :: ex_budget
  constr_cost :: ex_budget
  case_cost :: ex_budget

definition default_machine_costs :: machine_costs where
  "default_machine_costs =
     (let c = \<lparr>cpu = 16000, mem = 100\<rparr> in
      \<lparr>startup_cost = \<lparr>cpu = 100, mem = 100\<rparr>, var_cost = c, constant_cost = c, lam_cost = c,
       delay_cost = c, force_cost = c, apply_cost = c, builtin_cost = c, constr_cost = c,
       case_cost = c\<rparr>)"

primrec step_cost_for :: "machine_costs \<Rightarrow> uterm \<Rightarrow> ex_budget" where
  "step_cost_for m (TVar _) = var_cost m"
| "step_cost_for m (TLam _) = lam_cost m"
| "step_cost_for m (TApp _ _) = apply_cost m"
| "step_cost_for m (TConst _) = constant_cost m"
| "step_cost_for m (TDelay _) = delay_cost m"
| "step_cost_for m (TForce _) = force_cost m"
| "step_cost_for m TError = zero_budget"
| "step_cost_for m (TBuiltin _) = builtin_cost m"
| "step_cost_for m (TConstr _ _) = constr_cost m"
| "step_cost_for m (TCase _ _) = case_cost m"

definition slippage :: nat where "slippage = 200"

record tracker =
  remaining :: ex_budget
  starting :: ex_budget
  tracker_costs :: machine_costs
  tracker_builtin_costs :: builtin_costs
  pending :: ex_budget
  pending_count :: nat
  counting :: bool
  counting_spent :: ex_budget

definition with_costs :: "ex_budget \<Rightarrow> machine_costs \<Rightarrow> tracker" where
  "with_costs initial costs =
     \<lparr>remaining = subtract_saturating initial (startup_cost costs), starting = initial,
      tracker_costs = costs, tracker_builtin_costs = builtin_cost_table, pending = zero_budget,
      pending_count = 0, counting = False, counting_spent = zero_budget\<rparr>"

definition tracker_new :: "ex_budget \<Rightarrow> tracker" where
  "tracker_new initial = with_costs initial default_machine_costs"

definition with_applied :: "ex_budget \<Rightarrow> machine_costs \<Rightarrow> builtin_costs \<Rightarrow> tracker" where
  "with_applied initial machine builtins =
     (with_costs initial machine)\<lparr>tracker_builtin_costs := builtins\<rparr>"

definition new_counting :: tracker where
  "new_counting =
     (let costs = default_machine_costs; full = \<lparr>cpu = i64_max, mem = i64_max\<rparr> in
      \<lparr>remaining = full, starting = full, tracker_costs = costs,
       tracker_builtin_costs = builtin_cost_table, pending = zero_budget, pending_count = 0,
       counting = True, counting_spent = add_saturating zero_budget (startup_cost costs)\<rparr>)"

text \<open>Spending a cost; on exhaustion the error carries what remained.  The tracker comes back in both
  cases, since the caller keeps it.\<close>

definition spend :: "ex_budget \<Rightarrow> tracker \<Rightarrow> unit res \<times> tracker" where
  "spend cost t =
     (if counting t then (Inr (), t\<lparr>counting_spent := add_saturating (counting_spent t) cost\<rparr>)
      else case try_subtract (remaining t) cost of
        Some r \<Rightarrow> (Inr (), t\<lparr>remaining := r\<rparr>)
      | None \<Rightarrow> (Inl (BudgetExhausted (cpu (remaining t)) (mem (remaining t))), t))"

definition flush :: "tracker \<Rightarrow> unit res \<times> tracker" where
  "flush t =
     (let cost = pending t; t = t\<lparr>pending := zero_budget, pending_count := 0\<rparr> in
      if cpu cost = 0 \<and> mem cost = 0 then (Inr (), t) else spend cost t)"

definition charge :: "ex_budget \<Rightarrow> tracker \<Rightarrow> unit res \<times> tracker" where
  "charge cost t =
     (case flush t of (Inl e, t) \<Rightarrow> (Inl e, t) | (Inr _, t) \<Rightarrow> spend cost t)"

definition compute_step :: "uterm \<Rightarrow> tracker \<Rightarrow> unit res \<times> tracker" where
  "compute_step term t =
     (let cost = step_cost_for (tracker_costs t) term;
          t = t\<lparr>pending := add_saturating (pending t) cost,
                pending_count := min (pending_count t + 1) (2 ^ 64 - 1)\<rparr>
      in if slippage \<le> pending_count t then flush t else (Inr (), t))"

text \<open>The subtraction of what remains from the start is the plain one, which wraps around in a release
  build.\<close>

definition wrap64 :: "int \<Rightarrow> int" where
  "wrap64 x = (x + 2 ^ 63) mod 2 ^ 64 - 2 ^ 63"

definition consumed :: "tracker \<Rightarrow> ex_budget" where
  "consumed t =
     (if counting t then add_saturating (counting_spent t) (pending t)
      else \<lparr>cpu = sat_add (wrap64 (cpu (starting t) - cpu (remaining t))) (cpu (pending t)),
            mem = sat_add (wrap64 (mem (starting t) - mem (remaining t))) (mem (pending t))\<rparr>)"


section \<open>Costs are not negative\<close>

definition nonneg :: "ex_budget \<Rightarrow> bool" where
  "nonneg b \<longleftrightarrow> 0 \<le> cpu b \<and> 0 \<le> mem b"

lemma sat64_nonneg: "0 \<le> x \<Longrightarrow> 0 \<le> sat64 x"
  by (simp add: sat64_def i64_min_def i64_max_def)

lemma sat_add_nonneg: "0 \<le> a \<Longrightarrow> 0 \<le> b \<Longrightarrow> 0 \<le> sat_add a b"
  by (simp add: sat_add_def sat64_nonneg)

lemma sat_mul_nonneg: "0 \<le> a \<Longrightarrow> 0 \<le> b \<Longrightarrow> 0 \<le> sat_mul a b"
  by (simp add: sat_mul_def sat64_nonneg)

text \<open>A sufficient condition on the coefficients: all of them nonnegative, or a nonnegative floor.\<close>

primrec nonneg1 :: "linear1 \<Rightarrow> bool" where
  "nonneg1 (Linear1 i s) \<longleftrightarrow> 0 \<le> i \<and> 0 \<le> s"

primrec nonneg2 :: "quadratic1 \<Rightarrow> bool" where
  "nonneg2 (Quadratic1 a b c) \<longleftrightarrow> 0 \<le> a \<and> 0 \<le> b \<and> 0 \<le> c"

primrec floor_nonneg :: "quad_xy \<Rightarrow> bool" where
  "floor_nonneg (QuadXY _ _ _ _ _ _ m) \<longleftrightarrow> 0 \<le> m"

primrec costing_nonneg :: "costing_fun \<Rightarrow> bool" where
  "costing_nonneg (ConstantCost c) \<longleftrightarrow> 0 \<le> c"
| "costing_nonneg (LinearInX f) \<longleftrightarrow> nonneg1 f"
| "costing_nonneg (LinearInY f) \<longleftrightarrow> nonneg1 f"
| "costing_nonneg (LinearInZ f) \<longleftrightarrow> nonneg1 f"
| "costing_nonneg (AddedSizes f) \<longleftrightarrow> nonneg1 f"
| "costing_nonneg (MultipliedSizes f) \<longleftrightarrow> nonneg1 f"
| "costing_nonneg (MinSize f) \<longleftrightarrow> nonneg1 f"
| "costing_nonneg (MaxSize f) \<longleftrightarrow> nonneg1 f"
| "costing_nonneg (SubtractedSizes p) \<longleftrightarrow> (case p of SubtractedSizesP _ _ m \<Rightarrow> 0 \<le> m)"
| "costing_nonneg (QuadraticInX f) \<longleftrightarrow> nonneg2 f"
| "costing_nonneg (QuadraticInY f) \<longleftrightarrow> nonneg2 f"
| "costing_nonneg (QuadraticInZ f) \<longleftrightarrow> nonneg2 f"
| "costing_nonneg (LinearOnDiagonal p) \<longleftrightarrow> (case p of DiagLinearP c i s \<Rightarrow> 0 \<le> c \<and> 0 \<le> i \<and> 0 \<le> s)"
| "costing_nonneg (ConstAboveDiagonal p) \<longleftrightarrow> (case p of ConstAboveDiagP c m \<Rightarrow> 0 \<le> c \<and> floor_nonneg m)"
| "costing_nonneg (AboveAndBelowDiagonal p) \<longleftrightarrow> (case p of AboveBelowDiagP m \<Rightarrow> floor_nonneg m)"
| "costing_nonneg (ConstAboveDiagonalLinearXY p) \<longleftrightarrow>
     (case p of ConstAboveDiagLinXYP c i s t \<Rightarrow> 0 \<le> c \<and> 0 \<le> i \<and> 0 \<le> s \<and> 0 \<le> t)"
| "costing_nonneg (ConstAboveDiagonalMul p) \<longleftrightarrow>
     (case p of ConstAboveDiagMulP c i s \<Rightarrow> 0 \<le> c \<and> 0 \<le> i \<and> 0 \<le> s)"
| "costing_nonneg (WithInteractionXY p) \<longleftrightarrow>
     (case p of InteractionXYP a b c d \<Rightarrow> 0 \<le> a \<and> 0 \<le> b \<and> 0 \<le> c \<and> 0 \<le> d)"
| "costing_nonneg (LinearYZ p) \<longleftrightarrow> (case p of LinearYZP i s t \<Rightarrow> 0 \<le> i \<and> 0 \<le> s \<and> 0 \<le> t)"
| "costing_nonneg (LinearMaxYZ f) \<longleftrightarrow> nonneg1 f"
| "costing_nonneg (LiteralInYOrLinearInZ f) \<longleftrightarrow> nonneg1 f"
| "costing_nonneg (ExpModCost p) \<longleftrightarrow> (case p of ExpModP a b c \<Rightarrow> 0 \<le> a \<and> 0 \<le> b \<and> 0 \<le> c)"

primrec pair_nonneg :: "cost_pair \<Rightarrow> bool" where
  "pair_nonneg (CostPair c m) \<longleftrightarrow> costing_nonneg c \<and> costing_nonneg m"

definition table_nonneg :: "builtin_costs \<Rightarrow> bool" where
  "table_nonneg table \<longleftrightarrow> length table = 101 \<and> list_all pair_nonneg table"

lemma linear1_eval_nonneg: "nonneg1 f \<Longrightarrow> 0 \<le> x \<Longrightarrow> 0 \<le> linear1_eval f x"
  by (cases f) (simp add: sat_add_nonneg sat_mul_nonneg)

lemma quadratic1_eval_nonneg: "nonneg2 f \<Longrightarrow> 0 \<le> x \<Longrightarrow> 0 \<le> quadratic1_eval f x"
  by (cases f) (simp add: sat_add_nonneg sat_mul_nonneg)

lemma quad_xy_eval_nonneg: "floor_nonneg f \<Longrightarrow> 0 \<le> quad_xy_eval f x y"
  by (cases f) simp

lemma exp_mod_eval_nonneg:
  assumes "0 \<le> a" "0 \<le> b" "0 \<le> c" "0 \<le> x" "0 \<le> y" "0 \<le> z"
  shows "0 \<le> exp_mod_eval (ExpModP a b c) x y z"
  using assms by (simp add: Let_def sat_add_nonneg sat_mul_nonneg sdiv_int_div_0 signed_divide_int_eq_divide_int
      pos_imp_zdiv_nonneg_iff)

lemma costing_eval_nonneg:
  assumes "costing_nonneg f" "0 \<le> x" "0 \<le> y" "0 \<le> z"
  shows "0 \<le> costing_eval f x y z"
  using assms
  by (cases f) (auto simp: linear1_eval_nonneg quadratic1_eval_nonneg quad_xy_eval_nonneg sat_add_nonneg
      sat_mul_nonneg max_def min_def simp del: exp_mod_eval.simps intro!: exp_mod_eval_nonneg
      split: subtracted_sizes_p.splits diag_linear_p.splits const_above_diag_p.splits above_below_diag_p.splits
        const_above_diag_lin_xy_p.splits const_above_diag_mul_p.splits interaction_xy_p.splits
        linear_yz_p.splits exp_mod_p.splits)


text \<open>Sizes are not negative, so a table with nonnegative coefficients never charges a negative cost; the
  default table is one.\<close>


lemma sdiv_nonneg: "0 \<le> (a :: int) \<Longrightarrow> 0 < b \<Longrightarrow> a sdiv b = a div b"
  by (cases "a = 0") (simp_all add: signed_divide_int_def)

lemma size_of_integer_pos: "1 \<le> size_of_integer n"
  by (simp add: size_of_integer_def)

lemma size_of_bytestring_pos: "1 \<le> size_of_bytestring bs"
  by (cases bs) (simp_all add: size_of_bytestring_def signed_divide_int_eq_divide_int)

lemma sizes_nonneg [simp]: "0 \<le> size_of_integer n" "0 \<le> size_of_bytestring bs"
  using size_of_integer_pos [of n] size_of_bytestring_pos [of bs] by linarith+

lemma memory_usage_integer_eq: "memory_usage_integer n = size_of_integer n"
proof (cases "n = 0")
  case False
  then have "bit_length (nat \<bar>n\<bar>) \<noteq> 0" by (subst bit_length.simps) simp
  then show ?thesis
    using False
    by (simp add: memory_usage_integer_def size_of_integer_def Let_def sdiv_nonneg zdiv_int of_nat_diff)
qed (simp add: memory_usage_integer_def size_of_integer_def)

lemma data_node_count_loop_nonneg: "0 \<le> n \<Longrightarrow> 0 \<le> data_node_count_loop ds n"
  by (induction ds n rule: data_node_count_loop.induct) (simp_all add: sat_add_nonneg)

lemma size_of_data_loop_nonneg: "0 \<le> n \<Longrightarrow> 0 \<le> size_of_data_loop ds n"
proof (induction ds n rule: size_of_data_loop.induct)
  case (2 node stack acc)
  then show ?case
    by (auto simp: sat_add_nonneg memory_usage_integer_eq Let_def split: uplc_data.split)
qed simp

lemma value_total_size_nonneg: "0 \<le> value_total_size m"
  unfolding value_total_size_def by (rule sum_list_nonneg) auto

lemma size_of_value_nonneg: "0 \<le> size_of_value v"
proof -
  have "0 \<le> size_of_constant c" for c
    by (cases c) (auto simp: size_of_string_by_char_count_def i64_max_def size_of_data_def
        size_of_data_loop_nonneg value_total_size_nonneg simp del: size_of_data_loop.simps)
  then show ?thesis by (simp add: size_of_value_def split: cek_value.split)
qed

lemma special_sizes_nonneg:
  "0 \<le> text_size variant v" "0 \<le> width_size v" "0 \<le> literal_size v" "0 \<le> depth_size v"
  "0 \<le> total_size v" "0 \<le> node_count_size v" "0 \<le> list_length_size v"
  by (auto simp: text_size_def string_costed_by_byte_len_def string_costed_by_char_count_def
      size_of_string_by_byte_length_def size_of_string_by_char_count_def width_size_def
      num_bytes_as_num_words_def integer_costed_literally_def i64_max_def literal_size_def depth_size_def
      value_max_depth_def total_size_def node_count_size_def list_length_size_def data_node_count_def
      data_node_count_loop_nonneg value_total_size_nonneg sdiv_nonneg Let_def
      simp del: data_node_count_loop.simps split: cek_value.split uconst.split)

lemma size_at_nonneg: "(\<And>v. 0 \<le> f v) \<Longrightarrow> 0 \<le> size_at f i args"
  by (simp add: size_at_def)

lemma arg_sizes_nonneg:
  "0 \<le> fst (arg_sizes variant args b) \<and> 0 \<le> fst (snd (arg_sizes variant args b)) \<and>
   0 \<le> snd (snd (arg_sizes variant args b))"
  by (cases b; (rename_tac f, case_tac f)?)
     (auto simp: default_sizes_def intro!: size_at_nonneg size_of_value_nonneg special_sizes_nonneg)

lemma as_u8_less: "as_u8 b < 101"
  using builtin_numbers [of b] by (auto simp: from_u8_def builtin_table_def split: if_splits)

lemma charge_nonneg: "table_nonneg table \<Longrightarrow> nonneg (charge_for_args table b args variant)"
proof -
  assume "table_nonneg table"
  then have "pair_nonneg (table ! as_u8 b)"
    using as_u8_less [of b] by (simp add: table_nonneg_def list_all_length)
  then show ?thesis
    using arg_sizes_nonneg [of variant args b]
    by (cases "table ! as_u8 b")
       (simp add: charge_for_args_def builtin_cost_for_def nonneg_def costing_eval_nonneg split_beta)
qed

lemma default_table_nonneg: "table_nonneg builtin_cost_table"
  by (simp add: table_nonneg_def builtin_cost_table_def cost_table_integer_def cost_table_bytes_def
      cost_table_core_def cost_table_curve_def cost_table_bitwise_def cost_table_late_def
      constant_pair_def divmod_quad_def divmod_subsize_def)

end
