(* ===== verification/Uplc_Bits.thy ===== *)
theory Uplc_Bits
  imports Uplc_Builtins
begin

text \<open>
  The bitwise builtins on byte strings (\<^verbatim>\<open>builtin/denotations.rs\<close>).  A byte string is a row of bits
  whose last byte holds the bits 0 to 7.  The loops of the code move single bits; the lemmas say
  what they amount to on the number that the bytes spell.
\<close>

section \<open>Single bits\<close>

definition test_bit :: "byte list \<Rightarrow> nat \<Rightarrow> bool" where
  "test_bit bs i \<longleftrightarrow> (drop_bit (i mod 8) (bs ! (length bs - 1 - i div 8))) AND 1 \<noteq> 0"

definition or_bit :: "byte list \<Rightarrow> nat \<Rightarrow> byte list" where
  "or_bit out i =
     (let j = length out - 1 - i div 8 in out[j := (out ! j) OR push_bit (i mod 8) 1])"

definition put_bit :: "bool \<Rightarrow> byte list \<Rightarrow> nat \<Rightarrow> byte list" where
  "put_bit v out i =
     (let j = length out - 1 - i div 8; mask = push_bit (i mod 8) 1
      in out[j := if v then (out ! j) OR mask else (out ! j) AND NOT mask])"

definition count_ones :: "byte \<Rightarrow> nat" where
  "count_ones x = length (filter (bit x) [0..<8])"

definition trailing_zeros :: "byte \<Rightarrow> nat" where
  "trailing_zeros x = length (takeWhile (\<lambda>i. \<not> bit x i) [0..<8])"


section \<open>Denotations\<close>

definition bitwise_byte_string ::
  "builtin_id \<Rightarrow> (byte \<Rightarrow> byte \<Rightarrow> byte) \<Rightarrow> cek_value list \<Rightarrow> cek_value res" where
  "bitwise_byte_string b f args =
     rbind (arg_bool b 0 args) (\<lambda>padded.
     rbind (arg_bytes b 1 args) (\<lambda>x.
     rbind (arg_bytes b 2 args) (\<lambda>y.
       let (shorter, longer) = (if length x \<le> length y then (x, y) else (y, x));
           out = (if padded then longer else shorter)
       in Inr (VConst (CByteString
            (foldl (\<lambda>out i. out[i := f (shorter ! i) (longer ! i)]) out [0..<length shorter]))))))"

definition read_bit :: "cek_value list \<Rightarrow> cek_value res" where
  "read_bit args =
     (let b = BitsFun ReadBit in
      rbind (arg_bytes b 0 args) (\<lambda>bs.
      rbind (arg_integer b 1 args) (\<lambda>i.
      rbind (bigint_to_usize_or_failure b i) (\<lambda>idx.
        if 8 * length bs \<le> idx then Inl (BuiltinFailure b)
        else Inr (VConst (CBool (test_bit bs idx)))))))"

definition write_bits_max_input_length :: nat where "write_bits_max_input_length = 4096"

definition write_bits_step ::
  "bool \<Rightarrow> byte list \<Rightarrow> uconst \<Rightarrow> byte list res" where
  "write_bits_step v out c =
     (case c of
        CInteger i \<Rightarrow>
          rbind (bigint_to_usize_or_failure (BitsFun WriteBits) i) (\<lambda>idx.
            if 8 * length out \<le> idx then Inl (BuiltinFailure (BitsFun WriteBits))
            else Inr (put_bit v out idx))
      | _ \<Rightarrow> Inl (BuiltinTypeError (BitsFun WriteBits)))"

fun write_bits_loop :: "bool \<Rightarrow> byte list \<Rightarrow> uconst list \<Rightarrow> byte list res" where
  "write_bits_loop v out [] = Inr out"
| "write_bits_loop v out (c # cs) =
     rbind (write_bits_step v out c) (\<lambda>out. write_bits_loop v out cs)"

definition write_bits :: "semantics_variant \<Rightarrow> cek_value list \<Rightarrow> cek_value res" where
  "write_bits variant args =
     (let b = BitsFun WriteBits in
      rbind (arg_bytes b 0 args) (\<lambda>bs.
      rbind (next_arg 1 args) (\<lambda>indices.
      rbind (arg_bool b 2 args) (\<lambda>v.
      rbind (unwrap_proto_list b indices) (\<lambda>(_, elems).
        if bitwise_max_input_enforced variant \<and> write_bits_max_input_length < length bs
        then Inl (BuiltinFailure b)
        else rbind (write_bits_loop v bs elems) (\<lambda>out. Inr (VConst (CByteString out))))))))"

definition max_replicate :: nat where "max_replicate = 8192"

definition replicate_byte :: "cek_value list \<Rightarrow> cek_value res" where
  "replicate_byte args =
     (let b = BitsFun ReplicateByte in
      rbind (arg_integer b 0 args) (\<lambda>count.
      rbind (arg_integer b 1 args) (\<lambda>byte.
      rbind (bigint_to_usize_or_failure b count) (\<lambda>count_u.
        if max_replicate < count_u then Inl (BuiltinFailure b)
        else rbind (bigint_to_u8 b byte) (\<lambda>x. Inr (VConst (CByteString (replicate count_u x))))))))"

text \<open>The loop over the target bits: each takes the source bit the first argument names, if there is
  one in range, into an output of zero bytes.\<close>

definition move_bits :: "(nat \<Rightarrow> nat option) \<Rightarrow> byte list \<Rightarrow> byte list" where
  "move_bits source bs =
     foldl (\<lambda>out t. case source t of
                      Some s \<Rightarrow> if s < 8 * length bs \<and> test_bit bs s then or_bit out t else out
                    | None \<Rightarrow> out)
       (replicate (length bs) 0) [0..<8 * length bs]"

definition shift_byte_string :: "cek_value list \<Rightarrow> cek_value res" where
  "shift_byte_string args =
     (let b = BitsFun ShiftByteString in
      rbind (arg_bytes b 0 args) (\<lambda>bs.
      rbind (arg_integer b 1 args) (\<lambda>shift_int.
        let len_bits = 8 * length bs in
        if len_bits = 0 then Inr (VConst (CByteString bs))
        else rbind (bigint_to_i64_or_failure b shift_int) (\<lambda>shift.
          let abs_shift_int = (if shift < 0 then - shift else shift) in
          if int len_bits \<le> abs_shift_int then Inr (VConst (CByteString (replicate (length bs) 0)))
          else rbind (bigint_to_usize_or_failure b abs_shift_int) (\<lambda>abs_shift_u.
            Inr (VConst (CByteString (move_bits
              (\<lambda>t. if shift < 0 then Some (t + abs_shift_u)
                   else if abs_shift_u \<le> t then Some (t - abs_shift_u) else None) bs))))))))"

definition rotate_byte_string :: "cek_value list \<Rightarrow> cek_value res" where
  "rotate_byte_string args =
     (let b = BitsFun RotateByteString in
      rbind (arg_bytes b 0 args) (\<lambda>bs.
      rbind (arg_integer b 1 args) (\<lambda>rot_int.
        let len_bits = 8 * length bs in
        if len_bits = 0 then Inr (VConst (CByteString bs))
        else rbind (bigint_to_i64_or_failure b rot_int) (\<lambda>rot.
          let len_bi = int len_bits; r = (rot smod len_bi + len_bi) smod len_bi in
          rbind (bigint_to_usize_or_failure b r) (\<lambda>r_u.
            Inr (VConst (CByteString
              (move_bits (\<lambda>t. Some ((t + len_bits - r_u) mod len_bits)) bs))))))))"

definition count_set_bits :: "cek_value list \<Rightarrow> cek_value res" where
  "count_set_bits args =
     rbind (take_one args) (\<lambda>v. rbind (unwrap_byte_string (BitsFun CountSetBits) v) (\<lambda>bs.
       Inr (VConst (CInteger (int (sum_list (map count_ones bs)))))))"

text \<open>The scan runs from the last byte forward, so over the reversed list.\<close>

fun find_set_byte :: "nat \<Rightarrow> byte list \<Rightarrow> int" where
  "find_set_byte offset [] = - 1"
| "find_set_byte offset (x # xs) =
     (if x \<noteq> 0 then int (offset * 8 + trailing_zeros x) else find_set_byte (offset + 1) xs)"

definition find_first_set_bit :: "cek_value list \<Rightarrow> cek_value res" where
  "find_first_set_bit args =
     rbind (take_one args) (\<lambda>v. rbind (unwrap_byte_string (BitsFun FindFirstSetBit) v) (\<lambda>bs.
       Inr (VConst (CInteger (find_set_byte 0 (rev bs))))))"

primrec denote_bits :: "semantics_variant \<Rightarrow> cek_value list \<Rightarrow> bits_fun \<Rightarrow> cek_value res" where
  "denote_bits variant args AndByteString = bitwise_byte_string (BitsFun AndByteString) (AND) args"
| "denote_bits variant args OrByteString = bitwise_byte_string (BitsFun OrByteString) (OR) args"
| "denote_bits variant args XorByteString = bitwise_byte_string (BitsFun XorByteString) (XOR) args"
| "denote_bits variant args ComplementByteString =
     rbind (take_one args) (\<lambda>v. rbind (unwrap_byte_string (BitsFun ComplementByteString) v)
       (\<lambda>bs. Inr (VConst (CByteString (map NOT bs)))))"
| "denote_bits variant args ReadBit = read_bit args"
| "denote_bits variant args WriteBits = write_bits variant args"
| "denote_bits variant args ReplicateByte = replicate_byte args"
| "denote_bits variant args ShiftByteString = shift_byte_string args"
| "denote_bits variant args RotateByteString = rotate_byte_string args"
| "denote_bits variant args CountSetBits = count_set_bits args"
| "denote_bits variant args FindFirstSetBit = find_first_set_bit args"


section \<open>Bits of the number\<close>

lemma test_bit_iff: "test_bit bs i \<longleftrightarrow> bit (bs ! (length bs - 1 - i div 8)) (i mod 8)"
  by (simp add: test_bit_def and_one_eq bit_iff_odd_drop_bit odd_iff_mod_2_eq_one)

lemma bit_le_nat:
  "bit (int (le_nat bs)) i \<longleftrightarrow> i < 8 * length bs \<and> bit (bs ! (i div 8)) (i mod 8)"
proof (induction bs arbitrary: i)
  case (Cons b bs)
  have eq: "int (le_nat (b # bs)) = uint b OR push_bit 8 (int (le_nat bs))"
  proof -
    have "uint b AND push_bit 8 (int (le_nat bs)) = 0"
      by (rule bit_eqI) (auto simp: bit_and_iff bit_push_bit_iff bit_uint_iff)
    with plus_and_or [of "uint b" "push_bit 8 (int (le_nat bs))"]
    show ?thesis by (simp add: push_bit_eq_mult)
  qed
  show ?case
  proof (cases "i < 8")
    case True
    then show ?thesis unfolding eq by (simp add: bit_or_iff bit_push_bit_iff bit_uint_iff)
  next
    case False
    then have "i div 8 = Suc ((i - 8) div 8)" "i mod 8 = (i - 8) mod 8"
      by (simp_all add: le_div_geq le_mod_geq)
    with False Cons [of "i - 8"] show ?thesis
      unfolding eq by (auto simp: bit_or_iff bit_push_bit_iff bit_uint_iff)
  qed
qed simp

lemma bit_from_bytes_be: "bit (from_bytes_be bs) i \<longleftrightarrow> i < 8 * length bs \<and> test_bit bs i"
proof (cases "i < 8 * length bs")
  case True
  then have "i div 8 < length bs" by auto
  then show ?thesis
    using True by (simp add: from_bytes_be_def bit_le_nat test_bit_iff rev_nth)
qed (simp add: from_bytes_be_def bit_le_nat)

lemma byte_index_eq:
  fixes i k n :: nat
  shows "i < 8 * n \<Longrightarrow> k < 8 * n \<Longrightarrow> n - 1 - i div 8 = n - 1 - k div 8 \<longleftrightarrow> i div 8 = k div 8"
  by auto

lemma length_put_bit [simp]: "length (put_bit v out i) = length out"
  by (simp add: put_bit_def Let_def)

lemma length_or_bit [simp]: "length (or_bit out i) = length out"
  by (simp add: or_bit_def Let_def)

lemma or_bit_put: "or_bit out i = put_bit True out i"
  by (simp add: or_bit_def put_bit_def)

lemma bit_mask_byte: "bit (2 ^ (i mod 8) :: byte) (k mod 8) \<longleftrightarrow> i mod 8 = k mod 8"
  by (auto simp: bit_exp_iff)

lemma test_put_bit:
  assumes "i < 8 * length out" "k < 8 * length out"
  shows "test_bit (put_bit v out i) k \<longleftrightarrow> (if k = i then v else test_bit out k)"
proof -
  let ?n = "length out"
  have lt: "?n - 1 - i div 8 < ?n" "?n - 1 - k div 8 < ?n" using assms by auto
  have ki: "k = i \<longleftrightarrow> k div 8 = i div 8 \<and> k mod 8 = i mod 8"
    by (metis div_mult_mod_eq)
  show ?thesis
  proof (cases "k div 8 = i div 8")
    case True
    then show ?thesis
      using lt ki by (auto simp: test_bit_iff put_bit_def Let_def bit_or_iff bit_and_iff bit_not_iff
          bit_mask_byte)
  next
    case False
    then have "?n - 1 - i div 8 \<noteq> ?n - 1 - k div 8" using byte_index_eq assms by metis
    with False show ?thesis by (auto simp: test_bit_iff put_bit_def Let_def)
  qed
qed

text \<open>Two byte strings of the same length with the same bits are equal.\<close>

lemma from_bytes_be_inject:
  "length xs = length ys \<Longrightarrow> from_bytes_be xs = from_bytes_be ys \<Longrightarrow> xs = ys"
  unfolding from_bytes_be_def by (metis le_bytes_le_nat length_rev nat_int rev_is_rev_conv)

lemma from_bytes_be_bounds: "0 \<le> from_bytes_be bs" "from_bytes_be bs < 2 ^ (8 * length bs)"
proof -
  have "le_nat (rev bs) < 2 ^ (8 * length bs)"
    using le_nat_less [of "rev bs"] by (simp add: power_mult)
  then show "from_bytes_be bs < 2 ^ (8 * length bs)" unfolding from_bytes_be_def by simp
qed (simp add: from_bytes_be_def)

lemma move_bits_steps:
  fixes source :: "nat \<Rightarrow> nat option"
  assumes "n \<le> 8 * length bs"
  defines "step \<equiv> \<lambda>out t. case source t of
      Some s \<Rightarrow> if s < 8 * length bs \<and> test_bit bs s then or_bit out t else out | None \<Rightarrow> out"
  shows "length (foldl step (replicate (length bs) 0) [0..<n]) = length bs \<and>
    (\<forall>k < 8 * length bs. test_bit (foldl step (replicate (length bs) 0) [0..<n]) k \<longleftrightarrow>
       k < n \<and> (\<exists>s. source k = Some s \<and> s < 8 * length bs \<and> test_bit bs s))"
  using assms(1)
proof (induction n)
  case 0
  then show ?case by (auto simp: test_bit_iff)
next
  case (Suc n)
  define out where "out = foldl step (replicate (length bs) 0) [0..<n]"
  have IH: "length out = length bs" "\<And>k. k < 8 * length bs \<Longrightarrow> test_bit out k \<longleftrightarrow>
       k < n \<and> (\<exists>s. source k = Some s \<and> s < 8 * length bs \<and> test_bit bs s)"
    using Suc by (auto simp: out_def)
  have "foldl step (replicate (length bs) 0) [0..<Suc n] = step out n" by (simp add: out_def)
  moreover have "length (step out n) = length bs"
    using IH(1) by (simp add: step_def split: option.split)
  moreover have "test_bit (step out n) k \<longleftrightarrow>
      k < Suc n \<and> (\<exists>s. source k = Some s \<and> s < 8 * length bs \<and> test_bit bs s)"
    if "k < 8 * length bs" for k
    using IH(2) [OF that] that Suc.prems IH(1)
    by (cases "k = n") (auto simp: step_def or_bit_put test_put_bit less_Suc_eq split: option.split)
  ultimately show ?case by simp
qed

lemma move_bits:
  "length (move_bits source bs) = length bs"
  "bit (from_bytes_be (move_bits source bs)) k \<longleftrightarrow>
     k < 8 * length bs \<and> (\<exists>s. source k = Some s \<and> bit (from_bytes_be bs) s)"
  using move_bits_steps [of "8 * length bs" bs source]
  by (auto simp: move_bits_def bit_from_bytes_be)


section \<open>Shifting and rotating\<close>

text \<open>The number a shifted byte string spells: within its length, a left shift multiplies and a right
  shift divides by a power of two.\<close>

definition shifted :: "nat \<Rightarrow> int \<Rightarrow> int \<Rightarrow> int" where
  "shifted len_bits v k =
     (if 0 \<le> k then take_bit len_bits (push_bit (nat k) v) else drop_bit (nat (- k)) v)"

lemma shift_move:
  assumes "k < 0 \<longrightarrow> n = nat (- k)" "0 \<le> k \<longrightarrow> n = nat k"
  shows "from_bytes_be (move_bits (\<lambda>t. if k < 0 then Some (t + n)
           else if n \<le> t then Some (t - n) else None) bs)
         = shifted (8 * length bs) (from_bytes_be bs) k"
proof (rule bit_eqI)
  fix i
  have out: "bit (from_bytes_be bs) j \<Longrightarrow> j < 8 * length bs" for j
    by (simp add: bit_from_bytes_be)
  show "bit (from_bytes_be (move_bits (\<lambda>t. if k < 0 then Some (t + n)
           else if n \<le> t then Some (t - n) else None) bs)) i
         = bit (shifted (8 * length bs) (from_bytes_be bs) k) i"
    using assms out [of "i + n"]
    by (auto simp: move_bits shifted_def bit_take_bit_iff bit_push_bit_iff bit_drop_bit_eq add.commute)
qed

lemma shifted_out:
  assumes "int (8 * length bs) \<le> \<bar>k\<bar>"
  shows "shifted (8 * length bs) (from_bytes_be bs) k = 0"
proof (rule bit_eqI)
  fix i
  show "bit (shifted (8 * length bs) (from_bytes_be bs) k) i = bit 0 i"
    using assms bit_from_bytes_be [of bs "nat (- k) + i"]
    by (auto simp: shifted_def bit_take_bit_iff bit_push_bit_iff bit_drop_bit_eq)
qed

lemma from_bytes_be_zeros [simp]: "from_bytes_be (replicate n 0) = 0"
  by (rule bit_eqI) (auto simp: bit_from_bytes_be test_bit_iff)

lemma from_bytes_be_Nil [simp]: "from_bytes_be [] = 0"
  by (simp add: from_bytes_be_def)

lemma shift_byte_string_correct:
  assumes "is_i64 k"
  shows "\<exists>out. shift_byte_string [VConst (CByteString bs), VConst (CInteger k)] = Inr (VConst (CByteString out)) \<and>
     length out = length bs \<and> from_bytes_be out = shifted (8 * length bs) (from_bytes_be bs) k"
proof (cases "bs = [] \<or> int (8 * length bs) \<le> \<bar>k\<bar>")
  case True
  then show ?thesis
    using assms shifted_out [of bs k]
    by (auto simp: shift_byte_string_def bigint_to_i64_or_failure_def Let_def abs_if shifted_def)
next
  case False
  obtain n where n: "n = nat \<bar>k\<bar>" by simp
  define a where "a = (if k < 0 then - k else k)"
  have u: "bigint_to_usize_or_failure b a = Inr n" for b
    using assms by (auto simp: bigint_to_usize_or_failure_def is_i64_def i64_min_def i64_max_def n a_def)
  have "\<not> int (8 * length bs) \<le> a" using False by (auto simp: a_def)
  then have "shift_byte_string [VConst (CByteString bs), VConst (CInteger k)] =
      Inr (VConst (CByteString (move_bits (\<lambda>t. if k < 0 then Some (t + n)
           else if n \<le> t then Some (t - n) else None) bs)))"
    using False assms u
    by (simp add: shift_byte_string_def bigint_to_i64_or_failure_def Let_def flip: a_def)
  then show ?thesis using shift_move [of k n bs] n by (simp add: move_bits(1))
qed

lemma rotate_byte_string_correct:
  assumes "is_i64 k" "8 * length bs < 2 ^ 64"
  shows "\<exists>out. rotate_byte_string [VConst (CByteString bs), VConst (CInteger k)] = Inr (VConst (CByteString out)) \<and>
     length out = length bs \<and>
     (\<forall>i < 8 * length bs. test_bit out i = test_bit bs (nat ((int i - k) mod int (8 * length bs))))"
proof (cases "bs = []")
  case True
  then show ?thesis by (simp add: rotate_byte_string_def Let_def)
next
  case False
  let ?L = "8 * length bs"
  define r where "r = nat (k mod int ?L)"
  have L: "0 < ?L" using False by simp
  have r: "int r = k mod int ?L" "r < ?L" using L by (simp_all add: r_def nat_less_iff)
  have "bigint_to_usize_or_failure b (k mod int ?L) = Inr r" for b
    using r assms(2) by (auto simp: bigint_to_usize_or_failure_def r_def)
  then have "rotate_byte_string [VConst (CByteString bs), VConst (CInteger k)] =
      Inr (VConst (CByteString (move_bits (\<lambda>t. Some ((t + ?L - r) mod ?L)) bs)))"
    using False assms smod_to_mod [of "int ?L" k]
    by (simp add: rotate_byte_string_def bigint_to_i64_or_failure_def Let_def)
  moreover have "(t + ?L - r) mod ?L = nat ((int t - k) mod int ?L)" for t
  proof -
    have "int ((t + ?L - r) mod ?L) = (int t + int ?L - k mod int ?L) mod int ?L"
      using r by (simp add: zmod_int of_nat_diff)
    also have "\<dots> = ((int t - k) + int ?L) mod int ?L" by (simp add: mod_simps algebra_simps)
    also have "\<dots> = (int t - k) mod int ?L" by (rule mod_add_self2)
    finally show ?thesis by (metis nat_int)
  qed
  moreover have "test_bit (move_bits (\<lambda>t. Some ((t + ?L - r) mod ?L)) bs) i
      \<longleftrightarrow> test_bit bs ((i + ?L - r) mod ?L)" if "i < ?L" for i
    using move_bits(2) [of "\<lambda>t. Some ((t + ?L - r) mod ?L)" bs i] that L
    by (simp add: bit_from_bytes_be move_bits(1))
  ultimately show ?thesis by (simp add: move_bits(1))
qed


section \<open>Writing, counting, searching\<close>

lemma write_bits_loop_correct:
  assumes "\<forall>i \<in> set is. 0 \<le> i \<and> i < int (8 * length bs) \<and> i < 2 ^ 64"
  shows "\<exists>out. write_bits_loop v bs (map CInteger is) = Inr out \<and> length out = length bs \<and>
     (\<forall>k < 8 * length bs. test_bit out k = (if int k \<in> set is then v else test_bit bs k))"
  using assms
proof (induction "is" arbitrary: bs)
  case (Cons i "is")
  define bs' where "bs' = put_bit v bs (nat i)"
  have step: "write_bits_step v bs (CInteger i) = Inr bs'"
    using Cons.prems by (auto simp: write_bits_step_def bigint_to_usize_or_failure_def bs'_def)
  have "\<forall>i \<in> set is. 0 \<le> i \<and> i < int (8 * length bs') \<and> i < 2 ^ 64"
    using Cons.prems by (simp add: bs'_def)
  from Cons.IH [OF this] obtain out where out:
    "write_bits_loop v bs' (map CInteger is) = Inr out" "length out = length bs"
    "\<And>k. k < 8 * length bs \<Longrightarrow> test_bit out k = (if int k \<in> set is then v else test_bit bs' k)"
    by (auto simp: bs'_def)
  have "test_bit bs' k = (if int k = i then v else test_bit bs k)" if "k < 8 * length bs" for k
    using Cons.prems that test_put_bit [of "nat i" bs k v] by (auto simp: bs'_def)
  with out step show ?case by auto
qed simp

lemma byte_bits_eq: "(x :: byte) = 0 \<longleftrightarrow> (\<forall>i < 8. \<not> bit x i)"
  by (auto simp: bit_eq_iff)

lemma trailing_zeros_bit:
  assumes "x \<noteq> 0"
  shows "trailing_zeros x < 8" "bit x (trailing_zeros x)" "i < trailing_zeros x \<Longrightarrow> \<not> bit x i"
proof -
  let ?t = "takeWhile (\<lambda>i. \<not> bit x i) [0..<8]"
  have "?t \<noteq> [0..<8]"
    using assms byte_bits_eq [of x] by (auto simp: takeWhile_eq_all_conv)
  then show lt: "trailing_zeros x < 8"
    unfolding trailing_zeros_def
    by (metis diff_zero length_takeWhile_le length_upt le_neq_implies_less takeWhile_eq_take take_all_iff)
  then show "bit x (trailing_zeros x)"
    using nth_length_takeWhile [of "\<lambda>i. \<not> bit x i" "[0..<8]"] by (simp add: trailing_zeros_def)
  show "\<not> bit x i" if "i < trailing_zeros x"
    using that lt nth_mem [of i ?t] set_takeWhileD [of "?t ! i" "\<lambda>i. \<not> bit x i" "[0..<8]"]
      takeWhile_nth [of i "\<lambda>i. \<not> bit x i" "[0..<8]"]
    by (simp add: trailing_zeros_def)
qed

lemma bit_le_nat_Cons:
  "bit (int (le_nat (x # xs))) i \<longleftrightarrow> (if i < 8 then bit x i else bit (int (le_nat xs)) (i - 8))"
proof (cases "i < 8")
  case False
  then have "i div 8 = Suc ((i - 8) div 8)" "i mod 8 = (i - 8) mod 8"
    by (simp_all add: le_div_geq le_mod_geq)
  with False show ?thesis by (auto simp: bit_le_nat simp del: le_nat.simps)
qed (simp add: bit_le_nat del: le_nat.simps)

lemma find_set_byte_correct:
  "if le_nat xs = 0 then find_set_byte n xs = - 1
   else \<exists>j. find_set_byte n xs = int (8 * n + j) \<and> bit (int (le_nat xs)) j \<and>
          (\<forall>i < j. \<not> bit (int (le_nat xs)) i)"
proof (induction xs arbitrary: n)
  case (Cons x xs)
  show ?case
  proof (cases "x = 0")
    case True
    then have le: "le_nat (x # xs) = 256 * le_nat xs" by simp
    show ?thesis
    proof (cases "le_nat xs = 0")
      case False
      then obtain j where j: "find_set_byte (n + 1) xs = int (8 * (n + 1) + j)" "bit (int (le_nat xs)) j"
          "\<forall>i < j. \<not> bit (int (le_nat xs)) i"
        using Cons [of "n + 1"] by auto
      have "find_set_byte n (x # xs) = int (8 * n + (j + 8))" using j True by simp
      moreover have "bit (int (le_nat (x # xs))) (j + 8)"
        using j by (simp add: bit_le_nat_Cons del: le_nat.simps)
      moreover have "\<forall>i < j + 8. \<not> bit (int (le_nat (x # xs))) i"
        using j True by (auto simp: bit_le_nat_Cons simp del: le_nat.simps)
      ultimately show ?thesis using False le by (metis mult_eq_0_iff zero_neq_numeral)
    qed (use True Cons [of "n + 1"] in simp)
  next
    case False
    then have "le_nat (x # xs) \<noteq> 0" by (simp add: unat_eq_zero)
    moreover have "find_set_byte n (x # xs) = int (8 * n + trailing_zeros x)" using False by simp
    moreover have "bit (int (le_nat (x # xs))) (trailing_zeros x)"
      using trailing_zeros_bit(1,2) [OF False] by (simp add: bit_le_nat_Cons del: le_nat.simps)
    moreover have "\<forall>i < trailing_zeros x. \<not> bit (int (le_nat (x # xs))) i"
      using trailing_zeros_bit(1,3) [OF False] by (auto simp: bit_le_nat_Cons simp del: le_nat.simps)
    ultimately show ?thesis by metis
  qed
qed simp

lemma bitwise_loop:
  assumes "n \<le> length shorter" "length shorter \<le> length out"
  shows "foldl (\<lambda>out i. out[i := f (shorter ! i) (longer ! i)]) out [0..<n] =
           map (\<lambda>i. f (shorter ! i) (longer ! i)) [0..<n] @ drop n out"
  using assms
proof (induction n)
  case (Suc n)
  then have "drop n out = out ! n # drop (Suc n) out" by (simp add: Cons_nth_drop_Suc)
  with Suc show ?case by (simp add: list_update_append)
qed simp

lemma bytes_of_number: "bs = rev (le_bytes (length bs) (nat (from_bytes_be bs)))"
  using le_bytes_le_nat [of "rev bs"] by (simp add: from_bytes_be_def)

lemma write_bits_loop_fails:
  assumes "list_ex (\<lambda>i. i < 0 \<or> int (8 * length bs) \<le> i) is"
  shows "write_bits_loop v bs (map CInteger is) = Inl (BuiltinFailure (BitsFun WriteBits))"
  using assms
  by (induction "is" arbitrary: bs) (auto simp: write_bits_step_def bigint_to_usize_or_failure_def nat_le_iff)

lemma card_bits_le_nat: "finite {i. bit (int (le_nat xs)) i} \<and>
   card {i. bit (int (le_nat xs)) i} = sum_list (map count_ones xs)"
proof (induction xs)
  case (Cons x xs)
  let ?S = "{i. bit (int (le_nat xs)) i}"
  have eq: "{i. bit (int (le_nat (x # xs))) i} = set (filter (bit x) [0..<8]) \<union> (+) 8 ` ?S"
  proof (rule set_eqI)
    fix i
    have "i \<in> (+) 8 ` ?S \<longleftrightarrow> \<not> i < 8 \<and> bit (int (le_nat xs)) (i - 8)"
      by (auto simp: image_iff intro!: exI [of _ "i - 8"])
    then show "i \<in> {i. bit (int (le_nat (x # xs))) i} \<longleftrightarrow> i \<in> set (filter (bit x) [0..<8]) \<union> (+) 8 ` ?S"
      by (simp add: bit_le_nat_Cons del: le_nat.simps)
  qed
  have "card ((+) 8 ` ?S) = card ?S" by (rule card_image) (simp add: inj_on_def)
  moreover have "card (set (filter (bit x) [0..<8])) = count_ones x"
    unfolding count_ones_def by (rule distinct_card) simp
  moreover have "set (filter (bit x) [0..<8]) \<inter> (+) 8 ` ?S = {}" by auto
  ultimately show ?case using Cons unfolding eq by (subst card_Un_disjoint) auto
qed simp

end
