(* ===== verification/Uplc_Value.thy ===== *)
theory Uplc_Value
  imports Uplc_Builtins
begin

text \<open>
  The builtins on multi-asset values (\<^verbatim>\<open>builtin/denotations.rs\<close>).  A value maps policies to tokens to
  amounts, two nested \<^verbatim>\<open>BTreeMap\<close>s, here sorted association lists; amounts are 128-bit signed
  integers with every overflow a failure.  Well-formed values have no empty policy and no zero
  amount; every builtin keeps them so, and acts on the amounts as its name says.
\<close>

definition is_i128 :: "int \<Rightarrow> bool" where
  "is_i128 x \<longleftrightarrow> - (2 ^ 127) \<le> x \<and> x < 2 ^ 127"

definition max_key :: nat where "max_key = 32"

type_synonym tokens = "(byte list \<times> int) list"

text \<open>\<^verbatim>\<open>entry(k).or_default()\<close>.\<close>

definition or_default :: "value_map \<Rightarrow> byte list \<Rightarrow> tokens" where
  "or_default m p = (case map_of m p of Some inner \<Rightarrow> inner | None \<Rightarrow> [])"

definition amount_of :: "tokens \<Rightarrow> byte list \<Rightarrow> int" where
  "amount_of inner t = (case map_of inner t of Some a \<Rightarrow> a | None \<Rightarrow> 0)"


section \<open>Denotations\<close>

definition delete_coin :: "byte list \<Rightarrow> byte list \<Rightarrow> value_map \<Rightarrow> value_map" where
  "delete_coin policy token val =
     (case map_of val policy of
        Some inner \<Rightarrow>
          let inner = bt_remove token inner in
          if inner = [] then bt_remove policy val else bt_insert policy inner val
      | None \<Rightarrow> val)"

definition insert_coin :: "cek_value list \<Rightarrow> cek_value res" where
  "insert_coin args =
     (let b = ValueFun InsertCoin in
      rbind (arg_bytes b 0 args) (\<lambda>policy.
      rbind (arg_bytes b 1 args) (\<lambda>token.
      rbind (arg_integer b 2 args) (\<lambda>amount.
      rbind (arg_value b 3 args) (\<lambda>val.
        if amount = 0 then Inr (VConst (CValue (delete_coin policy token val)))
        else if max_key < length policy then Inl (BuiltinFailure b)
        else if max_key < length token then Inl (BuiltinFailure b)
        else if \<not> is_i128 amount then Inl (BuiltinFailure b)
        else Inr (VConst (CValue
               (bt_insert policy (bt_insert token amount (or_default val policy)) val))))))))"

definition lookup_coin :: "cek_value list \<Rightarrow> cek_value res" where
  "lookup_coin args =
     (let b = ValueFun LookupCoin in
      rbind (arg_bytes b 0 args) (\<lambda>policy.
      rbind (arg_bytes b 1 args) (\<lambda>token.
      rbind (arg_value b 2 args) (\<lambda>val.
        Inr (VConst (CInteger
          (case Option.bind (map_of val policy) (\<lambda>inner. map_of inner token) of
             Some a \<Rightarrow> a | None \<Rightarrow> 0)))))))"

fun scale_tokens :: "int \<Rightarrow> tokens \<Rightarrow> tokens \<Rightarrow> tokens res" where
  "scale_tokens factor [] out = Inr out"
| "scale_tokens factor ((token, amt) # rest) out =
     (let new_amt = amt * factor in
      if \<not> is_i128 new_amt then Inl (BuiltinFailure (ValueFun ScaleValue))
      else scale_tokens factor rest (if new_amt \<noteq> 0 then bt_insert token new_amt out else out))"

fun scale_policies :: "int \<Rightarrow> value_map \<Rightarrow> value_map \<Rightarrow> value_map res" where
  "scale_policies factor [] out = Inr out"
| "scale_policies factor ((policy, inner) # rest) out =
     rbind (scale_tokens factor inner []) (\<lambda>new_inner.
       scale_policies factor rest (if new_inner \<noteq> [] then bt_insert policy new_inner out else out))"

definition scale_value :: "cek_value list \<Rightarrow> cek_value res" where
  "scale_value args =
     (let b = ValueFun ScaleValue in
      rbind (arg_integer b 0 args) (\<lambda>factor.
      rbind (arg_value b 1 args) (\<lambda>val.
        if \<not> is_i128 factor then Inl (BuiltinFailure b)
        else rbind (scale_policies factor val []) (\<lambda>out. Inr (VConst (CValue out))))))"

text \<open>The key of an entry must be bytes within the limit and above the one before it.\<close>

definition ascending_key :: "byte list option \<Rightarrow> uplc_data \<Rightarrow> byte list res" where
  "ascending_key prev k =
     (case k of
        DB key \<Rightarrow>
          if max_key < length key then Inl (BuiltinFailure (ValueFun UnValueData))
          else if (case prev of Some p \<Rightarrow> key \<le> p | None \<Rightarrow> False)
            then Inl (BuiltinFailure (ValueFun UnValueData))
          else Inr key
      | _ \<Rightarrow> Inl (BuiltinFailure (ValueFun UnValueData)))"

fun un_value_tokens ::
  "byte list option \<Rightarrow> (uplc_data \<times> uplc_data) list \<Rightarrow> tokens \<Rightarrow> tokens res" where
  "un_value_tokens prev [] inner = Inr inner"
| "un_value_tokens prev ((tk, tv) # rest) inner =
     rbind (ascending_key prev tk) (\<lambda>token.
       case tv of
         DI amount \<Rightarrow>
           if \<not> is_i128 amount then Inl (BuiltinFailure (ValueFun UnValueData))
           else if amount = 0 then Inl (BuiltinFailure (ValueFun UnValueData))
           else un_value_tokens (Some token) rest (bt_insert token amount inner)
       | _ \<Rightarrow> Inl (BuiltinFailure (ValueFun UnValueData)))"

fun un_value_policies ::
  "byte list option \<Rightarrow> (uplc_data \<times> uplc_data) list \<Rightarrow> value_map \<Rightarrow> value_map res" where
  "un_value_policies prev [] out = Inr out"
| "un_value_policies prev ((k, v) # rest) out =
     rbind (ascending_key prev k) (\<lambda>policy.
       case v of
         DMap inner_pairs \<Rightarrow>
           if inner_pairs = [] then Inl (BuiltinFailure (ValueFun UnValueData))
           else rbind (un_value_tokens None inner_pairs (or_default out policy)) (\<lambda>inner.
             un_value_policies (Some policy) rest (bt_insert policy inner out))
       | _ \<Rightarrow> Inl (BuiltinFailure (ValueFun UnValueData)))"

definition un_value_data :: "cek_value list \<Rightarrow> cek_value res" where
  "un_value_data args =
     rbind (take_one args) (\<lambda>v. rbind (unwrap_data (ValueFun UnValueData) v) (\<lambda>d.
       case d of
         DMap outer_pairs \<Rightarrow>
           rbind (un_value_policies None outer_pairs []) (\<lambda>out. Inr (VConst (CValue out)))
       | _ \<Rightarrow> Inl (BuiltinFailure (ValueFun UnValueData))))"

definition tokens_data :: "tokens \<Rightarrow> uplc_data" where
  "tokens_data inner = DMap (map (\<lambda>(token, amt). (DB token, DI amt)) inner)"

definition value_data :: "cek_value list \<Rightarrow> cek_value res" where
  "value_data args =
     rbind (take_one args) (\<lambda>v. rbind (unwrap_value (ValueFun ValueData) v) (\<lambda>val.
       Inr (VConst (CData (DMap (map (\<lambda>(policy, inner). (DB policy, tokens_data inner)) val))))))"

definition has_negative :: "value_map \<Rightarrow> bool" where
  "has_negative m = list_ex (\<lambda>(_, inner). list_ex (\<lambda>(_, amt). amt < 0) inner) m"

definition sub_value :: "value_map \<Rightarrow> value_map \<Rightarrow> bool" where
  "sub_value part super =
     list_all (\<lambda>(policy, inner_sub).
       case map_of super policy of
         Some inner_sup \<Rightarrow> list_all (\<lambda>(token, amt). \<not> amount_of inner_sup token < amt) inner_sub
       | None \<Rightarrow> False) part"

definition value_contains :: "cek_value list \<Rightarrow> cek_value res" where
  "value_contains args =
     (let b = ValueFun ValueContains in
      rbind (arg_value b 0 args) (\<lambda>super.
      rbind (arg_value b 1 args) (\<lambda>part.
        if has_negative super then Inl (BuiltinFailure b)
        else if has_negative part then Inl (BuiltinFailure b)
        else Inr (VConst (CBool (sub_value part super))))))"

fun union_tokens :: "tokens \<Rightarrow> tokens \<Rightarrow> tokens res" where
  "union_tokens inner_a [] = Inr inner_a"
| "union_tokens inner_a ((token, amt_b) # rest) =
     (let amount = amount_of inner_a token + amt_b in
      if \<not> is_i128 amount then Inl (BuiltinFailure (ValueFun UnionValue))
      else union_tokens (bt_insert token amount inner_a) rest)"

fun union_policies :: "value_map \<Rightarrow> value_map \<Rightarrow> value_map res" where
  "union_policies a [] = Inr a"
| "union_policies a ((policy, inner_b) # rest) =
     rbind (union_tokens (or_default a policy) inner_b) (\<lambda>inner.
       union_policies (bt_insert policy inner a) rest)"

definition prune :: "value_map \<Rightarrow> value_map" where
  "prune a = filter (\<lambda>(_, inner). inner \<noteq> [])
               (map (\<lambda>(policy, inner). (policy, filter (\<lambda>(_, amt). amt \<noteq> 0) inner)) a)"

definition union_value :: "cek_value list \<Rightarrow> cek_value res" where
  "union_value args =
     (let b = ValueFun UnionValue in
      rbind (arg_value b 0 args) (\<lambda>a.
      rbind (arg_value b 1 args) (\<lambda>c.
      rbind (union_policies a c) (\<lambda>out. Inr (VConst (CValue (prune out)))))))"

primrec denote_value :: "cek_value list \<Rightarrow> value_fun \<Rightarrow> cek_value res" where
  "denote_value args InsertCoin = insert_coin args"
| "denote_value args LookupCoin = lookup_coin args"
| "denote_value args UnionValue = union_value args"
| "denote_value args ValueContains = value_contains args"
| "denote_value args ValueData = value_data args"
| "denote_value args UnValueData = un_value_data args"
| "denote_value args ScaleValue = scale_value args"


section \<open>Well-formed values and their amounts\<close>

definition tokens_ok :: "tokens \<Rightarrow> bool" where
  "tokens_ok inner \<longleftrightarrow> sorted_keys inner \<and>
     list_all (\<lambda>(t, a). length t \<le> max_key \<and> a \<noteq> 0 \<and> is_i128 a) inner"

definition value_ok :: "value_map \<Rightarrow> bool" where
  "value_ok m \<longleftrightarrow> sorted_keys m \<and>
     list_all (\<lambda>(p, inner). length p \<le> max_key \<and> inner \<noteq> [] \<and> tokens_ok inner) m"

text \<open>The amount of a token under a policy, zero when it is absent.\<close>

definition quantity :: "value_map \<Rightarrow> byte list \<Rightarrow> byte list \<Rightarrow> int" where
  "quantity m p t = amount_of (or_default m p) t"


lemma amount_of_bt_insert [simp]:
  "amount_of (bt_insert t a inner) t' = (if t' = t then a else amount_of inner t')"
  by (simp add: amount_of_def)

lemma or_default_bt_insert [simp]:
  "or_default (bt_insert p inner m) p' = (if p' = p then inner else or_default m p')"
  by (simp add: or_default_def)

lemma amount_of_in: "sorted_keys inner \<Longrightarrow> (t, a) \<in> set inner \<Longrightarrow> amount_of inner t = a"
  by (simp add: amount_of_def sorted_keys_distinct)

lemma amount_of_notin: "t \<notin> fst ` set inner \<Longrightarrow> amount_of inner t = 0"
  by (simp add: amount_of_def map_of_eq_None_iff [THEN iffD2])

lemma or_default_cases:
  assumes "sorted_keys m"
  obtains "or_default m p = []" "p \<notin> fst ` set m" | "(p, or_default m p) \<in> set m"
  using assms map_of_SomeD [of m p]
  by (cases "map_of m p") (auto simp: or_default_def map_of_eq_None_iff)

lemma tokens_ok_or_default: "value_ok m \<Longrightarrow> tokens_ok (or_default m p)"
  by (rule or_default_cases [of m p])
     (auto simp: value_ok_def tokens_ok_def list_all_iff)

lemma quantity_i128: "value_ok m \<Longrightarrow> is_i128 (quantity m p t)"
proof -
  assume "value_ok m"
  then have "tokens_ok (or_default m p)" by (rule tokens_ok_or_default)
  then show ?thesis
    by (cases "t \<in> fst ` set (or_default m p)")
       (auto simp: quantity_def amount_of_notin amount_of_in tokens_ok_def list_all_iff is_i128_def)
qed

text \<open>A well-formed value is determined by its amounts.\<close>

lemma tokens_ok_eqI:
  assumes "tokens_ok xs" "tokens_ok ys" "amount_of xs = amount_of ys"
  shows "xs = ys"
proof (rule sorted_keys_eqI)
  have "map_of xs t = (if amount_of xs t = 0 then None else Some (amount_of xs t))" if "tokens_ok xs" for xs t
    using that by (auto simp: amount_of_def tokens_ok_def list_all_iff split: option.split dest!: map_of_SomeD)
  then show "map_of xs = map_of ys" using assms by (intro ext) simp
qed (use assms in \<open>simp_all add: tokens_ok_def\<close>)

lemma tokens_ok_nonempty: "tokens_ok inner \<Longrightarrow> inner \<noteq> [] \<longleftrightarrow> (\<exists>t. amount_of inner t \<noteq> 0)"
proof -
  assume ok: "tokens_ok inner"
  show ?thesis
  proof (cases inner)
    case (Cons e es)
    then have "amount_of inner (fst e) = snd e" "snd e \<noteq> 0"
      using ok amount_of_in [of inner "fst e" "snd e"] by (auto simp: tokens_ok_def)
    then have "\<exists>t. amount_of inner t \<noteq> 0" by (intro exI [of _ "fst e"]) simp
    with Cons show ?thesis by simp
  qed (simp add: amount_of_def)
qed

lemma value_ok_eqI:
  assumes "value_ok m" "value_ok m'" "\<And>p t. quantity m p t = quantity m' p t"
  shows "m = m'"
proof (rule sorted_keys_eqI)
  have inner: "or_default m p = or_default m' p" for p
    using assms tokens_ok_eqI [OF tokens_ok_or_default tokens_ok_or_default]
    by (simp add: quantity_def fun_eq_iff)
  have "map_of m p = (if or_default m p = [] then None else Some (or_default m p))" if "value_ok m" for m p
    using that by (auto simp: or_default_def value_ok_def list_all_iff split: option.split dest!: map_of_SomeD)
  then show "map_of m = map_of m'" using assms inner by (intro ext) simp
qed (use assms in \<open>simp_all add: value_ok_def\<close>)


section \<open>Data form\<close>

definition value_as_data :: "value_map \<Rightarrow> uplc_data" where
  "value_as_data m = DMap (map (\<lambda>(policy, inner). (DB policy, tokens_data inner)) m)"

definition last_key :: "('k \<times> 'v) list \<Rightarrow> 'k option" where
  "last_key xs = (if xs = [] then None else Some (fst (last xs)))"

lemma last_key_snoc [simp]: "last_key (xs @ [(k, v)]) = Some k"
  by (simp add: last_key_def)

lemma bt_insert_last: "sorted_keys (xs @ [(k, v)]) \<Longrightarrow> bt_insert k v xs = xs @ [(k, v)]"
  by (induction k v xs rule: bt_insert.induct) auto

lemma sorted_keys_snoc:
  "sorted_keys xs \<Longrightarrow>
     sorted_keys (xs @ [(k, v)]) \<longleftrightarrow> (case last_key xs of None \<Rightarrow> True | Some p \<Rightarrow> p < k)"
proof (induction xs rule: rev_induct)
  case (snoc x xs)
  then show ?case by (cases x) (auto simp: sorted_keys_append split: option.splits if_splits dest: less_trans)
qed (simp add: last_key_def)

lemma ascending_key_Inr:
  "sorted_keys xs \<Longrightarrow> ascending_key (last_key xs) k = Inr key \<longleftrightarrow>
     k = DB key \<and> length key \<le> max_key \<and> sorted_keys (xs @ [(key, v)])"
  by (auto simp: ascending_key_def sorted_keys_snoc not_le not_less split: uplc_data.splits option.splits)

lemma sorted_keys_prefix: "sorted_keys (xs @ y # ys) \<Longrightarrow> sorted_keys (xs @ [y])"
  by (cases y) (auto simp: sorted_keys_append)

lemma un_value_tokens_iff:
  assumes "sorted_keys xs"
  shows "un_value_tokens (last_key xs) pairs xs = Inr r \<longleftrightarrow>
    (\<exists>ys. pairs = map (\<lambda>(t, a). (DB t, DI a)) ys \<and> r = xs @ ys \<and> sorted_keys (xs @ ys) \<and>
       list_all (\<lambda>(t, a). length t \<le> max_key \<and> a \<noteq> 0 \<and> is_i128 a) ys)"
  using assms
proof (induction pairs arbitrary: xs)
  case (Cons kv pairs)
  obtain tk tv where kv: "kv = (tk, tv)" by (cases kv)
  show ?case (is "?L \<longleftrightarrow> ?R")
  proof
    assume ?L
    then obtain token where tok: "ascending_key (last_key xs) tk = Inr token"
      by (auto simp: kv elim: rbind_InrE)
    with \<open>?L\<close> obtain a where a: "tv = DI a" "is_i128 a" "a \<noteq> 0"
        "un_value_tokens (Some token) pairs (bt_insert token a xs) = Inr r"
      by (auto simp: kv split: uplc_data.splits if_splits)
    have s: "tk = DB token" "length token \<le> max_key" "sorted_keys (xs @ [(token, a)])"
      using tok ascending_key_Inr [OF Cons.prems, of tk token a] by auto
    from a(4) have "un_value_tokens (last_key (xs @ [(token, a)])) pairs (xs @ [(token, a)]) = Inr r"
      using s by (simp add: bt_insert_last)
    from Cons.IH [OF s(3), THEN iffD1, OF this] obtain ys where
      "pairs = map (\<lambda>(t, a). (DB t, DI a)) ys" "r = (xs @ [(token, a)]) @ ys"
      "sorted_keys ((xs @ [(token, a)]) @ ys)"
      "list_all (\<lambda>(t, a). length t \<le> max_key \<and> a \<noteq> 0 \<and> is_i128 a) ys" by blast
    with s a show ?R by (intro exI [of _ "(token, a) # ys"]) (simp add: kv)
  next
    assume ?R
    then obtain t a ys where ys: "tk = DB t" "tv = DI a" "length t \<le> max_key" "a \<noteq> 0" "is_i128 a"
        "pairs = map (\<lambda>(t, a). (DB t, DI a)) ys" "r = (xs @ [(t, a)]) @ ys"
        "sorted_keys ((xs @ [(t, a)]) @ ys)"
        "list_all (\<lambda>(t, a). length t \<le> max_key \<and> a \<noteq> 0 \<and> is_i128 a) ys"
      by (auto simp: kv map_eq_Cons_conv)
    then have s: "sorted_keys (xs @ [(t, a)])" using sorted_keys_prefix by auto
    have "un_value_tokens (last_key (xs @ [(t, a)])) pairs (xs @ [(t, a)]) = Inr r"
      using Cons.IH [OF s, THEN iffD2] ys by blast
    moreover have "ascending_key (last_key xs) tk = Inr t"
      using ascending_key_Inr [OF Cons.prems, of tk t a] ys s by simp
    ultimately show ?L using ys s by (simp add: kv bt_insert_last)
  qed
qed auto

lemma or_default_above:
  "sorted_keys (xs @ [(p, v)]) \<Longrightarrow> or_default xs p = []"
  by (auto simp: or_default_def sorted_keys_append split: option.split dest!: map_of_SomeD)

lemma un_value_tokens_fresh:
  "un_value_tokens None pairs [] = Inr inner \<and> pairs \<noteq> [] \<longleftrightarrow>
     DMap pairs = tokens_data inner \<and> inner \<noteq> [] \<and> tokens_ok inner"
  using un_value_tokens_iff [of "[]" pairs inner]
  by (auto simp: last_key_def tokens_data_def tokens_ok_def)

lemma un_value_policies_iff:
  assumes "sorted_keys xs"
  shows "un_value_policies (last_key xs) pairs xs = Inr r \<longleftrightarrow>
    (\<exists>ys. pairs = map (\<lambda>(p, inner). (DB p, tokens_data inner)) ys \<and> r = xs @ ys \<and> sorted_keys (xs @ ys) \<and>
       list_all (\<lambda>(p, inner). length p \<le> max_key \<and> inner \<noteq> [] \<and> tokens_ok inner) ys)"
  using assms
proof (induction pairs arbitrary: xs)
  case (Cons kv pairs)
  obtain k v where kv: "kv = (k, v)" by (cases kv)
  show ?case (is "?L \<longleftrightarrow> ?R")
  proof
    assume ?L
    then obtain p where p: "ascending_key (last_key xs) k = Inr p"
      by (auto simp: kv elim: rbind_InrE)
    with \<open>?L\<close> obtain ips inner where i: "v = DMap ips" "ips \<noteq> []"
        "un_value_tokens None ips (or_default xs p) = Inr inner"
        "un_value_policies (Some p) pairs (bt_insert p inner xs) = Inr r"
      by (auto simp: kv split: uplc_data.splits if_splits elim: rbind_InrE)
    have s: "k = DB p" "length p \<le> max_key" "sorted_keys (xs @ [(p, inner)])"
      using p ascending_key_Inr [OF Cons.prems, of k p inner] by auto
    then have "or_default xs p = []" by (intro or_default_above)
    with i un_value_tokens_fresh [of ips inner] have ok: "v = tokens_data inner" "inner \<noteq> []" "tokens_ok inner"
      by auto
    from i(4) have "un_value_policies (last_key (xs @ [(p, inner)])) pairs (xs @ [(p, inner)]) = Inr r"
      using s by (simp add: bt_insert_last)
    from Cons.IH [OF s(3), THEN iffD1, OF this] obtain ys where
      "pairs = map (\<lambda>(p, inner). (DB p, tokens_data inner)) ys" "r = (xs @ [(p, inner)]) @ ys"
      "sorted_keys ((xs @ [(p, inner)]) @ ys)"
      "list_all (\<lambda>(p, inner). length p \<le> max_key \<and> inner \<noteq> [] \<and> tokens_ok inner) ys" by blast
    with s ok show ?R by (intro exI [of _ "(p, inner) # ys"]) (simp add: kv)
  next
    assume ?R
    then obtain p inner ys where ys: "k = DB p" "v = tokens_data inner" "length p \<le> max_key" "inner \<noteq> []"
        "tokens_ok inner" "pairs = map (\<lambda>(p, inner). (DB p, tokens_data inner)) ys"
        "r = (xs @ [(p, inner)]) @ ys" "sorted_keys ((xs @ [(p, inner)]) @ ys)"
        "list_all (\<lambda>(p, inner). length p \<le> max_key \<and> inner \<noteq> [] \<and> tokens_ok inner) ys"
      by (auto simp: kv map_eq_Cons_conv)
    then have s: "sorted_keys (xs @ [(p, inner)])" using sorted_keys_prefix by auto
    have "un_value_policies (last_key (xs @ [(p, inner)])) pairs (xs @ [(p, inner)]) = Inr r"
      using Cons.IH [OF s, THEN iffD2] ys by blast
    moreover have "ascending_key (last_key xs) k = Inr p"
      using ascending_key_Inr [OF Cons.prems, of k p inner] ys s by simp
    moreover obtain ips where "tokens_data inner = DMap ips" by (simp add: tokens_data_def)
    ultimately show ?L
      using ys s or_default_above [OF s] un_value_tokens_fresh [of ips inner]
      by (simp add: kv bt_insert_last)
  qed
qed auto

lemma un_value_policies_value:
  "un_value_policies None pairs [] = Inr m \<longleftrightarrow> DMap pairs = value_as_data m \<and> value_ok m"
  using un_value_policies_iff [of "[]" pairs m]
  by (auto simp: last_key_def value_as_data_def value_ok_def)


section \<open>Adding, scaling, comparing\<close>

text \<open>Before the zeros are pruned the amounts may be zero, but keys stay sorted and short.\<close>

definition tokens_weak :: "tokens \<Rightarrow> bool" where
  "tokens_weak inner \<longleftrightarrow> sorted_keys inner \<and>
     list_all (\<lambda>(t, a). length t \<le> max_key \<and> is_i128 a) inner"

definition value_weak :: "value_map \<Rightarrow> bool" where
  "value_weak m \<longleftrightarrow> sorted_keys m \<and> list_all (\<lambda>(p, inner). length p \<le> max_key \<and> tokens_weak inner) m"

lemma list_all_bt_insert: "list_all P xs \<Longrightarrow> P (k, v) \<Longrightarrow> list_all P (bt_insert k v xs)"
  using set_bt_insert_subset [of k v xs] by (auto simp: list_all_iff)

lemma tokens_weak_insert:
  "tokens_weak inner \<Longrightarrow> length t \<le> max_key \<Longrightarrow> is_i128 a \<Longrightarrow> tokens_weak (bt_insert t a inner)"
  by (simp add: tokens_weak_def list_all_bt_insert)

lemma value_weak_insert:
  "value_weak m \<Longrightarrow> length p \<le> max_key \<Longrightarrow> tokens_weak inner \<Longrightarrow> value_weak (bt_insert p inner m)"
  by (simp add: value_weak_def list_all_bt_insert)

lemma value_ok_weak: "value_ok m \<Longrightarrow> value_weak m"
  by (auto simp: value_ok_def value_weak_def tokens_ok_def tokens_weak_def list_all_iff)

lemma tokens_weak_or_default: "value_weak m \<Longrightarrow> tokens_weak (or_default m p)"
  by (rule or_default_cases [of m p]) (auto simp: value_weak_def tokens_weak_def list_all_iff)

lemma union_tokens_amounts:
  assumes "tokens_weak a" "tokens_weak bs"
  shows "if \<forall>t. t \<in> fst ` set bs \<longrightarrow> is_i128 (amount_of a t + amount_of bs t)
    then \<exists>r. union_tokens a bs = Inr r \<and> tokens_weak r \<and> (\<forall>t. amount_of r t = amount_of a t + amount_of bs t)
    else union_tokens a bs = Inl (BuiltinFailure (ValueFun UnionValue))"
  using assms
proof (induction a bs rule: union_tokens.induct)
  case (2 a t b bs)
  have bs: "tokens_weak bs" "length t \<le> max_key" "t \<notin> fst ` set bs"
    using "2.prems"(2) by (auto simp: tokens_weak_def)
  have amt: "amount_of ((t, b) # bs) s = (if s = t then b else amount_of bs s)" for s
    by (simp add: amount_of_def)
  show ?case
  proof (cases "is_i128 (amount_of a t + b)")
    case True
    let ?a = "bt_insert t (amount_of a t + b) a"
    have "tokens_weak ?a" using True "2.prems"(1) bs by (simp add: tokens_weak_insert)
    note IH = "2.IH" [OF refl _ this bs(1), simplified True]
    have sum: "amount_of a s + amount_of ((t, b) # bs) s = amount_of ?a s + amount_of bs s" for s
      using bs(3) amt by (auto simp: amount_of_notin)
    have "is_i128 (amount_of ?a t + amount_of bs t)"
      using True bs(3) by (simp add: amount_of_notin)
    then have cond: "(\<forall>s. s \<in> fst ` set ((t, b) # bs) \<longrightarrow> is_i128 (amount_of ?a s + amount_of bs s)) \<longleftrightarrow>
        (\<forall>s. s \<in> fst ` set bs \<longrightarrow> is_i128 (amount_of ?a s + amount_of bs s))"
      by auto
    have "union_tokens a ((t, b) # bs) = union_tokens ?a bs" using True by (simp add: Let_def)
    with IH show ?thesis unfolding sum cond by (simp del: amount_of_bt_insert)
  qed (use amt in \<open>force simp: Let_def\<close>)
qed (auto simp: amount_of_def)

lemma all_insert_key:
  assumes "p \<notin> K" "\<And>t. t \<in> D p \<Longrightarrow> P p t" "\<And>q. q \<noteq> p \<Longrightarrow> D q = E q"
  shows "(\<forall>q t. q \<in> insert p K \<longrightarrow> t \<in> D q \<longrightarrow> P q t) \<longleftrightarrow> (\<forall>q t. q \<in> K \<longrightarrow> t \<in> E q \<longrightarrow> P q t)"
  using assms by (metis insert_iff)

lemma union_policies_amounts:
  assumes "value_weak a" "value_weak c"
  shows "if \<forall>p t. p \<in> fst ` set c \<longrightarrow> t \<in> fst ` set (or_default c p) \<longrightarrow> is_i128 (quantity a p t + quantity c p t)
    then \<exists>r. union_policies a c = Inr r \<and> value_weak r \<and> (\<forall>p t. quantity r p t = quantity a p t + quantity c p t)
    else union_policies a c = Inl (BuiltinFailure (ValueFun UnionValue))"
  using assms
proof (induction a c rule: union_policies.induct)
  case (2 a p inner c)
  have c: "value_weak c" "length p \<le> max_key" "p \<notin> fst ` set c" "tokens_weak inner"
    using "2.prems"(2) by (auto simp: value_weak_def)
  have dflt: "or_default ((p, inner) # c) q = (if q = p then inner else or_default c q)" for q
    by (simp add: or_default_def)
  have none: "or_default c p = []" using c(3) by (simp add: or_default_def map_of_eq_None_iff [THEN iffD2])
  note ut = union_tokens_amounts [OF tokens_weak_or_default [OF "2.prems"(1), of p] c(4)]
  show ?case
  proof (cases "\<forall>t. t \<in> fst ` set inner \<longrightarrow> is_i128 (amount_of (or_default a p) t + amount_of inner t)")
    case True
    with ut obtain r where r: "union_tokens (or_default a p) inner = Inr r" "tokens_weak r"
      "\<And>t. amount_of r t = amount_of (or_default a p) t + amount_of inner t" by auto
    let ?a = "bt_insert p r a"
    have "value_weak ?a" using r(2) "2.prems"(1) c(2) by (simp add: value_weak_insert)
    note IH = "2.IH" [OF this c(1)]
    have sum: "quantity a q t + quantity ((p, inner) # c) q t = quantity ?a q t + quantity c q t" for q t
      using r(3) none dflt by (auto simp: quantity_def amount_of_def)
    have "is_i128 (quantity ?a p t + quantity c p t)" if "t \<in> fst ` set inner" for t
      using True that r(3) none by (simp add: quantity_def amount_of_def)
    then have cond: "(\<forall>q t. q \<in> fst ` set ((p, inner) # c) \<longrightarrow> t \<in> fst ` set (or_default ((p, inner) # c) q) \<longrightarrow>
          is_i128 (quantity ?a q t + quantity c q t)) \<longleftrightarrow>
        (\<forall>q t. q \<in> fst ` set c \<longrightarrow> t \<in> fst ` set (or_default c q) \<longrightarrow> is_i128 (quantity ?a q t + quantity c q t))"
      unfolding list.set image_insert fst_conv
      by (intro all_insert_key c(3)) (simp_all add: dflt)
    have "union_policies a ((p, inner) # c) = union_policies ?a c" using r(1) by simp
    with IH show ?thesis unfolding sum cond by simp
  next
    case False
    then have "union_tokens (or_default a p) inner = Inl (BuiltinFailure (ValueFun UnionValue))"
      using ut by auto
    moreover have "\<not> (\<forall>q t. q \<in> fst ` set ((p, inner) # c) \<longrightarrow> t \<in> fst ` set (or_default ((p, inner) # c) q) \<longrightarrow>
          is_i128 (quantity a q t + quantity ((p, inner) # c) q t))"
      using False dflt by (auto simp: quantity_def)
    ultimately show ?thesis by simp
  qed
qed (auto simp: quantity_def or_default_def amount_of_def)

lemma amount_of_prune: "sorted_keys inner \<Longrightarrow> amount_of (filter (\<lambda>(_, a). a \<noteq> 0) inner) t = amount_of inner t"
proof (induction inner)
  case (Cons e inner)
  obtain s a where e: "e = (s, a)" by (cases e)
  with Cons have "t = s \<Longrightarrow> amount_of inner t = 0" by (intro amount_of_notin) auto
  with Cons e show ?case by (auto simp: amount_of_def)
qed simp

lemma map_of_prune_aux:
  "sorted_keys m \<Longrightarrow> or_default (filter (\<lambda>(_, inner). inner \<noteq> []) (map (\<lambda>(p, inner). (p, f inner)) m)) p =
     (if p \<in> fst ` set m then f (or_default m p) else [])"
proof (induction m)
  case (Cons e m)
  obtain q inner where e: "e = (q, inner)" by (cases e)
  with Cons have "q \<notin> fst ` set m" by auto
  with Cons e show ?case by (auto simp: or_default_def)
qed (simp add: or_default_def)

lemma quantity_prune: "value_weak m \<Longrightarrow> quantity (prune m) p t = quantity m p t"
proof -
  assume m: "value_weak m"
  then have "sorted_keys (or_default m p)"
    using tokens_weak_or_default by (simp add: tokens_weak_def)
  moreover have "or_default m p = []" if "p \<notin> fst ` set m"
    using that by (simp add: or_default_def map_of_eq_None_iff [THEN iffD2])
  ultimately show ?thesis
    using m by (auto simp: quantity_def prune_def map_of_prune_aux value_weak_def amount_of_prune)
qed

lemma sorted_keys_map_snd: "sorted_keys (map (\<lambda>(p, inner). (p, f inner)) m) = sorted_keys m"
proof -
  have "map fst (map (\<lambda>(p, inner). (p, f inner)) m) = map fst m" by (induction m) auto
  then show ?thesis unfolding sorted_keys_def by argo
qed

lemma tokens_ok_prune: "tokens_weak inner \<Longrightarrow> tokens_ok (filter (\<lambda>(_, a). a \<noteq> 0) inner)"
  by (auto simp: tokens_ok_def tokens_weak_def list_all_iff)

lemma value_ok_prune: "value_weak m \<Longrightarrow> value_ok (prune m)"
  unfolding value_ok_def
proof
  assume m: "value_weak m"
  then show "sorted_keys (prune m)"
    by (simp add: prune_def value_weak_def sorted_keys_map_snd)
  show "list_all (\<lambda>(p, inner). length p \<le> max_key \<and> inner \<noteq> [] \<and> tokens_ok inner) (prune m)"
    using m by (auto simp: prune_def list_all_iff value_weak_def tokens_ok_prune)
qed

lemma union_value_amounts:
  assumes "value_ok a" "value_ok c"
  shows "if \<forall>p t. is_i128 (quantity a p t + quantity c p t)
    then \<exists>r. union_value [VConst (CValue a), VConst (CValue c)] = Inr (VConst (CValue r)) \<and> value_ok r \<and>
           (\<forall>p t. quantity r p t = quantity a p t + quantity c p t)
    else union_value [VConst (CValue a), VConst (CValue c)] = Inl (BuiltinFailure (ValueFun UnionValue))"
proof -
  have "(\<forall>p t. is_i128 (quantity a p t + quantity c p t)) \<longleftrightarrow>
      (\<forall>p t. p \<in> fst ` set c \<longrightarrow> t \<in> fst ` set (or_default c p) \<longrightarrow> is_i128 (quantity a p t + quantity c p t))"
  proof -
    have "is_i128 (quantity a p t + quantity c p t)"
      if "p \<notin> fst ` set c \<or> t \<notin> fst ` set (or_default c p)" for p t
    proof -
      have "quantity c p t = 0"
        using that by (auto simp: quantity_def amount_of_notin or_default_def map_of_eq_None_iff [THEN iffD2])
      then show ?thesis using quantity_i128 [OF assms(1)] by simp
    qed
    then show ?thesis by metis
  qed
  then show ?thesis
    using union_policies_amounts [OF assms [THEN value_ok_weak]]
    by (auto simp: union_value_def Let_def value_ok_prune quantity_prune)
qed

text \<open>Containment is the order of the amounts.\<close>

lemma not_has_negative: "value_ok m \<Longrightarrow> \<not> has_negative m \<Longrightarrow> 0 \<le> quantity m p t"
proof -
  assume m: "value_ok m" "\<not> has_negative m"
  show ?thesis
  proof (cases "t \<in> fst ` set (or_default m p)")
    case True
    then obtain a where a: "(t, a) \<in> set (or_default m p)" by auto
    then have "(p, or_default m p) \<in> set m"
      using m(1) or_default_cases [of m p] by (metis empty_iff list.set(1) value_ok_def)
    with a m(2) have "0 \<le> a" by (force simp: has_negative_def list_ex_iff)
    moreover have "quantity m p t = a"
      using a tokens_ok_or_default [OF m(1)] by (simp add: quantity_def amount_of_in tokens_ok_def)
    ultimately show ?thesis by simp
  qed (simp add: quantity_def amount_of_notin)
qed

lemma sub_value_iff:
  assumes "value_ok part" "value_ok super" "\<not> has_negative part" "\<not> has_negative super"
  shows "sub_value part super \<longleftrightarrow> (\<forall>p t. quantity part p t \<le> quantity super p t)"
proof
  assume sub: "sub_value part super"
  show "\<forall>p t. quantity part p t \<le> quantity super p t"
  proof (intro allI)
    fix p t
    show "quantity part p t \<le> quantity super p t"
    proof (cases "t \<in> fst ` set (or_default part p)")
      case True
      then obtain a where a: "(t, a) \<in> set (or_default part p)" by auto
      then have "(p, or_default part p) \<in> set part"
        using assms(1) or_default_cases [of part p] by (metis empty_iff list.set(1) value_ok_def)
      with sub a obtain inner where "map_of super p = Some inner" "a \<le> amount_of inner t"
        by (fastforce simp: sub_value_def list_all_iff split: option.splits)
      moreover have "quantity part p t = a"
        using a tokens_ok_or_default [OF assms(1)] by (simp add: quantity_def amount_of_in tokens_ok_def)
      ultimately show ?thesis by (simp add: quantity_def or_default_def)
    qed (use not_has_negative [OF assms(2,4)] in \<open>simp add: quantity_def amount_of_notin\<close>)
  qed
next
  assume le: "\<forall>p t. quantity part p t \<le> quantity super p t"
  have "case map_of super p of Some inner_sup \<Rightarrow>
        list_all (\<lambda>(t, a). \<not> amount_of inner_sup t < a) inner | None \<Rightarrow> False"
    if p: "(p, inner) \<in> set part" for p inner
  proof -
    have inner: "or_default part p = inner" "inner \<noteq> []" "tokens_ok inner"
      using p assms(1) by (auto simp: value_ok_def or_default_def sorted_keys_distinct list_all_iff)
    have amt: "amount_of inner t \<le> quantity super p t" for t
      using le inner by (metis quantity_def)
    obtain t where "amount_of inner t \<noteq> 0" using inner tokens_ok_nonempty by blast
    then have "0 < quantity super p t"
      using amt [of t] not_has_negative [OF assms(1,3), of p t] inner by (simp add: quantity_def)
    then obtain i where i: "map_of super p = Some i"
      by (cases "map_of super p") (simp_all add: quantity_def or_default_def amount_of_def)
    have "a \<le> amount_of i t" if "(t, a) \<in> set inner" for t a
      using that amt [of t] i inner(3) by (simp add: quantity_def or_default_def amount_of_in tokens_ok_def)
    then show ?thesis using i by (auto simp: list_all_iff not_less)
  qed
  then show "sub_value part super" by (auto simp: sub_value_def list_all_iff)
qed

text \<open>Scaling multiplies every amount and prunes.\<close>

definition scaled :: "int \<Rightarrow> value_map \<Rightarrow> value_map" where
  "scaled factor m = map (\<lambda>(p, inner). (p, map (\<lambda>(t, a). (t, a * factor)) inner)) m"

lemma sorted_keys_skip: "sorted_keys (xs @ (k, v) # ys) \<Longrightarrow> sorted_keys (xs @ ys)"
  by (auto simp: sorted_keys_append)

lemma sorted_keys_rekey: "sorted_keys (xs @ (k, v) # ys) \<longleftrightarrow> sorted_keys (xs @ (k, w) # ys)"
  by (auto simp: sorted_keys_append)

lemma scale_tokens_eq:
  "sorted_keys (xs @ ys) \<Longrightarrow> scale_tokens factor ys xs =
     (if list_all (\<lambda>(t, a). is_i128 (a * factor)) ys
      then Inr (xs @ filter (\<lambda>(_, a). a \<noteq> 0) (map (\<lambda>(t, a). (t, a * factor)) ys))
      else Inl (BuiltinFailure (ValueFun ScaleValue)))"
proof (induction factor ys xs rule: scale_tokens.induct)
  case (2 factor t a ys xs)
  then have s: "sorted_keys ((xs @ [(t, a * factor)]) @ ys)" "sorted_keys (xs @ ys)"
    using sorted_keys_rekey [of xs t a ys "a * factor"] sorted_keys_skip [of xs t a ys] by auto
  then have "sorted_keys (xs @ [(t, a * factor)])" using sorted_keys_prefix by auto
  with 2 s show ?case by (auto simp: Let_def bt_insert_last)
qed simp

lemma scale_policies_eq:
  "sorted_keys (xs @ ys) \<Longrightarrow> list_all (\<lambda>(p, inner). sorted_keys inner) ys \<Longrightarrow> scale_policies factor ys xs =
     (if list_all (\<lambda>(p, inner). list_all (\<lambda>(t, a). is_i128 (a * factor)) inner) ys
      then Inr (xs @ prune (scaled factor ys)) else Inl (BuiltinFailure (ValueFun ScaleValue)))"
proof (induction factor ys xs rule: scale_policies.induct)
  case (2 factor p inner ys xs)
  define new where "new = filter (\<lambda>(_, a). a \<noteq> 0) (map (\<lambda>(t, a). (t, a * factor)) inner)"
  have s: "sorted_keys ((xs @ [(p, new)]) @ ys)" "sorted_keys (xs @ ys)"
    using "2.prems"(1) sorted_keys_rekey [of xs p inner ys new] sorted_keys_skip [of xs p inner ys] by auto
  then have "sorted_keys (xs @ [(p, new)])" using sorted_keys_prefix by auto
  moreover have "scale_tokens factor inner [] =
      (if list_all (\<lambda>(t, a). is_i128 (a * factor)) inner then Inr new
       else Inl (BuiltinFailure (ValueFun ScaleValue)))"
    using "2.prems"(2) scale_tokens_eq [of "[]" inner factor] by (simp add: new_def)
  moreover have "prune (scaled factor ((p, inner) # ys)) =
      (if new = [] then prune (scaled factor ys) else (p, new) # prune (scaled factor ys))"
    by (simp add: prune_def scaled_def new_def)
  ultimately show ?case
    using "2.IH" [of new] "2.prems"(2) s by (simp add: bt_insert_last)
qed (simp add: prune_def scaled_def)

lemma amount_of_scaled: "amount_of (map (\<lambda>(t, a). (t, a * factor)) inner) t = amount_of inner t * factor"
  by (induction inner) (auto simp: amount_of_def)

lemma quantity_scaled: "quantity (scaled factor m) p t = quantity m p t * factor"
proof -
  have "or_default (scaled factor m) p = map (\<lambda>(t, a). (t, a * factor)) (or_default m p)"
    by (induction m) (auto simp: scaled_def or_default_def)
  then show ?thesis by (simp add: quantity_def amount_of_scaled)
qed

lemma value_weak_scaled:
  assumes "value_ok m" "list_all (\<lambda>(p, inner). list_all (\<lambda>(t, a). is_i128 (a * factor)) inner) m"
  shows "value_weak (scaled factor m)"
proof -
  have "tokens_weak (map (\<lambda>(t, a). (t, a * factor)) inner)" if "(p, inner) \<in> set m" for p inner
    using that assms by (fastforce simp: tokens_weak_def tokens_ok_def value_ok_def list_all_iff sorted_keys_map_snd)
  then show ?thesis
    using assms by (auto simp: value_weak_def value_ok_def scaled_def sorted_keys_map_snd list_all_iff)
qed

lemma scaled_in_range:
  assumes "value_ok m"
  shows "list_all (\<lambda>(p, inner). list_all (\<lambda>(t, a). is_i128 (a * factor)) inner) m \<longleftrightarrow>
           (\<forall>p t. is_i128 (quantity m p t * factor))"
proof
  assume all: "list_all (\<lambda>(p, inner). list_all (\<lambda>(t, a). is_i128 (a * factor)) inner) m"
  show "\<forall>p t. is_i128 (quantity m p t * factor)"
    using quantity_i128 [OF value_ok_prune [OF value_weak_scaled [OF assms all]]]
      quantity_prune [OF value_weak_scaled [OF assms all]] by (simp add: quantity_scaled)
next
  assume all: "\<forall>p t. is_i128 (quantity m p t * factor)"
  have "is_i128 (a * factor)" if "(p, inner) \<in> set m" "(t, a) \<in> set inner" for p inner t a
  proof -
    have "quantity m p t = a"
      using that assms
      by (auto simp: quantity_def or_default_def value_ok_def tokens_ok_def sorted_keys_distinct list_all_iff
          amount_of_def)
    then show ?thesis using all by metis
  qed
  then show "list_all (\<lambda>(p, inner). list_all (\<lambda>(t, a). is_i128 (a * factor)) inner) m"
    by (auto simp: list_all_iff)
qed

text \<open>Setting one amount, where zero deletes.\<close>

lemma list_all_bt_remove: "list_all P xs \<Longrightarrow> list_all P (bt_remove k xs)"
  using set_bt_remove [of k xs] by (auto simp: list_all_iff)

lemma amount_of_bt_remove:
  "sorted_keys i \<Longrightarrow> amount_of (bt_remove t i) s = (if s = t then 0 else amount_of i s)"
  by (simp add: amount_of_def map_of_bt_remove)

lemma or_default_bt_remove:
  "sorted_keys m \<Longrightarrow> or_default (bt_remove p m) q = (if q = p then [] else or_default m q)"
  by (simp add: or_default_def map_of_bt_remove)

lemma delete_coin_amounts:
  assumes "value_ok m"
  shows "value_ok (delete_coin p t m)"
    "quantity (delete_coin p t m) q s = (if q = p \<and> s = t then 0 else quantity m q s)"
proof -
  have m: "sorted_keys m" using assms by (simp add: value_ok_def)
  have i: "tokens_ok i" "length p \<le> max_key" if "map_of m p = Some i" for i
    using map_of_SomeD [OF that] assms by (auto simp: value_ok_def list_all_iff)
  then have inner: "tokens_ok (bt_remove t i)" "sorted_keys i" if "map_of m p = Some i" for i
    using that by (simp_all add: tokens_ok_def list_all_bt_remove)
  show "value_ok (delete_coin p t m)"
    using assms i(2) inner
    by (auto simp: delete_coin_def value_ok_def Let_def list_all_bt_insert list_all_bt_remove split: option.split)
  show "quantity (delete_coin p t m) q s = (if q = p \<and> s = t then 0 else quantity m q s)"
  proof (cases "map_of m p")
    case None
    then show ?thesis by (simp add: delete_coin_def quantity_def or_default_def amount_of_def)
  next
    case (Some i)
    then have "or_default m p = i" by (simp add: or_default_def)
    moreover have "amount_of i s = 0" if "bt_remove t i = []" "s \<noteq> t"
      using amount_of_bt_remove [OF inner(2) [OF Some], of t s] that by (simp add: amount_of_def)
    ultimately show ?thesis
      using Some inner(2) m
      by (auto simp: delete_coin_def quantity_def Let_def amount_of_bt_remove or_default_bt_remove amount_of_notin)
  qed
qed

lemma negative_quantity: "value_ok m \<Longrightarrow> has_negative m \<Longrightarrow> \<exists>p t. quantity m p t < 0"
proof -
  assume m: "value_ok m" "has_negative m"
  then obtain p inner t a where "(p, inner) \<in> set m" "(t, a) \<in> set inner" "a < 0"
    by (auto simp: has_negative_def list_ex_iff)
  moreover from this m have "or_default m p = inner" "amount_of inner t = a"
    by (auto simp: or_default_def value_ok_def tokens_ok_def list_all_iff sorted_keys_distinct amount_of_in)
  ultimately show ?thesis by (intro exI [of _ p] exI [of _ t]) (simp add: quantity_def)
qed

lemma insert_amounts:
  assumes "value_ok m" "n \<noteq> 0" "is_i128 n" "length p \<le> max_key" "length t \<le> max_key"
  defines "r \<equiv> bt_insert p (bt_insert t n (or_default m p)) m"
  shows "value_ok r" "quantity r q s = (if q = p \<and> s = t then n else quantity m q s)"
proof -
  have "tokens_ok (bt_insert t n (or_default m p))"
    using assms tokens_ok_or_default [OF assms(1), of p] by (simp add: tokens_ok_def list_all_bt_insert)
  moreover have "bt_insert t n (or_default m p) \<noteq> []"
    by (cases "or_default m p") (auto split: if_splits)
  ultimately show "value_ok r"
    using assms by (simp add: value_ok_def list_all_bt_insert)
  show "quantity r q s = (if q = p \<and> s = t then n else quantity m q s)"
    by (simp add: r_def quantity_def)
qed

end
