(* ===== verification/Uplc_Bls.thy ===== *)
theory Uplc_Bls
  imports Uplc_Builtins
begin

text \<open>
  The builtins on the curve BLS12-381 (\<^verbatim>\<open>builtin/bls.rs\<close>).  Points are stored compressed, 48 bytes
  for the first group and 96 for the second, and decompressed when a builtin uses them.  The group
  operations are those of the \<^verbatim>\<open>blst\<close> library: records of functions that the denotations take as
  an argument, over any types of points.  The elements of the target field are handled as the bytes
  they occupy in memory.  The per-thread cache of decompressed points is modelled apart from the
  denotations, which use the uncached function; the lemma at the end says the cache is
  transparent.
\<close>

record 'p blst_group =
  blst_uncompress :: "byte list \<Rightarrow> 'p option"
  blst_in_group :: "'p \<Rightarrow> bool"
  blst_compress :: "'p \<Rightarrow> byte list"
  blst_add_or_double :: "'p \<Rightarrow> 'p \<Rightarrow> 'p"
  blst_cneg :: "'p \<Rightarrow> 'p"
  blst_mult :: "'p \<Rightarrow> byte list \<Rightarrow> 'p"
  blst_is_equal :: "'p \<Rightarrow> 'p \<Rightarrow> bool"
  blst_hash_to :: "byte list \<Rightarrow> byte list \<Rightarrow> 'p"
  blst_identity :: 'p

record ('p, 'q) blst =
  blst_p1 :: "'p blst_group"
  blst_p2 :: "'q blst_group"
  blst_miller_loop :: "'p \<Rightarrow> 'q \<Rightarrow> byte list"
  blst_fp12_mul :: "byte list \<Rightarrow> byte list \<Rightarrow> byte list"
  blst_fp12_finalverify :: "byte list \<Rightarrow> byte list \<Rightarrow> bool"

definition g1_compressed_bytes :: nat where "g1_compressed_bytes = 48"
definition g2_compressed_bytes :: nat where "g2_compressed_bytes = 96"
definition max_hash_to_group_dst_bytes :: nat where "max_hash_to_group_dst_bytes = 255"
definition bls_decompress_cache_cap :: nat where "bls_decompress_cache_cap = 1024"


section \<open>Scalars\<close>

definition bls_r_be_bytes :: "byte list" where
  "bls_r_be_bytes =
     [0x73, 0xed, 0xa7, 0x53, 0x29, 0x9d, 0x7d, 0x48, 0x33, 0x39, 0xd8, 0x08, 0x09, 0xa1, 0xd8, 0x05,
      0x53, 0xbd, 0xa4, 0x02, 0xff, 0xfe, 0x5b, 0xfe, 0xff, 0xff, 0xff, 0xff, 0x00, 0x00, 0x00, 0x01]"

definition bls_scalar_r :: int where
  "bls_scalar_r = from_bytes_be bls_r_be_bytes"

definition bigint_in_msm_scalar_range :: "int \<Rightarrow> bool" where
  "bigint_in_msm_scalar_range n =
     (if n = 0 then True else if 0 < n then \<bar>n\<bar> < 2 ^ 4095 else \<bar>n\<bar> \<le> 2 ^ 4095)"

text \<open>The low 32 bytes of the reduced scalar, least significant first.\<close>

definition bigint_to_blst_scalar :: "int \<Rightarrow> byte list" where
  "bigint_to_blst_scalar n =
     (let r = bls_scalar_r; reduced = (n smod r + r) smod r; le = take 32 (rev (to_bytes_be reduced))
      in le @ replicate (32 - length le) 0)"


section \<open>Arguments\<close>

definition unwrap_ml_bytes :: "builtin_id \<Rightarrow> cek_value \<Rightarrow> byte list res" where
  "unwrap_ml_bytes b v = (case v of VConst (CMlResult bs) \<Rightarrow> Inr bs | _ \<Rightarrow> Inl (BuiltinTypeError b))"

definition unwrap_scalar_list :: "builtin_id \<Rightarrow> cek_value \<Rightarrow> int list res" where
  "unwrap_scalar_list b v =
     (case v of
        VConst (CProtoList elem_type elems) \<Rightarrow>
          if elem_type \<noteq> TyInteger then Inl (BuiltinTypeError b)
          else rmap (\<lambda>c. case c of CInteger i \<Rightarrow> Inr i | _ \<Rightarrow> Inl (BuiltinTypeError b)) elems
      | _ \<Rightarrow> Inl (BuiltinTypeError b))"


section \<open>The first group\<close>

definition unwrap_g1_bytes :: "builtin_id \<Rightarrow> cek_value \<Rightarrow> byte list res" where
  "unwrap_g1_bytes b v = (case v of VConst (CG1 bs) \<Rightarrow> Inr bs | _ \<Rightarrow> Inl (BuiltinTypeError b))"

definition unwrap_g1_list :: "builtin_id \<Rightarrow> cek_value \<Rightarrow> byte list list res" where
  "unwrap_g1_list b v =
     (case v of
        VConst (CProtoList elem_type elems) \<Rightarrow>
          if elem_type \<noteq> TyG1 then Inl (BuiltinTypeError b)
          else rmap (\<lambda>c. case c of CG1 bs \<Rightarrow> Inr bs | _ \<Rightarrow> Inl (BuiltinTypeError b)) elems
      | _ \<Rightarrow> Inl (BuiltinTypeError b))"

definition uncompress_g1 :: "'p blst_group \<Rightarrow> builtin_id \<Rightarrow> byte list \<Rightarrow> 'p res" where
  "uncompress_g1 g b bs =
     (if length bs \<noteq> g1_compressed_bytes then Inl (BuiltinFailure b)
      else case blst_uncompress g bs of
        None \<Rightarrow> Inl (BuiltinFailure b)
      | Some p \<Rightarrow> if blst_in_group g p then Inr p else Inl (BuiltinFailure b))"

definition decompress_g1_trusted_uncached :: "'p blst_group \<Rightarrow> byte list \<Rightarrow> 'p res" where
  "decompress_g1_trusted_uncached g bs =
     (case blst_uncompress g bs of None \<Rightarrow> Inl Internal | Some p \<Rightarrow> Inr p)"

text \<open>With the cache: a hit is returned, a miss is computed and stored after clearing a full cache.\<close>

definition decompress_g1_trusted ::
  "'p blst_group \<Rightarrow> (byte list \<times> 'p) list \<Rightarrow> byte list \<Rightarrow> 'p res \<times> (byte list \<times> 'p) list" where
  "decompress_g1_trusted g cache bs =
     (case map_of cache bs of
        Some p \<Rightarrow> (Inr p, cache)
      | None \<Rightarrow>
          (case decompress_g1_trusted_uncached g bs of
             Inl e \<Rightarrow> (Inl e, cache)
           | Inr p \<Rightarrow> (Inr p, (bs, p) # (if bls_decompress_cache_cap \<le> length cache then [] else cache))))"

definition take_one_g1 :: "'p blst_group \<Rightarrow> builtin_id \<Rightarrow> cek_value list \<Rightarrow> 'p res" where
  "take_one_g1 g b args =
     rbind (next_arg 0 args) (\<lambda>v. rbind (unwrap_g1_bytes b v) (decompress_g1_trusted_uncached g))"

definition take_two_g1 :: "'p blst_group \<Rightarrow> builtin_id \<Rightarrow> cek_value list \<Rightarrow> ('p \<times> 'p) res" where
  "take_two_g1 g b args =
     rbind (next_arg 0 args) (\<lambda>v. rbind (unwrap_g1_bytes b v) (\<lambda>a_bytes.
     rbind (next_arg 1 args) (\<lambda>v. rbind (unwrap_g1_bytes b v) (\<lambda>b_bytes.
     rbind (decompress_g1_trusted_uncached g a_bytes) (\<lambda>x.
     rbind (decompress_g1_trusted_uncached g b_bytes) (\<lambda>y. Inr (x, y)))))))"

definition g1_to_value :: "'p blst_group \<Rightarrow> 'p \<Rightarrow> cek_value" where
  "g1_to_value g p = VConst (CG1 (blst_compress g p))"

definition g1_binop ::
  "'p blst_group \<Rightarrow> builtin_id \<Rightarrow> ('p \<Rightarrow> 'p \<Rightarrow> 'p) \<Rightarrow> cek_value list \<Rightarrow> cek_value res" where
  "g1_binop g b f args = rbind (take_two_g1 g b args) (\<lambda>(x, y). Inr (g1_to_value g (f x y)))"

definition g1_unop :: "'p blst_group \<Rightarrow> builtin_id \<Rightarrow> ('p \<Rightarrow> 'p) \<Rightarrow> cek_value list \<Rightarrow> cek_value res" where
  "g1_unop g b f args = rbind (take_one_g1 g b args) (\<lambda>x. Inr (g1_to_value g (f x)))"

definition g1_scalar_mul :: "'p blst_group \<Rightarrow> builtin_id \<Rightarrow> cek_value list \<Rightarrow> cek_value res" where
  "g1_scalar_mul g b args =
     rbind (arg_integer b 0 args) (\<lambda>s.
     rbind (next_arg 1 args) (\<lambda>v. rbind (unwrap_g1_bytes b v) (\<lambda>p_bytes.
     rbind (decompress_g1_trusted_uncached g p_bytes) (\<lambda>p.
       Inr (g1_to_value g (blst_mult g p (bigint_to_blst_scalar s)))))))"

definition g1_eq :: "'p blst_group \<Rightarrow> builtin_id \<Rightarrow> cek_value list \<Rightarrow> cek_value res" where
  "g1_eq g b args = rbind (take_two_g1 g b args) (\<lambda>(x, y). Inr (VConst (CBool (blst_is_equal g x y))))"

definition g1_hash_to_group :: "'p blst_group \<Rightarrow> builtin_id \<Rightarrow> cek_value list \<Rightarrow> cek_value res" where
  "g1_hash_to_group g b args =
     rbind (arg_bytes b 0 args) (\<lambda>msg.
     rbind (arg_bytes b 1 args) (\<lambda>dst.
       if max_hash_to_group_dst_bytes < length dst then Inl (BuiltinFailure b)
       else Inr (g1_to_value g (blst_hash_to g msg dst))))"

definition g1_compress :: "'p blst_group \<Rightarrow> builtin_id \<Rightarrow> cek_value list \<Rightarrow> cek_value res" where
  "g1_compress g b args =
     rbind (take_one_g1 g b args) (\<lambda>p. Inr (VConst (CByteString (blst_compress g p))))"

definition g1_uncompress :: "'p blst_group \<Rightarrow> builtin_id \<Rightarrow> cek_value list \<Rightarrow> cek_value res" where
  "g1_uncompress g b args =
     rbind (arg_bytes b 0 args) (\<lambda>bs.
       if length bs \<noteq> g1_compressed_bytes then Inl (BuiltinFailure b)
       else rbind (uncompress_g1 g b bs) (\<lambda>_. Inr (VConst (CG1 bs))))"

fun g1_msm_loop :: "'p blst_group \<Rightarrow> builtin_id \<Rightarrow> (int \<times> byte list) list \<Rightarrow> 'p \<Rightarrow> 'p res" where
  "g1_msm_loop g b [] acc = Inr acc"
| "g1_msm_loop g b ((s, p_bytes) # rest) acc =
     (if \<not> bigint_in_msm_scalar_range s then Inl (BuiltinFailure b)
      else rbind (decompress_g1_trusted_uncached g p_bytes) (\<lambda>p.
        g1_msm_loop g b rest (blst_add_or_double g acc (blst_mult g p (bigint_to_blst_scalar s)))))"

definition g1_multi_scalar_mul :: "'p blst_group \<Rightarrow> builtin_id \<Rightarrow> cek_value list \<Rightarrow> cek_value res" where
  "g1_multi_scalar_mul g b args =
     rbind (next_arg 0 args) (\<lambda>scalars_val.
     rbind (next_arg 1 args) (\<lambda>points_val.
     rbind (unwrap_scalar_list b scalars_val) (\<lambda>scalars.
     rbind (unwrap_g1_list b points_val) (\<lambda>points.
     rbind (g1_msm_loop g b (zip scalars points) (blst_identity g)) (\<lambda>acc.
       Inr (g1_to_value g acc))))))"


section \<open>The second group\<close>

definition unwrap_g2_bytes :: "builtin_id \<Rightarrow> cek_value \<Rightarrow> byte list res" where
  "unwrap_g2_bytes b v = (case v of VConst (CG2 bs) \<Rightarrow> Inr bs | _ \<Rightarrow> Inl (BuiltinTypeError b))"

definition unwrap_g2_list :: "builtin_id \<Rightarrow> cek_value \<Rightarrow> byte list list res" where
  "unwrap_g2_list b v =
     (case v of
        VConst (CProtoList elem_type elems) \<Rightarrow>
          if elem_type \<noteq> TyG2 then Inl (BuiltinTypeError b)
          else rmap (\<lambda>c. case c of CG2 bs \<Rightarrow> Inr bs | _ \<Rightarrow> Inl (BuiltinTypeError b)) elems
      | _ \<Rightarrow> Inl (BuiltinTypeError b))"

definition uncompress_g2 :: "'p blst_group \<Rightarrow> builtin_id \<Rightarrow> byte list \<Rightarrow> 'p res" where
  "uncompress_g2 g b bs =
     (if length bs \<noteq> g2_compressed_bytes then Inl (BuiltinFailure b)
      else case blst_uncompress g bs of
        None \<Rightarrow> Inl (BuiltinFailure b)
      | Some p \<Rightarrow> if blst_in_group g p then Inr p else Inl (BuiltinFailure b))"

definition decompress_g2_trusted_uncached :: "'p blst_group \<Rightarrow> byte list \<Rightarrow> 'p res" where
  "decompress_g2_trusted_uncached g bs =
     (case blst_uncompress g bs of None \<Rightarrow> Inl Internal | Some p \<Rightarrow> Inr p)"

definition decompress_g2_trusted ::
  "'p blst_group \<Rightarrow> (byte list \<times> 'p) list \<Rightarrow> byte list \<Rightarrow> 'p res \<times> (byte list \<times> 'p) list" where
  "decompress_g2_trusted g cache bs =
     (case map_of cache bs of
        Some p \<Rightarrow> (Inr p, cache)
      | None \<Rightarrow>
          (case decompress_g2_trusted_uncached g bs of
             Inl e \<Rightarrow> (Inl e, cache)
           | Inr p \<Rightarrow> (Inr p, (bs, p) # (if bls_decompress_cache_cap \<le> length cache then [] else cache))))"

definition take_one_g2 :: "'p blst_group \<Rightarrow> builtin_id \<Rightarrow> cek_value list \<Rightarrow> 'p res" where
  "take_one_g2 g b args =
     rbind (next_arg 0 args) (\<lambda>v. rbind (unwrap_g2_bytes b v) (decompress_g2_trusted_uncached g))"

definition take_two_g2 :: "'p blst_group \<Rightarrow> builtin_id \<Rightarrow> cek_value list \<Rightarrow> ('p \<times> 'p) res" where
  "take_two_g2 g b args =
     rbind (next_arg 0 args) (\<lambda>v. rbind (unwrap_g2_bytes b v) (\<lambda>a_bytes.
     rbind (next_arg 1 args) (\<lambda>v. rbind (unwrap_g2_bytes b v) (\<lambda>b_bytes.
     rbind (decompress_g2_trusted_uncached g a_bytes) (\<lambda>x.
     rbind (decompress_g2_trusted_uncached g b_bytes) (\<lambda>y. Inr (x, y)))))))"

definition g2_to_value :: "'p blst_group \<Rightarrow> 'p \<Rightarrow> cek_value" where
  "g2_to_value g p = VConst (CG2 (blst_compress g p))"

definition g2_binop ::
  "'p blst_group \<Rightarrow> builtin_id \<Rightarrow> ('p \<Rightarrow> 'p \<Rightarrow> 'p) \<Rightarrow> cek_value list \<Rightarrow> cek_value res" where
  "g2_binop g b f args = rbind (take_two_g2 g b args) (\<lambda>(x, y). Inr (g2_to_value g (f x y)))"

definition g2_unop :: "'p blst_group \<Rightarrow> builtin_id \<Rightarrow> ('p \<Rightarrow> 'p) \<Rightarrow> cek_value list \<Rightarrow> cek_value res" where
  "g2_unop g b f args = rbind (take_one_g2 g b args) (\<lambda>x. Inr (g2_to_value g (f x)))"

definition g2_scalar_mul :: "'p blst_group \<Rightarrow> builtin_id \<Rightarrow> cek_value list \<Rightarrow> cek_value res" where
  "g2_scalar_mul g b args =
     rbind (arg_integer b 0 args) (\<lambda>s.
     rbind (next_arg 1 args) (\<lambda>v. rbind (unwrap_g2_bytes b v) (\<lambda>p_bytes.
     rbind (decompress_g2_trusted_uncached g p_bytes) (\<lambda>p.
       Inr (g2_to_value g (blst_mult g p (bigint_to_blst_scalar s)))))))"

definition g2_eq :: "'p blst_group \<Rightarrow> builtin_id \<Rightarrow> cek_value list \<Rightarrow> cek_value res" where
  "g2_eq g b args = rbind (take_two_g2 g b args) (\<lambda>(x, y). Inr (VConst (CBool (blst_is_equal g x y))))"

definition g2_hash_to_group :: "'p blst_group \<Rightarrow> builtin_id \<Rightarrow> cek_value list \<Rightarrow> cek_value res" where
  "g2_hash_to_group g b args =
     rbind (arg_bytes b 0 args) (\<lambda>msg.
     rbind (arg_bytes b 1 args) (\<lambda>dst.
       if max_hash_to_group_dst_bytes < length dst then Inl (BuiltinFailure b)
       else Inr (g2_to_value g (blst_hash_to g msg dst))))"

definition g2_compress :: "'p blst_group \<Rightarrow> builtin_id \<Rightarrow> cek_value list \<Rightarrow> cek_value res" where
  "g2_compress g b args =
     rbind (take_one_g2 g b args) (\<lambda>p. Inr (VConst (CByteString (blst_compress g p))))"

definition g2_uncompress :: "'p blst_group \<Rightarrow> builtin_id \<Rightarrow> cek_value list \<Rightarrow> cek_value res" where
  "g2_uncompress g b args =
     rbind (arg_bytes b 0 args) (\<lambda>bs.
       if length bs \<noteq> g2_compressed_bytes then Inl (BuiltinFailure b)
       else rbind (uncompress_g2 g b bs) (\<lambda>_. Inr (VConst (CG2 bs))))"

fun g2_msm_loop :: "'p blst_group \<Rightarrow> builtin_id \<Rightarrow> (int \<times> byte list) list \<Rightarrow> 'p \<Rightarrow> 'p res" where
  "g2_msm_loop g b [] acc = Inr acc"
| "g2_msm_loop g b ((s, p_bytes) # rest) acc =
     (if \<not> bigint_in_msm_scalar_range s then Inl (BuiltinFailure b)
      else rbind (decompress_g2_trusted_uncached g p_bytes) (\<lambda>p.
        g2_msm_loop g b rest (blst_add_or_double g acc (blst_mult g p (bigint_to_blst_scalar s)))))"

definition g2_multi_scalar_mul :: "'p blst_group \<Rightarrow> builtin_id \<Rightarrow> cek_value list \<Rightarrow> cek_value res" where
  "g2_multi_scalar_mul g b args =
     rbind (next_arg 0 args) (\<lambda>scalars_val.
     rbind (next_arg 1 args) (\<lambda>points_val.
     rbind (unwrap_scalar_list b scalars_val) (\<lambda>scalars.
     rbind (unwrap_g2_list b points_val) (\<lambda>points.
     rbind (g2_msm_loop g b (zip scalars points) (blst_identity g)) (\<lambda>acc.
       Inr (g2_to_value g acc))))))"


section \<open>Pairings\<close>

definition miller_loop :: "('p, 'q) blst \<Rightarrow> builtin_id \<Rightarrow> cek_value list \<Rightarrow> cek_value res" where
  "miller_loop bl b args =
     rbind (next_arg 0 args) (\<lambda>v. rbind (unwrap_g1_bytes b v) (\<lambda>g1_bytes.
     rbind (next_arg 1 args) (\<lambda>v. rbind (unwrap_g2_bytes b v) (\<lambda>g2_bytes.
     rbind (decompress_g1_trusted_uncached (blst_p1 bl) g1_bytes) (\<lambda>p.
     rbind (decompress_g2_trusted_uncached (blst_p2 bl) g2_bytes) (\<lambda>q.
       Inr (VConst (CMlResult (blst_miller_loop bl p q)))))))))"

definition mul_ml :: "('p, 'q) blst \<Rightarrow> builtin_id \<Rightarrow> cek_value list \<Rightarrow> cek_value res" where
  "mul_ml bl b args =
     rbind (next_arg 0 args) (\<lambda>v. rbind (unwrap_ml_bytes b v) (\<lambda>x.
     rbind (next_arg 1 args) (\<lambda>v. rbind (unwrap_ml_bytes b v) (\<lambda>y.
       Inr (VConst (CMlResult (blst_fp12_mul bl x y)))))))"

definition final_verify :: "('p, 'q) blst \<Rightarrow> builtin_id \<Rightarrow> cek_value list \<Rightarrow> cek_value res" where
  "final_verify bl b args =
     rbind (next_arg 0 args) (\<lambda>v. rbind (unwrap_ml_bytes b v) (\<lambda>x.
     rbind (next_arg 1 args) (\<lambda>v. rbind (unwrap_ml_bytes b v) (\<lambda>y.
       Inr (VConst (CBool (blst_fp12_finalverify bl x y)))))))"

primrec denote_bls :: "('p, 'q) blst \<Rightarrow> cek_value list \<Rightarrow> bls_fun \<Rightarrow> cek_value res" where
  "denote_bls bl args Bls12_381_G1_Add =
     g1_binop (blst_p1 bl) (BlsFun Bls12_381_G1_Add) (blst_add_or_double (blst_p1 bl)) args"
| "denote_bls bl args Bls12_381_G1_Neg =
     g1_unop (blst_p1 bl) (BlsFun Bls12_381_G1_Neg) (blst_cneg (blst_p1 bl)) args"
| "denote_bls bl args Bls12_381_G1_ScalarMul =
     g1_scalar_mul (blst_p1 bl) (BlsFun Bls12_381_G1_ScalarMul) args"
| "denote_bls bl args Bls12_381_G1_Equal = g1_eq (blst_p1 bl) (BlsFun Bls12_381_G1_Equal) args"
| "denote_bls bl args Bls12_381_G1_Compress =
     g1_compress (blst_p1 bl) (BlsFun Bls12_381_G1_Compress) args"
| "denote_bls bl args Bls12_381_G1_Uncompress =
     g1_uncompress (blst_p1 bl) (BlsFun Bls12_381_G1_Uncompress) args"
| "denote_bls bl args Bls12_381_G1_HashToGroup =
     g1_hash_to_group (blst_p1 bl) (BlsFun Bls12_381_G1_HashToGroup) args"
| "denote_bls bl args Bls12_381_G2_Add =
     g2_binop (blst_p2 bl) (BlsFun Bls12_381_G2_Add) (blst_add_or_double (blst_p2 bl)) args"
| "denote_bls bl args Bls12_381_G2_Neg =
     g2_unop (blst_p2 bl) (BlsFun Bls12_381_G2_Neg) (blst_cneg (blst_p2 bl)) args"
| "denote_bls bl args Bls12_381_G2_ScalarMul =
     g2_scalar_mul (blst_p2 bl) (BlsFun Bls12_381_G2_ScalarMul) args"
| "denote_bls bl args Bls12_381_G2_Equal = g2_eq (blst_p2 bl) (BlsFun Bls12_381_G2_Equal) args"
| "denote_bls bl args Bls12_381_G2_Compress =
     g2_compress (blst_p2 bl) (BlsFun Bls12_381_G2_Compress) args"
| "denote_bls bl args Bls12_381_G2_Uncompress =
     g2_uncompress (blst_p2 bl) (BlsFun Bls12_381_G2_Uncompress) args"
| "denote_bls bl args Bls12_381_G2_HashToGroup =
     g2_hash_to_group (blst_p2 bl) (BlsFun Bls12_381_G2_HashToGroup) args"
| "denote_bls bl args Bls12_381_MillerLoop = miller_loop bl (BlsFun Bls12_381_MillerLoop) args"
| "denote_bls bl args Bls12_381_MulMlResult = mul_ml bl (BlsFun Bls12_381_MulMlResult) args"
| "denote_bls bl args Bls12_381_FinalVerify = final_verify bl (BlsFun Bls12_381_FinalVerify) args"
| "denote_bls bl args Bls12_381_G1_MultiScalarMul =
     g1_multi_scalar_mul (blst_p1 bl) (BlsFun Bls12_381_G1_MultiScalarMul) args"
| "denote_bls bl args Bls12_381_G2_MultiScalarMul =
     g2_multi_scalar_mul (blst_p2 bl) (BlsFun Bls12_381_G2_MultiScalarMul) args"


section \<open>The cache is transparent\<close>

definition points_cached :: "(byte list \<Rightarrow> 'p res) \<Rightarrow> (byte list \<times> 'p) list \<Rightarrow> bool" where
  "points_cached f cache \<longleftrightarrow> length cache \<le> bls_decompress_cache_cap \<and>
     (\<forall>(bs, p) \<in> set cache. f bs = Inr p)"

lemma decompress_g1_transparent:
  assumes "points_cached (decompress_g1_trusted_uncached g) cache"
  shows "fst (decompress_g1_trusted g cache bs) = decompress_g1_trusted_uncached g bs"
    and "points_cached (decompress_g1_trusted_uncached g) (snd (decompress_g1_trusted g cache bs))"
  using assms
  by (cases "map_of cache bs"; auto simp: decompress_g1_trusted_def points_cached_def
      bls_decompress_cache_cap_def split: sum.split dest!: map_of_SomeD)+

lemma decompress_g2_transparent:
  assumes "points_cached (decompress_g2_trusted_uncached g) cache"
  shows "fst (decompress_g2_trusted g cache bs) = decompress_g2_trusted_uncached g bs"
    and "points_cached (decompress_g2_trusted_uncached g) (snd (decompress_g2_trusted g cache bs))"
  using assms
  by (cases "map_of cache bs"; auto simp: decompress_g2_trusted_def points_cached_def
      bls_decompress_cache_cap_def split: sum.split dest!: map_of_SomeD)+


section \<open>The scalar handed to the library\<close>

lemma length_le_digits_bound: "n < 256 ^ k \<Longrightarrow> length (le_digits n) \<le> k"
proof (induction k arbitrary: n)
  case (Suc k)
  then have "n div 256 < 256 ^ k" by (simp add: less_mult_imp_div_less mult.commute)
  with Suc.IH [of "n div 256"] show ?case by (subst le_digits.simps) simp
qed (simp add: le_digits.simps)

lemma le_nat_pad: "le_nat (xs @ replicate n 0) = le_nat xs"
  by (induction xs) (induction n, simp_all)

lemma bls_scalar_r_eq:
  "bls_scalar_r = 0x73eda753299d7d483339d80809a1d80553bda402fffe5bfeffffffff00000001"
  by (simp add: bls_scalar_r_def bls_r_be_bytes_def from_bytes_be_def)

lemma blst_scalar_correct:
  "length (bigint_to_blst_scalar n) = 32 \<and>
   int (le_nat (bigint_to_blst_scalar n)) = n mod bls_scalar_r"
proof -
  define m where "m = nat (n mod bls_scalar_r)"
  have m: "int m = n mod bls_scalar_r" "m < 256 ^ 32"
    by (auto simp: m_def bls_scalar_r_eq nat_less_iff intro: less_trans [OF pos_mod_bound])
  have red: "(n smod bls_scalar_r + bls_scalar_r) smod bls_scalar_r = int m"
    using m(1) by (simp add: smod_to_mod bls_scalar_r_eq)
  have le: "length (rev (to_bytes_be (int m))) \<le> 32" "le_nat (rev (to_bytes_be (int m))) = m"
    using length_le_digits_bound [OF m(2)] by (auto simp: to_bytes_be_def le_nat_le_digits)
  then have "bigint_to_blst_scalar n =
      rev (to_bytes_be (int m)) @ replicate (32 - length (rev (to_bytes_be (int m)))) 0"
    by (simp add: bigint_to_blst_scalar_def Let_def red)
  then show ?thesis using le m(1) by (simp add: le_nat_pad)
qed

end
