(* ===== verification/Uplc_Machine.thy ===== *)
theory Uplc_Machine
  imports Uplc_Cost Uplc_Bits Uplc_Value Uplc_Bls
begin

text \<open>
  The abstract machine (\<^verbatim>\<open>builtin/denotations.rs\<close>, \<^verbatim>\<open>builtin/dispatch.rs\<close>, \<^verbatim>\<open>machine/context.rs\<close>,
  \<^verbatim>\<open>machine/step.rs\<close>): the dispatch of builtins that gather forces and arguments, the continuation
  frames, the three kinds of state, the step function, and the two drivers, with and without a
  budget.  A driver is a loop that may run forever, so it returns an option; \<^const>\<open>None\<close> is a run
  that does not end.
\<close>

record ('p, 'q) externals =
  ext_prims :: prims
  ext_blst :: "('p, 'q) blst"


section \<open>All denotations\<close>

primrec denote ::
  "('p, 'q) externals \<Rightarrow> semantics_variant \<Rightarrow> cek_value list \<Rightarrow> trace_log \<Rightarrow> builtin_id \<Rightarrow>
     cek_value res \<times> trace_log" where
  "denote ext variant args log (IntegerFun f) = (denote_integer (ext_prims ext) args f, log)"
| "denote ext variant args log (BytesFun f) = (denote_bytes variant args f, log)"
| "denote ext variant args log (CryptoFun f) = (denote_crypto (ext_prims ext) args f, log)"
| "denote ext variant args log (StringFun f) = (denote_string args f, log)"
| "denote ext variant args log (ControlFun f) = denote_control args log f"
| "denote ext variant args log (ListFun f) = (denote_list args f, log)"
| "denote ext variant args log (DataFun f) = (denote_data (ext_prims ext) variant args f, log)"
| "denote ext variant args log (BlsFun f) = (denote_bls (ext_blst ext) args f, log)"
| "denote ext variant args log (BitsFun f) = (denote_bits variant args f, log)"
| "denote ext variant args log (ValueFun f) = (denote_value args f, log)"


section \<open>Dispatch\<close>

text \<open>What a step may change besides its state: the tracker, when there is one, and the log.\<close>

type_synonym world = "tracker option \<times> trace_log"

datatype force_outcome = Pending cek_value | Fired cek_value | Excess

definition charge_builtin ::
  "semantics_variant \<Rightarrow> builtin_id \<Rightarrow> cek_value list \<Rightarrow> tracker option \<Rightarrow> unit res \<times> tracker option" where
  "charge_builtin variant b args tr =
     (case tr of
        None \<Rightarrow> (Inr (), None)
      | Some t \<Rightarrow> apsnd Some (charge (charge_for_args (tracker_builtin_costs t) b args variant) t))"

text \<open>Charging comes before the denotation.\<close>

definition fire ::
  "('p, 'q) externals \<Rightarrow> semantics_variant \<Rightarrow> builtin_id \<Rightarrow> cek_value list \<Rightarrow> world \<Rightarrow>
     cek_value res \<times> world" where
  "fire ext variant b args w =
     (case charge_builtin variant b args (fst w) of
        (Inl e, tr) \<Rightarrow> (Inl e, (tr, snd w))
      | (Inr _, tr) \<Rightarrow> (case denote ext variant args (snd w) b of (r, log) \<Rightarrow> (r, (tr, log))))"

definition force_builtin ::
  "('p, 'q) externals \<Rightarrow> semantics_variant \<Rightarrow> builtin_id \<Rightarrow> nat \<Rightarrow> cek_value list \<Rightarrow> world \<Rightarrow>
     force_outcome res \<times> world" where
  "force_builtin ext variant b forces args w =
     (let (required_forces, required_arity) = arity_of b in
      if forces < required_forces then
        let new_forces = forces + 1 in
        if new_forces = required_forces \<and> required_arity = 0 then
          apfst (\<lambda>r. rbind r (\<lambda>v. Inr (Fired v))) (fire ext variant b [] w)
        else (Inr (Pending (VBuiltin b new_forces args)), w)
      else (Inr Excess, w))"

definition apply_builtin ::
  "('p, 'q) externals \<Rightarrow> semantics_variant \<Rightarrow> builtin_id \<Rightarrow> nat \<Rightarrow> cek_value list \<Rightarrow> cek_value \<Rightarrow> world \<Rightarrow>
     cek_value res \<times> world" where
  "apply_builtin ext variant b forces args a w =
     (let (required_forces, required_arity) = arity_of b in
      if forces < required_forces then (Inl (BuiltinTypeError b), w)
      else
        let args = args @ [a]; arg_count = length args mod 256 in
        if arg_count < required_arity then (Inr (VBuiltin b forces args), w)
        else if required_arity < arg_count then (Inl (BuiltinTypeError b), w)
        else fire ext variant b args w)"


section \<open>Frames and states\<close>

text \<open>The top of a continuation is the head of the list.  The arguments still to be evaluated in a
  constructor frame are listed with the next one first; the code keeps them reversed and pops.\<close>

datatype frame =
    AwaitArg cek_value env
  | AwaitFunTerm uterm env
  | FForce
  | ApplyValue cek_value
  | FConstr nat "uterm list" "cek_value list" env
  | FCases "uterm list" env

type_synonym kont = "frame list"

datatype state =
    Compute uterm env kont
  | Return cek_value kont
  | Done cek_value


section \<open>Steps\<close>

fun compute :: "uterm \<Rightarrow> env \<Rightarrow> kont \<Rightarrow> state res" where
  "compute (TVar i) env kont = rbind (env_lookup env i) (\<lambda>v. Inr (Return v kont))"
| "compute (TLam body) env kont = Inr (Return (VLambda body env) kont)"
| "compute (TApp f a) env kont = Inr (Compute f env (AwaitFunTerm a env # kont))"
| "compute (TConst c) env kont = Inr (Return (VConst c) kont)"
| "compute (TDelay body) env kont = Inr (Return (VDelay body env) kont)"
| "compute (TForce body) env kont = Inr (Compute body env (FForce # kont))"
| "compute TError env kont = Inl ScriptError"
| "compute (TBuiltin b) env kont =
     (let (required_forces, required_arity) = arity_of b in
      if required_forces = 0 \<and> required_arity = 0 then Inl Internal
      else Inr (Return (VBuiltin b 0 []) kont))"
| "compute (TConstr tag args) env kont =
     (case args of
        [] \<Rightarrow> Inr (Return (VConstr tag []) kont)
      | a # rest \<Rightarrow> Inr (Compute a env (FConstr tag rest [] env # kont)))"
| "compute (TCase scrutinee branches) env kont =
     Inr (Compute scrutinee env (FCases branches env # kont))"

text \<open>What a case dispatches on: a tag, the values the branch is applied to, and a bound on the number
  of branches.\<close>

definition case_constant :: "nat \<Rightarrow> uconst \<Rightarrow> (nat \<times> cek_value list \<times> nat option) res" where
  "case_constant branch_count c =
     (case c of
        CBool x \<Rightarrow> Inr (if x then 1 else 0, [], Some 2)
      | CUnit \<Rightarrow> Inr (0, [], Some 1)
      | CProtoList elem_type elements \<Rightarrow>
          (case elements of
             [] \<Rightarrow> Inr (1, [], Some 2)
           | head # tail \<Rightarrow> Inr (0, [VConst head, VConst (CProtoList elem_type tail)], Some 2))
      | CProtoPair _ _ a b \<Rightarrow> Inr (0, [VConst a, VConst b], Some 1)
      | CInteger n \<Rightarrow>
          if 0 \<le> n \<and> n < 2 ^ 64 \<and> nat n < branch_count then Inr (nat n, [], None)
          else Inl ScriptError
      | _ \<Rightarrow> Inl (MachineError CaseNonEnumerable))"

definition case_project ::
  "semantics_variant \<Rightarrow> nat \<Rightarrow> cek_value \<Rightarrow> (nat \<times> cek_value list \<times> nat option) res" where
  "case_project variant branch_count v =
     (case v of
        VConstr tag args \<Rightarrow> Inr (tag, args, None)
      | VConst c \<Rightarrow>
          if \<not> case_on_constant_available variant then Inl ScriptError
          else case_constant branch_count c
      | _ \<Rightarrow> Inl (MachineError CaseNonConstr))"

definition case_branch ::
  "semantics_variant \<Rightarrow> cek_value \<Rightarrow> uterm list \<Rightarrow> env \<Rightarrow> kont \<Rightarrow> state res" where
  "case_branch variant v branches env kont =
     rbind (case_project variant (length branches) v) (\<lambda>(tag, payload, max_branches).
       if (case max_branches of Some m \<Rightarrow> m < length branches | None \<Rightarrow> False) then Inl ScriptError
       else if tag < length branches then
         Inr (Compute (branches ! tag) env (map ApplyValue payload @ kont))
       else Inl ScriptError)"

definition apply_value ::
  "('p, 'q) externals \<Rightarrow> semantics_variant \<Rightarrow> cek_value \<Rightarrow> cek_value \<Rightarrow> kont \<Rightarrow> world \<Rightarrow>
     state res \<times> world" where
  "apply_value ext variant f a kont w =
     (case f of
        VLambda body env \<Rightarrow> (Inr (Compute body (env_extend env a) kont), w)
      | VBuiltin b forces args \<Rightarrow>
          apfst (\<lambda>r. rbind r (\<lambda>v. Inr (Return v kont))) (apply_builtin ext variant b forces args a w)
      | _ \<Rightarrow> (Inl (MachineError AppliedNonFunction), w))"

definition force_value ::
  "('p, 'q) externals \<Rightarrow> semantics_variant \<Rightarrow> cek_value \<Rightarrow> kont \<Rightarrow> world \<Rightarrow> state res \<times> world" where
  "force_value ext variant v kont w =
     (case v of
        VDelay body env \<Rightarrow> (Inr (Compute body env kont), w)
      | VBuiltin b forces args \<Rightarrow>
          apfst (\<lambda>r. rbind r (\<lambda>out. case out of
                   Pending v \<Rightarrow> Inr (Return v kont)
                 | Fired v \<Rightarrow> Inr (Return v kont)
                 | Excess \<Rightarrow> Inl (BuiltinTypeError b)))
            (force_builtin ext variant b forces args w)
      | _ \<Rightarrow> (Inl (MachineError ForcedNonDelay), w))"

fun return_compute ::
  "('p, 'q) externals \<Rightarrow> semantics_variant \<Rightarrow> cek_value \<Rightarrow> kont \<Rightarrow> world \<Rightarrow> state res \<times> world" where
  "return_compute ext variant v [] w = (Inr (Done v), w)"
| "return_compute ext variant v (AwaitFunTerm a env # kont) w =
     (Inr (Compute a env (AwaitArg v env # kont)), w)"
| "return_compute ext variant v (AwaitArg f env # kont) w = apply_value ext variant f v kont w"
| "return_compute ext variant v (FForce # kont) w = force_value ext variant v kont w"
| "return_compute ext variant v (ApplyValue a # kont) w = apply_value ext variant v a kont w"
| "return_compute ext variant v (FConstr tag rest evaluated env # kont) w =
     (case rest of
        a # rest \<Rightarrow> (Inr (Compute a env (FConstr tag rest (evaluated @ [v]) env # kont)), w)
      | [] \<Rightarrow> (Inr (Return (VConstr tag (evaluated @ [v])) kont), w))"
| "return_compute ext variant v (FCases branches env # kont) w =
     (case_branch variant v branches env kont, w)"

primrec step ::
  "('p, 'q) externals \<Rightarrow> semantics_variant \<Rightarrow> state \<Rightarrow> world \<Rightarrow> state res \<times> world" where
  "step ext variant (Compute term env kont) w = (compute term env kont, w)"
| "step ext variant (Return v kont) w = return_compute ext variant v kont w"
| "step ext variant (Done v) w = (Inl Internal, w)"


section \<open>Drivers\<close>

partial_function (option) evaluate_loop ::
  "('p, 'q) externals \<Rightarrow> state \<Rightarrow> cek_value res option" where
  "evaluate_loop ext s =
     (case fst (step ext latest_variant s (None, None)) of
        Inl e \<Rightarrow> Some (Inl e)
      | Inr s \<Rightarrow> (case s of Done v \<Rightarrow> Some (Inr v) | _ \<Rightarrow> evaluate_loop ext s))"

definition evaluate :: "('p, 'q) externals \<Rightarrow> uterm \<Rightarrow> cek_value res option" where
  "evaluate ext term = evaluate_loop ext (Compute term [] [])"

definition tick :: "state \<Rightarrow> tracker \<Rightarrow> unit res \<times> tracker" where
  "tick s t = (case s of Compute term _ _ \<Rightarrow> compute_step term t | _ \<Rightarrow> (Inr (), t))"

text \<open>One round of the budgeted loop: the charge for entering a term, then the step.\<close>

definition round_step ::
  "('p, 'q) externals \<Rightarrow> semantics_variant \<Rightarrow> state \<Rightarrow> tracker \<Rightarrow> trace_log \<Rightarrow>
     state res \<times> tracker \<times> trace_log" where
  "round_step ext variant s t log =
     (case tick s t of
        (Inl e, t) \<Rightarrow> (Inl e, t, log)
      | (Inr _, t) \<Rightarrow>
          (case step ext variant s (Some t, log) of (r, (tr, log)) \<Rightarrow>
             (r, (case tr of Some t \<Rightarrow> t | None \<Rightarrow> t), log)))"

partial_function (option) budget_loop ::
  "('p, 'q) externals \<Rightarrow> semantics_variant \<Rightarrow> state \<Rightarrow> tracker \<Rightarrow> trace_log \<Rightarrow>
     (cek_value res \<times> tracker \<times> trace_log) option" where
  "budget_loop ext variant s t log =
     (case round_step ext variant s t log of
        (Inl e, t, log) \<Rightarrow> Some (Inl e, t, log)
      | (Inr s, t, log) \<Rightarrow>
          (case s of
             Done v \<Rightarrow>
               (case flush t of
                  (Inl e, t) \<Rightarrow> Some (Inl e, t, log)
                | (Inr _, t) \<Rightarrow> Some (Inr v, t, log))
           | _ \<Rightarrow> budget_loop ext variant s t log))"

definition evaluate_with_budget ::
  "('p, 'q) externals \<Rightarrow> semantics_variant \<Rightarrow> uterm \<Rightarrow> tracker \<Rightarrow> trace_log \<Rightarrow>
     (cek_value res \<times> tracker \<times> trace_log) option" where
  "evaluate_with_budget ext variant term t log = budget_loop ext variant (Compute term [] []) t log"

end
