(* ===== verification/Driver.thy ===== *)
theory Driver
  imports Prelude
begin

text \<open>
  Driver loops: a loop that applies a step until the step gives a result.  The first interface has the
  loop, its step and the two laws by which a partial function is known, its unfolding and its
  induction; from them follow termination by a well-founded relation, partial correctness by an invariant, and divergence on a set of
  states that no step leaves.  The second one relates two drivers by a simulation.
\<close>

locale driver =
  fixes loop :: "'s \<Rightarrow> 'r option" and advance :: "'s \<Rightarrow> 'r + 's"
  assumes unfold: "loop s = (case advance s of Inl r \<Rightarrow> Some r | Inr s' \<Rightarrow> loop s')"
    and run_induct [consumes 1, case_names stop go]: "loop s = Some r \<Longrightarrow> (\<And>s r. advance s = Inl r \<Longrightarrow> P s r) \<Longrightarrow>
      (\<And>s s' r. advance s = Inr s' \<Longrightarrow> P s' r \<Longrightarrow> P s r) \<Longrightarrow> P s r"
begin

lemma stops: "advance s = Inl r \<Longrightarrow> loop s = Some r"
  by (subst unfold) simp

lemma continues: "advance s = Inr s' \<Longrightarrow> loop s = loop s'"
  by (subst unfold) simp

lemma terminates:
  assumes "wf R" and "ok s"
    and "\<And>s s'. ok s \<Longrightarrow> advance s = Inr s' \<Longrightarrow> ok s' \<and> (s', s) \<in> R"
  shows "\<exists>r. loop s = Some r"
  using assms(1,2)
proof (induction s rule: wf_induct_rule)
  case (less s)
  show ?case
  proof (cases "advance s")
    case (Inl r)
    then show ?thesis using stops by blast
  next
    case (Inr s')
    with assms(3) [OF less.prems] less.IH have "\<exists>r. loop s' = Some r" by blast
    then show ?thesis using continues [OF Inr] by simp
  qed
qed

lemma keeps:
  assumes "loop s = Some r" and "ok s"
    and "\<And>s r. ok s \<Longrightarrow> advance s = Inl r \<Longrightarrow> Q r" and "\<And>s s'. ok s \<Longrightarrow> advance s = Inr s' \<Longrightarrow> ok s'"
  shows "Q r"
  using assms(1,2) by (induction rule: run_induct) (use assms(3,4) in blast)+

lemma diverges:
  assumes "s \<in> X" and "\<And>s. s \<in> X \<Longrightarrow> \<exists>s' \<in> X. advance s = Inr s'"
  shows "loop s = None"
proof (rule ccontr)
  assume "loop s \<noteq> None"
  then obtain r where "loop s = Some r" by blast
  then have "s \<notin> X"
  proof (induction rule: run_induct)
    case (stop s r)
    then show ?case using assms(2) [of s] by auto
  next
    case (go s s' r)
    then show ?case using assms(2) [of s] by auto
  qed
  with assms(1) show False by simp
qed

end

text \<open>The first driver may also give up with a result that the second does not have.\<close>

locale driver_pair = A: driver loopA advanceA + B: driver loopB advanceB
  for loopA :: "'s \<Rightarrow> 'r option" and advanceA :: "'s \<Rightarrow> 'r + 's"
    and loopB :: "'t \<Rightarrow> 'q option" and advanceB :: "'t \<Rightarrow> 'q + 't" +
  fixes related :: "'s \<Rightarrow> 't \<Rightarrow> bool" and same :: "'r \<Rightarrow> 'q \<Rightarrow> bool" and gives_up :: "'r \<Rightarrow> bool"
  assumes sim_stop: "related s t \<Longrightarrow> advanceA s = Inl r \<Longrightarrow>
      gives_up r \<or> (\<exists>q. advanceB t = Inl q \<and> same r q)"
    and sim_go: "related s t \<Longrightarrow> advanceA s = Inr s' \<Longrightarrow> \<exists>t'. advanceB t = Inr t' \<and> related s' t'"
begin

lemma simulated:
  assumes "loopA s = Some r" and "related s t"
  shows "gives_up r \<or> (\<exists>q. loopB t = Some q \<and> same r q)"
  using assms
proof (induction arbitrary: t rule: A.run_induct)
  case (stop s r)
  then show ?case using sim_stop [of s t r] B.stops by blast
next
  case (go s s' r)
  then obtain t' where *: "advanceB t = Inr t'" "related s' t'" using sim_go by blast
  with go.IH show ?case using B.continues [OF *(1)] by simp
qed

end

end
