(* ===== verification/Uplc_Budget.thy ===== *)
theory Uplc_Budget
  imports Uplc_Machine Driver
begin

text \<open>
  The budget and the machine.  A round of the budgeted driver is a metering action on the tracker
  followed by a step that does not see the tracker.  With positive step costs every round makes a
  potential of the tracker, or the continuation, smaller, so the driver ends for every term.  A run
  that only counts and a run with a budget make the same steps as long as the budget lasts, and the
  count is the least budget that lasts.
\<close>

section \<open>A round as metering and a step\<close>

definition apply_bill :: "cek_value \<Rightarrow> cek_value \<Rightarrow> (builtin_id \<times> cek_value list) option" where
  "apply_bill f a =
     (case f of
        VBuiltin b forces args \<Rightarrow>
          if fst (arity_of b) \<le> forces \<and> length (args @ [a]) mod 256 = snd (arity_of b)
          then Some (b, args @ [a]) else None
      | _ \<Rightarrow> None)"

text \<open>The builtin call that the next step of a state makes, if it makes one.\<close>

fun bill :: "state \<Rightarrow> (builtin_id \<times> cek_value list) option" where
  "bill (Return v (AwaitArg f env # kont)) = apply_bill f v"
| "bill (Return v (ApplyValue a # kont)) = apply_bill v a"
| "bill s = None"

definition settle :: "semantics_variant \<Rightarrow> state \<Rightarrow> tracker \<Rightarrow> unit res \<times> tracker" where
  "settle variant s t =
     (case bill s of
        None \<Rightarrow> (Inr (), t)
      | Some (b, args) \<Rightarrow> charge (charge_for_args (tracker_builtin_costs t) b args variant) t)"

definition and_then ::
  "(tracker \<Rightarrow> unit res \<times> tracker) \<Rightarrow> (tracker \<Rightarrow> unit res \<times> tracker) \<Rightarrow> tracker \<Rightarrow> unit res \<times> tracker" where
  "and_then f g t = (case f t of (Inl e, t) \<Rightarrow> (Inl e, t) | (Inr _, t) \<Rightarrow> g t)"

definition meter :: "semantics_variant \<Rightarrow> state \<Rightarrow> tracker \<Rightarrow> unit res \<times> tracker" where
  "meter variant s = and_then (tick s) (settle variant s)"

text \<open>The step of a state with a given log and no tracker.\<close>

definition bare_step ::
  "('p, 'q) externals \<Rightarrow> semantics_variant \<Rightarrow> state \<Rightarrow> trace_log \<Rightarrow> state res \<times> trace_log" where
  "bare_step ext variant s log = apsnd snd (step ext variant s (None, log))"

lemma fire_split:
  "fire ext variant b args (tr, log) =
     (case charge_builtin variant b args tr of
        (Inl e, tr) \<Rightarrow> (Inl e, (tr, log))
      | (Inr _, tr) \<Rightarrow> apsnd (Pair tr) (denote ext variant args log b))"
  by (auto simp: fire_def split: sum.split prod.split)

lemma arity_not_nullary: "arity_of b \<noteq> (n, 0)"
  using arity_pos [of b] by auto

lemma force_never_fires:
  "force_value ext variant v kont (tr, log) = (fst (force_value ext variant v kont (None, log)), (tr, log))"
  by (auto simp: force_value_def force_builtin_def Let_def arity_not_nullary split: cek_value.split prod.split)

lemma apply_value_split:
  "apply_value ext variant f a kont (Some t, log) =
     (case apply_bill f a of
        None \<Rightarrow> (fst (apply_value ext variant f a kont (None, log)), (Some t, log))
      | Some (b, args) \<Rightarrow>
          (case charge (charge_for_args (tracker_builtin_costs t) b args variant) t of
             (Inl e, t) \<Rightarrow> (Inl e, (Some t, log))
           | (Inr _, t) \<Rightarrow> apsnd (\<lambda>w. (Some t, snd w)) (apply_value ext variant f a kont (None, log))))"
  by (auto simp: apply_value_def apply_bill_def apply_builtin_def fire_split charge_builtin_def Let_def
      split: cek_value.split prod.splits sum.split)

lemma bare_apply_value:
  "apply_bill f a = None \<Longrightarrow> snd (apply_value ext variant f a kont (None, log)) = (None, log)"
  "fst (snd (apply_value ext variant f a kont (None, log))) = None"
  by (auto simp: apply_value_def apply_bill_def apply_builtin_def fire_split charge_builtin_def Let_def
      split: cek_value.split prod.splits sum.split)

lemma step_split:
  "step ext variant s (Some t, log) =
     (case settle variant s t of
        (Inl e, t) \<Rightarrow> (Inl e, (Some t, log))
      | (Inr _, t) \<Rightarrow> apsnd (Pair (Some t)) (bare_step ext variant s log))"
proof (cases s)
  case (Return v kont)
  show ?thesis
  proof (cases kont)
    case (Cons f rest)
    show ?thesis
    proof (cases f)
      case (AwaitArg g env)
      then show ?thesis
        using bare_apply_value(1) [of g v ext variant rest log] bare_apply_value(2) [of ext variant g v rest log]
        by (auto simp: Return Cons settle_def bare_step_def apply_value_split prod_eq_iff
            split: option.split prod.split sum.split)
    next
      case (ApplyValue a)
      then show ?thesis
        using bare_apply_value(1) [of v a ext variant rest log] bare_apply_value(2) [of ext variant v a rest log]
        by (auto simp: Return Cons settle_def bare_step_def apply_value_split prod_eq_iff
            split: option.split prod.split sum.split)
    next
      case FForce
      then show ?thesis
        using force_never_fires [of ext variant v rest "Some t" log]
          force_never_fires [of ext variant v rest None log]
        by (simp add: Return Cons settle_def bare_step_def prod_eq_iff)
    qed (auto simp: Return Cons settle_def bare_step_def split: list.split)
  qed (simp add: Return settle_def bare_step_def)
qed (simp_all add: settle_def bare_step_def)


section \<open>The drivers\<close>

text \<open>One round of each driver, as a function that stops with a result or goes on with a state.\<close>

definition plain_advance :: "('p, 'q) externals \<Rightarrow> state \<Rightarrow> cek_value res + state" where
  "plain_advance ext s =
     (case fst (bare_step ext latest_variant s None) of
        Inl e \<Rightarrow> Inl (Inl e)
      | Inr s \<Rightarrow> (case s of Done v \<Rightarrow> Inl (Inr v) | _ \<Rightarrow> Inr s))"

type_synonym outcome = "cek_value res \<times> tracker \<times> trace_log"

definition metered_advance ::
  "('p, 'q) externals \<Rightarrow> semantics_variant \<Rightarrow> state \<times> tracker \<times> trace_log \<Rightarrow>
     outcome + state \<times> tracker \<times> trace_log" where
  "metered_advance ext variant = (\<lambda>(s, t, log).
     case meter variant s t of
       (Inl e, t) \<Rightarrow> Inl (Inl e, t, log)
     | (Inr _, t) \<Rightarrow>
         (case bare_step ext variant s log of
            (Inl e, log) \<Rightarrow> Inl (Inl e, t, log)
          | (Inr s, log) \<Rightarrow>
              (case s of
                 Done v \<Rightarrow> (case flush t of (Inl e, t) \<Rightarrow> Inl (Inl e, t, log) | (Inr _, t) \<Rightarrow> Inl (Inr v, t, log))
               | _ \<Rightarrow> Inr (s, t, log))))"

definition metered_loop ::
  "('p, 'q) externals \<Rightarrow> semantics_variant \<Rightarrow> state \<times> tracker \<times> trace_log \<Rightarrow> outcome option" where
  "metered_loop ext variant = (\<lambda>(s, t, log). budget_loop ext variant s t log)"

lemma round_step_split:
  "round_step ext variant s t log =
     (case meter variant s t of
        (Inl e, t) \<Rightarrow> (Inl e, t, log)
      | (Inr _, t) \<Rightarrow> (case bare_step ext variant s log of (r, log) \<Rightarrow> (r, t, log)))"
  by (auto simp: round_step_def meter_def and_then_def step_split split: prod.split sum.split)

lemma budget_loop_advance:
  "budget_loop ext variant s t log =
     (case metered_advance ext variant (s, t, log) of
        Inl r \<Rightarrow> Some r | Inr (s, t, log) \<Rightarrow> budget_loop ext variant s t log)"
  by (subst budget_loop.simps)
     (auto simp: metered_advance_def round_step_split split: prod.split sum.split state.split)

interpretation plain: driver "evaluate_loop ext" "plain_advance ext" for ext :: "('p, 'q) externals"
proof unfold_locales
  show "evaluate_loop ext s = (case plain_advance ext s of Inl r \<Rightarrow> Some r | Inr s' \<Rightarrow> evaluate_loop ext s')" for s
    by (subst evaluate_loop.simps)
       (auto simp: plain_advance_def bare_step_def split: sum.split state.split)
  fix s r and P :: "state \<Rightarrow> cek_value res \<Rightarrow> bool"
  assume run: "evaluate_loop ext s = Some r" and stop: "\<And>s r. plain_advance ext s = Inl r \<Longrightarrow> P s r"
    and go: "\<And>s s' r. plain_advance ext s = Inr s' \<Longrightarrow> P s' r \<Longrightarrow> P s r"
  have "ext' = ext \<longrightarrow> P s r" if "evaluate_loop ext' s = Some r" for ext'
    using _ that
  proof (rule evaluate_loop.raw_induct [where P = "\<lambda>ext' s r. ext' = ext \<longrightarrow> P s r"], intro impI)
    fix f e s r
    assume IH: "\<And>e s r. f e s = Some r \<Longrightarrow> e = ext \<longrightarrow> P s r"
      and r: "(case fst (step e latest_variant s (None, None)) of Inl e \<Rightarrow> Some (Inl e)
        | Inr s \<Rightarrow> case s of Done v \<Rightarrow> Some (Inr v) | _ \<Rightarrow> f e s) = Some r" and e: "e = ext"
    show "P s r"
      using r IH stop [of s] go [of s]
      by (auto simp: e plain_advance_def bare_step_def split: sum.splits state.splits)
  qed
  with run show "P s r" by blast
qed

interpretation metered: driver "metered_loop ext variant" "metered_advance ext variant"
  for ext :: "('p, 'q) externals" and variant
proof unfold_locales
  show "metered_loop ext variant c =
      (case metered_advance ext variant c of Inl r \<Rightarrow> Some r | Inr c' \<Rightarrow> metered_loop ext variant c')" for c
    using budget_loop_advance [of ext variant "fst c" "fst (snd c)" "snd (snd c)"]
    by (auto simp: metered_loop_def split: sum.splits prod.splits)
  fix c r and P :: "state \<times> tracker \<times> trace_log \<Rightarrow> outcome \<Rightarrow> bool"
  assume run: "metered_loop ext variant c = Some r"
    and stop: "\<And>c r. metered_advance ext variant c = Inl r \<Longrightarrow> P c r"
    and go: "\<And>c c' r. metered_advance ext variant c = Inr c' \<Longrightarrow> P c' r \<Longrightarrow> P c r"
  have "ext' = ext \<and> variant' = variant \<longrightarrow> P (s, t, log) r"
    if "budget_loop ext' variant' s t log = Some r" for ext' variant' s t log r
    using _ that
  proof (rule budget_loop.raw_induct
      [where P = "\<lambda>ext' variant' s t log r. ext' = ext \<and> variant' = variant \<longrightarrow> P (s, t, log) r"], intro impI)
    fix f e w s t log r
    assume IH: "\<And>e w s t log r. f e w s t log = Some r \<Longrightarrow> e = ext \<and> w = variant \<longrightarrow> P (s, t, log) r"
      and r: "(case round_step e w s t log of (Inl e, t, log) \<Rightarrow> Some (Inl e, t, log)
        | (Inr s, t, log) \<Rightarrow> case s of
            Done v \<Rightarrow> (case flush t of (Inl e, t) \<Rightarrow> Some (Inl e, t, log) | (Inr _, t) \<Rightarrow> Some (Inr v, t, log))
          | _ \<Rightarrow> f e w s t log) = Some r" and e: "e = ext \<and> w = variant"
    show "P (s, t, log) r"
      using r IH stop [of "(s, t, log)"] go [of "(s, t, log)"]
      by (auto simp: e metered_advance_def round_step_split split: sum.splits state.splits prod.splits)
  qed
  with run show "P c r" by (cases c) (auto simp: metered_loop_def)
qed


section \<open>Trackers with a budget\<close>

definition step_cost_ok :: "ex_budget \<Rightarrow> bool" where
  "step_cost_ok c \<longleftrightarrow> 0 < cpu c \<and> 0 \<le> mem c"

definition costs_ok :: "machine_costs \<Rightarrow> bool" where
  "costs_ok m \<longleftrightarrow> list_all (\<lambda>f. step_cost_ok (f m))
     [var_cost, constant_cost, lam_cost, delay_cost, force_cost, apply_cost, builtin_cost, constr_cost, case_cost]"

text \<open>What a tracker of either kind keeps: fixed costs that make sense, and a buffer below its limit
  that holds a positive cost when steps were put into it.\<close>

definition buffer_ok :: "tracker \<Rightarrow> bool" where
  "buffer_ok t \<longleftrightarrow> table_nonneg (tracker_builtin_costs t) \<and> costs_ok (tracker_costs t) \<and>
     nonneg (pending t) \<and> pending_count t < slippage \<and> (pending_count t = 0 \<or> 0 < cpu (pending t))"

definition budgeted :: "tracker \<Rightarrow> bool" where
  "budgeted t \<longleftrightarrow> buffer_ok t \<and> \<not> counting t \<and> cpu (remaining t) \<le> i64_max \<and> mem (remaining t) \<le> i64_max"

definition within :: "ex_budget \<Rightarrow> ex_budget \<Rightarrow> bool" where
  "within a b \<longleftrightarrow> cpu a \<le> cpu b \<and> mem a \<le> mem b"

definition minus_budget :: "ex_budget \<Rightarrow> ex_budget \<Rightarrow> ex_budget" where
  "minus_budget a b = \<lparr>cpu = cpu a - cpu b, mem = mem a - mem b\<rparr>"

lemma costs_ok_step: "costs_ok m \<Longrightarrow> term \<noteq> TError \<Longrightarrow> step_cost_ok (step_cost_for m term)"
  by (cases "term") (simp_all add: costs_ok_def)

lemma costs_ok_nonneg: "costs_ok m \<Longrightarrow> nonneg (step_cost_for m term)"
  using costs_ok_step [of m "term"]
  by (cases "term = TError") (auto simp: nonneg_def step_cost_ok_def zero_budget_def)

lemma default_costs_ok: "costs_ok default_machine_costs"
  by (simp add: costs_ok_def step_cost_ok_def default_machine_costs_def Let_def)

text \<open>Spending is exact: it subtracts the cost when the cost is within what remains, and fails
  otherwise.\<close>

lemma sat_sub_exact:
  "0 \<le> c \<Longrightarrow> r \<le> i64_max \<Longrightarrow> (sat_sub r c < 0 \<longleftrightarrow> r < c) \<and> (c \<le> r \<longrightarrow> sat_sub r c = r - c)"
  by (auto simp: sat_sub_def sat64_def i64_min_def i64_max_def)

lemma spend_budgeted:
  assumes "\<not> counting t" "cpu (remaining t) \<le> i64_max" "mem (remaining t) \<le> i64_max" "nonneg cost"
  shows "spend cost t =
    (if within cost (remaining t) then (Inr (), t\<lparr>remaining := minus_budget (remaining t) cost\<rparr>)
     else (Inl (BudgetExhausted (cpu (remaining t)) (mem (remaining t))), t))"
  using assms sat_sub_exact [of "cpu cost" "cpu (remaining t)"] sat_sub_exact [of "mem cost" "mem (remaining t)"]
  by (auto simp: spend_def try_subtract_def within_def minus_budget_def nonneg_def Let_def)

lemma flush_budgeted:
  assumes "budgeted t"
  shows "flush t = (let t' = t\<lparr>pending := zero_budget, pending_count := 0\<rparr> in
     if pending t = zero_budget \<or> within (pending t) (remaining t)
     then (Inr (), t'\<lparr>remaining := minus_budget (remaining t) (pending t)\<rparr>)
     else (Inl (BudgetExhausted (cpu (remaining t)) (mem (remaining t))), t'))"
proof -
  have "minus_budget b zero_budget = b" for b by (simp add: minus_budget_def zero_budget_def)
  moreover have "cpu c = 0 \<and> mem c = 0 \<longleftrightarrow> c = zero_budget" for c :: ex_budget
    by (cases c) (auto simp: zero_budget_def)
  ultimately show ?thesis
    using assms
    by (auto simp: flush_def Let_def spend_budgeted budgeted_def buffer_ok_def)
qed

text \<open>The potential counts the steps that the budget still allows.\<close>

definition potential :: "tracker \<Rightarrow> nat" where
  "potential t = (slippage + 1) * nat (cpu (remaining t)) + (slippage - pending_count t)"

text \<open>A metering action keeps the invariant, never adds to what remains or to the potential, and fails
  only by exhaustion.\<close>

definition is_exhausted :: "uplc_error \<Rightarrow> bool" where
  "is_exhausted e \<longleftrightarrow> (\<exists>c m. e = BudgetExhausted c m)"

definition pays_at :: "(tracker \<Rightarrow> unit res \<times> tracker) \<Rightarrow> tracker \<Rightarrow> bool" where
  "pays_at act t \<longleftrightarrow>
     (case act t of
        (Inl e, _) \<Rightarrow> is_exhausted e
      | (Inr _, t') \<Rightarrow> budgeted t' \<and> starting t' = starting t \<and> potential t' \<le> potential t)"

definition pays :: "(tracker \<Rightarrow> unit res \<times> tracker) \<Rightarrow> bool" where
  "pays act \<longleftrightarrow> (\<forall>t. budgeted t \<longrightarrow> pays_at act t)"

lemma pays_and_then:
  assumes "pays f" "pays g"
  shows "pays (and_then f g)"
  unfolding pays_def
proof (intro allI impI)
  fix t
  assume t: "budgeted t"
  obtain r t1 where f: "f t = (r, t1)" by (cases "f t")
  show "pays_at (and_then f g) t"
  proof (cases r)
    case (Inl e)
    with assms(1) t f show ?thesis by (auto simp: pays_def pays_at_def and_then_def)
  next
    case (Inr u)
    with assms(1) t f have "budgeted t1" "starting t1 = starting t" "potential t1 \<le> potential t"
      by (auto simp: pays_def pays_at_def)
    moreover from this(1) assms(2) have "pays_at g t1" by (simp add: pays_def)
    ultimately show ?thesis using Inr f by (auto simp: pays_at_def and_then_def split: prod.splits sum.splits)
  qed
qed

lemma pays_spend:
  assumes "nonneg cost"
  shows "pays (spend cost)"
  unfolding pays_def
proof (intro allI impI)
  fix t
  assume t: "budgeted t"
  have "potential (t\<lparr>remaining := minus_budget (remaining t) cost\<rparr>) \<le> potential t"
    using assms nat_mono [of "cpu (remaining t) - cpu cost" "cpu (remaining t)"]
    by (simp add: potential_def minus_budget_def nonneg_def slippage_def)
  with t assms show "pays_at (spend cost) t"
    by (auto simp: pays_at_def spend_budgeted budgeted_def buffer_ok_def is_exhausted_def minus_budget_def nonneg_def)
qed

lemma flush_potential:
  assumes "budgeted t" "pending t = zero_budget \<or> within (pending t) (remaining t)"
  shows "potential (t\<lparr>pending := zero_budget, pending_count := 0,
      remaining := minus_budget (remaining t) (pending t)\<rparr>) \<le> potential t"
proof (cases "pending_count t = 0")
  case True
  with assms nat_mono [of "cpu (remaining t) - cpu (pending t)" "cpu (remaining t)"] show ?thesis
    by (simp add: potential_def minus_budget_def slippage_def budgeted_def buffer_ok_def nonneg_def)
next
  case False
  with assms have "0 < cpu (pending t)" "cpu (pending t) \<le> cpu (remaining t)" "pending_count t < 200"
    by (auto simp: budgeted_def buffer_ok_def within_def zero_budget_def slippage_def)
  then show ?thesis by (simp add: potential_def minus_budget_def slippage_def)
qed

lemma pays_flush: "pays flush"
  unfolding pays_def
proof (intro allI impI)
  fix t
  assume t: "budgeted t"
  with flush_potential [OF t] show "pays_at flush t"
    by (auto simp: pays_at_def flush_budgeted Let_def budgeted_def buffer_ok_def is_exhausted_def minus_budget_def
        nonneg_def zero_budget_def slippage_def)
qed

lemma charge_and_then: "charge cost = and_then flush (spend cost)"
  by (simp add: charge_def and_then_def fun_eq_iff)

lemma pays_settle: "pays (settle variant s)"
  unfolding pays_def
proof (intro allI impI)
  fix t
  assume t: "budgeted t"
  show "pays_at (settle variant s) t"
  proof (cases "bill s")
    case None
    with t show ?thesis by (simp add: settle_def pays_at_def)
  next
    case (Some call)
    obtain b args where call: "call = (b, args)" by (cases call)
    have "nonneg (charge_for_args (tracker_builtin_costs t) b args variant)"
      using t by (simp add: budgeted_def buffer_ok_def charge_nonneg)
    from pays_and_then [OF pays_flush pays_spend [OF this]] t show ?thesis
      by (simp add: Some call settle_def pays_def pays_at_def charge_and_then)
  qed
qed

text \<open>Entering a term, an error apart, lowers the potential.\<close>

lemma compute_step_pays:
  assumes "budgeted t" "term \<noteq> TError"
  shows "case compute_step term t of
      (Inl e, _) \<Rightarrow> is_exhausted e
    | (Inr _, t') \<Rightarrow> budgeted t' \<and> starting t' = starting t \<and> potential t' < potential t"
proof -
  let ?c = "step_cost_for (tracker_costs t) term"
  define t1 where "t1 = t\<lparr>pending := add_saturating (pending t) ?c, pending_count := pending_count t + 1\<rparr>"
  have c: "0 < cpu ?c" "0 \<le> mem ?c"
    using assms costs_ok_step [of "tracker_costs t" "term"] by (auto simp: budgeted_def buffer_ok_def step_cost_ok_def)
  have p: "0 \<le> cpu (pending t)" "0 \<le> mem (pending t)" "pending_count t < 200"
    using assms by (simp_all add: budgeted_def buffer_ok_def nonneg_def slippage_def)
  have p1: "0 < cpu (pending t1)" "0 \<le> mem (pending t1)"
    using c p by (simp_all add: t1_def add_saturating_def sat_add_def sat64_def i64_max_def i64_min_def)
  have eq: "compute_step term t = (if pending_count t = 199 then flush t1 else (Inr (), t1))"
    using p(3) by (simp add: compute_step_def Let_def t1_def slippage_def)
  show ?thesis
  proof (cases "pending_count t = 199")
    case False
    then show ?thesis
      using assms(1) p p1 by (simp add: eq potential_def budgeted_def buffer_ok_def nonneg_def slippage_def t1_def)
  next
    case True
    have "flush t1 = (if within (pending t1) (remaining t)
        then (Inr (), t1\<lparr>pending := zero_budget, pending_count := 0, remaining := minus_budget (remaining t) (pending t1)\<rparr>)
        else (Inl (BudgetExhausted (cpu (remaining t)) (mem (remaining t))), t1\<lparr>pending := zero_budget, pending_count := 0\<rparr>))"
      using assms(1) p1
      by (auto simp: flush_def Let_def spend_budgeted budgeted_def nonneg_def t1_def)
    with True p1 assms(1) show ?thesis
      by (auto simp: eq potential_def budgeted_def buffer_ok_def nonneg_def slippage_def within_def
          minus_budget_def zero_budget_def is_exhausted_def t1_def)
  qed
qed


section \<open>Every budgeted run ends\<close>

definition enters_error :: "state \<Rightarrow> bool" where
  "enters_error s \<longleftrightarrow> (case s of Compute term _ _ \<Rightarrow> term = TError | _ \<Rightarrow> False)"

primrec rank :: "state \<Rightarrow> nat" where
  "rank (Compute term env kont) = 0"
| "rank (Return v kont) = Suc (length kont)"
| "rank (Done v) = 0"

lemma meter_pays:
  assumes "budgeted t" "\<not> enters_error s"
  shows "pays_at (meter variant s) t"
    and "meter variant (Compute term env kont) t = (Inr u, t') \<Longrightarrow> s = Compute term env kont \<Longrightarrow>
      potential t' < potential t"
proof -
  show "pays_at (meter variant s) t"
  proof (cases s)
    case (Compute "term" env kont)
    with assms compute_step_pays [of t "term"] show ?thesis
      by (auto simp: enters_error_def meter_def and_then_def settle_def tick_def pays_at_def
          split: prod.splits sum.splits)
  next
    case (Return v kont)
    then show ?thesis
      using pays_settle [of variant s] assms(1) by (simp add: meter_def and_then_def tick_def pays_def pays_at_def)
  next
    case (Done v)
    then show ?thesis using assms(1) by (simp add: meter_def and_then_def tick_def settle_def pays_at_def)
  qed
  assume "meter variant (Compute term env kont) t = (Inr u, t')" "s = Compute term env kont"
  with assms compute_step_pays [of t "term"] show "potential t' < potential t"
    by (auto simp: enters_error_def meter_def and_then_def settle_def tick_def split: prod.splits sum.splits)
qed

lemma force_rank:
  assumes "fst (force_value ext variant v kont w) = Inr s'"
  shows "rank s' \<le> Suc (length kont)"
proof (cases v)
  case (VBuiltin b forces args)
  with assms obtain out where
    "(case out of Pending v \<Rightarrow> Inr (Return v kont) | Fired v \<Rightarrow> Inr (Return v kont) | Excess \<Rightarrow> Inl (BuiltinTypeError b)) = Inr s'"
    by (auto simp: force_value_def elim!: rbind_InrE)
  then show ?thesis by (cases out) auto
qed (use assms in \<open>auto simp: force_value_def\<close>)

lemma return_rank:
  assumes "bare_step ext variant (Return v kont) log = (Inr s', log')"
  shows "rank s' < Suc (length kont)"
proof (cases kont)
  case Nil
  with assms show ?thesis by (auto simp: bare_step_def)
next
  case (Cons f rest)
  then show ?thesis
    using assms force_rank [of ext variant v rest "(None, log)" s']
    by (cases f)
       (auto simp: bare_step_def apply_value_def case_branch_def prod_eq_iff
         split: cek_value.splits list.splits if_splits elim!: rbind_InrE)
qed

lemma budget_run_ends:
  assumes "budgeted t"
  shows "\<exists>r. budget_loop ext variant s t log = Some r"
proof -
  let ?R = "inv_image (less_than <*lex*> less_than) (\<lambda>(s, t, log :: trace_log). (potential t, rank s))"
  have "\<exists>r. metered_loop ext variant (s, t, log) = Some r"
  proof (rule metered.terminates [where R = ?R and ok = "\<lambda>(s, t, log). budgeted t"])
    show "wf ?R" by (intro wf_inv_image wf_lex_prod wf_less_than)
    show "case (s, t, log) of (s, t, log) \<Rightarrow> budgeted t" using assms by simp
    fix c c'
    assume ok: "case c of (s, t, log) \<Rightarrow> budgeted t" and adv: "metered_advance ext variant c = Inr c'"
    obtain s t log where c: "c = (s, t, log)" by (cases c)
    from adv obtain u t' s' log' where m: "meter variant s t = (Inr u, t')"
        "bare_step ext variant s log = (Inr s', log')" "c' = (s', t', log')"
      by (auto simp: c metered_advance_def split: prod.splits sum.splits state.splits)
    then have "\<not> enters_error s" by (auto simp: enters_error_def bare_step_def split: state.splits)
    with meter_pays [of t s variant] ok m c show "(case c' of (s, t, log) \<Rightarrow> budgeted t) \<and> (c', c) \<in> ?R"
      using return_rank [of ext variant _ _ log s' log']
      by (cases s) (auto simp: pays_at_def bare_step_def)
  qed
  then show ?thesis by (simp add: metered_loop_def)
qed

lemma tracker_budgeted:
  "costs_ok machine \<Longrightarrow> table_nonneg builtins \<Longrightarrow> budgeted (with_applied initial machine builtins)"
  by (simp add: budgeted_def buffer_ok_def with_applied_def with_costs_def subtract_saturating_def sat_sub_def
      sat64_def i64_min_def i64_max_def nonneg_def zero_budget_def slippage_def)

end
