(* ===== verification/Uplc_Counting.thy ===== *)
theory Uplc_Counting
  imports Uplc_Budget
begin

text \<open>
  The three ways to run a script compared: with a budget, counting, and without a tracker.  A run
  with a budget makes the steps of the counting run until the count leaves the budget; the counting
  run makes the steps of the run without a tracker.
\<close>

section \<open>Counting and budgets\<close>

definition counts :: "tracker \<Rightarrow> bool" where
  "counts t \<longleftrightarrow> buffer_ok t \<and> counting t \<and> nonneg (counting_spent t) \<and>
     within (counting_spent t) \<lparr>cpu = i64_max, mem = i64_max\<rparr>"

text \<open>A tracker with a budget and a counting one that have made the same charges.\<close>

definition tracks :: "ex_budget \<Rightarrow> tracker \<Rightarrow> tracker \<Rightarrow> bool" where
  "tracks b t tc \<longleftrightarrow> budgeted t \<and> counts tc \<and> starting t = b \<and>
     pending tc = pending t \<and> pending_count tc = pending_count t \<and> tracker_costs tc = tracker_costs t \<and>
     tracker_builtin_costs tc = tracker_builtin_costs t \<and> counting_spent tc = minus_budget b (remaining t) \<and>
     cpu b < i64_max \<and> mem b < i64_max"

text \<open>An action counts without failing, and with a budget it does the same or fails because the count
  has left the budget.\<close>

definition counts_at :: "(tracker \<Rightarrow> unit res \<times> tracker) \<Rightarrow> tracker \<Rightarrow> bool" where
  "counts_at act tc \<longleftrightarrow>
     (case act tc of (Inl _, _) \<Rightarrow> False | (Inr _, tc') \<Rightarrow> counts tc' \<and> within (counting_spent tc) (counting_spent tc'))"

definition mirrors_at :: "ex_budget \<Rightarrow> (tracker \<Rightarrow> unit res \<times> tracker) \<Rightarrow> tracker \<Rightarrow> tracker \<Rightarrow> bool" where
  "mirrors_at b act t tc \<longleftrightarrow>
     (case act t of
        (Inl e, _) \<Rightarrow> is_exhausted e \<and> \<not> within (counting_spent (snd (act tc))) b
      | (Inr _, t') \<Rightarrow> tracks b t' (snd (act tc)))"

lemma mirrors_at_cong:
  "act t = act' t \<Longrightarrow> act tc = act' tc \<Longrightarrow> mirrors_at b act t tc = mirrors_at b act' t tc"
  unfolding mirrors_at_def by (simp only:)

lemma within_refl [simp]: "within a a" by (simp add: within_def)

lemma within_trans: "within a b \<Longrightarrow> within b c \<Longrightarrow> within a c" by (auto simp: within_def)

lemma tracks_counts: "tracks b t tc \<Longrightarrow> counts tc" by (simp add: tracks_def)

lemma counts_and_then:
  assumes "counts_at f tc" "\<And>tc. counts tc \<Longrightarrow> counts_at g tc"
  shows "counts_at (and_then f g) tc"
proof -
  obtain u tc1 where f: "f tc = (Inr u, tc1)" "counts tc1" "within (counting_spent tc) (counting_spent tc1)"
    using assms(1) by (auto simp: counts_at_def split: prod.splits sum.splits)
  with assms(2) [OF f(2)] show ?thesis
    by (auto simp: counts_at_def and_then_def split: prod.splits sum.splits intro: within_trans)
qed

lemma mirrors_and_then:
  assumes "counts_at f tc" "mirrors_at b f t tc" "\<And>tc. counts tc \<Longrightarrow> counts_at g tc"
    "\<And>t tc. tracks b t tc \<Longrightarrow> mirrors_at b g t tc"
  shows "mirrors_at b (and_then f g) t tc"
proof -
  obtain u tc1 where f: "f tc = (Inr u, tc1)" "counts tc1"
    using assms(1) by (auto simp: counts_at_def split: prod.splits sum.splits)
  obtain r t1 where t1: "f t = (r, t1)" by (cases "f t")
  show ?thesis
  proof (cases r)
    case (Inl e)
    then have "is_exhausted e" "\<not> within (counting_spent tc1) b"
      using assms(2) f t1 by (auto simp: mirrors_at_def)
    moreover have "within (counting_spent tc1) (counting_spent (snd (g tc1)))"
      using assms(3) [OF f(2)] by (auto simp: counts_at_def split: prod.splits sum.splits)
    ultimately show ?thesis
      using f t1 Inl by (auto simp: mirrors_at_def and_then_def dest: within_trans)
  next
    case (Inr v)
    then have "tracks b t1 tc1" using assms(2) f t1 by (auto simp: mirrors_at_def)
    from assms(4) [OF this] show ?thesis
      using f t1 Inr by (auto simp: mirrors_at_def and_then_def split: prod.splits sum.splits)
  qed
qed

lemma add_saturating_above:
  "within a \<lparr>cpu = i64_max, mem = i64_max\<rparr> \<Longrightarrow> nonneg a \<Longrightarrow> nonneg c \<Longrightarrow>
     within a (add_saturating a c) \<and> nonneg (add_saturating a c) \<and>
     within (add_saturating a c) \<lparr>cpu = i64_max, mem = i64_max\<rparr>"
  by (auto simp: within_def nonneg_def add_saturating_def sat_add_def sat64_def i64_max_def i64_min_def)

lemma counts_spend: "counts tc \<Longrightarrow> nonneg cost \<Longrightarrow> counts_at (spend cost) tc"
  using add_saturating_above [of "counting_spent tc" cost]
  by (auto simp: counts_at_def spend_def counts_def buffer_ok_def)

lemma mirrors_spend:
  assumes "tracks b t tc" "nonneg cost"
  shows "mirrors_at b (spend cost) t tc"
proof -
  let ?s = "add_saturating (counting_spent tc) cost"
  have tc: "counting tc" "counting_spent tc = minus_budget b (remaining t)" "counts tc"
    and t: "budgeted t" "cpu b < i64_max" "mem b < i64_max"
    using assms(1) by (auto simp: tracks_def counts_def)
  have le: "within ?s b \<longleftrightarrow> within cost (remaining t)"
    and eq: "within cost (remaining t) \<Longrightarrow> ?s = minus_budget b (minus_budget (remaining t) cost)"
    using tc t assms(2)
    by (auto simp: within_def minus_budget_def add_saturating_def sat_add_def sat64_def counts_def nonneg_def
        i64_max_def i64_min_def)
  show ?thesis
  proof (cases "within cost (remaining t)")
    case True
    have "counts (tc\<lparr>counting_spent := ?s\<rparr>)"
      using counts_spend [OF tc(3) assms(2)] tc(1) by (simp add: counts_at_def spend_def)
    moreover have "budgeted (t\<lparr>remaining := minus_budget (remaining t) cost\<rparr>)"
      using t(1) assms(2) by (auto simp: budgeted_def buffer_ok_def minus_budget_def nonneg_def)
    ultimately show ?thesis
      using True eq assms t tc
      by (simp add: mirrors_at_def spend_budgeted [of t cost] budgeted_def tracks_def spend_def [of cost tc])
  next
    case False
    with le tc(1) t assms(2) show ?thesis
      by (simp add: mirrors_at_def spend_budgeted [of t cost] budgeted_def spend_def [of cost tc] is_exhausted_def)
  qed
qed

definition emptied :: "tracker \<Rightarrow> tracker" where
  "emptied t = t\<lparr>pending := zero_budget, pending_count := 0\<rparr>"

lemma flush_spend:
  "flush t = (if pending t = zero_budget then (Inr (), emptied t) else spend (pending t) (emptied t))"
proof -
  have "cpu c = 0 \<and> mem c = 0 \<longleftrightarrow> c = zero_budget" for c :: ex_budget
    by (cases c) (auto simp: zero_budget_def)
  then show ?thesis by (simp add: flush_def Let_def emptied_def)
qed

lemma emptied_ok:
  "counts tc \<Longrightarrow> counts (emptied tc)" "tracks b t tc \<Longrightarrow> tracks b (emptied t) (emptied tc)"
  "counting_spent (emptied tc) = counting_spent tc"
  by (auto simp: counts_def tracks_def budgeted_def buffer_ok_def emptied_def nonneg_def zero_budget_def slippage_def)

lemma pending_nonneg: "counts tc \<Longrightarrow> nonneg (pending tc)" "tracks b t tc \<Longrightarrow> nonneg (pending t)"
  by (simp_all add: counts_def tracks_def budgeted_def buffer_ok_def)

lemma counts_flush:
  assumes "counts tc"
  shows "counts_at flush tc"
proof (cases "pending tc = zero_budget")
  case True
  with emptied_ok(1) [OF assms] show ?thesis by (simp add: counts_at_def flush_spend emptied_ok(3))
next
  case False
  with counts_spend [OF emptied_ok(1) [OF assms] pending_nonneg(1) [OF assms]] show ?thesis
    by (simp add: counts_at_def flush_spend emptied_ok(3) split: prod.splits sum.splits)
qed

lemma mirrors_flush:
  assumes "tracks b t tc"
  shows "mirrors_at b flush t tc"
proof -
  have "pending tc = pending t" using assms by (simp add: tracks_def)
  with emptied_ok(2) [OF assms] mirrors_spend [OF emptied_ok(2) [OF assms] pending_nonneg(2) [OF assms]]
  show ?thesis by (simp add: mirrors_at_def flush_spend split: prod.splits sum.splits)
qed

lemma counts_settle:
  assumes "counts tc"
  shows "counts_at (settle variant s) tc"
proof (cases "bill s")
  case None
  with assms show ?thesis by (simp add: counts_at_def settle_def)
next
  case (Some call)
  have "nonneg (charge_for_args (tracker_builtin_costs tc) (fst call) (snd call) variant)"
    using assms by (simp add: counts_def buffer_ok_def charge_nonneg)
  from counts_and_then [OF counts_flush [OF assms] counts_spend [OF _ this]] show ?thesis
    by (simp add: counts_at_def settle_def Some charge_and_then split_beta)
qed

lemma mirrors_settle:
  assumes "tracks b t tc"
  shows "mirrors_at b (settle variant s) t tc"
proof (cases "bill s")
  case None
  with assms show ?thesis by (simp add: mirrors_at_def settle_def)
next
  case (Some call)
  define c where "c = charge_for_args (tracker_builtin_costs t) (fst call) (snd call) variant"
  have c: "nonneg c"
    using assms by (simp add: c_def tracks_def budgeted_def buffer_ok_def charge_nonneg)
  have "mirrors_at b (and_then flush (spend c)) t tc"
    by (rule mirrors_and_then [OF counts_flush [OF tracks_counts [OF assms]] mirrors_flush [OF assms]])
       (simp_all add: c counts_spend mirrors_spend)
  moreover have "settle variant s t = and_then flush (spend c) t" "settle variant s tc = and_then flush (spend c) tc"
    using assms by (simp_all add: settle_def Some charge_and_then split_beta c_def tracks_def)
  ultimately show ?thesis using mirrors_at_cong [of "settle variant s"] by blast
qed

text \<open>Entering a term puts its cost into the buffer and may flush it.\<close>

definition buffered :: "uterm \<Rightarrow> tracker \<Rightarrow> tracker" where
  "buffered term t = t\<lparr>pending := add_saturating (pending t) (step_cost_for (tracker_costs t) term),
     pending_count := pending_count t + 1\<rparr>"

lemma buffered_pending:
  assumes "nonneg (pending t)" "step_cost_ok (step_cost_for (tracker_costs t) term)"
  shows "nonneg (pending (buffered term t))" "0 < cpu (pending (buffered term t))"
  using assms
  by (auto simp: buffered_def add_saturating_def sat_add_def sat64_def nonneg_def step_cost_ok_def i64_max_def i64_min_def)

lemma emptied_buffered: "emptied (buffered term t) = emptied t"
  by (simp add: emptied_def buffered_def)

lemma compute_step_buffered:
  assumes "buffer_ok t" "term \<noteq> TError"
  shows "compute_step term t =
    (if Suc (pending_count t) = slippage then spend (pending (buffered term t)) (emptied t)
     else (Inr (), buffered term t))"
proof -
  have "compute_step term t =
      (if Suc (pending_count t) = slippage then flush (buffered term t) else (Inr (), buffered term t))"
    using assms(1) by (auto simp: compute_step_def buffered_def Let_def slippage_def buffer_ok_def)
  moreover have "pending (buffered term t) \<noteq> zero_budget"
    using assms buffered_pending(2) [of t "term"] costs_ok_step [of "tracker_costs t" "term"]
    by (auto simp: buffer_ok_def zero_budget_def)
  ultimately show ?thesis by (simp add: flush_spend emptied_buffered)
qed

lemma buffered_ok:
  assumes "buffer_ok t" "term \<noteq> TError" "Suc (pending_count t) \<noteq> slippage"
  shows "buffer_ok (buffered term t)"
  using assms buffered_pending [of t "term"] costs_ok_step [of "tracker_costs t" "term"]
  by (auto simp: buffer_ok_def buffered_def)

lemma counts_compute_step:
  assumes "counts tc" "term \<noteq> TError"
  shows "counts_at (compute_step term) tc"
proof -
  have ok: "buffer_ok tc" using assms(1) by (simp add: counts_def)
  have p: "nonneg (pending (buffered term tc))"
    using ok assms(2) buffered_pending(1) [of tc "term"] costs_ok_step [of "tracker_costs tc" "term"]
    by (simp add: buffer_ok_def)
  have "counting (buffered term tc)" "counting_spent (buffered term tc) = counting_spent tc"
    using assms(1) by (simp_all add: counts_def buffered_def)
  with counts_spend [OF emptied_ok(1) [OF assms(1)] p] buffered_ok [OF ok assms(2)] assms(1) show ?thesis
    by (auto simp: counts_at_def compute_step_buffered [OF ok assms(2)] emptied_ok(3) counts_def
        split: prod.splits sum.splits)
qed

lemma mirrors_compute_step:
  assumes "tracks b t tc" "term \<noteq> TError"
  shows "mirrors_at b (compute_step term) t tc"
proof -
  have ok: "buffer_ok t" "buffer_ok tc" using assms(1) by (simp_all add: tracks_def counts_def budgeted_def)
  have p: "nonneg (pending (buffered term t))"
    using ok assms(2) buffered_pending(1) [of t "term"] costs_ok_step [of "tracker_costs t" "term"]
    by (simp add: buffer_ok_def)
  have same: "pending (buffered term tc) = pending (buffered term t)" "pending_count tc = pending_count t"
    using assms(1) by (simp_all add: tracks_def buffered_def)
  show ?thesis
  proof (cases "Suc (pending_count t) = slippage")
    case True
    with mirrors_spend [OF emptied_ok(2) [OF assms(1)] p] show ?thesis
      by (simp add: mirrors_at_def compute_step_buffered ok assms(2) same split: prod.splits sum.splits)
  next
    case False
    have "counts (buffered term tc)" "budgeted (buffered term t)"
      using tracks_counts [OF assms(1)] assms(1) buffered_ok [OF ok(1) assms(2) False]
        buffered_ok [OF ok(2) assms(2)] False same
      by (auto simp: counts_def tracks_def budgeted_def buffered_def)
    with assms(1) same(1) have "tracks b (buffered term t) (buffered term tc)"
      by (simp add: tracks_def) (simp add: buffered_def)
    with False show ?thesis by (simp add: mirrors_at_def compute_step_buffered ok assms(2) same)
  qed
qed

lemma tick_simps:
  "tick (Compute term env kont) = compute_step term" "tick (Return v kont) = Pair (Inr ())"
  "tick (Done v) = Pair (Inr ())"
  by (simp_all add: tick_def fun_eq_iff)

lemma meter_mirrors:
  assumes "\<not> enters_error s"
  shows "counts tc \<Longrightarrow> counts_at (meter variant s) tc"
    and "tracks b t tc \<Longrightarrow> mirrors_at b (meter variant s) t tc"
proof -
  have tick: "counts_at (tick s) tc" if "counts tc" for tc
    using that counts_compute_step [OF that] assms
    by (cases s) (auto simp: tick_simps enters_error_def counts_at_def [of "Pair (Inr ())"])
  show "counts tc \<Longrightarrow> counts_at (meter variant s) tc"
    unfolding meter_def by (rule counts_and_then [OF tick counts_settle])
  have "mirrors_at b (tick s) t tc" if "tracks b t tc" for t tc
    using that assms mirrors_compute_step [OF that]
    by (cases s) (auto simp: tick_simps enters_error_def mirrors_at_def [of b "Pair (Inr ())"])
  then show "tracks b t tc \<Longrightarrow> mirrors_at b (meter variant s) t tc"
    unfolding meter_def
    by (intro mirrors_and_then tick counts_settle mirrors_settle) (auto dest: tracks_counts)
qed

text \<open>A counting run never fails for lack of budget, not even when it enters an error term.\<close>

lemma counting_spend: "counting t \<Longrightarrow> \<exists>t'. spend c t = (Inr (), t') \<and> counting t'"
  by (simp add: spend_def)

lemma counting_flush: "counting t \<Longrightarrow> \<exists>t'. flush t = (Inr (), t') \<and> counting t'"
  by (simp add: flush_spend emptied_def counting_spend)

lemma counting_meter: "counting t \<Longrightarrow> \<exists>t'. meter variant s t = (Inr (), t') \<and> counting t'"
proof -
  assume t: "counting t"
  have "\<exists>t'. compute_step term t = (Inr (), t') \<and> counting t'" for "term"
    using t counting_flush by (simp add: compute_step_def Let_def)
  then obtain t1 where t1: "tick s t = (Inr (), t1)" "counting t1"
    using t by (cases s) (auto simp: tick_def)
  have "\<exists>t'. settle variant s t1 = (Inr (), t') \<and> counting t'"
  proof (cases "bill s")
    case (Some call)
    obtain t2 where "flush t1 = (Inr (), t2)" "counting t2" using counting_flush [OF t1(2)] by blast
    then show ?thesis
      using counting_spend [of t2] by (simp add: Some settle_def charge_def split_beta)
  qed (simp add: settle_def t1)
  then show ?thesis using t1 by (simp add: meter_def and_then_def)
qed

text \<open>What remains is not negative, or the buffer will find out; states about to enter a term apart,
  since entering one fills the buffer.\<close>

definition covered :: "tracker \<Rightarrow> bool" where
  "covered t \<longleftrightarrow> nonneg (remaining t) \<or> 0 < cpu (pending t)"

definition covered_at :: "state \<Rightarrow> tracker \<Rightarrow> bool" where
  "covered_at s t \<longleftrightarrow> (case s of Compute _ _ _ \<Rightarrow> True | _ \<Rightarrow> covered t)"

lemma spend_covered:
  "budgeted t \<Longrightarrow> nonneg c \<Longrightarrow> spend c t = (Inr u, t') \<Longrightarrow> nonneg (remaining t')"
  by (auto simp: spend_budgeted budgeted_def within_def minus_budget_def nonneg_def split: if_splits)

lemma emptied_budgeted: "budgeted t \<Longrightarrow> budgeted (emptied t)"
  by (simp add: budgeted_def buffer_ok_def emptied_def nonneg_def zero_budget_def slippage_def)

lemma flush_covered:
  assumes "budgeted t" "covered t" "flush t = (Inr u, t')"
  shows "nonneg (remaining t')"
proof (cases "pending t = zero_budget")
  case True
  with assms(2,3) show ?thesis by (auto simp: flush_spend covered_def zero_budget_def emptied_def)
next
  case False
  with assms spend_covered [OF emptied_budgeted [OF assms(1)], of "pending t"] show ?thesis
    by (simp add: flush_spend budgeted_def buffer_ok_def)
qed

lemma meter_covered:
  assumes "budgeted t" "\<not> enters_error s" "covered_at s t" "meter variant s t = (Inr u, t')"
  shows "covered t'"
proof (cases s)
  case (Compute "term" env kont)
  have ok: "buffer_ok t" "term \<noteq> TError" using assms Compute by (auto simp: budgeted_def enters_error_def)
  then have "nonneg (pending (buffered term t))" "0 < cpu (pending (buffered term t))"
    using buffered_pending [of t "term"] costs_ok_step [of "tracker_costs t" "term"] by (auto simp: buffer_ok_def)
  moreover have "compute_step term t = (Inr u, t')"
    using assms(4) by (auto simp: Compute meter_def and_then_def tick_simps settle_def split: prod.splits sum.splits)
  ultimately show ?thesis
    using spend_covered [OF emptied_budgeted [OF assms(1)], of "pending (buffered term t)" u t']
    by (auto simp: compute_step_buffered [OF ok] covered_def split: if_splits)
next
  case (Return v kont)
  with assms(4) have settle: "settle variant s t = (Inr u, t')" by (simp add: meter_def and_then_def tick_simps)
  show ?thesis
  proof (cases "bill s")
    case None
    with settle assms(3) Return show ?thesis by (simp add: settle_def covered_at_def)
  next
    case (Some call)
    define c where "c = charge_for_args (tracker_builtin_costs t) (fst call) (snd call) variant"
    have c: "nonneg c" using assms(1) by (simp add: c_def budgeted_def buffer_ok_def charge_nonneg)
    from settle obtain u1 t1 where t1: "flush t = (Inr u1, t1)" "spend c t1 = (Inr u, t')"
      by (cases call) (auto simp: settle_def Some charge_def c_def split: prod.splits sum.splits)
    then have "budgeted t1" using pays_flush assms(1) by (auto simp: pays_def pays_at_def)
    with spend_covered [OF _ c t1(2)] show ?thesis by (simp add: covered_def)
  qed
next
  case (Done v)
  with assms(3,4) show ?thesis by (simp add: meter_def and_then_def tick_simps settle_def covered_at_def)
qed

lemma spend_error: "spend c t = (Inl e, t') \<Longrightarrow> is_exhausted e"
  by (auto simp: spend_def is_exhausted_def split: if_splits option.splits)

lemma flush_error: "flush t = (Inl e, t') \<Longrightarrow> is_exhausted e"
  by (auto simp: flush_spend dest: spend_error split: if_splits)

lemma meter_error: "meter variant s t = (Inl e, t') \<Longrightarrow> is_exhausted e"
proof -
  have tick: "tick s t = (Inl e, t') \<Longrightarrow> is_exhausted e" for t e t'
    using flush_error by (cases s) (auto simp: tick_simps compute_step_def Let_def split: if_splits)
  have "settle variant s t = (Inl e, t') \<Longrightarrow> is_exhausted e" for t e t'
    using flush_error spend_error by (auto simp: settle_def charge_def split: option.splits prod.splits sum.splits)
  with tick show "meter variant s t = (Inl e, t') \<Longrightarrow> is_exhausted e"
    by (auto simp: meter_def and_then_def split: prod.splits sum.splits)
qed

lemma consumed_mirrored:
  assumes "tracks b t tc" "nonneg (remaining t)" "pending t = zero_budget"
  shows "consumed t = counting_spent tc" "consumed tc = counting_spent tc" "within (counting_spent tc) b"
proof -
  have sp: "counting_spent tc = minus_budget b (remaining t)" "nonneg (counting_spent tc)"
    "within (counting_spent tc) \<lparr>cpu = i64_max, mem = i64_max\<rparr>" "starting t = b" "\<not> counting t" "counting tc"
    "pending tc = zero_budget"
    using assms by (auto simp: tracks_def counts_def budgeted_def)
  have wrap: "wrap64 x = x" "sat_add x 0 = x" if "0 \<le> x" "x \<le> i64_max" for x
    using that by (simp_all add: wrap64_def sat_add_def sat64_def i64_max_def i64_min_def)
  show "consumed t = counting_spent tc"
    using sp wrap assms(3) by (simp add: consumed_def zero_budget_def minus_budget_def nonneg_def within_def)
  show "consumed tc = counting_spent tc"
    using sp wrap by (simp add: consumed_def zero_budget_def add_saturating_def nonneg_def within_def)
  show "within (counting_spent tc) b"
    using sp assms(2) by (simp add: within_def minus_budget_def nonneg_def)
qed

definition in_step ::
  "ex_budget \<Rightarrow> state \<times> tracker \<times> trace_log \<Rightarrow> state \<times> tracker \<times> trace_log \<Rightarrow> bool" where
  "in_step b = (\<lambda>(s, t, log) (s', tc, log'). s' = s \<and> log' = log \<and> tracks b t tc \<and> covered_at s t)"

definition same_outcome :: "ex_budget \<Rightarrow> outcome \<Rightarrow> outcome \<Rightarrow> bool" where
  "same_outcome b = (\<lambda>(r, t, log) (r', tc, log'). r' = r \<and> log' = log \<and>
     (case r of Inl _ \<Rightarrow> True | Inr _ \<Rightarrow> consumed t = consumed tc \<and> within (consumed t) b))"

definition gave_up :: "outcome \<Rightarrow> bool" where
  "gave_up = (\<lambda>(r, _). case r of Inl e \<Rightarrow> is_exhausted e | Inr _ \<Rightarrow> False)"

lemma flush_done:
  assumes "tracks b t tc" "covered t"
  shows "case flush t of (Inl e, _) \<Rightarrow> is_exhausted e
    | (Inr _, t') \<Rightarrow> \<exists>tc'. flush tc = (Inr (), tc') \<and> consumed t' = consumed tc' \<and> within (consumed t') b"
proof (cases "flush t")
  case (Pair r t')
  show ?thesis
  proof (cases r)
    case (Inl e)
    then show ?thesis using mirrors_flush [OF assms(1)] Pair by (simp add: mirrors_at_def)
  next
    case (Inr u)
    obtain tc' where tc': "flush tc = (Inr (), tc')"
      using counts_flush [OF tracks_counts [OF assms(1)]] by (auto simp: counts_at_def split: prod.splits sum.splits)
    have "tracks b t' tc'" using mirrors_flush [OF assms(1)] Pair Inr tc' by (simp add: mirrors_at_def)
    moreover have "nonneg (remaining t')"
      using flush_covered [of t u t'] assms Pair Inr by (simp add: tracks_def)
    moreover have "pending t' = zero_budget"
      using Pair Inr by (auto simp: flush_spend emptied_def spend_def split: if_splits option.splits)
    ultimately show ?thesis
      using consumed_mirrored [of b t' tc'] Pair Inr tc' by simp
  qed
qed

interpretation counted: driver_pair "metered_loop ext variant" "metered_advance ext variant"
  "metered_loop ext variant" "metered_advance ext variant" "in_step b" "same_outcome b" gave_up
  for ext :: "('p, 'q) externals" and variant b
proof unfold_locales
  fix c d r
  assume rel: "in_step b c d"
  then obtain s t tc log where c: "c = (s, t, log)" "d = (s, tc, log)" "tracks b t tc" "covered_at s t"
    by (auto simp: in_step_def)
  obtain tc1 where tc1: "meter variant s tc = (Inr (), tc1)"
    using counting_meter [of tc variant s] c(3) by (auto simp: tracks_def counts_def)
  obtain r1 t1 where t1: "meter variant s t = (r1, t1)" by (cases "meter variant s t")
  have mirrored: "tracks b t1 tc1 \<and> covered t1" if "r1 = Inr u" "\<not> enters_error s" for u
    using meter_mirrors(2) [OF that(2) c(3), of variant] meter_covered [OF _ that(2) c(4)] that(1) t1 tc1 c(3)
    by (simp add: mirrors_at_def tracks_def)
  have err: "bare_step ext variant s log = (Inl ScriptError, log)" if "enters_error s"
    using that by (auto simp: enters_error_def bare_step_def split: state.splits)
  show "gave_up r \<or> (\<exists>q. metered_advance ext variant d = Inl q \<and> same_outcome b r q)"
    if "metered_advance ext variant c = Inl r"
  proof (cases r1)
    case (Inl e)
    with that c t1 meter_error [of variant s t e t1] show ?thesis by (auto simp: metered_advance_def gave_up_def)
  next
    case (Inr u)
    obtain x log1 where x: "bare_step ext variant s log = (x, log1)" by (cases "bare_step ext variant s log")
    show ?thesis
    proof (cases x)
      case (Inl e)
      with that c t1 tc1 Inr x show ?thesis by (auto simp: metered_advance_def same_outcome_def)
    next
      case (Inr s')
      with err x have "\<not> enters_error s" by auto
      with mirrored \<open>r1 = Inr u\<close> have "tracks b t1 tc1" "covered t1" by auto
      from flush_done [OF this] that c t1 tc1 \<open>r1 = Inr u\<close> Inr x show ?thesis
        by (auto simp: metered_advance_def same_outcome_def gave_up_def split: state.splits prod.splits sum.splits)
    qed
  qed
  show "\<exists>d'. metered_advance ext variant d = Inr d' \<and> in_step b c' d'"
    if "metered_advance ext variant c = Inr c'" for c'
  proof -
    from that c t1 obtain u s' log1 where x: "r1 = Inr u" "bare_step ext variant s log = (Inr s', log1)"
        "c' = (s', t1, log1)" "\<nexists>v. s' = Done v"
      by (auto simp: metered_advance_def split: prod.splits sum.splits state.splits)
    with err have "\<not> enters_error s" by auto
    with mirrored x have "tracks b t1 tc1" "covered t1" by auto
    with x c tc1 show ?thesis
      by (cases s') (auto simp: metered_advance_def in_step_def covered_at_def)
  qed
qed

text \<open>The other way round: a budget that covers the final count is never exhausted on the way.\<close>

definition covers_run ::
  "('p, 'q) externals \<Rightarrow> semantics_variant \<Rightarrow> ex_budget \<Rightarrow> state \<times> tracker \<times> trace_log \<Rightarrow> outcome \<Rightarrow> bool" where
  "covers_run ext variant b c q \<longleftrightarrow>
     (case (c, q) of
        ((s, tc, log), (Inr v, tc', log')) \<Rightarrow>
          counts tc \<longrightarrow> within (counting_spent tc) (consumed tc') \<and>
            (within (consumed tc') b \<longrightarrow>
              (\<forall>t. tracks b t tc \<longrightarrow> (\<exists>t'. metered_loop ext variant (s, t, log) = Some (Inr v, t', log'))))
      | _ \<Rightarrow> True)"

lemma flush_counted:
  assumes "counts tc" "flush tc = (Inr u, tc')"
  shows "within (counting_spent tc) (consumed tc')"
    and "tracks b t tc \<Longrightarrow> within (consumed tc') b \<Longrightarrow> \<exists>t'. flush t = (Inr (), t')"
proof -
  have tc': "counts tc'" "within (counting_spent tc) (counting_spent tc')"
    using counts_flush [OF assms(1)] assms(2) by (auto simp: counts_at_def)
  have "pending tc' = zero_budget"
    using assms by (auto simp: flush_spend emptied_def spend_def counts_def split: if_splits option.splits)
  then have "consumed tc' = counting_spent tc'"
    using tc'(1) by (simp add: consumed_def counts_def add_saturating_def zero_budget_def nonneg_def within_def
        sat_add_def sat64_def i64_max_def i64_min_def)
  then show "within (counting_spent tc) (consumed tc')"
    and "tracks b t tc \<Longrightarrow> within (consumed tc') b \<Longrightarrow> \<exists>t'. flush t = (Inr (), t')"
    using tc'(2) mirrors_flush [of b t tc] assms(2) by (auto simp: mirrors_at_def split: prod.splits sum.splits)
qed

lemma counted_meter:
  assumes "counts tc" "\<not> enters_error s" "meter variant s tc = (Inr u, tc1)"
  shows "counts tc1" "within (counting_spent tc) (counting_spent tc1)"
    and "tracks b t tc \<Longrightarrow> within (counting_spent tc1) b \<Longrightarrow> \<exists>t1. meter variant s t = (Inr (), t1) \<and> tracks b t1 tc1"
  using meter_mirrors(1) [OF assms(2,1), of variant] meter_mirrors(2) [OF assms(2), of b t tc variant] assms(3)
  by (auto simp: counts_at_def mirrors_at_def split: prod.splits sum.splits)

lemma stop_covered:
  assumes "metered_advance ext variant (s, tc, log) = Inl (Inr v, tc', log')" "counts tc"
  shows "within (counting_spent tc) (consumed tc')"
    and "within (consumed tc') b \<Longrightarrow> tracks b t tc \<Longrightarrow>
      \<exists>t'. metered_advance ext variant (s, t, log) = Inl (Inr v, t', log')"
proof -
  from assms(1) obtain tc1 u where x: "meter variant s tc = (Inr (), tc1)"
      "bare_step ext variant s log = (Inr (Done v), log')" "flush tc1 = (Inr u, tc')"
    by (auto simp: metered_advance_def split: prod.splits sum.splits state.splits)
  then have "\<not> enters_error s" by (auto simp: enters_error_def bare_step_def split: state.splits)
  note m = counted_meter [OF assms(2) this x(1)] and f = flush_counted [OF _ x(3)]
  show "within (counting_spent tc) (consumed tc')"
    using m(1,2) f(1) within_trans by blast
  assume "within (consumed tc') b" "tracks b t tc"
  with m f obtain t1 t' where "meter variant s t = (Inr (), t1)" "flush t1 = (Inr (), t')"
    using within_trans by metis
  then show "\<exists>t'. metered_advance ext variant (s, t, log) = Inl (Inr v, t', log')"
    using x(2) by (simp add: metered_advance_def)
qed

lemma go_covered:
  assumes "metered_advance ext variant (s, tc, log) = Inr (s', tc1, log1)" "counts tc"
  shows "counts tc1" "within (counting_spent tc) (counting_spent tc1)"
    and "within (counting_spent tc1) b \<Longrightarrow> tracks b t tc \<Longrightarrow>
      \<exists>t1. metered_advance ext variant (s, t, log) = Inr (s', t1, log1) \<and> tracks b t1 tc1"
proof -
  from assms(1) have x: "meter variant s tc = (Inr (), tc1)"
      "bare_step ext variant s log = (Inr s', log1)" "\<nexists>v. s' = Done v"
    by (auto simp: metered_advance_def split: prod.splits sum.splits state.splits)
  then have "\<not> enters_error s" by (auto simp: enters_error_def bare_step_def split: state.splits)
  note m = counted_meter [OF assms(2) this x(1)]
  show "counts tc1" "within (counting_spent tc) (counting_spent tc1)" by (fact m(1), fact m(2))
  assume "within (counting_spent tc1) b" "tracks b t tc"
  with m(3) [of b t] obtain t1 where "meter variant s t = (Inr (), t1)" "tracks b t1 tc1" by blast
  then show "\<exists>t1. metered_advance ext variant (s, t, log) = Inr (s', t1, log1) \<and> tracks b t1 tc1"
    using x(2,3) by (cases s') (auto simp: metered_advance_def)
qed

lemma run_covered: "metered_loop ext variant c = Some q \<Longrightarrow> covers_run ext variant b c q"
proof (induction rule: metered.run_induct)
  case (stop c q)
  then show ?case
    using stop_covered [of ext variant "fst c" "fst (snd c)" "snd (snd c)"] metered.stops
    by (fastforce simp: covers_run_def split: prod.splits sum.splits)
next
  case (go c c' q)
  obtain s tc log where c: "c = (s, tc, log)" by (cases c)
  obtain s' tc1 log1 where c': "c' = (s', tc1, log1)" by (cases c')
  obtain r tc' log' where q: "q = (r, tc', log')" by (cases q)
  show ?case
  proof (cases r)
    case (Inr v)
    note x = go_covered [OF go.hyps [unfolded c c']]
    show ?thesis
      unfolding covers_run_def c q Inr prod.case sum.case
    proof (intro impI conjI allI)
      assume tc: "counts tc"
      with go.IH c' q Inr x(1) have IH: "within (counting_spent tc1) (consumed tc')"
        "\<And>t. within (consumed tc') b \<Longrightarrow> tracks b t tc1 \<Longrightarrow>
           \<exists>t'. metered_loop ext variant (s', t, log1) = Some (Inr v, t', log')"
        by (auto simp: covers_run_def)
      then show "within (counting_spent tc) (consumed tc')"
        using x(2) [OF tc] within_trans by blast
      fix t
      assume b: "within (consumed tc') b" "tracks b t tc"
      from x(3) [OF tc within_trans [OF IH(1) b(1)] b(2)] obtain t1 where
        t1: "metered_advance ext variant (s, t, log) = Inr (s', t1, log1)" "tracks b t1 tc1" by blast
      from IH(2) [OF b(1) t1(2)] show "\<exists>t'. metered_loop ext variant (s, t, log) = Some (Inr v, t', log')"
        by (simp add: metered.continues [OF t1(1)])
    qed
  qed (simp add: covers_run_def c q)
qed


section \<open>Counting and no budget\<close>

lemma denote_log: "fst (denote ext variant args log b) = fst (denote ext variant args log' b)"
proof (cases b)
  case (ControlFun f)
  then show ?thesis
    by (cases f) (auto simp: denote_trace_def split: sum.split cek_value.split uconst.split)
qed simp_all

lemma apply_value_log:
  "fst (apply_value ext variant f a kont (None, log)) = fst (apply_value ext variant f a kont (None, log'))"
  using denote_log [of ext variant _ log _ log']
  by (auto simp: apply_value_def apply_builtin_def fire_split charge_builtin_def Let_def
      split: cek_value.split prod.splits)

lemma bare_step_log: "fst (bare_step ext variant s log) = fst (bare_step ext variant s log')"
proof (cases s)
  case (Return v kont)
  show ?thesis
  proof (cases kont)
    case (Cons f rest)
    show ?thesis
    proof (cases f)
      case FForce
      have "fst (force_value ext variant v rest (None, log)) = fst (force_value ext variant v rest (None, log'))"
        by (auto simp: force_value_def force_builtin_def Let_def arity_not_nullary
            split: cek_value.split prod.split)
      with FForce show ?thesis by (simp add: Return Cons bare_step_def)
    qed (use apply_value_log [of ext variant _ _ rest log log'] in
          \<open>simp_all add: Return Cons bare_step_def split: list.split\<close>)
  qed (simp add: Return bare_step_def)
qed (simp_all add: bare_step_def)

lemma counting_advance:
  assumes "counting t"
  shows "\<exists>t' log'. counting t' \<and> metered_advance ext latest_variant (s, t, log) =
    map_sum (\<lambda>r. (r, t', log')) (\<lambda>s'. (s', t', log')) (plain_advance ext s)"
proof -
  obtain t1 where t1: "meter latest_variant s t = (Inr (), t1)" "counting t1"
    using counting_meter [OF assms] by blast
  obtain t2 where t2: "flush t1 = (Inr (), t2)" "counting t2" using counting_flush [OF t1(2)] by blast
  obtain x log' where x: "bare_step ext latest_variant s log = (x, log')" by (cases "bare_step ext latest_variant s log")
  then have "fst (bare_step ext latest_variant s None) = x" using bare_step_log [of ext latest_variant s None log] by simp
  with t1 t2 x show ?thesis
    by (cases x; cases "projr x") (auto simp: metered_advance_def plain_advance_def)
qed

definition counting_at :: "state \<times> tracker \<times> trace_log \<Rightarrow> state \<Rightarrow> bool" where
  "counting_at c s \<longleftrightarrow> fst c = s \<and> counting (fst (snd c))"

definition result_is :: "outcome \<Rightarrow> cek_value res \<Rightarrow> bool" where
  "result_is q r \<longleftrightarrow> fst q = r"

lemma counting_at_advance:
  assumes "counting_at c s"
  shows "metered_advance ext latest_variant c = Inl q \<Longrightarrow> \<exists>r. plain_advance ext s = Inl r \<and> result_is q r"
    and "metered_advance ext latest_variant c = Inr c' \<Longrightarrow> \<exists>s'. plain_advance ext s = Inr s' \<and> counting_at c' s'"
    and "plain_advance ext s = Inl r \<Longrightarrow> \<exists>q. metered_advance ext latest_variant c = Inl q \<and> result_is q r"
    and "plain_advance ext s = Inr s' \<Longrightarrow> \<exists>c'. metered_advance ext latest_variant c = Inr c' \<and> counting_at c' s'"
proof -
  obtain t log where "c = (s, t, log)" "counting t" using assms by (cases c) (auto simp: counting_at_def)
  with counting_advance [of t ext s log] obtain t' log' where t': "counting t'"
    "metered_advance ext latest_variant c = map_sum (\<lambda>r. (r, t', log')) (\<lambda>s'. (s', t', log')) (plain_advance ext s)"
    by blast
  then show "metered_advance ext latest_variant c = Inl q \<Longrightarrow> \<exists>r. plain_advance ext s = Inl r \<and> result_is q r"
    and "metered_advance ext latest_variant c = Inr c' \<Longrightarrow> \<exists>s'. plain_advance ext s = Inr s' \<and> counting_at c' s'"
    and "plain_advance ext s = Inl r \<Longrightarrow> \<exists>q. metered_advance ext latest_variant c = Inl q \<and> result_is q r"
    and "plain_advance ext s = Inr s' \<Longrightarrow> \<exists>c'. metered_advance ext latest_variant c = Inr c' \<and> counting_at c' s'"
    by (cases "plain_advance ext s"; auto simp: counting_at_def result_is_def)+
qed

interpretation uncounted: driver_pair "metered_loop ext latest_variant" "metered_advance ext latest_variant"
  "evaluate_loop ext" "plain_advance ext" counting_at result_is "\<lambda>_. False"
  for ext :: "('p, 'q) externals"
  by unfold_locales (use counting_at_advance(1,2) in blast)+

interpretation recounted: driver_pair "evaluate_loop ext" "plain_advance ext"
  "metered_loop ext latest_variant" "metered_advance ext latest_variant"
  "\<lambda>s c. counting_at c s" "\<lambda>r q. result_is q r" "\<lambda>_. False"
  for ext :: "('p, 'q) externals"
  by unfold_locales (use counting_at_advance(3,4) in blast)+

lemma counting_run: "counting t \<Longrightarrow> map_option fst (metered_loop ext latest_variant (s, t, log)) = evaluate_loop ext s"
proof (cases "evaluate_loop ext s")
  case None
  assume t: "counting t"
  show ?thesis
  proof (rule ccontr)
    assume "\<not> ?thesis"
    then obtain q where "metered_loop ext latest_variant (s, t, log) = Some q" by (auto simp: None)
    from uncounted.simulated [OF this, of s] t None show False by (simp add: counting_at_def)
  qed
next
  case (Some r)
  assume "counting t"
  with recounted.simulated [OF Some, of "(s, t, log)"] Some show ?thesis
    by (auto simp: counting_at_def result_is_def)
qed

lemma tracks_new:
  assumes "nonneg b" "cpu b < i64_max" "mem b < i64_max"
  shows "tracks b (tracker_new b) new_counting"
  using assms default_table_nonneg default_costs_ok
  by (auto simp: tracks_def budgeted_def buffer_ok_def counts_def tracker_new_def with_costs_def new_counting_def
      Let_def nonneg_def within_def minus_budget_def subtract_saturating_def add_saturating_def sat_sub_def
      sat_add_def sat64_def i64_max_def i64_min_def zero_budget_def slippage_def default_machine_costs_def)

end
