(* ===== verification/Uplc_Safety.thy ===== *)
theory Uplc_Safety
  imports Uplc_Counting
begin

text \<open>
  What can go wrong in a run.  A builtin fails only in its own name and returns a constant or one
  of its arguments.  A discipline on terms, such as having no free variable or using only certain
  builtins, is kept by every step of the machine; the errors that a disciplined term cannot cause
  are those of the code itself and of unbound variables.
\<close>

section \<open>How builtins fail and what they return\<close>

named_theorems denotes

definition fails_in :: "uplc_error set \<Rightarrow> 'a res \<Rightarrow> bool" where
  "fails_in E r \<longleftrightarrow> (\<forall>e. r = Inl e \<longrightarrow> e \<in> E)"

definition yields :: "uplc_error set \<Rightarrow> cek_value list \<Rightarrow> cek_value res \<Rightarrow> bool" where
  "yields E args r \<longleftrightarrow> fails_in E r \<and> (\<forall>v. r = Inr v \<longrightarrow> (\<exists>c. v = VConst c) \<or> v \<in> set args)"

text \<open>The curve builtins can also fail as the code's own error, when a group element that a program
  carries does not decompress.\<close>

definition own_errors :: "builtin_id \<Rightarrow> uplc_error set" where
  "own_errors b = {BuiltinTypeError b, BuiltinFailure b} \<union> {e. e = Internal \<and> (\<exists>f. b = BlsFun f)}"

lemma fails_in_Inr [denotes]: "fails_in E (Inr x)"
  by (simp add: fails_in_def)

lemma fails_in_Inl [denotes]:
  "e \<in> E \<Longrightarrow> fails_in E (Inl e)"
  "BuiltinTypeError b \<in> own_errors b" "BuiltinFailure b \<in> own_errors b" "Internal \<in> own_errors (BlsFun f)"
  by (simp_all add: fails_in_def own_errors_def)

lemma yields_VConst [denotes]: "yields E args (Inr (VConst c))"
  by (simp add: yields_def fails_in_def)

lemma yields_intros [denotes]:
  "e \<in> E \<Longrightarrow> yields E args (Inl e)" "v \<in> set args \<Longrightarrow> yields E args (Inr v)"
  by (simp_all add: yields_def fails_in_def)

lemma rbind_fails_in [denotes]:
  "fails_in E r \<Longrightarrow> (\<And>x. r = Inr x \<Longrightarrow> fails_in E (f x)) \<Longrightarrow> fails_in E (rbind r f)"
  by (cases r) (simp_all add: fails_in_def)

lemma rbind_yields [denotes]:
  "fails_in E r \<Longrightarrow> (\<And>x. r = Inr x \<Longrightarrow> yields E args (f x)) \<Longrightarrow> yields E args (rbind r f)"
  by (cases r) (simp_all add: fails_in_def yields_def)

lemma next_arg_denotes [denotes]: "i < length args \<Longrightarrow> fails_in E (next_arg i args)"
  by (simp add: next_arg_def fails_in_def)

lemma next_arg_in [dest]: "next_arg i args = Inr v \<Longrightarrow> v \<in> set args"
  by (auto simp: next_arg_def split: if_splits)

lemma take_one_denotes [denotes]: "0 < length args \<Longrightarrow> fails_in E (take_one args)"
  by (simp add: take_one_def next_arg_denotes)

lemma unwrap_denotes [denotes]:
  "fails_in (own_errors b) (unwrap_integer b v)" "fails_in (own_errors b) (unwrap_byte_string b v)"
  "fails_in (own_errors b) (unwrap_string b v)" "fails_in (own_errors b) (unwrap_bool b v)"
  "fails_in (own_errors b) (unwrap_proto_list b v)" "fails_in (own_errors b) (unwrap_proto_pair b v)"
  "fails_in (own_errors b) (unwrap_array b v)" "fails_in (own_errors b) (unwrap_data b v)"
  "fails_in (own_errors b) (unwrap_value b v)" "fails_in (own_errors b) (bigint_to_usize_or_failure b n)"
  "fails_in (own_errors b) (bigint_to_i64_or_failure b n)" "fails_in (own_errors b) (bigint_to_u8 b n)"
  by (auto simp: fails_in_def own_errors_def unwrap_integer_def unwrap_byte_string_def unwrap_string_def
      unwrap_bool_def unwrap_proto_list_def unwrap_proto_pair_def unwrap_array_def unwrap_data_def unwrap_value_def
      bigint_to_usize_or_failure_def bigint_to_i64_or_failure_def bigint_to_u8_def
      split: cek_value.splits uconst.splits if_splits)

lemma rmap_denotes [denotes]: "(\<And>x. fails_in E (f x)) \<Longrightarrow> fails_in E (rmap f xs)"
  by (induction xs) (auto intro!: denotes)

lemma if_denotes [denotes]:
  "(P \<Longrightarrow> fails_in E a) \<Longrightarrow> (\<not> P \<Longrightarrow> fails_in E b) \<Longrightarrow> fails_in E (if P then a else b)"
  by simp

lemma if_yields [denotes]:
  "(P \<Longrightarrow> yields E args a) \<Longrightarrow> (\<not> P \<Longrightarrow> yields E args b) \<Longrightarrow> yields E args (if P then a else b)"
  by simp

lemma write_bits_loop_denotes [denotes]: "fails_in (own_errors (BitsFun WriteBits)) (write_bits_loop v out cs)"
  by (induction cs arbitrary: out) (auto simp: write_bits_step_def split: uconst.split intro!: denotes)

lemma scale_denotes [denotes]:
  "fails_in (own_errors (ValueFun ScaleValue)) (scale_tokens n toks acc)"
  by (induction n toks acc rule: scale_tokens.induct) (auto simp: Let_def intro!: denotes)

lemma scale_policies_denotes [denotes]:
  "fails_in (own_errors (ValueFun ScaleValue)) (scale_policies n m acc)"
  by (induction n m acc rule: scale_policies.induct) (auto intro!: denotes)

lemma ascending_key_denotes [denotes]: "fails_in (own_errors (ValueFun UnValueData)) (ascending_key prev k)"
  by (auto simp: ascending_key_def split: uplc_data.split intro!: denotes)

lemma un_value_denotes [denotes]:
  "fails_in (own_errors (ValueFun UnValueData)) (un_value_tokens prev pairs acc)"
  by (induction prev pairs acc rule: un_value_tokens.induct) (auto split: uplc_data.split intro!: denotes)

lemma un_value_policies_denotes [denotes]:
  "fails_in (own_errors (ValueFun UnValueData)) (un_value_policies prev pairs acc)"
  by (induction prev pairs acc rule: un_value_policies.induct) (auto split: uplc_data.split intro!: denotes)

lemma union_denotes [denotes]:
  "fails_in (own_errors (ValueFun UnionValue)) (union_tokens acc toks)"
  by (induction acc toks rule: union_tokens.induct) (auto simp: Let_def intro!: denotes)

lemma union_policies_denotes [denotes]:
  "fails_in (own_errors (ValueFun UnionValue)) (union_policies acc m)"
  by (induction acc m rule: union_policies.induct) (auto intro!: denotes)

lemma const_data_denotes [denotes]:
  "fails_in (own_errors b) (const_data b c)" "fails_in (own_errors b) (const_data_pair b c)"
  by (auto simp: const_data_def const_data_pair_def split: uconst.split intro!: denotes)

lemma integer_denotes:
  "snd (integer_fun_arity_of f) \<le> length args \<Longrightarrow> yields (own_errors (IntegerFun f)) args (denote_integer ext args f)"
  by (cases f) (auto simp: int_binop_def int_cmp_def take_two_integers_def nonzero_divisor_def exp_mod_integer_def
      Let_def split: option.split intro!: denotes)

lemma bytes_denotes:
  "snd (bytes_fun_arity_of f) \<le> length args \<Longrightarrow> yields (own_errors (BytesFun f)) args (denote_bytes variant args f)"
  by (cases f) (auto simp: take_two_byte_strings_def cons_byte_string_def slice_byte_string_def index_byte_string_def
      integer_to_byte_string_def byte_string_to_integer_def Let_def intro!: denotes)

lemma string_denotes:
  "snd (string_fun_arity_of f) \<le> length args \<Longrightarrow> yields (own_errors (StringFun f)) args (denote_string args f)"
  by (cases f) (auto simp: take_two_strings_def intro!: denotes)

lemma crypto_denotes:
  "snd (crypto_fun_arity_of f) \<le> length args \<Longrightarrow> yields (own_errors (CryptoFun f)) args (denote_crypto ext args f)"
  by (cases f) (auto simp: hash_one_def verify_ed25519_def verify_ecdsa_def verify_schnorr_def Let_def intro!: denotes)

lemma control_denotes:
  "snd (control_fun_arity_of f) \<le> length args \<Longrightarrow> yields (own_errors (ControlFun f)) args (fst (denote_control args log f))"
  by (cases f) (auto simp: if_then_else_def choose_unit_def denote_trace_def next_arg_def
      split: cek_value.split uconst.split intro!: denotes)

lemma list_denotes:
  "snd (list_fun_arity_of f) \<le> length args \<Longrightarrow> yields (own_errors (ListFun f)) args (denote_list args f)"
  by (cases f) (auto simp: choose_list_def mk_cons_def head_list_def tail_list_def drop_list_def index_array_def Let_def
      split: list.split cek_value.split intro!: denotes)

lemma data_denotes:
  "snd (data_fun_arity_of f) \<le> length args \<Longrightarrow> yields (own_errors (DataFun f)) args (denote_data ext variant args f)"
  by (cases f) (auto simp: choose_data_def constr_data_def map_data_def list_data_def un_constr_data_def
      un_map_data_def un_list_data_def un_i_data_def un_b_data_def equals_data_def mk_pair_data_def
      Let_def split: uplc_data.split uconst.split intro!: denotes)

lemma bits_denotes:
  "snd (bits_fun_arity_of f) \<le> length args \<Longrightarrow> yields (own_errors (BitsFun f)) args (denote_bits variant args f)"
  by (cases f) (auto simp: bitwise_byte_string_def read_bit_def write_bits_def replicate_byte_def shift_byte_string_def
      rotate_byte_string_def count_set_bits_def find_first_set_bit_def Let_def intro!: denotes)

lemma value_denotes:
  "snd (value_fun_arity_of f) \<le> length args \<Longrightarrow> yields (own_errors (ValueFun f)) args (denote_value args f)"
  by (cases f) (auto simp: insert_coin_def lookup_coin_def union_value_def value_contains_def value_data_def
      un_value_data_def scale_value_def Let_def split: uplc_data.split intro!: denotes)

lemma curve_arguments_denote [denotes]:
  "fails_in (own_errors b) (unwrap_ml_bytes b v)" "fails_in (own_errors b) (unwrap_scalar_list b v)"
  "fails_in (own_errors b) (unwrap_g1_bytes b v)" "fails_in (own_errors b) (unwrap_g2_bytes b v)"
  "fails_in (own_errors b) (unwrap_g1_list b v)" "fails_in (own_errors b) (unwrap_g2_list b v)"
  by (auto simp: unwrap_ml_bytes_def unwrap_scalar_list_def unwrap_g1_bytes_def unwrap_g2_bytes_def
      unwrap_g1_list_def unwrap_g2_list_def split: cek_value.split uconst.split intro!: denotes)

lemma curve_points_denote [denotes]:
  "fails_in (own_errors b) (uncompress_g1 g b bs)" "fails_in (own_errors b) (uncompress_g2 h b bs)"
  "fails_in (own_errors (BlsFun f)) (decompress_g1_trusted_uncached g bs)"
  "fails_in (own_errors (BlsFun f)) (decompress_g2_trusted_uncached h bs)"
  by (auto simp: uncompress_g1_def uncompress_g2_def decompress_g1_trusted_uncached_def
      decompress_g2_trusted_uncached_def split: option.split intro!: denotes)

lemma group_values_denote [denotes]:
  "yields E args (Inr (g1_to_value g p))" "yields E args (Inr (g2_to_value h q))"
  by (simp_all add: g1_to_value_def g2_to_value_def yields_VConst)

lemma msm_loop_denotes [denotes]:
  "fails_in (own_errors (BlsFun f)) (g1_msm_loop g (BlsFun f) ps acc)"
  "fails_in (own_errors (BlsFun f)) (g2_msm_loop h (BlsFun f) ps acc')"
  by (induction ps arbitrary: acc acc') (auto intro!: denotes)

lemma bls_denotes:
  "snd (bls_fun_arity_of f) \<le> length args \<Longrightarrow> yields (own_errors (BlsFun f)) args (denote_bls bl args f)"
  by (cases f) (auto simp: g1_binop_def g1_unop_def g1_scalar_mul_def g1_eq_def g1_hash_to_group_def g1_compress_def
      g1_uncompress_def g1_multi_scalar_mul_def take_one_g1_def take_two_g1_def
      g2_binop_def g2_unop_def g2_scalar_mul_def g2_eq_def g2_hash_to_group_def g2_compress_def
      g2_uncompress_def g2_multi_scalar_mul_def take_one_g2_def take_two_g2_def
      miller_loop_def mul_ml_def final_verify_def intro!: denotes)

lemma denote_yields:
  "snd (arity_of b) \<le> length args \<Longrightarrow> yields (own_errors b) args (fst (denote ext variant args log b))"
  by (cases b) (simp_all add: integer_denotes bytes_denotes crypto_denotes string_denotes control_denotes list_denotes
      data_denotes bls_denotes bits_denotes value_denotes)



section \<open>Disciplines\<close>

text \<open>A discipline says which terms are good under a number of binders and which builtins they may
  have, and names the errors that running a good term may end with.  Values, frames and states are
  good when the terms and builtins in them are.\<close>

fun good_value :: "(nat \<Rightarrow> uterm \<Rightarrow> bool) \<Rightarrow> builtin_id set \<Rightarrow> cek_value \<Rightarrow> bool" where
  "good_value good B (VConst c) \<longleftrightarrow> True"
| "good_value good B (VLambda t e) \<longleftrightarrow> good (Suc (length e)) t \<and> list_all (good_value good B) e"
| "good_value good B (VDelay t e) \<longleftrightarrow> good (length e) t \<and> list_all (good_value good B) e"
| "good_value good B (VBuiltin b forces args) \<longleftrightarrow> b \<in> B \<and> list_all (good_value good B) args"
| "good_value good B (VConstr tag args) \<longleftrightarrow> list_all (good_value good B) args"

fun good_frame :: "(nat \<Rightarrow> uterm \<Rightarrow> bool) \<Rightarrow> builtin_id set \<Rightarrow> frame \<Rightarrow> bool" where
  "good_frame good B (AwaitArg v e) \<longleftrightarrow> good_value good B v"
| "good_frame good B (AwaitFunTerm t e) \<longleftrightarrow> good (length e) t \<and> list_all (good_value good B) e"
| "good_frame good B FForce \<longleftrightarrow> True"
| "good_frame good B (ApplyValue v) \<longleftrightarrow> good_value good B v"
| "good_frame good B (FConstr tag ts vs e) \<longleftrightarrow>
     list_all (good (length e)) ts \<and> list_all (good_value good B) vs \<and> list_all (good_value good B) e"
| "good_frame good B (FCases ts e) \<longleftrightarrow> list_all (good (length e)) ts \<and> list_all (good_value good B) e"

primrec good_state :: "(nat \<Rightarrow> uterm \<Rightarrow> bool) \<Rightarrow> builtin_id set \<Rightarrow> state \<Rightarrow> bool" where
  "good_state good B (Compute t e kont) \<longleftrightarrow>
     good (length e) t \<and> list_all (good_value good B) e \<and> list_all (good_frame good B) kont"
| "good_state good B (Return v kont) \<longleftrightarrow> good_value good B v \<and> list_all (good_frame good B) kont"
| "good_state good B (Done v) \<longleftrightarrow> good_value good B v"

definition steps_into :: "(nat \<Rightarrow> uterm \<Rightarrow> bool) \<Rightarrow> builtin_id set \<Rightarrow> uplc_error set \<Rightarrow> state res \<Rightarrow> bool" where
  "steps_into good B E r \<longleftrightarrow> fails_in E r \<and> (\<forall>s. r = Inr s \<longrightarrow> good_state good B s)"

lemma steps_into_simps [simp]:
  "steps_into good B E (Inr s) \<longleftrightarrow> good_state good B s" "steps_into good B E (Inl e) \<longleftrightarrow> e \<in> E"
  by (auto simp: steps_into_def fails_in_def)

lemma yields_steps:
  assumes "yields E' args r" and "E' \<subseteq> E" and "list_all (good_value good B) args" and "list_all (good_frame good B) kont"
  shows "steps_into good B E (rbind r (\<lambda>v. Inr (Return v kont)))"
  using assms by (cases r) (auto simp: yields_def fails_in_def list_all_iff)

locale discipline =
  fixes good :: "nat \<Rightarrow> uterm \<Rightarrow> bool" and B :: "builtin_id set" and E :: "uplc_error set"
  assumes good_var: "good (length e) (TVar i) \<Longrightarrow> fails_in E (env_lookup e i)"
    and good_lam: "good n (TLam t) \<Longrightarrow> good (Suc n) t"
    and good_app: "good n (TApp t u) \<Longrightarrow> good n t \<and> good n u"
    and good_delay: "good n (TDelay t) \<Longrightarrow> good n t"
    and good_force: "good n (TForce t) \<Longrightarrow> good n t"
    and good_builtin: "good n (TBuiltin b) \<Longrightarrow> b \<in> B"
    and good_constr: "good n (TConstr tag ts) \<Longrightarrow> list_all (good n) ts"
    and good_case: "good n (TCase t ts) \<Longrightarrow> good n t \<and> list_all (good n) ts"
    and builtin_errors: "b \<in> B \<Longrightarrow> own_errors b \<subseteq> E"
    and script_errors: "ScriptError \<in> E" "MachineError AppliedNonFunction \<in> E" "MachineError ForcedNonDelay \<in> E"
      "MachineError CaseNonConstr \<in> E" "MachineError CaseNonEnumerable \<in> E"
begin

lemma compute_good:
  assumes "good (length e) t" and "list_all (good_value good B) e" and "list_all (good_frame good B) kont"
  shows "steps_into good B E (compute t e kont)"
proof (cases t)
  case (TVar i)
  with assms show ?thesis
    using good_var [of e i] by (auto simp: steps_into_def env_lookup_def fails_in_def list_all_length)
qed (use assms script_errors in \<open>auto simp: arity_not_nullary list_all_iff split: list.split prod.split
  dest: good_lam good_app good_delay good_force good_builtin good_constr good_case\<close>)

lemma apply_good:
  assumes "good_value good B f" and "good_value good B a" and "list_all (good_frame good B) kont"
  shows "steps_into good B E (fst (apply_value ext variant f a kont (None, log)))"
proof (cases f)
  case (VBuiltin b forces args)
  with assms builtin_errors [of b] have b: "own_errors b \<subseteq> E" "list_all (good_value good B) (args @ [a])"
    by auto
  have "steps_into good B E (rbind (fst (denote ext variant (args @ [a]) log b)) (\<lambda>v. Inr (Return v kont)))"
    if "snd (arity_of b) = length (args @ [a]) mod 256"
    using yields_steps [OF denote_yields b assms(3)] that mod_less_eq_dividend [of "length (args @ [a])" 256] by simp
  with assms b show ?thesis
    by (auto simp: VBuiltin apply_value_def apply_builtin_def fire_split charge_builtin_def Let_def own_errors_def
        split: prod.split)
qed (use assms script_errors in \<open>auto simp: apply_value_def env_extend_def\<close>)

lemma force_good:
  assumes "good_value good B v" and "list_all (good_frame good B) kont"
  shows "steps_into good B E (fst (force_value ext variant v kont (None, log)))"
  using assms script_errors builtin_errors
  by (cases v) (auto simp: force_value_def force_builtin_def Let_def arity_not_nullary own_errors_def split: prod.split)

lemma case_good:
  assumes "good_value good B v" and "list_all (good (length e)) ts" and "list_all (good_value good B) e"
    and "list_all (good_frame good B) kont"
  shows "steps_into good B E (case_branch variant v ts e kont)"
  using assms script_errors
  by (cases v) (auto simp: case_branch_def case_project_def case_constant_def list_all_iff
      split: uconst.split list.split)

lemma step_good:
  assumes "good_state good B s" and "\<And>v. s \<noteq> Done v"
  shows "steps_into good B E (fst (bare_step ext variant s log))"
proof (cases s)
  case (Return v kont)
  show ?thesis
  proof (cases kont)
    case (Cons f rest)
    with assms Return show ?thesis
      by (cases f) (auto simp: bare_step_def apply_good force_good case_good split: list.split)
  qed (use assms Return in \<open>simp add: bare_step_def\<close>)
qed (use assms compute_good in \<open>simp_all add: bare_step_def\<close>)

lemma budget_run_good:
  assumes "evaluate_with_budget ext variant term tr log = Some (Inl e, t, log')" and "good 0 term"
  shows "e \<in> E \<or> is_exhausted e"
proof -
  define ok where "ok = (\<lambda>(s, t :: tracker, log :: trace_log). good_state good B s \<and> (\<forall>v. s \<noteq> Done v))"
  define Q :: "outcome \<Rightarrow> bool" where "Q = (\<lambda>(r, t, log). \<forall>e. r = Inl e \<longrightarrow> e \<in> E \<or> is_exhausted e)"
  have step: "steps_into good B E (fst (bare_step ext variant s log))" if "ok (s, t, log)" for s t log
    using step_good that by (auto simp: ok_def)
  have "Q (Inl e, t, log')"
  proof (rule metered.keeps [where ok = ok])
    show "metered_loop ext variant (Compute term [] [], tr, log) = Some (Inl e, t, log')"
      using assms by (simp add: evaluate_with_budget_def metered_loop_def)
    show "ok (Compute term [] [], tr, log)" using assms by (simp add: ok_def)
    show "Q r" if "ok c" "metered_advance ext variant c = Inl r" for c r
      using that step [of "fst c" "fst (snd c)" "snd (snd c)"]
      by (auto simp: Q_def metered_advance_def fails_in_def dest: meter_error flush_error
          split: prod.splits sum.splits state.splits)
    show "ok c'" if "ok c" "metered_advance ext variant c = Inr c'" for c c'
      using that step [of "fst c" "fst (snd c)" "snd (snd c)"]
      by (auto simp: ok_def metered_advance_def split: prod.splits sum.splits state.splits)
  qed
  then show ?thesis by (simp add: Q_def)
qed

end


section \<open>Two disciplines\<close>

fun scoped :: "nat \<Rightarrow> uterm \<Rightarrow> bool" where
  "scoped n (TVar i) \<longleftrightarrow> 0 < i \<and> i \<le> n"
| "scoped n (TLam t) \<longleftrightarrow> scoped (Suc n) t"
| "scoped n (TApp t u) \<longleftrightarrow> scoped n t \<and> scoped n u"
| "scoped n (TDelay t) \<longleftrightarrow> scoped n t"
| "scoped n (TForce t) \<longleftrightarrow> scoped n t"
| "scoped n (TConstr tag ts) \<longleftrightarrow> list_all (scoped n) ts"
| "scoped n (TCase t ts) \<longleftrightarrow> scoped n t \<and> list_all (scoped n) ts"
| "scoped n _ \<longleftrightarrow> True"

fun builtins_of :: "uterm \<Rightarrow> builtin_id list" where
  "builtins_of (TLam t) = builtins_of t"
| "builtins_of (TApp t u) = builtins_of t @ builtins_of u"
| "builtins_of (TDelay t) = builtins_of t"
| "builtins_of (TForce t) = builtins_of t"
| "builtins_of (TBuiltin b) = [b]"
| "builtins_of (TConstr tag ts) = concat (map builtins_of ts)"
| "builtins_of (TCase t ts) = builtins_of t @ concat (map builtins_of ts)"
| "builtins_of _ = []"

fun on_spine :: "uterm \<Rightarrow> bool" where
  "on_spine (TLam t) \<longleftrightarrow> on_spine t"
| "on_spine (TApp t u) \<longleftrightarrow> on_spine t \<and> on_spine u"
| "on_spine (TDelay t) \<longleftrightarrow> on_spine t"
| "on_spine (TForce t) \<longleftrightarrow> on_spine t"
| "on_spine (TConstr tag ts) \<longleftrightarrow> False"
| "on_spine (TCase t ts) \<longleftrightarrow> False"
| "on_spine _ \<longleftrightarrow> True"

lemma scope_go_scoped: "scope_go t n = Inr () \<Longrightarrow> on_spine t \<Longrightarrow> scoped n t"
  by (induction t n rule: scope_go.induct) (auto simp: rbind_Inr_iff split: if_splits)

definition run_errors :: "builtin_id set \<Rightarrow> uplc_error set" where
  "run_errors B = {ScriptError, MachineError AppliedNonFunction, MachineError ForcedNonDelay,
     MachineError CaseNonConstr, MachineError CaseNonEnumerable} \<union> (\<Union>b \<in> B. own_errors b)"

definition index_errors :: "uplc_error set" where
  "index_errors = {MachineError IndexZero, MachineError IndexOutOfRange}"

interpretation closed_terms: discipline "\<lambda>n t. scoped n t \<and> set (builtins_of t) \<subseteq> B" B "run_errors B" for B
  by unfold_locales (auto simp: run_errors_def env_lookup_def list_all_iff intro!: denotes)

interpretation open_terms: discipline "\<lambda>n t. set (builtins_of t) \<subseteq> B" B "run_errors B \<union> index_errors" for B
  by unfold_locales (auto simp: run_errors_def index_errors_def env_lookup_def list_all_iff intro!: denotes)

lemma run_errors_only:
  assumes "evaluate_with_budget ext variant term tr log = Some (Inl e, t, log')"
  shows "is_exhausted e \<or> e \<in> run_errors (set (builtins_of term)) \<or>
    e \<in> index_errors \<and> \<not> (check_scope term = Inr () \<and> on_spine term)"
  using closed_terms.budget_run_good [OF assms] open_terms.budget_run_good [OF assms] scope_go_scoped [of "term" 0]
  by (auto simp: check_scope_def)

end
