(* ===== verification/Uplc_Theorems.thy ===== *)
theory Uplc_Theorems
  imports Uplc_Safety
begin

text \<open>
  The properties of the script evaluator: of the machine with its budget, of data, and of the
  builtins, stated over the operations of the model.
\<close>

section \<open>The machine and its budget\<close>

text \<open>With positive step costs and no negative coefficient in the builtin costs,
  evaluation with a budget ends for every term, open and ill-typed ones included, and every budget.\<close>

theorem budget_terminates:
  assumes "costs_ok machine" and "table_nonneg builtins"
  shows "\<exists>r t log'. evaluate_with_budget ext variant term (with_applied b machine builtins) log = Some (r, t, log')"
  using budget_run_ends [OF tracker_budgeted [OF assms], of ext variant "Compute term [] []" b log]
  by (auto simp: evaluate_with_budget_def)

theorem budget_terminates_witness:
  "\<forall>ext b. \<exists>r t log'. evaluate_with_budget ext latest_variant (TApp (TLam (TApp (TVar 1) (TVar 1))) (TLam (TApp (TVar 1) (TVar 1))))
     (with_applied b default_machine_costs builtin_cost_table) None = Some (r, t, log')"
  using budget_terminates [OF default_costs_ok default_table_nonneg] by blast



text \<open>C4: for a budget between zero and one below the greatest 64-bit number, a script whose
  counting run succeeds runs within the budget exactly when it is at least the count in
  both dimensions; then it gives the same value and log and has consumed the count, otherwise the budget is exhausted.\<close>

theorem counted_budget:
  assumes "evaluate_with_budget ext variant term new_counting log = Some (Inr v, tc, log')"
    and "0 \<le> cpu b" and "cpu b < i64_max" and "0 \<le> mem b" and "mem b < i64_max"
  shows "if cpu (consumed tc) \<le> cpu b \<and> mem (consumed tc) \<le> mem b
    then \<exists>t. evaluate_with_budget ext variant term (tracker_new b) log = Some (Inr v, t, log') \<and> consumed t = consumed tc
    else \<exists>c m t l. evaluate_with_budget ext variant term (tracker_new b) log = Some (Inl (BudgetExhausted c m), t, l)"
proof -
  let ?s = "Compute term [] []"
  have run: "metered_loop ext variant (?s, new_counting, log) = Some (Inr v, tc, log')"
    using assms(1) by (simp add: evaluate_with_budget_def metered_loop_def)
  have tr: "tracks b (tracker_new b) new_counting" using assms by (intro tracks_new) (auto simp: nonneg_def)
  obtain r t l where bud: "metered_loop ext variant (?s, tracker_new b, log) = Some (r, t, l)"
    using budget_run_ends [of "tracker_new b" ext variant ?s log] tr by (auto simp: tracks_def metered_loop_def)
  have "in_step b (?s, tracker_new b, log) (?s, new_counting, log)" using tr by (simp add: in_step_def covered_at_def)
  from counted.simulated [OF bud this] run
  have "gave_up (r, t, l) \<or> r = Inr v \<and> l = log' \<and> consumed t = consumed tc \<and> within (consumed tc) b"
    by (auto simp: same_outcome_def)
  moreover have "r = Inr v" if "within (consumed tc) b"
    using run_covered [OF run, of b] that tr tracks_counts [OF tr] bud by (auto simp: covers_run_def)
  ultimately show ?thesis
    using bud by (auto simp: gave_up_def is_exhausted_def within_def evaluate_with_budget_def metered_loop_def
        split: sum.splits)
qed

lemma unit_counted:
  "\<exists>tc. evaluate_with_budget ext latest_variant (TConst CUnit) new_counting None = Some (Inr (VConst CUnit), tc, None) \<and>
     consumed tc = \<lparr>cpu = 16100, mem = 200\<rparr>"
proof -
  define t1 where "t1 = new_counting\<lparr>pending := \<lparr>cpu = 16000, mem = 100\<rparr>, pending_count := 1\<rparr>"
  define t2 where "t2 = new_counting\<lparr>counting_spent := \<lparr>cpu = 16100, mem = 200\<rparr>\<rparr>"
  note trackers = new_counting_def default_machine_costs_def Let_def zero_budget_def add_saturating_def sat_add_def
    sat64_def i64_max_def i64_min_def
  have "metered_advance ext latest_variant (Compute (TConst CUnit) [] [], new_counting, None) =
      Inr (Return (VConst CUnit) [], t1, None)"
    by (simp add: metered_advance_def meter_def and_then_def tick_simps settle_def bare_step_def compute_step_def
        slippage_def t1_def trackers)
  moreover have "metered_advance ext latest_variant (Return (VConst CUnit) [], t1, None) =
      Inl (Inr (VConst CUnit), t2, None)"
    by (simp add: metered_advance_def meter_def and_then_def tick_simps settle_def bare_step_def flush_def spend_def
        t1_def t2_def trackers)
  moreover have "consumed t2 = \<lparr>cpu = 16100, mem = 200\<rparr>"
    by (simp add: consumed_def t2_def trackers)
  ultimately show ?thesis
    using metered.continues metered.stops by (fastforce simp: evaluate_with_budget_def metered_loop_def)
qed

theorem counted_budget_witness:
  "\<forall>ext. (\<exists>t. evaluate_with_budget ext latest_variant (TConst CUnit) (tracker_new \<lparr>cpu = 16100, mem = 200\<rparr>) None =
      Some (Inr (VConst CUnit), t, None)) \<and>
    (\<exists>c m t l. evaluate_with_budget ext latest_variant (TConst CUnit) (tracker_new \<lparr>cpu = 16099, mem = 200\<rparr>) None =
      Some (Inl (BudgetExhausted c m), t, l))"
proof
  fix ext :: "('p, 'q) externals"
  obtain tc where tc: "evaluate_with_budget ext latest_variant (TConst CUnit) new_counting None =
      Some (Inr (VConst CUnit), tc, None)" "consumed tc = \<lparr>cpu = 16100, mem = 200\<rparr>"
    using unit_counted by blast
  from counted_budget [OF tc(1), of "\<lparr>cpu = 16100, mem = 200\<rparr>"] counted_budget [OF tc(1), of "\<lparr>cpu = 16099, mem = 200\<rparr>"]
  show "(\<exists>t. evaluate_with_budget ext latest_variant (TConst CUnit) (tracker_new \<lparr>cpu = 16100, mem = 200\<rparr>) None =
      Some (Inr (VConst CUnit), t, None)) \<and>
    (\<exists>c m t l. evaluate_with_budget ext latest_variant (TConst CUnit) (tracker_new \<lparr>cpu = 16099, mem = 200\<rparr>) None =
      Some (Inl (BudgetExhausted c m), t, l))"
    by (auto simp: tc(2) i64_max_def)
qed

lemma budget_agreement:
  assumes "0 \<le> cpu b" and "cpu b < i64_max" and "0 \<le> mem b" and "mem b < i64_max"
  shows "\<exists>r t log'. evaluate_with_budget ext latest_variant term (tracker_new b) log = Some (r, t, log') \<and>
       ((\<exists>c m. r = Inl (BudgetExhausted c m)) \<or> evaluate ext term = Some r)"
proof -
  let ?s = "Compute term [] []"
  have plain: "map_option fst (metered_loop ext latest_variant (?s, new_counting, log)) = evaluate ext term"
    using counting_run [of new_counting ext ?s log] by (simp add: evaluate_def new_counting_def Let_def)
  have tr: "tracks b (tracker_new b) new_counting" using assms by (intro tracks_new) (auto simp: nonneg_def)
  obtain r t l where bud: "metered_loop ext latest_variant (?s, tracker_new b, log) = Some (r, t, l)"
    using budget_run_ends [of "tracker_new b" ext latest_variant ?s log] tr by (auto simp: tracks_def metered_loop_def)
  have "in_step b (?s, tracker_new b, log) (?s, new_counting, log)" using tr by (simp add: in_step_def covered_at_def)
  from counted.simulated [OF bud this] plain
  have "(\<exists>c m. r = Inl (BudgetExhausted c m)) \<or> evaluate ext term = Some r"
    by (auto simp: same_outcome_def gave_up_def is_exhausted_def split: sum.splits)
  with bud show ?thesis by (simp add: evaluate_with_budget_def metered_loop_def)
qed

text \<open>C3: counting and running without a tracker give the same result, or both run forever;
  and a run with a budget between zero and one below the greatest 64-bit number ends, with that result
  or with the budget exhausted.\<close>

theorem budget_agrees:
  assumes "0 \<le> cpu b" and "cpu b < i64_max" and "0 \<le> mem b" and "mem b < i64_max"
  shows "map_option fst (evaluate_with_budget ext latest_variant term new_counting log) = evaluate ext term \<and>
    (\<exists>r t log'. evaluate_with_budget ext latest_variant term (tracker_new b) log = Some (r, t, log') \<and>
       ((\<exists>c m. r = Inl (BudgetExhausted c m)) \<or> evaluate ext term = Some r))"
  using budget_agreement [OF assms, of ext "term" log] counting_run [of new_counting ext "Compute term [] []" log]
  by (simp add: evaluate_with_budget_def evaluate_def metered_loop_def new_counting_def Let_def)

theorem budget_agrees_witness:
  "\<forall>ext. \<exists>r t log'. evaluate_with_budget ext latest_variant TError (tracker_new \<lparr>cpu = 1000, mem = 1000\<rparr>) None =
       Some (r, t, log') \<and> ((\<exists>c m. r = Inl (BudgetExhausted c m)) \<or> evaluate ext TError = Some r)"
  using budget_agrees [of "\<lparr>cpu = 1000, mem = 1000\<rparr>" _ TError None] unfolding i64_max_def by fastforce

definition omega :: uterm where
  "omega = (let d = TLam (TApp (TVar 1) (TVar 1)) in TApp d d)"

lemma omega_diverges: "evaluate ext omega = None"
proof -
  define x where "x = TVar 1"
  define body where "body = TApp x x"
  define d where "d = TLam body"
  define v where "v = VLambda body []"
  define e where "e = env_extend [] v"
  define X where "X = {Compute (TApp d d) [] [], Compute d [] [AwaitFunTerm d []], Return v [AwaitFunTerm d []],
    Compute d [] [AwaitArg v []], Return v [AwaitArg v []], Compute body e [],
    Compute x e [AwaitFunTerm x e], Return v [AwaitFunTerm x e],
    Compute x e [AwaitArg v e], Return v [AwaitArg v e]}"
  have steps:
    "plain_advance ext (Compute (TApp d d) [] []) = Inr (Compute d [] [AwaitFunTerm d []])"
    "plain_advance ext (Compute d [] [AwaitFunTerm d []]) = Inr (Return v [AwaitFunTerm d []])"
    "plain_advance ext (Return v [AwaitFunTerm d []]) = Inr (Compute d [] [AwaitArg v []])"
    "plain_advance ext (Compute d [] [AwaitArg v []]) = Inr (Return v [AwaitArg v []])"
    "plain_advance ext (Return v [AwaitArg v []]) = Inr (Compute body e [])"
    "plain_advance ext (Compute body e []) = Inr (Compute x e [AwaitFunTerm x e])"
    "plain_advance ext (Compute x e [AwaitFunTerm x e]) = Inr (Return v [AwaitFunTerm x e])"
    "plain_advance ext (Return v [AwaitFunTerm x e]) = Inr (Compute x e [AwaitArg v e])"
    "plain_advance ext (Compute x e [AwaitArg v e]) = Inr (Return v [AwaitArg v e])"
    "plain_advance ext (Return v [AwaitArg v e]) = Inr (Compute body e [])"
    by (simp_all add: plain_advance_def bare_step_def apply_value_def env_lookup_def env_extend_def
        d_def v_def e_def body_def x_def)
  have "evaluate_loop ext (Compute (TApp d d) [] []) = None"
    by (rule plain.diverges [of _ X]) (auto simp: X_def steps)
  then show ?thesis by (simp add: evaluate_def omega_def d_def body_def x_def Let_def)
qed

text \<open>A script that runs forever without a tracker exhausts every budget.  The
  self-application of self-application is such a script.\<close>

theorem omega_exhausts:
  assumes "0 \<le> cpu b" and "cpu b < i64_max" and "0 \<le> mem b" and "mem b < i64_max"
  shows "evaluate ext omega = None \<and>
    (\<exists>c m t log'. evaluate_with_budget ext latest_variant omega (tracker_new b) log =
       Some (Inl (BudgetExhausted c m), t, log'))"
  using budget_agreement [OF assms, of ext omega log] omega_diverges [of ext] by auto

theorem omega_exhausts_witness:
  "\<forall>ext log. \<exists>c m t log'. evaluate_with_budget ext latest_variant omega (tracker_new \<lparr>cpu = 10000000000, mem = 14000000\<rparr>) log =
     Some (Inl (BudgetExhausted c m), t, log')"
  using omega_exhausts [of "\<lparr>cpu = 10000000000, mem = 14000000\<rparr>"] unfolding i64_max_def by fastforce


section \<open>Data\<close>

text \<open>C17: decoding the encoding of a datum gives the datum back exactly when its
  constructor tags are 64-bit numbers and it is nested no deeper than the limit; a datum outside
  these limits is still encoded, and its encoding is refused.\<close>

theorem data_cbor_roundtrip:
  "data_from_items (encode_data d) = (if data_fits (data_max_depth + 1) d then Inr d else Inl CborDecode)"
  using decode_encode_data [of "data_max_depth + 1" d "[]"] by (simp add: data_from_items_def)

text \<open>The comparison and the copy with explicit stacks, which keep deep data from
  overflowing the call stack, are equality and the identity; the copy never runs out of operands.\<close>

lemma data_traversals: "(data_eq a b \<longleftrightarrow> a = b) \<and> data_clone d = Some d"
  using clone_loop_descend [of d "[]" "[]"]
  by (simp add: data_eq_def data_eq_loop_correct data_clone_def del: clone_loop.simps(2))


section \<open>Integers and byte strings\<close>

text \<open>DivideInteger and modInteger round toward minus infinity, quotientInteger and
  remainderInteger toward zero, and all four fail on a zero divisor and on nothing else.\<close>

lemma integer_division:
  assumes "f \<in> {DivideInteger, ModInteger, QuotientInteger, RemainderInteger}"
  shows "denote_integer ext [VConst (CInteger a), VConst (CInteger b)] f =
     (if b = 0 then Inl (BuiltinFailure (IntegerFun f))
      else Inr (VConst (CInteger
        (case f of DivideInteger \<Rightarrow> a div b | ModInteger \<Rightarrow> a mod b
         | QuotientInteger \<Rightarrow> sgn a * sgn b * (\<bar>a\<bar> div \<bar>b\<bar>)
         | RemainderInteger \<Rightarrow> sgn a * (\<bar>a\<bar> mod \<bar>b\<bar>)))))"
  using assms
  by (auto simp: int_binop_def take_two_integers_def nonzero_divisor_def divide_haskell_div_floor
      mod_haskell_mod_floor signed_divide_int_def signed_modulo_int_def)

lemma length_to_bytes_be:
  assumes "0 \<le> n" "0 < k"
  shows "length (to_bytes_be n) \<le> k \<longleftrightarrow> n < 256 ^ k"
proof -
  have "length (le_digits m) \<le> k \<longleftrightarrow> m < 256 ^ k" for m
    using length_le_digits_bound [of m k] le_nat_less [of "le_digits m"]
    by (auto simp: le_nat_le_digits intro: less_le_trans [OF _ power_increasing])
  moreover have "nat n < 256 ^ k \<longleftrightarrow> n < 256 ^ k" using assms(1) by (simp add: nat_less_iff)
  ultimately show ?thesis using assms by (simp add: to_bytes_be_def)
qed

text \<open>IntegerToByteString writes exactly the nonnegative integers that fit
  the width, or 8192 bytes when the width is zero; the bytes have the width asked for, and
  byteStringToInteger with the same endianness reads the integer back.\<close>

lemma integer_bytes_roundtrip:
  "if 0 \<le> n \<and> 0 \<le> width \<and> nat width \<le> max_int_to_bs_width \<and>
      n < 256 ^ (if width = 0 then max_int_to_bs_width else nat width)
   then \<exists>bs. integer_to_byte_string [VConst (CBool e), VConst (CInteger width), VConst (CInteger n)] =
            Inr (VConst (CByteString bs)) \<and>
          byte_string_to_integer [VConst (CBool e), VConst (CByteString bs)] = Inr (VConst (CInteger n)) \<and>
          (length bs = nat width \<or> width = 0)
   else integer_to_byte_string [VConst (CBool e), VConst (CInteger width), VConst (CInteger n)] =
          Inl (BuiltinFailure (BytesFun IntegerToByteString))"
proof -
  obtain w where w: "w = max_int_to_bs_width" by simp
  have w64: "0 < w" "w < 2 ^ 64" by (simp_all add: w max_int_to_bs_width_def)
  define k where "k = (if width = 0 then w else nat width)"
  have fits: "n < 256 ^ k \<longleftrightarrow> length (to_bytes_be n) \<le> k" if "0 \<le> n" "0 \<le> width"
    using that w64 by (intro length_to_bytes_be [symmetric]) (auto simp: k_def)
  have zero: "length (to_bytes_be n) = Suc 0 \<and> to_bytes_be n ! 0 = 0 \<longleftrightarrow> n = 0" if "0 \<le> n"
    using that from_to_bytes_be [of n]
    by (cases "to_bytes_be n") (auto simp: from_bytes_be_def to_bytes_be_def)
  have cap: "w < nat width" if "2 ^ 64 \<le> width" using that w64 by simp
  show ?thesis
    unfolding w [symmetric] k_def [symmetric]
    using fits zero cap w64(1) from_to_bytes_be [of n]
    by (cases "width = 0"; cases "n = 0"; cases "0 \<le> n")
       (auto simp: integer_to_byte_string_def byte_string_to_integer_def bigint_to_usize_or_failure_def Let_def
         w [symmetric] k_def from_bytes_be_pad not_le)
qed


section \<open>Bits\<close>

text \<open>C30: shiftByteString keeps the length and acts on the number the bytes spell, the most
  significant byte first, as a logical shift within that length: left for a positive amount, towards
  the first byte, with the high bits lost, right for a negative one; zeros are shifted in.  An amount
  outside 64 bits fails unless the string is empty.\<close>

theorem shift_is_numeric:
  "denote_bits variant [VConst (CByteString bs), VConst (CInteger k)] ShiftByteString =
     (if bs \<noteq> [] \<and> \<not> is_i64 k then Inl (BuiltinFailure (BitsFun ShiftByteString))
      else Inr (VConst (CByteString (rev (le_bytes (length bs)
        (nat (if 0 \<le> k then (from_bytes_be bs * 2 ^ nat k) mod 2 ^ (8 * length bs)
              else from_bytes_be bs div 2 ^ nat (- k))))))))"
proof (cases "bs = [] \<or> \<not> is_i64 k")
  case True
  then show ?thesis
    by (auto simp: shift_byte_string_def bigint_to_i64_or_failure_def Let_def)
next
  case False
  with shift_byte_string_correct [of k bs] bytes_of_number obtain out where
    "shift_byte_string [VConst (CByteString bs), VConst (CInteger k)] = Inr (VConst (CByteString out))"
    "out = rev (le_bytes (length bs) (nat (shifted (8 * length bs) (from_bytes_be bs) k)))"
    by metis
  with False show ?thesis
    by (simp add: shifted_def take_bit_eq_mod push_bit_eq_mult drop_bit_eq_div)
qed

text \<open>RotateByteString keeps the length and moves bit i to place i plus the amount,
  modulo the number of bits, for amounts of either sign.\<close>

lemma rotate_moves_bits:
  assumes "is_i64 k" and "8 * length bs < 2 ^ 64"
  shows "\<exists>out. denote_bits variant [VConst (CByteString bs), VConst (CInteger k)] RotateByteString =
       Inr (VConst (CByteString out)) \<and> length out = length bs \<and>
     (\<forall>i < 8 * length bs. test_bit out i = test_bit bs (nat ((int i - k) mod int (8 * length bs))))"
  using rotate_byte_string_correct [OF assms] by simp

text \<open>WriteBits sets every listed bit to the given value and leaves the others; an index
  outside the string, or since the van Rossem fork a string of more than 4096 bytes, makes it fail.\<close>

lemma write_bits_sets:
  assumes "8 * length bs < 2 ^ 64"
  shows "if (bitwise_max_input_enforced variant \<and> write_bits_max_input_length < length bs) \<or>
       list_ex (\<lambda>i. i < 0 \<or> int (8 * length bs) \<le> i) is
     then denote_bits variant [VConst (CByteString bs), VConst (CProtoList ty (map CInteger is)),
         VConst (CBool v)] WriteBits = Inl (BuiltinFailure (BitsFun WriteBits))
     else \<exists>out. denote_bits variant [VConst (CByteString bs), VConst (CProtoList ty (map CInteger is)),
         VConst (CBool v)] WriteBits = Inr (VConst (CByteString out)) \<and> length out = length bs \<and>
       (\<forall>k < 8 * length bs. test_bit out k = (if int k \<in> set is then v else test_bit bs k))"
proof (cases "list_ex (\<lambda>i. i < 0 \<or> int (8 * length bs) \<le> i) is")
  case True
  then show ?thesis by (simp add: write_bits_def write_bits_loop_fails)
next
  case False
  with assms have "\<forall>i \<in> set is. 0 \<le> i \<and> i < int (8 * length bs) \<and> i < 2 ^ 64"
    by (fastforce simp: list_ex_iff)
  from write_bits_loop_correct [OF this, of v] False show ?thesis by (auto simp: write_bits_def)
qed

text \<open>countSetBits is the number of set bits and findFirstSetBit the least set position, or
  minus one when there is none.\<close>

theorem bits_counted:
  "denote_bits variant [VConst (CByteString bs)] CountSetBits =
     Inr (VConst (CInteger (int (card {i. bit (from_bytes_be bs) i})))) \<and>
   denote_bits variant [VConst (CByteString bs)] FindFirstSetBit =
     Inr (VConst (CInteger
       (if from_bytes_be bs = 0 then - 1 else int (LEAST i. bit (from_bytes_be bs) i))))"
proof -
  have "j = (LEAST i. bit (from_bytes_be bs) i)"
    if "bit (from_bytes_be bs) j" "\<forall>i < j. \<not> bit (from_bytes_be bs) i" for j
    using that by (intro Least_equality [symmetric]) (auto simp: not_le [symmetric])
  then show ?thesis
    using find_set_byte_correct [of "rev bs" 0] card_bits_le_nat [of "rev bs"]
    by (auto simp: count_set_bits_def find_first_set_bit_def take_one_def from_bytes_be_def rev_map [symmetric]
        split: if_splits)
qed


section \<open>Multi-asset values\<close>

text \<open>C18: unValueData accepts exactly the data that valueData produces from a
  well-formed value, and returns that value; every other datum fails.\<close>

theorem value_data_canonical:
  "denote_value [VConst (CData d)] UnValueData = Inr r \<longleftrightarrow>
     (\<exists>m. value_ok m \<and> r = VConst (CValue m) \<and>
       denote_value [VConst (CValue m)] ValueData = Inr (VConst (CData d)))"
proof (cases d)
  case (DMap es)
  show ?thesis
    by (auto simp: DMap un_value_data_def value_data_def take_one_def un_value_policies_value value_as_data_def
        rbind_Inr_iff)
qed (auto simp: un_value_data_def value_data_def take_one_def)

text \<open>C19: unionValue of well-formed values adds the amounts, token by token, and gives a
  well-formed value; when a sum leaves the 128-bit range it fails.\<close>

theorem union_value_adds:
  assumes "value_ok a" and "value_ok b"
  shows "if \<forall>p t. is_i128 (quantity a p t + quantity b p t)
    then \<exists>r. denote_value [VConst (CValue a), VConst (CValue b)] UnionValue = Inr (VConst (CValue r)) \<and>
           value_ok r \<and> (\<forall>p t. quantity r p t = quantity a p t + quantity b p t)
    else denote_value [VConst (CValue a), VConst (CValue b)] UnionValue =
           Inl (BuiltinFailure (ValueFun UnionValue))"
  using union_value_amounts [OF assms] by simp

theorem union_value_adds_witness:
  "denote_value [VConst (CValue [([1], [([2], 5)])]), VConst (CValue [([1], [([2], - 5), ([3], 1)])])] UnionValue =
     Inr (VConst (CValue [([1], [([3], 1)])]))"
proof -
  let ?a = "[([1], [([2], 5)])] :: value_map" and ?b = "[([1], [([2], - 5), ([3], 1)])] :: value_map"
  have ok: "value_ok ?a" "value_ok ?b" "value_ok [([1], [([3], 1)])]"
    by (simp_all add: value_ok_def tokens_ok_def max_key_def is_i128_def)
  have q: "quantity ?a p t + quantity ?b p t = quantity [([1], [([3], 1)])] p t" for p t
    by (simp add: quantity_def or_default_def amount_of_def)
  have "is_i128 (quantity ?a p t + quantity ?b p t)" for p t
    unfolding q by (rule quantity_i128 [OF ok(3)])
  with union_value_adds [OF ok(1,2)] obtain r where r:
    "denote_value [VConst (CValue ?a), VConst (CValue ?b)] UnionValue = Inr (VConst (CValue r))" "value_ok r"
    "\<And>p t. quantity r p t = quantity [([1], [([3], 1)])] p t"
    by (auto simp: q)
  with value_ok_eqI [OF r(2) ok(3)] show ?thesis by simp
qed

text \<open>On well-formed values without negative amounts valueContains decides whether
  every amount of the second is at most that of the first; with a negative amount it fails.\<close>

lemma value_contains_order:
  assumes "value_ok a" and "value_ok b"
  shows "denote_value [VConst (CValue a), VConst (CValue b)] ValueContains =
    (if (\<forall>p t. 0 \<le> quantity a p t) \<and> (\<forall>p t. 0 \<le> quantity b p t)
     then Inr (VConst (CBool (\<forall>p t. quantity b p t \<le> quantity a p t)))
     else Inl (BuiltinFailure (ValueFun ValueContains)))"
proof -
  have neg: "has_negative m \<longleftrightarrow> \<not> (\<forall>p t. 0 \<le> quantity m p t)" if "value_ok m" for m
    using not_has_negative [OF that] negative_quantity [OF that] by (metis not_le)
  show ?thesis
    using sub_value_iff [OF assms(2,1)] neg [OF assms(1)] neg [OF assms(2)]
    by (auto simp: value_contains_def Let_def)
qed

text \<open>InsertCoin sets one amount and keeps the others; a zero amount removes the entry,
  whatever the keys, and otherwise keys of more than 32 bytes and amounts outside 128 bits fail.\<close>

lemma insert_coin_sets:
  assumes "value_ok m"
  shows "if n = 0 \<or> (length p \<le> 32 \<and> length t \<le> 32 \<and> is_i128 n)
    then \<exists>r. denote_value [VConst (CByteString p), VConst (CByteString t), VConst (CInteger n),
           VConst (CValue m)] InsertCoin = Inr (VConst (CValue r)) \<and> value_ok r \<and>
         (\<forall>q s. quantity r q s = (if q = p \<and> s = t then n else quantity m q s))
    else denote_value [VConst (CByteString p), VConst (CByteString t), VConst (CInteger n),
           VConst (CValue m)] InsertCoin = Inl (BuiltinFailure (ValueFun InsertCoin))"
proof (cases "n = 0")
  case False
  with insert_amounts [OF assms, of n p t] show ?thesis
    by (auto simp: insert_coin_def max_key_def Let_def)
qed (use delete_coin_amounts [OF assms, of p t] in \<open>simp add: insert_coin_def\<close>)

text \<open>ScaleValue multiplies every amount and gives a well-formed value, empty for
  the factor zero; a factor or a product outside 128 bits fails.\<close>

lemma scale_value_multiplies:
  assumes "value_ok m"
  shows "if is_i128 n \<and> (\<forall>p t. is_i128 (quantity m p t * n))
    then \<exists>r. denote_value [VConst (CInteger n), VConst (CValue m)] ScaleValue = Inr (VConst (CValue r)) \<and>
           value_ok r \<and> (\<forall>p t. quantity r p t = quantity m p t * n)
    else denote_value [VConst (CInteger n), VConst (CValue m)] ScaleValue =
           Inl (BuiltinFailure (ValueFun ScaleValue))"
proof -
  have "sorted_keys m" "list_all (\<lambda>(p, inner). sorted_keys inner) m"
    using assms by (auto simp: value_ok_def tokens_ok_def list_all_iff)
  with scale_policies_eq [of "[]" m n] scaled_in_range [OF assms, of n] value_weak_scaled [OF assms, of n]
  show ?thesis
    by (auto simp: scale_value_def value_ok_prune quantity_prune quantity_scaled)
qed

section \<open>Keys, scalars and points\<close>

text \<open>The signature check fails on keys and signatures of the wrong length and is
  otherwise a verdict: it holds only for a key that spells, little endian and without its sign bit, a
  number below the field prime, and that the signature library decodes and accepts.\<close>

lemma ed25519_verdict:
  "denote_crypto ext [VConst (CByteString pk), VConst (CByteString msg), VConst (CByteString sig)]
       VerifyEd25519Signature =
     (if length pk = 32 \<and> length sig = 64
      then Inr (VConst (CBool (le_nat pk mod 2 ^ 255 < 2 ^ 255 - 19 \<and> ed25519_key_ok ext pk \<and>
             ed25519_verify_strict ext pk msg sig)))
      else Inl (BuiltinFailure (CryptoFun VerifyEd25519Signature)))"
  using pk_is_canonical_iff [of pk] by (auto simp: verify_ed25519_def Let_def)

text \<open>The scalar handed to the curve library is 32 little-endian bytes of the integer modulo
  the group order, for integers of any size and sign.\<close>

theorem blst_scalar:
  "length (bigint_to_blst_scalar n) = 32 \<and>
   int (le_nat (bigint_to_blst_scalar n)) =
     n mod 0x73eda753299d7d483339d80809a1d80553bda402fffe5bfeffffffff00000001"
  using blst_scalar_correct [of n] by (simp add: bls_scalar_r_eq)

definition run_decompressions ::
  "'p blst_group \<Rightarrow> byte list list \<Rightarrow> (byte list \<times> 'p) list \<Rightarrow> 'p res list \<times> (byte list \<times> 'p) list" where
  "run_decompressions g bss cache =
     foldl (\<lambda>(rs, c) bs. case decompress_g1_trusted g c bs of (r, c) \<Rightarrow> (rs @ [r], c)) ([], cache) bss"

text \<open>Whatever points were decompressed before, a lookup through the cache gives
  what decompressing would, for points and errors, and the cache stays within its capacity.\<close>

lemma points_cache_transparent:
  "case run_decompressions g bss [] of
     (rs, cache) \<Rightarrow> rs = map (decompress_g1_trusted_uncached g) bss \<and> length cache \<le> bls_decompress_cache_cap"
proof -
  let ?f = "decompress_g1_trusted_uncached g"
  have "case run_decompressions g bss [] of (rs, cache) \<Rightarrow> rs = map ?f bss \<and> points_cached ?f cache"
  proof (induction bss rule: rev_induct)
    case Nil
    then show ?case by (simp add: run_decompressions_def points_cached_def)
  next
    case (snoc bs bss)
    then show ?case
      using decompress_g1_transparent [of g "snd (run_decompressions g bss [])" bs]
      by (auto simp: run_decompressions_def split: prod.splits)
  qed
  then show ?thesis by (auto simp: points_cached_def)
qed

section \<open>Costs and availability\<close>

text \<open>The flat number of a builtin determines it, and numbers that name none are
  refused; a builtin once available in a language stays available in later protocol versions.\<close>

theorem builtin_numbering:
  "(from_u8 n = Inr b \<longleftrightarrow> n = as_u8 b) \<and> (from_u8 n = Inl e \<longleftrightarrow> 101 \<le> n \<and> e = FlatDecode) \<and>
   is_available_in b l pv \<le> is_available_in b l (pv + k)"
proof -
  have "length builtin_table = 101" by (simp add: builtin_table_def)
  then show ?thesis
    using builtin_numbers [of b] builtin_table_nth [of n] available_mono [of b l pv "pv + k"] as_u8_less [of b]
    by (auto simp: from_u8_def)
qed

text \<open>With the default cost table no builtin is charged a negative cost, whatever its
  arguments are, saturation of the 64-bit arithmetic included.\<close>

lemma default_charges:
  "0 \<le> cpu (charge_for_args builtin_cost_table b args variant) \<and>
   0 \<le> mem (charge_for_args builtin_cost_table b args variant)"
  using charge_nonneg [OF default_table_nonneg, of b args variant] by (simp add: nonneg_def)

end
