(* ===== verification/Uplc_Flat.thy ===== *)
theory Uplc_Flat
  imports Uplc_Flat_Bits Utf8
begin

text \<open>
  The flat format of terms and programs (\<^verbatim>\<open>flat/term.rs\<close>, \<^verbatim>\<open>program.rs\<close>): constants with their
  universe tags, terms with the depth limit, programs with their version and padding, and the
  check of a decoded program against the language and the protocol version.  The bytes of CBOR
  items are the matter of the \<^verbatim>\<open>minicbor\<close> library, which is a parameter.

  The counter of a depth limit counts the levels that are left.  The loops over lists of elements
  have as fuel the number of unread bits, since every round reads at least one; the parser of
  universe tags has the number of tags.
\<close>

record minicbor =
  mc_write :: "cbor_item list \<Rightarrow> byte list"
  mc_read :: "byte list \<Rightarrow> cbor_item list"

type_synonym 'a bit_get = "bit_reader \<Rightarrow> ('a \<times> bit_reader) flat_result"
type_synonym bit_put = "bit_writer \<Rightarrow> bit_writer flat_result"

definition flat_max_depth :: nat where "flat_max_depth = 32768"
definition term_tag_width :: nat where "term_tag_width = 4"
definition builtin_tag_width :: nat where "builtin_tag_width = 7"
definition const_tag_width :: nat where "const_tag_width = 4"
definition max_type_atoms :: nat where "max_type_atoms = 64"


section \<open>Lists\<close>

text \<open>Lists are written with a bit before each element that says that it follows.\<close>

fun read_list_loop :: "nat \<Rightarrow> 'a bit_get \<Rightarrow> 'a list bit_get" where
  "read_list_loop 0 get r = Inl FlatDecode"
| "read_list_loop (Suc n) get r =
     rbind (flat_read_bit r) (\<lambda>(b, r).
       if b then rbind (get r) (\<lambda>(x, r). rbind (read_list_loop n get r) (\<lambda>(xs, r). Inr (x # xs, r)))
       else Inr ([], r))"

definition read_list :: "'a bit_get \<Rightarrow> 'a list bit_get" where
  "read_list get r = read_list_loop (Suc (bits_remaining r)) get r"

fun write_list :: "('a \<Rightarrow> bit_put) \<Rightarrow> 'a list \<Rightarrow> bit_put" where
  "write_list put [] w = Inr (write_bit False w)"
| "write_list put (x # xs) w = rbind (put x (write_bit True w)) (write_list put xs)"

lemma write_list_cong [fundef_cong]:
  "xs = ys \<Longrightarrow> (\<And>x. x \<in> set ys \<Longrightarrow> f x = g x) \<Longrightarrow> write_list f xs = write_list g ys"
proof (induction xs arbitrary: ys)
  case (Cons x xs)
  then have "f x = g x" "write_list f xs = write_list g xs" by auto
  then show ?case using Cons.prems(1) by (auto intro!: ext)
qed auto


section \<open>Universe tags\<close>

fun uni_size :: "type_tag \<Rightarrow> nat" where
  "uni_size (TyList a) = 2 + uni_size a"
| "uni_size (TyArray a) = 2 + uni_size a"
| "uni_size (TyPair a b) = 3 + uni_size a + uni_size b"
| "uni_size _ = 1"

fun read_atom_loop :: "nat \<Rightarrow> byte list bit_get" where
  "read_atom_loop 0 r = rbind (flat_read_bit r) (\<lambda>(b, r). if b then Inl FlatDecode else Inr ([], r))"
| "read_atom_loop (Suc n) r =
     rbind (flat_read_bit r) (\<lambda>(b, r).
       if b then rbind (read_bits8 const_tag_width r) (\<lambda>(a, r).
         rbind (read_atom_loop n r) (\<lambda>(atoms, r). Inr (a # atoms, r)))
       else Inr ([], r))"

definition read_atom_list :: "byte list bit_get" where
  "read_atom_list = read_atom_loop max_type_atoms"

datatype uni_node = Complete type_tag | ProtoList | ProtoPair | ProtoPair1 type_tag

definition apply_uni :: "uni_node \<Rightarrow> uni_node \<Rightarrow> uni_node flat_result" where
  "apply_uni func arg =
     (case arg of
        Complete t \<Rightarrow>
          (case func of
             ProtoList \<Rightarrow> Inr (Complete (TyList t))
           | ProtoPair \<Rightarrow> Inr (ProtoPair1 t)
           | ProtoPair1 first \<Rightarrow> Inr (Complete (TyPair first t))
           | Complete _ \<Rightarrow> Inl FlatDecode)
      | _ \<Rightarrow> Inl FlatDecode)"

definition base_uni :: "byte \<Rightarrow> uni_node flat_result" where
  "base_uni atom =
     (if atom = 0 then Inr (Complete TyInteger)
      else if atom = 1 then Inr (Complete TyByteString)
      else if atom = 2 then Inr (Complete TyString)
      else if atom = 3 then Inr (Complete TyUnit)
      else if atom = 4 then Inr (Complete TyBool)
      else if atom = 5 then Inr ProtoList
      else if atom = 6 then Inr ProtoPair
      else if atom = 8 then Inr (Complete TyData)
      else if atom = 9 then Inr (Complete TyG1)
      else if atom = 10 then Inr (Complete TyG2)
      else if atom = 11 then Inr (Complete TyMlResult)
      else Inl FlatDecode)"

text \<open>The position in the tag list is the list of the tags not yet parsed.\<close>

fun parse_uni_from_atoms :: "nat \<Rightarrow> byte list \<Rightarrow> (uni_node \<times> byte list) flat_result" where
  "parse_uni_from_atoms _ [] = Inl FlatDecode"
| "parse_uni_from_atoms 0 (atom # atoms) = Inl FlatDecode"
| "parse_uni_from_atoms (Suc n) (atom # atoms) =
     (if atom = 7 then
        rbind (parse_uni_from_atoms n atoms) (\<lambda>(func, after_f).
        rbind (parse_uni_from_atoms n after_f) (\<lambda>(arg, after_a).
        rbind (apply_uni func arg) (\<lambda>applied. Inr (applied, after_a))))
      else rbind (base_uni atom) (\<lambda>node. Inr (node, atoms)))"

definition parse_type_from_atoms :: "byte list \<Rightarrow> (type_tag \<times> byte list) flat_result" where
  "parse_type_from_atoms atoms =
     rbind (parse_uni_from_atoms (length atoms) atoms) (\<lambda>(node, rest).
       case node of Complete t \<Rightarrow> Inr (t, rest) | _ \<Rightarrow> Inl FlatDecode)"

definition decode_type_tag :: "type_tag bit_get" where
  "decode_type_tag r =
     rbind (read_atom_list r) (\<lambda>(atoms, r).
       if atoms = [] then Inl FlatDecode
       else rbind (parse_type_from_atoms atoms) (\<lambda>(tag, rest).
         if rest \<noteq> [] then Inl FlatDecode else Inr (tag, r)))"

fun collect_type_atoms :: "type_tag \<Rightarrow> byte list flat_result" where
  "collect_type_atoms TyInteger = Inr [0]"
| "collect_type_atoms TyByteString = Inr [1]"
| "collect_type_atoms TyString = Inr [2]"
| "collect_type_atoms TyUnit = Inr [3]"
| "collect_type_atoms TyBool = Inr [4]"
| "collect_type_atoms (TyList elem) = rbind (collect_type_atoms elem) (\<lambda>e. Inr (7 # 5 # e))"
| "collect_type_atoms (TyPair a b) =
     rbind (collect_type_atoms a) (\<lambda>x. rbind (collect_type_atoms b) (\<lambda>y. Inr (7 # 7 # 6 # x @ y)))"
| "collect_type_atoms TyData = Inr [8]"
| "collect_type_atoms TyG1 = Inr [9]"
| "collect_type_atoms TyG2 = Inr [10]"
| "collect_type_atoms TyMlResult = Inr [11]"
| "collect_type_atoms (TyArray _) = Inl Encode"
| "collect_type_atoms TyValue = Inl Encode"

definition encode_type_tag :: "type_tag \<Rightarrow> bit_put" where
  "encode_type_tag t w =
     rbind (collect_type_atoms t) (\<lambda>atoms. write_list (\<lambda>a. write_bits8 a const_tag_width) atoms w)"


section \<open>Constants\<close>

definition constant_type_tag :: "uconst \<Rightarrow> type_tag flat_result" where
  "constant_type_tag c = (case c of CArray _ _ \<Rightarrow> Inl Encode | CValue _ \<Rightarrow> Inl Encode | _ \<Rightarrow> Inr (type_tag_of c))"

text \<open>The shift of the integer reader is checked at 32 bits.\<close>

function read_integer_loop :: "nat \<Rightarrow> nat \<Rightarrow> nat bit_get" where
  "read_integer_loop value shift r =
     rbind (read_chunk r) (\<lambda>(c, r). case c of (cont, chunk) \<Rightarrow>
       let value = (if 0 < shift then value + chunk * 2 ^ shift else chunk) in
       if \<not> cont then Inr (value, r)
       else if 2 ^ 32 \<le> shift + 7 then Inl FlatDecode
       else read_integer_loop value (shift + 7) r)"
  by auto
termination
  by (relation "measure (\<lambda>(_, _, r). bits_remaining r)") (auto simp: read_chunk_less)

declare read_integer_loop.simps [simp del]

definition read_integer_bigint :: "int bit_get" where
  "read_integer_bigint r =
     rbind (read_integer_loop 0 0 r) (\<lambda>(v, r).
       Inr (if odd v then - int ((v + 1) div 2) else int (v div 2), r))"

definition write_integer_bigint :: "int \<Rightarrow> bit_put" where
  "write_integer_bigint n = write_natural (zigzag n)"

primrec decode_constant_value :: "minicbor \<Rightarrow> type_tag \<Rightarrow> uconst bit_get" where
  "decode_constant_value mc TyInteger = (\<lambda>r. rbind (read_integer_bigint r) (\<lambda>(v, r). Inr (CInteger v, r)))"
| "decode_constant_value mc TyByteString = (\<lambda>r. rbind (read_bytestring r) (\<lambda>(bs, r). Inr (CByteString bs, r)))"
| "decode_constant_value mc TyString = (\<lambda>r. rbind (read_bytestring r) (\<lambda>(bs, r).
     if utf8_valid bs then Inr (CString bs, r) else Inl FlatDecode))"
| "decode_constant_value mc TyUnit = (\<lambda>r. Inr (CUnit, r))"
| "decode_constant_value mc TyBool = (\<lambda>r. rbind (flat_read_bit r) (\<lambda>(b, r). Inr (CBool b, r)))"
| "decode_constant_value mc TyData = (\<lambda>r. rbind (read_bytestring r) (\<lambda>(raw, r).
     case data_from_items (mc_read mc raw) of Inl _ \<Rightarrow> Inl FlatDecode | Inr d \<Rightarrow> Inr (CData d, r)))"
| "decode_constant_value mc (TyList t) = (\<lambda>r. rbind (read_list (decode_constant_value mc t) r) (\<lambda>(elements, r).
     Inr (CProtoList t elements, r)))"
| "decode_constant_value mc (TyPair s t) = (\<lambda>r. rbind (decode_constant_value mc s r) (\<lambda>(a, r).
     rbind (decode_constant_value mc t r) (\<lambda>(b, r). Inr (CProtoPair s t a b, r))))"
| "decode_constant_value mc TyG1 = (\<lambda>r. Inl FlatDecode)"
| "decode_constant_value mc TyG2 = (\<lambda>r. Inl FlatDecode)"
| "decode_constant_value mc TyMlResult = (\<lambda>r. Inl FlatDecode)"
| "decode_constant_value mc (TyArray _) = (\<lambda>r. Inl FlatDecode)"
| "decode_constant_value mc TyValue = (\<lambda>r. Inl FlatDecode)"

fun encode_constant_value :: "minicbor \<Rightarrow> uconst \<Rightarrow> bit_put" where
  "encode_constant_value mc (CInteger n) = (\<lambda>w. write_integer_bigint n w)"
| "encode_constant_value mc (CByteString bs) = (\<lambda>w. write_bytestring bs w)"
| "encode_constant_value mc (CString s) = (\<lambda>w. write_bytestring s w)"
| "encode_constant_value mc CUnit = (\<lambda>w. Inr w)"
| "encode_constant_value mc (CBool b) = (\<lambda>w. Inr (write_bit b w))"
| "encode_constant_value mc (CData d) = (\<lambda>w. write_bytestring (mc_write mc (encode_data d)) w)"
| "encode_constant_value mc (CProtoList _ elements) = (\<lambda>w. write_list (encode_constant_value mc) elements w)"
| "encode_constant_value mc (CProtoPair _ _ a b) = (\<lambda>w. rbind (encode_constant_value mc a w) (encode_constant_value mc b))"
| "encode_constant_value mc (CG1 _) = (\<lambda>w. Inl Encode)"
| "encode_constant_value mc (CG2 _) = (\<lambda>w. Inl Encode)"
| "encode_constant_value mc (CMlResult _) = (\<lambda>w. Inl Encode)"
| "encode_constant_value mc (CArray _ _) = (\<lambda>w. Inl Encode)"
| "encode_constant_value mc (CValue _) = (\<lambda>w. Inl Encode)"

definition decode_constant :: "minicbor \<Rightarrow> uconst bit_get" where
  "decode_constant mc r = rbind (decode_type_tag r) (\<lambda>(tag, r). decode_constant_value mc tag r)"

definition encode_constant :: "minicbor \<Rightarrow> uconst \<Rightarrow> bit_put" where
  "encode_constant mc c w =
     rbind (constant_type_tag c) (\<lambda>tag. rbind (encode_type_tag tag w) (encode_constant_value mc c))"


section \<open>Terms\<close>

text \<open>One level of the term codec; \<open>go\<close> is the codec of the level below.\<close>

definition tagged :: "minicbor \<Rightarrow> uterm bit_get \<Rightarrow> byte \<Rightarrow> uterm bit_get" where
  "tagged mc go tag r =
      (if tag = 0 then rbind (read_word64_strict r) (\<lambda>(idx, r). Inr (TVar idx, r))
       else if tag = 1 then rbind (go r) (\<lambda>(body, r). Inr (TDelay body, r))
       else if tag = 2 then rbind (go r) (\<lambda>(body, r). Inr (TLam body, r))
       else if tag = 3 then rbind (go r) (\<lambda>(f, r). rbind (go r) (\<lambda>(a, r). Inr (TApp f a, r)))
       else if tag = 4 then rbind (decode_constant mc r) (\<lambda>(c, r). Inr (TConst c, r))
       else if tag = 5 then rbind (go r) (\<lambda>(body, r). Inr (TForce body, r))
       else if tag = 6 then Inr (TError, r)
       else if tag = 7 then
         rbind (read_bits8 builtin_tag_width r) (\<lambda>(raw, r). rbind (from_u8 (unat raw)) (\<lambda>b. Inr (TBuiltin b, r)))
       else if tag = 8 then
         rbind (read_word64_strict r) (\<lambda>(ctag, r). rbind (read_list go r) (\<lambda>(args, r). Inr (TConstr ctag args, r)))
       else if tag = 9 then
         rbind (go r) (\<lambda>(scrutinee, r). rbind (read_list go r) (\<lambda>(branches, r). Inr (TCase scrutinee branches, r)))
       else Inl FlatDecode)"

definition decode_term_inner :: "minicbor \<Rightarrow> uterm bit_get \<Rightarrow> uterm bit_get" where
  "decode_term_inner mc go r = rbind (read_bits8 term_tag_width r) (\<lambda>(tag, r). tagged mc go tag r)"

fun decode_term_depth :: "minicbor \<Rightarrow> nat \<Rightarrow> uterm bit_get" where
  "decode_term_depth mc 0 r = Inl FlatDecode"
| "decode_term_depth mc (Suc left) r = decode_term_inner mc (decode_term_depth mc left) r"

definition decode_term :: "minicbor \<Rightarrow> uterm bit_get" where
  "decode_term mc = decode_term_depth mc (Suc flat_max_depth)"

primrec encode_term_inner :: "minicbor \<Rightarrow> (uterm \<Rightarrow> bit_put) \<Rightarrow> uterm \<Rightarrow> bit_put" where
  "encode_term_inner mc go (TVar i) = (\<lambda>w. rbind (write_bits8 0 term_tag_width w) (write_natural i))"
| "encode_term_inner mc go (TDelay body) = (\<lambda>w. rbind (write_bits8 1 term_tag_width w) (go body))"
| "encode_term_inner mc go (TLam body) = (\<lambda>w. rbind (write_bits8 2 term_tag_width w) (go body))"
| "encode_term_inner mc go (TApp f a) = (\<lambda>w. rbind (write_bits8 3 term_tag_width w) (\<lambda>w. rbind (go f w) (go a)))"
| "encode_term_inner mc go (TConst c) = (\<lambda>w. rbind (write_bits8 4 term_tag_width w) (encode_constant mc c))"
| "encode_term_inner mc go (TForce body) = (\<lambda>w. rbind (write_bits8 5 term_tag_width w) (go body))"
| "encode_term_inner mc go TError = (\<lambda>w. write_bits8 6 term_tag_width w)"
| "encode_term_inner mc go (TBuiltin b) = (\<lambda>w. rbind (write_bits8 7 term_tag_width w) (\<lambda>w.
     if 128 \<le> as_u8 b then Inl Encode else write_bits8 (word_of_nat (as_u8 b)) builtin_tag_width w))"
| "encode_term_inner mc go (TConstr tag args) =
     (\<lambda>w. rbind (write_bits8 8 term_tag_width w) (\<lambda>w. rbind (write_natural tag w) (write_list go args)))"
| "encode_term_inner mc go (TCase scrutinee branches) =
     (\<lambda>w. rbind (write_bits8 9 term_tag_width w) (\<lambda>w. rbind (go scrutinee w) (write_list go branches)))"

text \<open>The depth is bounded as in the code; the stack that the recursion needs is not modelled.\<close>

fun encode_term_depth :: "minicbor \<Rightarrow> nat \<Rightarrow> uterm \<Rightarrow> bit_put" where
  "encode_term_depth mc 0 t = (\<lambda>w. Inl Encode)"
| "encode_term_depth mc (Suc left) t = encode_term_inner mc (encode_term_depth mc left) t"

definition encode_term :: "minicbor \<Rightarrow> uterm \<Rightarrow> bit_put" where
  "encode_term mc = encode_term_depth mc (Suc flat_max_depth)"


section \<open>Programs\<close>

record program =
  prog_version :: "nat \<times> nat \<times> nat"
  prog_term :: uterm

definition from_flat :: "minicbor \<Rightarrow> byte list \<Rightarrow> program flat_result" where
  "from_flat mc bytes =
     rbind (read_natural_biguint (reader_new bytes)) (\<lambda>(major, r).
     rbind (read_natural_biguint r) (\<lambda>(minor, r).
     rbind (read_natural_biguint r) (\<lambda>(patch, r).
     rbind (decode_term mc r) (\<lambda>(term, r).
     rbind (read_filler r) (\<lambda>(_, r).
       if bits_remaining r \<noteq> 0 then Inl FlatDecode
       else Inr \<lparr>prog_version = (major, minor, patch), prog_term = term\<rparr>)))))"

definition to_flat :: "minicbor \<Rightarrow> program \<Rightarrow> byte list flat_result" where
  "to_flat mc p =
     (case prog_version p of (major, minor, patch) \<Rightarrow>
     rbind (write_natural major writer_new) (\<lambda>w.
     rbind (write_natural minor w) (\<lambda>w.
     rbind (write_natural patch w) (\<lambda>w.
     rbind (encode_term mc (prog_term p) w) (\<lambda>w. Inr (finish w))))))"

definition from_cbor :: "minicbor \<Rightarrow> byte list \<Rightarrow> program flat_result" where
  "from_cbor mc bytes = (case mc_read mc bytes of KBytes inner # _ \<Rightarrow> from_flat mc inner | _ \<Rightarrow> Inl FlatDecode)"

definition to_cbor :: "minicbor \<Rightarrow> program \<Rightarrow> byte list flat_result" where
  "to_cbor mc p = rbind (to_flat mc p) (\<lambda>flat. Inr (mc_write mc [KBytes flat]))"


section \<open>Availability\<close>

definition max_constr_fields :: nat where "max_constr_fields = 1024"
definition max_constant_uni_size :: nat where "max_constant_uni_size = 32"

definition ledger_language_introduced_in :: "script_language \<Rightarrow> nat" where
  "ledger_language_introduced_in l = (case l of PlutusV1 \<Rightarrow> 5 | PlutusV2 \<Rightarrow> 7 | PlutusV3 \<Rightarrow> 9 | PlutusV4 \<Rightarrow> 12)"

definition validate_ledger_language_available :: "script_language \<Rightarrow> nat \<Rightarrow> unit flat_result" where
  "validate_ledger_language_available l pv = (if pv < ledger_language_introduced_in l then Inl FlatDecode else Inr ())"

fun validate_all :: "('a \<Rightarrow> unit flat_result) \<Rightarrow> 'a list \<Rightarrow> unit flat_result" where
  "validate_all f [] = Inr ()"
| "validate_all f (x # xs) = rbind (f x) (\<lambda>_. validate_all f xs)"

primrec validate_term_inner ::
  "script_language \<Rightarrow> nat \<Rightarrow> bool \<Rightarrow> (uterm \<Rightarrow> unit flat_result) \<Rightarrow> uterm \<Rightarrow> unit flat_result" where
  "validate_term_inner l pv v110 go (TVar _) = Inr ()"
| "validate_term_inner l pv v110 go TError = Inr ()"
| "validate_term_inner l pv v110 go (TConst c) =
     (if van_rossem_pv \<le> pv \<and> max_constant_uni_size < uni_size (type_tag_of c) then Inl FlatDecode else Inr ())"
| "validate_term_inner l pv v110 go (TLam body) = go body"
| "validate_term_inner l pv v110 go (TDelay body) = go body"
| "validate_term_inner l pv v110 go (TForce body) = go body"
| "validate_term_inner l pv v110 go (TApp f a) = rbind (go f) (\<lambda>_. go a)"
| "validate_term_inner l pv v110 go (TBuiltin b) = (if is_available_in b l pv then Inr () else Inl FlatDecode)"
| "validate_term_inner l pv v110 go (TConstr _ args) =
     (if \<not> v110 then Inl FlatDecode
      else if van_rossem_pv \<le> pv \<and> max_constr_fields < length args then Inl FlatDecode
      else validate_all go args)"
| "validate_term_inner l pv v110 go (TCase scrutinee branches) =
     (if \<not> v110 then Inl FlatDecode else rbind (go scrutinee) (\<lambda>_. validate_all go branches))"

fun validate_term_depth :: "script_language \<Rightarrow> nat \<Rightarrow> bool \<Rightarrow> nat \<Rightarrow> uterm \<Rightarrow> unit flat_result" where
  "validate_term_depth l pv v110 0 t = Inl FlatDecode"
| "validate_term_depth l pv v110 (Suc left) t =
     validate_term_inner l pv v110 (validate_term_depth l pv v110 left) t"

definition version_110_or_later :: "nat \<times> nat \<times> nat \<Rightarrow> bool" where
  "version_110_or_later = (\<lambda>(major, minor, patch). 1 < major \<or> major = 1 \<and> 1 \<le> minor)"

definition validate_program_availability ::
  "uterm \<Rightarrow> nat \<times> nat \<times> nat \<Rightarrow> script_language \<Rightarrow> nat \<Rightarrow> unit flat_result" where
  "validate_program_availability t version l pv =
     validate_term_depth l pv (version_110_or_later version) (Suc flat_max_depth) t"

end
