(* ===== verification/Uplc_Flat_Codec.thy ===== *)
theory Uplc_Flat_Codec
  imports Uplc_Flat_Bits
begin

unbundle bit_operations_syntax

text \<open>
  Buffers of the flat format as lists of bits: writing appends bits, reading takes them off the
  front.  \<open>reads\<close> and \<open>codes\<close> say that a reader takes back what a writer appended; they compose
  along the sequencing of readers and writers.
\<close>

section \<open>Bits of a buffer\<close>

definition byte_bits :: "byte \<Rightarrow> bool list" where
  "byte_bits b = map (\<lambda>i. bit b (7 - i)) [0..<8]"

definition bits_of :: "byte list \<Rightarrow> bool list" where
  "bits_of bs = concat (map byte_bits bs)"

lemma length_byte_bits [simp]: "length (byte_bits b) = 8"
  by (simp add: byte_bits_def)

lemma bits_of_simps [simp]: "bits_of [] = []" "bits_of (b # bs) = byte_bits b @ bits_of bs" "bits_of (bs @ cs) = bits_of bs @ bits_of cs"
  by (simp_all add: bits_of_def)

lemma length_bits_of [simp]: "length (bits_of bs) = 8 * length bs"
  by (induction bs) simp_all

lemma nth_bits_of: "k < 8 * length bs \<Longrightarrow> bits_of bs ! k = bit (bs ! (k div 8)) (7 - k mod 8)"
proof (induction bs arbitrary: k)
  case (Cons b bs)
  show ?case
  proof (cases "k < 8")
    case True
    then show ?thesis by (simp add: nth_append byte_bits_def)
  next
    case False
    then have "k div 8 = Suc ((k - 8) div 8)" "k mod 8 = (k - 8) mod 8"
      by (simp_all add: le_div_geq le_mod_geq)
    with False Cons show ?thesis by (simp add: nth_append)
  qed
qed simp

lemma bits_of_inject: "bits_of bs = bits_of cs \<Longrightarrow> bs = cs"
proof (induction bs arbitrary: cs)
  case (Cons b bs)
  then obtain c cs' where cs: "cs = c # cs'" by (cases cs) (auto dest: arg_cong [where f = length])
  with Cons.prems have eq: "byte_bits b = byte_bits c" "bits_of bs = bits_of cs'" by auto
  have "byte_bits x ! (7 - n) = bit x n" if "n < 8" for x n
  proof -
    from that have "[0..<8] ! (7 - n) = 7 - n" by (subst nth_upt) simp_all
    with that show ?thesis by (simp add: byte_bits_def)
  qed
  then have "bit b n = bit c n" if "n < 8" for n using eq(1) that by metis
  then have "b = c" by (intro bit_word_eqI) simp
  with cs eq Cons.IH show ?case by simp
qed (auto dest: arg_cong [where f = length])


section \<open>Reading as taking bits\<close>

definition remaining_bits :: "bit_reader \<Rightarrow> bool list" where
  "remaining_bits r = drop (rd_pos r) (bits_of (rd_bytes r))"

definition skip :: "nat \<Rightarrow> bit_reader \<Rightarrow> bit_reader" where
  "skip n r = r\<lparr>rd_pos := rd_pos r + n\<rparr>"

lemma skip_simps [simp]:
  "rd_bytes (skip n r) = rd_bytes r" "rd_pos (skip n r) = rd_pos r + n" "skip m (skip n r) = skip (n + m) r" "skip 0 r = r"
  by (simp_all add: skip_def)

lemma remaining_skip: "remaining_bits r = bs @ rest \<Longrightarrow> remaining_bits (skip (length bs) r) = rest"
  by (metis add.commute append_eq_conv_conj drop_drop remaining_bits_def skip_simps(1,2))

lemma bits_remaining_length: "bits_remaining r = length (remaining_bits r)"
  by (simp add: bits_remaining_def remaining_bits_def)

lemma and_mask_bit: "(b :: byte) AND push_bit (7 - n) 1 \<noteq> 0 \<longleftrightarrow> bit b (7 - n)"
proof -
  have "bit (b AND push_bit (7 - n) 1) k \<longleftrightarrow> k = 7 - n \<and> bit b (7 - n)" for k
    by (auto simp: bit_simps)
  then show ?thesis by (metis bit_0_eq bot_apply bot_bool_def bit_word_eqI)
qed

lemma current_bit_hd: "remaining_bits r = b # rest \<Longrightarrow> current_bit r = b"
proof -
  assume r: "remaining_bits r = b # rest"
  then have pos: "rd_pos r < 8 * length (rd_bytes r)"
    using bits_remaining_length [of r] by (simp add: bits_remaining_def)
  with r have "bits_of (rd_bytes r) ! rd_pos r = b"
    by (simp add: remaining_bits_def flip: hd_drop_conv_nth)
  with pos show ?thesis unfolding current_bit_def and_mask_bit by (simp add: nth_bits_of)
qed

text \<open>A reader, started at a position with the given offset in its byte, takes the given bits and
  returns the given value.\<close>

definition reads :: "(bit_reader \<Rightarrow> ('a \<times> bit_reader) flat_result) \<Rightarrow> nat \<Rightarrow> bool list \<Rightarrow> 'a \<Rightarrow> bool" where
  "reads get k bs x \<longleftrightarrow>
     (\<forall>r rest. rd_pos r mod 8 = k \<longrightarrow> remaining_bits r = bs @ rest \<longrightarrow> get r = Inr (x, skip (length bs) r))"

lemma reads_bind:
  assumes "reads get k bs x" and "reads (after x) ((k + length bs) mod 8) cs y"
  shows "reads (\<lambda>r. rbind (get r) (\<lambda>(x, r). after x r)) k (bs @ cs) y"
  unfolding reads_def
proof (intro allI impI)
  fix r rest
  assume r: "rd_pos r mod 8 = k" "remaining_bits r = (bs @ cs) @ rest"
  then have "remaining_bits (skip (length bs) r) = cs @ rest" using remaining_skip by simp
  moreover have "rd_pos (skip (length bs) r) mod 8 = (k + length bs) mod 8" using r(1) by (metis mod_add_left_eq skip_simps(2))
  ultimately show "rbind (get r) (\<lambda>(x, r). after x r) = Inr (y, skip (length (bs @ cs)) r)"
    using assms r by (simp add: reads_def)
qed

lemma reads_return: "reads (\<lambda>r. Inr (x, r)) k [] x"
  by (simp add: reads_def)

lemma reads_map: "reads get k bs x \<Longrightarrow> reads (\<lambda>r. rbind (get r) (\<lambda>(x, r). Inr (f x, r))) k bs (f x)"
  using reads_bind [of get k bs x "\<lambda>x r. Inr (f x, r)" "[]" "f x"] reads_return by fastforce

lemma reads_bit: "reads flat_read_bit k [b] b"
  by (auto simp: reads_def flat_read_bit_def ensure_bits_def bits_remaining_length current_bit_hd skip_def)

lemma read_bits_loop_fold:
  "remaining_bits r = bs @ rest \<Longrightarrow>
     read_bits_loop (length bs) out r = (fold (\<lambda>b out. push_bit 1 out OR of_bool b) bs out, skip (length bs) r)"
proof (induction bs arbitrary: out r)
  case (Cons b bs)
  then have "remaining_bits (skip 1 r) = bs @ rest" using remaining_skip [of r "[b]"] by simp
  with Cons show ?case by (simp add: current_bit_hd skip_def)
qed simp

definition low_bits :: "byte \<Rightarrow> nat \<Rightarrow> bool list" where
  "low_bits v n = map (bit v) (rev [0..<n])"

lemma fold_low_bits: "fold (\<lambda>b out. push_bit 1 out OR of_bool b) (low_bits v n) out = push_bit n out OR take_bit n v"
proof (induction n arbitrary: out)
  case (Suc n)
  have "push_bit n (push_bit 1 out OR of_bool (bit v n)) OR take_bit n v = push_bit (Suc n) out OR take_bit (Suc n) v"
    by (rule bit_word_eqI) (auto simp: bit_simps less_Suc_eq)
  with Suc show ?case by (simp add: low_bits_def)
qed (simp add: low_bits_def)

lemma reads_bits8:
  assumes "n \<le> 8" and "unat v < 2 ^ n"
  shows "reads (read_bits8 n) k (low_bits v n) v"
proof -
  have v: "take_bit n v = v" using assms by (simp add: word_unat_eq_iff unsigned_take_bit_eq take_bit_nat_eq_self)
  have len: "length (low_bits v n) = n" by (simp add: low_bits_def)
  have "read_bits8 n r = Inr (v, skip n r)" if "remaining_bits r = low_bits v n @ rest" for r rest
  proof (cases "n = 0")
    case True
    with v show ?thesis by (simp add: read_bits8_def)
  next
    case False
    have "bits_remaining r \<ge> n" using that len by (simp add: bits_remaining_length)
    with assms False v len read_bits_loop_fold [OF that, of 0, unfolded fold_low_bits] show ?thesis
      by (simp add: read_bits8_def ensure_bits_def)
  qed
  with len show ?thesis by (simp add: reads_def)
qed


section \<open>Writing as appending bits\<close>

definition written :: "bit_writer \<Rightarrow> bool list" where
  "written w = take (wr_pos w) (bits_of (wr_bytes w))"

text \<open>The buffer holds the bits written, padded with zeros to whole bytes.\<close>

definition writer_ok :: "bit_writer \<Rightarrow> bool" where
  "writer_ok w \<longleftrightarrow> length (wr_bytes w) = (wr_pos w + 7) div 8 \<and>
     bits_of (wr_bytes w) = written w @ replicate (8 * length (wr_bytes w) - wr_pos w) False"

lemma writer_new_ok: "writer_ok writer_new" "written writer_new = []"
  by (simp_all add: writer_ok_def writer_new_def written_def)

lemma bits_of_update:
  assumes "k < 8 * length bs"
  shows "bits_of (bs[k div 8 := bs ! (k div 8) OR push_bit (7 - k mod 8) 1]) = (bits_of bs)[k := True]"
proof (rule nth_equalityI)
  fix j
  assume "j < length (bits_of (bs[k div 8 := bs ! (k div 8) OR push_bit (7 - k mod 8) 1]))"
  then have j: "j < 8 * length bs" by simp
  have "7 - j mod 8 = 7 - k mod 8 \<longleftrightarrow> j mod 8 = k mod 8"
    using mod_less_divisor [of 8 j] mod_less_divisor [of 8 k] by linarith
  moreover have "j = k \<longleftrightarrow> j div 8 = k div 8 \<and> j mod 8 = k mod 8" by (metis div_mult_mod_eq)
  ultimately show "bits_of (bs[k div 8 := bs ! (k div 8) OR push_bit (7 - k mod 8) 1]) ! j = (bits_of bs)[k := True] ! j"
    using j assms by (auto simp: nth_bits_of nth_list_update bit_simps)
qed simp

lemma write_bit_ok:
  assumes "writer_ok w"
  shows "writer_ok (write_bit b w) \<and> written (write_bit b w) = written w @ [b]"
proof -
  let ?p = "wr_pos w"
  define bytes where "bytes = (if ?p mod 8 = 0 then wr_bytes w @ [0] else wr_bytes w)"
  have zero: "bits_of [0] = replicate 8 False" by (simp add: byte_bits_def map_replicate_const)
  have len: "length bytes = (?p + 8) div 8" using assms by (auto simp: writer_ok_def bytes_def) presburger+
  have p: "?p < 8 * length bytes" using len by presburger
  have pl: "length (written w) = ?p" using assms by (auto simp: writer_ok_def written_def)
  have pad: "bits_of bytes = written w @ replicate (8 * length bytes - ?p) False"
  proof (cases "?p mod 8 = 0")
    case True
    then have "8 * length (wr_bytes w) = ?p" using assms by (auto simp: writer_ok_def)
    with True assms zero show ?thesis by (simp add: bytes_def writer_ok_def)
  qed (use assms in \<open>simp add: bytes_def writer_ok_def\<close>)
  define bytes' where "bytes' = (if b then bytes[?p div 8 := bytes ! (?p div 8) OR push_bit (7 - ?p mod 8) 1] else bytes)"
  have w': "write_bit b w = \<lparr>wr_bytes = bytes', wr_pos = ?p + 1\<rparr>"
    by (simp add: write_bit_def Let_def bytes_def bytes'_def)
  have "replicate (8 * length bytes - ?p) False = False # replicate (8 * length bytes - (?p + 1)) False"
    using p by (metis Suc_diff_Suc add.commute plus_1_eq_Suc replicate_Suc)
  then have bits: "bits_of bytes' = (written w @ [b]) @ replicate (8 * length bytes - (?p + 1)) False"
    using pad pl bits_of_update [OF p] by (simp add: bytes'_def list_update_append)
  have "length bytes' = length bytes" by (simp add: bytes'_def)
  with bits len pl show ?thesis by (simp add: w' writer_ok_def written_def)
qed

lemma write_bits_ok:
  assumes "writer_ok w"
  shows "writer_ok (fold write_bit bs w) \<and> written (fold write_bit bs w) = written w @ bs"
  using assms write_bit_ok by (induction bs arbitrary: w) auto

text \<open>A writer action appends bits from which the reader takes the value.\<close>

definition codes ::
  "(bit_writer \<Rightarrow> bit_writer flat_result) \<Rightarrow> (bit_reader \<Rightarrow> ('a \<times> bit_reader) flat_result) \<Rightarrow> 'a \<Rightarrow> bool" where
  "codes act get x \<longleftrightarrow> (\<forall>w. writer_ok w \<longrightarrow>
     (\<exists>w' bs. act w = Inr w' \<and> writer_ok w' \<and> written w' = written w @ bs \<and> reads get (length (written w) mod 8) bs x))"

lemma codesI:
  assumes "\<And>w. writer_ok w \<Longrightarrow> \<exists>bs. act w = Inr (fold write_bit bs w) \<and> reads get (length (written w) mod 8) bs x"
  shows "codes act get x"
  using assms write_bits_ok unfolding codes_def by meson

lemma codes_bind:
  assumes "codes act get x" and "codes act' (after x) y"
  shows "codes (\<lambda>w. rbind (act w) act') (\<lambda>r. rbind (get r) (\<lambda>(x, r). after x r)) y"
  unfolding codes_def
proof (intro allI impI)
  fix w
  assume "writer_ok w"
  then obtain w1 bs where 1: "act w = Inr w1" "writer_ok w1" "written w1 = written w @ bs"
    "reads get (length (written w) mod 8) bs x" using assms(1) by (auto simp: codes_def)
  obtain w2 cs where 2: "act' w1 = Inr w2" "writer_ok w2" "written w2 = written w1 @ cs"
    "reads (after x) (length (written w1) mod 8) cs y" using assms(2) 1(2) by (auto simp: codes_def)
  have "reads (\<lambda>r. rbind (get r) (\<lambda>(x, r). after x r)) (length (written w) mod 8) (bs @ cs) y"
    using reads_bind [OF 1(4)] 2(4) 1(3) by (simp add: mod_simps)
  with 1 2 show "\<exists>w' bs. rbind (act w) act' = Inr w' \<and> writer_ok w' \<and> written w' = written w @ bs \<and>
      reads (\<lambda>r. rbind (get r) (\<lambda>(x, r). after x r)) (length (written w) mod 8) bs y"
    by auto
qed

lemma codes_return: "codes Inr (\<lambda>r. Inr (x, r)) x"
  by (rule codesI) (auto intro!: exI [of _ "[]"] reads_return)

lemma codes_map: "codes act get x \<Longrightarrow> codes act (\<lambda>r. rbind (get r) (\<lambda>(x, r). Inr (f x, r))) (f x)"
  unfolding codes_def using reads_map by fast

lemma codes_bit: "codes (\<lambda>w. Inr (write_bit b w)) flat_read_bit b"
  by (rule codesI) (auto intro!: exI [of _ "[b]"] reads_bit)

lemma codes_bits8:
  assumes "n \<le> 8" and "unat v < 2 ^ n"
  shows "codes (write_bits8 v n) (read_bits8 n) v"
proof (rule codesI)
  fix w
  have "drop_bit i v AND 1 \<noteq> 0 \<longleftrightarrow> bit v i" for i by (simp add: bit_iff_odd_drop_bit and_one_eq even_iff_mod_2_eq_zero)
  then have "fold (\<lambda>i. write_bit (drop_bit i v AND 1 \<noteq> 0)) is w = fold write_bit (map (bit v) is) w" for "is"
    by (induction "is" arbitrary: w) auto
  with assms reads_bits8 show "\<exists>bs. write_bits8 v n w = Inr (fold write_bit bs w) \<and> reads (read_bits8 n) (length (written w) mod 8) bs v"
    by (auto simp: write_bits8_def low_bits_def)
qed


section \<open>Numbers\<close>

lemma codes_chunk:
  assumes "c < 128"
  shows "codes (\<lambda>w. write_bits8 (word_of_nat c) 7 (write_bit cont w)) read_chunk (cont, c)"
proof -
  have c: "unat (word_of_nat c :: byte) = c" using assms by (simp add: unsigned_of_nat take_bit_nat_eq_self)
  then have "codes (write_bits8 (word_of_nat c) 7) (\<lambda>r. rbind (read_bits8 7 r) (\<lambda>(v, r). Inr ((cont, unat v), r))) (cont, c)"
    using codes_map [OF codes_bits8 [of 7 "word_of_nat c"], of "\<lambda>v. (cont, unat v)"] assms by simp
  from codes_bind [where after = "\<lambda>cont r. rbind (read_bits8 7 r) (\<lambda>(v, r). Inr ((cont, unat v), r))", OF codes_bit this]
  show ?thesis by (simp add: read_chunk_def [abs_def])
qed

lemma write_natural_bind:
  "write_natural v = (\<lambda>w. rbind (write_bits8 (word_of_nat (v mod 128)) 7 (write_bit (v div 128 \<noteq> 0) w))
     (\<lambda>w. if v div 128 = 0 then Inr w else write_natural (v div 128) w))"
  by (rule ext) (simp add: write_natural.simps [of v] Let_def)

text \<open>The readers of numbers are loops over chunks.  Such a loop reads back what the writer wrote, if
  each round takes in the chunk at its place.\<close>

locale varint =
  fixes loop :: "'a \<Rightarrow> nat \<Rightarrow> bit_reader \<Rightarrow> ('b \<times> bit_reader) flat_result"
    and round :: "'a \<Rightarrow> nat \<Rightarrow> bool \<times> nat \<Rightarrow> bit_reader \<Rightarrow> ('b \<times> bit_reader) flat_result"
    and fits :: "'a \<Rightarrow> nat \<Rightarrow> nat \<Rightarrow> bool" and result :: "'a \<Rightarrow> nat \<Rightarrow> nat \<Rightarrow> 'b"
  assumes loop_round: "loop a i = (\<lambda>r. rbind (read_chunk r) (\<lambda>(c, r). round a i c r))"
    and last_chunk: "fits a i v \<Longrightarrow> v < 128 \<Longrightarrow> round a i (False, v) = (\<lambda>r. Inr (result a i v, r))"
    and next_chunk: "fits a i v \<Longrightarrow> 128 \<le> v \<Longrightarrow>
      \<exists>a' i'. round a i (True, v mod 128) = loop a' i' \<and> fits a' i' (v div 128) \<and> result a' i' (v div 128) = result a i v"
begin

lemma reads_back: "fits a i v \<Longrightarrow> codes (write_natural v) (loop a i) (result a i v)"
proof (induction v arbitrary: a i rule: less_induct)
  case (less v)
  have chunk: "codes (\<lambda>w. write_bits8 (word_of_nat (v mod 128)) 7 (write_bit (v div 128 \<noteq> 0) w)) read_chunk
      (v div 128 \<noteq> 0, v mod 128)" by (rule codes_chunk) simp
  have "codes (\<lambda>w. if v div 128 = 0 then Inr w else write_natural (v div 128) w) (round a i (v div 128 \<noteq> 0, v mod 128))
      (result a i v)"
  proof (cases "v < 128")
    case True
    with last_chunk [OF less.prems] show ?thesis by (simp add: codes_return)
  next
    case False
    with next_chunk [OF less.prems] obtain a' i' where n: "round a i (True, v mod 128) = loop a' i'"
      "fits a' i' (v div 128)" "result a' i' (v div 128) = result a i v" by auto
    with less.IH [of "v div 128" a' i'] False show ?thesis by (simp add: div_eq_0_iff)
  qed
  from codes_bind [where after = "round a i", OF chunk this] show ?case
    by (simp add: write_natural_bind [of v] loop_round)
qed

end

definition natural_round :: "bool \<Rightarrow> nat \<Rightarrow> nat \<Rightarrow> bool \<times> nat \<Rightarrow> bit_reader \<Rightarrow> (nat \<times> bit_reader) flat_result" where
  "natural_round strict value shift = (\<lambda>(cont, chunk) r.
       if 64 \<le> shift then Inl FlatDecode
       else if strict \<and> shift = 63 \<and> 1 < chunk then Inl FlatDecode
       else
         let value = value + chunk * 2 ^ shift mod 2 ^ 64 in
         if 2 ^ 64 \<le> value then Inl FlatDecode
         else if \<not> cont then Inr (value, r)
         else read_natural_loop strict value (shift + 7) r)"

definition biguint_round :: "nat \<Rightarrow> nat \<Rightarrow> bool \<times> nat \<Rightarrow> bit_reader \<Rightarrow> (nat \<times> bit_reader) flat_result" where
  "biguint_round value shift = (\<lambda>(cont, chunk) r.
       let value = value OR push_bit shift chunk in
       if \<not> cont then Inr (value, r) else read_biguint_loop value ((shift + 7) mod 2 ^ 32) r)"

definition word_fits :: "nat \<Rightarrow> nat \<Rightarrow> nat \<Rightarrow> bool" where
  "word_fits value shift v \<longleftrightarrow> shift < 64 \<and> value < 2 ^ shift \<and> v < 2 ^ (64 - shift)"

lemma word_fits_sum:
  assumes "word_fits value shift v"
  shows "value + v * 2 ^ shift < 2 ^ 64"
proof -
  have "value + v * 2 ^ shift < Suc v * 2 ^ shift" using assms by (simp add: word_fits_def)
  also have "\<dots> \<le> 2 ^ (64 - shift) * 2 ^ shift" using assms by (intro mult_right_mono) (auto simp: word_fits_def)
  also have "\<dots> = 2 ^ 64" using assms by (simp add: word_fits_def flip: power_add)
  finally show ?thesis .
qed

lemma chunk_bound:
  fixes a v :: nat
  assumes "a < 2 ^ i"
  shows "a + (v mod 128) * 2 ^ i < 2 ^ (i + 7)"
proof -
  have "(v mod 128) * 2 ^ i \<le> 127 * 2 ^ i" by (intro mult_right_mono) simp_all
  with assms have "a + (v mod 128) * 2 ^ i < 128 * 2 ^ i" by linarith
  then show ?thesis by (simp add: power_add)
qed

lemma chunk_split: "a + (v mod 128) * 2 ^ i + v div 128 * 2 ^ (i + 7) = a + v * 2 ^ i" for v :: nat
proof -
  obtain c q where v: "v mod 128 = c" "v div 128 = q" "v = c + 128 * q" using mod_mult_div_eq [of v 128] by metis
  show ?thesis unfolding v(1,2) by (subst v(3)) (simp add: power_add algebra_simps)
qed

interpretation word64: varint "read_natural_loop strict" "natural_round strict" word_fits "\<lambda>value shift v. value + v * 2 ^ shift"
  for strict
proof unfold_locales
  show "read_natural_loop strict a i = (\<lambda>r. rbind (read_chunk r) (\<lambda>(c, r). natural_round strict a i c r))" for a i
    by (rule ext) (simp add: read_natural_loop.simps natural_round_def case_prod_unfold)
  have chunk: "natural_round strict a i (cont, v mod 128) = (\<lambda>r. if \<not> cont then Inr (a + (v mod 128) * 2 ^ i, r)
      else read_natural_loop strict (a + (v mod 128) * 2 ^ i) (i + 7) r)"
    if "word_fits a i v" for a i v cont
  proof -
    have "(v mod 128) * 2 ^ i \<le> v * 2 ^ i" by simp
    with word_fits_sum [OF that] have lt: "a + (v mod 128) * 2 ^ i < 2 ^ 64" by linarith
    then have "(v mod 128) * 2 ^ i mod 2 ^ 64 = (v mod 128) * 2 ^ i" by simp
    moreover have "\<not> (i = 63 \<and> 1 < v mod 128)"
      using that mod_less_eq_dividend [of v 128] by (auto simp: word_fits_def)
    ultimately show ?thesis using that lt
      by (auto simp: fun_eq_iff natural_round_def word_fits_def Let_def)
  qed
  show "natural_round strict a i (False, v) = (\<lambda>r. Inr (a + v * 2 ^ i, r))" if "word_fits a i v" "v < 128" for a i v
    using chunk [OF that(1), of False] that(2) by simp
  show "\<exists>a' i'. natural_round strict a i (True, v mod 128) = read_natural_loop strict a' i' \<and> word_fits a' i' (v div 128) \<and>
      a' + v div 128 * 2 ^ i' = a + v * 2 ^ i" if "word_fits a i v" "128 \<le> v" for a i v
  proof (intro exI conjI)
    show "natural_round strict a i (True, v mod 128) = read_natural_loop strict (a + (v mod 128) * 2 ^ i) (i + 7)"
      using chunk [OF that(1), of True] by simp
    show "a + (v mod 128) * 2 ^ i + v div 128 * 2 ^ (i + 7) = a + v * 2 ^ i" by (rule chunk_split)
    have "(128 :: nat) < 2 ^ (64 - i)" using that unfolding word_fits_def by linarith
    then have i: "7 < 64 - i" using power_less_imp_less_exp [of "2 :: nat" 7 "64 - i"] by simp
    obtain n where n: "64 - i = n + 7" "64 - (i + 7) = n" using i by (metis add.commute add_diff_inverse_nat diff_diff_left less_imp_not_less)
    have "v div 128 < 2 ^ (64 - (i + 7))"
      using that unfolding word_fits_def n by (intro less_mult_imp_div_less) (simp add: power_add)
    with i chunk_bound [of a i v] that(1) show "word_fits (a + (v mod 128) * 2 ^ i) (i + 7) (v div 128)"
      by (simp add: word_fits_def)
  qed
qed


lemma or_push_bit: "a < 2 ^ shift \<Longrightarrow> a OR push_bit shift c = a + c * 2 ^ shift" for a c :: nat
proof -
  assume "a < 2 ^ shift"
  then have "take_bit shift a = a" by (simp add: take_bit_nat_eq_self)
  moreover have "take_bit shift a AND push_bit shift c = 0" by (rule bit_eqI) (auto simp: bit_simps)
  ultimately show ?thesis using disjunctive_add_eq_or [of a "push_bit shift c"] by (simp add: push_bit_eq_mult)
qed

text \<open>The number of chunks after the first; numbers with fewer than about six hundred million chunks keep
  the shift within 32 bits.\<close>

fun later_chunks :: "nat \<Rightarrow> nat" where
  "later_chunks v = (if v < 128 then 0 else Suc (later_chunks (v div 128)))"

declare later_chunks.simps [simp del]

definition shift_fits :: "nat \<Rightarrow> nat \<Rightarrow> nat \<Rightarrow> bool" where
  "shift_fits value shift v \<longleftrightarrow> value < 2 ^ shift \<and> shift + 7 * later_chunks v < 2 ^ 32"

lemma shift_fits_next:
  assumes "shift_fits a i v" and "128 \<le> v"
  shows "i + 7 < 2 ^ 32" "shift_fits (a + (v mod 128) * 2 ^ i) (i + 7) (v div 128)"
    "a + (v mod 128) * 2 ^ i + v div 128 * 2 ^ (i + 7) = a + v * 2 ^ i"
proof -
  show "i + 7 < 2 ^ 32" "shift_fits (a + (v mod 128) * 2 ^ i) (i + 7) (v div 128)"
    using assms chunk_bound [of a i v] by (auto simp: shift_fits_def later_chunks.simps [of v])
qed (rule chunk_split)

interpretation biguint: varint read_biguint_loop biguint_round shift_fits "\<lambda>value shift v. value + v * 2 ^ shift"
proof unfold_locales
  show "read_biguint_loop a i = (\<lambda>r. rbind (read_chunk r) (\<lambda>(c, r). biguint_round a i c r))" for a i
    by (rule ext) (simp add: read_biguint_loop.simps biguint_round_def case_prod_unfold)
  show "biguint_round a i (False, v) = (\<lambda>r. Inr (a + v * 2 ^ i, r))" if "shift_fits a i v" "v < 128" for a i v
    using that by (simp add: biguint_round_def or_push_bit shift_fits_def)
  show "\<exists>a' i'. biguint_round a i (True, v mod 128) = read_biguint_loop a' i' \<and> shift_fits a' i' (v div 128) \<and>
      a' + v div 128 * 2 ^ i' = a + v * 2 ^ i" if "shift_fits a i v" "128 \<le> v" for a i v
  proof (intro exI conjI)
    show "biguint_round a i (True, v mod 128) = read_biguint_loop (a + (v mod 128) * 2 ^ i) (i + 7)"
      using that shift_fits_next(1) [OF that] by (simp add: fun_eq_iff biguint_round_def or_push_bit shift_fits_def)
  qed (use shift_fits_next [OF that] in auto)
qed


section \<open>Byte strings\<close>

lemma drop_bits_of: "drop (8 * n) (bits_of bs) = bits_of (drop n bs)"
  by (induction n arbitrary: bs) (case_tac bs; simp add: drop_Cons')+

lemma take_bits_of: "take (8 * n) (bits_of bs) = bits_of (take n bs)"
  by (induction n arbitrary: bs) (case_tac bs; simp add: take_Cons')+

lemma aligned_bytes:
  assumes "rd_pos r mod 8 = 0" and "remaining_bits r = bits_of bs @ rest"
  obtains tail where "drop (rd_pos r div 8) (rd_bytes r) = bs @ tail" "rest = bits_of tail"
proof -
  let ?d = "drop (rd_pos r div 8) (rd_bytes r)"
  have "8 * (rd_pos r div 8) = rd_pos r" using assms(1) by presburger
  then have d: "bits_of ?d = bits_of bs @ rest" using assms(2) by (metis drop_bits_of remaining_bits_def)
  then have "bits_of (take (length bs) ?d) = bits_of bs" by (metis append_eq_conv_conj length_bits_of take_bits_of)
  then have split: "?d = bs @ drop (length bs) ?d" by (metis append_take_drop_id bits_of_inject)
  then have "bits_of ?d = bits_of bs @ bits_of (drop (length bs) ?d)" by (metis bits_of_simps(3))
  with d split that show thesis by simp
qed

lemma drop_eq_Cons: "drop n xs = y # ys \<Longrightarrow> n < length xs \<and> xs ! n = y \<and> drop (Suc n) xs = ys"
  by (induction n arbitrary: xs) (case_tac xs; simp)+

definition framed :: "byte list list \<Rightarrow> byte list" where
  "framed cs = concat (map (\<lambda>c. word_of_nat (length c) # c) cs) @ [0]"

lemma read_bytes_framed:
  assumes "\<forall>c \<in> set cs. 0 < length c \<and> length c < 256"
    and "rd_pos r mod 8 = 0" and "remaining_bits r = bits_of (framed cs) @ rest"
  shows "read_bytes_loop out r = Inr (out @ concat cs, skip (8 * length (framed cs)) r)"
  using assms
proof (induction cs arbitrary: r out)
  case Nil
  then have "rd_pos r mod 8 = 0" "remaining_bits r = bits_of [0] @ rest" by (simp_all add: framed_def)
  from aligned_bytes [OF this] obtain tail where "drop (rd_pos r div 8) (rd_bytes r) = 0 # tail" by auto
  from drop_eq_Cons [OF this]
  show ?case by (simp add: read_bytes_loop.simps Let_def framed_def skip_def)
next
  case (Cons c cs)
  let ?q = "rd_pos r div 8" and ?n = "word_of_nat (length c) :: byte"
  have framed: "framed (c # cs) = ?n # c @ framed cs" by (simp add: framed_def)
  have n: "unat ?n = length c" using Cons.prems(1) by (simp add: unsigned_of_nat take_bit_nat_eq_self)
  from aligned_bytes [OF Cons.prems(2,3)] framed
  obtain tail where d: "drop ?q (rd_bytes r) = ?n # c @ framed cs @ tail" by auto
  have q: "?q < length (rd_bytes r)" and hd: "rd_bytes r ! ?q = ?n"
    and tl: "drop (Suc ?q) (rd_bytes r) = c @ framed cs @ tail"
    using drop_eq_Cons [OF d] by auto
  have len: "Suc ?q + length c \<le> length (rd_bytes r)"
    using arg_cong [OF tl, of length] q by simp
  have pos: "rd_pos r = 8 * ?q" using Cons.prems(2) by presburger
  let ?r = "skip (8 * Suc (length c)) r"
  have r': "r\<lparr>rd_pos := (Suc ?q + length c) * 8\<rparr> = ?r" using pos by (simp add: skip_def)
  have "remaining_bits ?r = bits_of (framed cs) @ rest"
    using remaining_skip [of r "bits_of (?n # c)" "bits_of (framed cs) @ rest"] Cons.prems(3) framed by simp
  moreover have "rd_pos ?r mod 8 = 0" using Cons.prems(2) unfolding skip_simps by presburger
  ultimately have IH: "read_bytes_loop (out @ c) ?r = Inr ((out @ c) @ concat cs, skip (8 * length (framed cs)) ?r)"
    using Cons.IH Cons.prems(1) by simp
  have "take (length c) (drop (Suc ?q) (rd_bytes r)) = c" using tl by simp
  moreover have "(rd_pos r + 8) div 8 = Suc ?q" by simp
  ultimately show ?case
    using IH q hd len n Cons.prems(1) r' by (subst read_bytes_loop.simps) (auto simp: Let_def framed add_ac)
qed


lemma write_filler_fold: "write_filler w = fold write_bit (replicate (7 - wr_pos w mod 8) False @ [True]) w"
proof -
  have "(write_bit False ^^ n) w = fold write_bit (replicate n False) w" for n w
    by (induction n arbitrary: w) (simp_all add: funpow_swap1)
  then show ?thesis by (simp add: write_filler_def)
qed

lemma reads_filler:
  assumes "k < 8"
  shows "reads read_filler k (replicate (7 - k) False @ [True]) ()"
proof -
  have "reads (read_filler_loop (Suc (n + m))) j (replicate n False @ [True]) ()" for n m j
  proof (induction n arbitrary: j)
    case 0
    have "reads (\<lambda>r. rbind (flat_read_bit r) (\<lambda>(b, r). if b then Inr ((), r) else read_filler_loop m r)) j ([True] @ []) ()"
      by (rule reads_bind [OF reads_bit]) (simp add: reads_return)
    then show ?case by simp
  next
    case (Suc n)
    have "reads (\<lambda>r. rbind (flat_read_bit r) (\<lambda>(b, r). if b then Inr ((), r) else read_filler_loop (Suc (n + m)) r)) j
        ([False] @ replicate n False @ [True]) ()"
      by (rule reads_bind [OF reads_bit]) (simp add: Suc del: read_filler_loop.simps)
    then show ?case by simp
  qed
  from this [of "7 - k" k] assms show ?thesis by (simp add: read_filler_def)
qed

lemma written_length: "writer_ok w \<Longrightarrow> length (written w) = wr_pos w"
  by (auto simp: writer_ok_def written_def)

lemma push_aligned:
  assumes "writer_ok w" and "wr_pos w mod 8 = 0"
  shows "writer_ok (push_slice bs w) \<and> written (push_slice bs w) = written w @ bits_of bs \<and> wr_pos (push_slice bs w) mod 8 = 0"
proof -
  have len: "8 * length (wr_bytes w) = wr_pos w" using assms unfolding writer_ok_def by presburger
  with assms show ?thesis by (auto simp: writer_ok_def push_slice_def written_def)
qed

lemma push_byte_slice: "push_byte b w = push_slice [b] w"
  by (simp add: push_byte_def push_slice_def)

lemma push_frames:
  fixes cs :: "byte list list"
  assumes "writer_ok w" and "wr_pos w mod 8 = 0"
  defines "w' \<equiv> push_byte 0 (fold (\<lambda>c w. push_slice c (push_byte (word_of_nat (length c)) w)) cs w)"
  shows "writer_ok w' \<and> written w' = written w @ bits_of (framed cs)"
  using assms(1,2) unfolding w'_def push_byte_slice
  by (induction cs arbitrary: w) (auto simp: push_aligned framed_def)

lemma chunks_nonempty: "c \<in> set (chunks n xs) \<Longrightarrow> c \<noteq> []"
  by (induction n xs rule: chunks.induct) (subst (asm) (2) chunks.simps, auto split: if_splits)

lemma codes_bytestring: "codes (write_bytestring bs) read_bytestring bs"
  unfolding codes_def
proof (intro allI impI)
  fix w
  assume ok: "writer_ok w"
  define k where "k = wr_pos w mod 8"
  define fill where "fill = replicate (7 - k) False @ [True]"
  have k: "k < 8" "length fill = 8 - k" by (auto simp: k_def fill_def)
  have w1: "writer_ok (write_filler w)" "written (write_filler w) = written w @ fill"
    using write_bits_ok [OF ok, of fill] unfolding write_filler_fold fill_def k_def by blast+
  have "wr_pos (write_filler w) mod 8 = 0"
    using written_length [OF w1(1)] written_length [OF ok] w1(2) k unfolding k_def by (simp add: mod_simps) presburger
  from push_frames [OF w1(1) this, of "chunks 255 bs"] obtain w' where
    w': "write_bytestring bs w = Inr w'" "writer_ok w'" "written w' = written w @ fill @ bits_of (framed (chunks 255 bs))"
    using w1(2) by (auto simp: write_bytestring_def)
  have chunks: "\<forall>c \<in> set (chunks 255 bs). 0 < length c \<and> length c < 256"
    using length_chunks [of _ 255 bs] chunks_nonempty [of _ 255 bs] by fastforce
  have "reads (\<lambda>r. read_bytes_loop [] r) ((k + length fill) mod 8) (bits_of (framed (chunks 255 bs))) bs"
    using read_bytes_framed [OF chunks] k by (auto simp: reads_def concat_chunks)
  then have "reads read_bytestring k (fill @ bits_of (framed (chunks 255 bs))) bs"
    using reads_bind [OF reads_filler [OF k(1)], of "\<lambda>_ r. read_bytes_loop [] r"] by (simp add: fill_def read_bytestring_def [abs_def])
  with w' show "\<exists>w' bs'. write_bytestring bs w = Inr w' \<and> writer_ok w' \<and> written w' = written w @ bs' \<and>
      reads read_bytestring (length (written w) mod 8) bs' bs"
    using written_length [OF ok] by (auto simp: k_def)
qed

end
