(* ===== verification/Uplc_Flat_Roundtrip.thy ===== *)
theory Uplc_Flat_Roundtrip
  imports Uplc_Flat Uplc_Flat_Codec
begin

text \<open>
  What the flat encoder writes the decoder reads back: universe tags, constants, terms and programs.
\<close>

section \<open>Lists\<close>

lemma codes_prefix_bit:
  assumes "codes act (after b) x"
  shows "codes (\<lambda>w. act (write_bit b w)) (\<lambda>r. rbind (flat_read_bit r) (\<lambda>(b, r). after b r)) x"
  using codes_bind [where after = after, OF codes_bit assms] by simp

definition list_round :: "nat \<Rightarrow> 'a bit_get \<Rightarrow> bool \<Rightarrow> 'a list bit_get" where
  "list_round n get b r =
     (if b then rbind (get r) (\<lambda>(x, r). rbind (read_list_loop n get r) (\<lambda>(xs, r). Inr (x # xs, r))) else Inr ([], r))"

lemma read_list_loop_round: "read_list_loop (Suc n) get = (\<lambda>r. rbind (flat_read_bit r) (\<lambda>(b, r). list_round n get b r))"
  by (rule ext) (simp add: list_round_def)

lemma reads_prefix_bit:
  assumes "reads (after b) (Suc k mod 8) bs x"
  shows "reads (\<lambda>r. rbind (flat_read_bit r) (\<lambda>(b, r). after b r)) k (b # bs) x"
  using reads_bind [where after = after and bs = "[b]" and x = b and cs = bs, OF reads_bit] assms by simp

text \<open>The bits of a list are at least as many as its elements, so the fuel of the reader is enough.\<close>

lemma write_list_reads:
  assumes "\<And>x. x \<in> set xs \<Longrightarrow> codes (put x) get x" and "writer_ok w"
  shows "\<exists>w' bs. write_list put xs w = Inr w' \<and> writer_ok w' \<and> written w' = written w @ bs \<and> length xs < length bs \<and>
    (\<forall>n \<ge> length xs. reads (read_list_loop (Suc n) get) (length (written w) mod 8) bs xs)"
  using assms
proof (induction xs arbitrary: w)
  case Nil
  have "reads (list_round n get False) k [] []" for n k by (simp add: list_round_def [abs_def] reads_return)
  with write_bit_ok [OF Nil(2), of False] show ?case
    by (intro exI [of _ "write_bit False w"] exI [of _ "[False]"]) (simp add: read_list_loop_round reads_prefix_bit)
next
  case (Cons x xs)
  let ?k = "length (written w)"
  have 0: "writer_ok (write_bit True w)" "written (write_bit True w) = written w @ [True]"
    using write_bit_ok [OF Cons.prems(2)] by auto
  from 0 Cons.prems(1) [of x] obtain w1 bs where 1: "put x (write_bit True w) = Inr w1" "writer_ok w1"
    "written w1 = (written w @ [True]) @ bs" "reads get (length (written w @ [True]) mod 8) bs x"
    unfolding codes_def by (metis list.set_intros(1))
  have "\<And>y. y \<in> set xs \<Longrightarrow> codes (put y) get y" using Cons.prems(1) by simp
  from Cons.IH [OF this 1(2)] obtain w2 cs where 2: "write_list put xs w1 = Inr w2" "writer_ok w2"
    "written w2 = written w1 @ cs" "length xs < length cs"
    "\<And>n. length xs \<le> n \<Longrightarrow> reads (read_list_loop (Suc n) get) (length (written w1) mod 8) cs xs" by blast
  have "reads (read_list_loop (Suc n) get) (?k mod 8) (True # bs @ cs) (x # xs)" if "length (x # xs) \<le> n" for n
  proof -
    from that obtain m where n: "n = Suc m" "length xs \<le> m" by (cases n) auto
    have "reads (\<lambda>r. rbind (read_list_loop n get r) (\<lambda>(xs, r). Inr (x # xs, r))) ((Suc ?k mod 8 + length bs) mod 8) cs (x # xs)"
      using reads_map [OF 2(5) [OF n(2)], of "(#) x"] 1(3) by (simp add: n(1) mod_simps)
    from reads_bind [where after = "\<lambda>x r. rbind (read_list_loop n get r) (\<lambda>(xs, r). Inr (x # xs, r))", OF _ this] 1(4)
    have "reads (list_round n get True) (Suc ?k mod 8) (bs @ cs) (x # xs)" by (simp add: list_round_def [abs_def])
    then show ?thesis unfolding read_list_loop_round by (intro reads_prefix_bit) (simp add: mod_simps)
  qed
  with 1 2 show ?case by (intro exI [of _ w2] exI [of _ "True # bs @ cs"]) (simp del: read_list_loop.simps)
qed

lemma codes_list:
  assumes "\<And>x. x \<in> set xs \<Longrightarrow> codes (put x) get x"
  shows "codes (write_list put xs) (read_list get) xs"
  unfolding codes_def
proof (intro allI impI)
  fix w
  assume "writer_ok w"
  from write_list_reads [OF assms this] obtain w' bs where w': "write_list put xs w = Inr w'" "writer_ok w'"
    "written w' = written w @ bs" "length xs < length bs"
    "\<And>n. length xs \<le> n \<Longrightarrow> reads (read_list_loop (Suc n) get) (length (written w) mod 8) bs xs" by blast
  have "reads (read_list get) (length (written w) mod 8) bs xs"
    unfolding reads_def
  proof (intro allI impI)
    fix r rest
    assume r: "rd_pos r mod 8 = length (written w) mod 8" "remaining_bits r = bs @ rest"
    have "length xs \<le> bits_remaining r" using w'(4) r(2) by (simp add: bits_remaining_length)
    from w'(5) [OF this] r show "read_list get r = Inr (xs, skip (length bs) r)" unfolding reads_def read_list_def by blast
  qed
  with w' show "\<exists>w' bs. write_list put xs w = Inr w' \<and> writer_ok w' \<and> written w' = written w @ bs \<and>
      reads (read_list get) (length (written w) mod 8) bs xs" by blast
qed


section \<open>Universe tags\<close>

fun flat_type :: "type_tag \<Rightarrow> bool" where
  "flat_type (TyList t) \<longleftrightarrow> flat_type t"
| "flat_type (TyPair s t) \<longleftrightarrow> flat_type s \<and> flat_type t"
| "flat_type (TyArray t) \<longleftrightarrow> False"
| "flat_type TyValue \<longleftrightarrow> False"
| "flat_type _ \<longleftrightarrow> True"

definition atom_round :: "nat \<Rightarrow> bool \<Rightarrow> byte list bit_get" where
  "atom_round n b r =
     (if b then
        case n of
          0 \<Rightarrow> Inl FlatDecode
        | Suc m \<Rightarrow> rbind (read_bits8 const_tag_width r) (\<lambda>(a, r). rbind (read_atom_loop m r) (\<lambda>(atoms, r). Inr (a # atoms, r)))
      else Inr ([], r))"

lemma read_atom_loop_round: "read_atom_loop n = (\<lambda>r. rbind (flat_read_bit r) (\<lambda>(b, r). atom_round n b r))"
  by (rule ext, cases n) (auto simp: atom_round_def intro!: rbind_cong)

lemma codes_atoms:
  "\<forall>a \<in> set atoms. unat a < 16 \<Longrightarrow> length atoms \<le> n \<Longrightarrow>
     codes (write_list (\<lambda>a. write_bits8 a const_tag_width) atoms) (read_atom_loop n) atoms"
proof (induction atoms arbitrary: n)
  case Nil
  have "codes Inr (atom_round n False) []" by (cases n) (simp_all add: atom_round_def [abs_def] codes_return)
  from codes_prefix_bit [where after = "atom_round n", OF this] show ?case by (simp add: read_atom_loop_round)
next
  case (Cons a atoms)
  then obtain m where n: "n = Suc m" "length atoms \<le> m" by (cases n) auto
  have "codes (write_bits8 a const_tag_width) (read_bits8 const_tag_width) a"
    using Cons.prems by (intro codes_bits8) (simp_all add: const_tag_width_def)
  moreover have "codes (write_list (\<lambda>a. write_bits8 a const_tag_width) atoms)
      (\<lambda>r. rbind (read_atom_loop m r) (\<lambda>(atoms, r). Inr (a # atoms, r))) (a # atoms)"
    using codes_map [OF Cons.IH [OF _ n(2)], of "(#) a"] Cons.prems by simp
  ultimately have "codes (\<lambda>w. rbind (write_bits8 a const_tag_width w) (write_list (\<lambda>a. write_bits8 a const_tag_width) atoms))
      (atom_round n True) (a # atoms)"
    using codes_bind [where after = "\<lambda>a r. rbind (read_atom_loop m r) (\<lambda>(atoms, r). Inr (a # atoms, r))"]
    by (simp add: atom_round_def [abs_def] n)
  from codes_prefix_bit [where after = "atom_round n", OF this] show ?case by (simp add: read_atom_loop_round)
qed

lemma parse_uni_collect:
  "flat_type t \<Longrightarrow> \<exists>atoms. collect_type_atoms t = Inr atoms \<and> length atoms = uni_size t \<and> (\<forall>a \<in> set atoms. unat a < 16) \<and>
     (\<forall>n rest. uni_size t \<le> n \<longrightarrow> parse_uni_from_atoms n (atoms @ rest) = Inr (Complete t, rest))"
proof (induction t)
  case (TyList t)
  then obtain atoms where t: "collect_type_atoms t = Inr atoms" "length atoms = uni_size t" "\<forall>a \<in> set atoms. unat a < 16"
    "\<And>n rest. uni_size t \<le> n \<Longrightarrow> parse_uni_from_atoms n (atoms @ rest) = Inr (Complete t, rest)" by auto
  have "parse_uni_from_atoms n (7 # 5 # atoms @ rest) = Inr (Complete (TyList t), rest)" if "uni_size (TyList t) \<le> n" for n rest
  proof -
    from that obtain m where n: "n = Suc (Suc m)" by (cases n; cases "n - 1") auto
    with that t(4) [of "Suc m" rest] show ?thesis by (simp add: base_uni_def apply_uni_def)
  qed
  with t show ?case by simp
next
  case (TyPair s t)
  then obtain xs ys where s: "collect_type_atoms s = Inr xs" "length xs = uni_size s" "\<forall>a \<in> set xs. unat a < 16"
    "\<And>n rest. uni_size s \<le> n \<Longrightarrow> parse_uni_from_atoms n (xs @ rest) = Inr (Complete s, rest)"
    and t: "collect_type_atoms t = Inr ys" "length ys = uni_size t" "\<forall>a \<in> set ys. unat a < 16"
    "\<And>n rest. uni_size t \<le> n \<Longrightarrow> parse_uni_from_atoms n (ys @ rest) = Inr (Complete t, rest)" by auto
  have "parse_uni_from_atoms n (7 # 7 # 6 # xs @ ys @ rest) = Inr (Complete (TyPair s t), rest)"
    if "uni_size (TyPair s t) \<le> n" for n rest
  proof -
    from that obtain m where n: "n = Suc (Suc (Suc m))" by (cases n; cases "n - 1"; cases "n - 2") auto
    with that s(4) [of "Suc m" "ys @ rest"] t(4) [of "Suc (Suc m)" rest] show ?thesis
      by (simp add: base_uni_def apply_uni_def)
  qed
  with s t show ?case by auto
qed (auto simp: Suc_le_eq gr0_conv_Suc base_uni_def)


lemma rbind_return [simp]: "rbind x Inr = x"
  by (cases x) simp_all

lemma codes_type_tag:
  assumes "flat_type t" and "uni_size t \<le> max_type_atoms"
  shows "codes (encode_type_tag t) decode_type_tag t"
proof -
  from parse_uni_collect [OF assms(1)] obtain atoms where a: "collect_type_atoms t = Inr atoms" "length atoms = uni_size t"
    "\<forall>a \<in> set atoms. unat a < 16" "parse_uni_from_atoms (uni_size t) (atoms @ []) = Inr (Complete t, [])" by blast
  have ne: "atoms \<noteq> []" using a(2) by (cases t) auto
  define after where "after = (\<lambda>atoms r. if atoms = [] then Inl FlatDecode
      else rbind (parse_type_from_atoms atoms) (\<lambda>(tag, rest). if rest \<noteq> [] then Inl FlatDecode else Inr (tag, r :: bit_reader)))"
  have "codes Inr (after atoms) t" using a ne by (simp add: after_def parse_type_from_atoms_def codes_return)
  moreover have "codes (write_list (\<lambda>a. write_bits8 a const_tag_width) atoms) read_atom_list atoms"
    unfolding read_atom_list_def using a assms(2) by (intro codes_atoms) auto
  ultimately have "codes (\<lambda>w. rbind (write_list (\<lambda>a. write_bits8 a const_tag_width) atoms w) Inr)
      (\<lambda>r. rbind (read_atom_list r) (\<lambda>(atoms, r). after atoms r)) t" by (rule codes_bind [rotated])
  then show ?thesis using a by (simp add: encode_type_tag_def [abs_def] decode_type_tag_def [abs_def] after_def)
qed


section \<open>Constants\<close>

definition integer_round :: "nat \<Rightarrow> nat \<Rightarrow> bool \<times> nat \<Rightarrow> nat bit_get" where
  "integer_round a shift = (\<lambda>(cont, chunk) r.
       let a = (if 0 < shift then a + chunk * 2 ^ shift else chunk) in
       if \<not> cont then Inr (a, r)
       else if 2 ^ 32 \<le> shift + 7 then Inl FlatDecode
       else read_integer_loop a (shift + 7) r)"

interpretation integers: varint read_integer_loop integer_round shift_fits "\<lambda>a shift v. a + v * 2 ^ shift"
proof unfold_locales
  show "read_integer_loop a i = (\<lambda>r. rbind (read_chunk r) (\<lambda>(c, r). integer_round a i c r))" for a i
    by (rule ext) (simp add: read_integer_loop.simps integer_round_def case_prod_unfold)
  show "integer_round a i (False, v) = (\<lambda>r. Inr (a + v * 2 ^ i, r))" if "shift_fits a i v" "v < 128" for a i v
    using that by (auto simp: integer_round_def shift_fits_def)
  show "\<exists>a' i'. integer_round a i (True, v mod 128) = read_integer_loop a' i' \<and> shift_fits a' i' (v div 128) \<and>
      a' + v div 128 * 2 ^ i' = a + v * 2 ^ i" if "shift_fits a i v" "128 \<le> v" for a i v
  proof (intro exI conjI)
    show "integer_round a i (True, v mod 128) = read_integer_loop (a + (v mod 128) * 2 ^ i) (i + 7)"
      using that shift_fits_next(1) [OF that] by (auto simp: fun_eq_iff integer_round_def shift_fits_def)
  qed (use shift_fits_next [OF that] in auto)
qed

definition short_varint :: "nat \<Rightarrow> bool" where
  "short_varint v \<longleftrightarrow> 7 * later_chunks v < 2 ^ 32"

lemma codes_integer: "short_varint (zigzag n) \<Longrightarrow> codes (write_integer_bigint n) read_integer_bigint n"
proof -
  assume "short_varint (zigzag n)"
  then have "codes (write_natural (zigzag n)) (read_integer_loop 0 0) (zigzag n)"
    using integers.reads_back [of 0 0 "zigzag n"] by (simp add: shift_fits_def short_varint_def)
  from codes_map [OF this, of "\<lambda>v. if odd v then - int ((v + 1) div 2) else int (v div 2)"]
  have "codes (write_integer_bigint n) read_integer_bigint
      (if odd (zigzag n) then - int ((zigzag n + 1) div 2) else int (zigzag n div 2))"
    by (simp add: write_integer_bigint_def read_integer_bigint_def [abs_def])
  moreover have "(if odd (zigzag n) then - int ((zigzag n + 1) div 2) else int (zigzag n div 2)) = n"
    by (auto simp: zigzag_def even_nat_iff nat_add_distrib)
  ultimately show ?thesis by simp
qed

text \<open>Constants that the format can carry, at their type.\<close>

fun const_fits :: "minicbor \<Rightarrow> type_tag \<Rightarrow> uconst \<Rightarrow> bool" where
  "const_fits mc t (CInteger n) \<longleftrightarrow> t = TyInteger \<and> short_varint (zigzag n)"
| "const_fits mc t (CByteString bs) \<longleftrightarrow> t = TyByteString"
| "const_fits mc t (CString s) \<longleftrightarrow> t = TyString \<and> utf8_valid s"
| "const_fits mc t CUnit \<longleftrightarrow> t = TyUnit"
| "const_fits mc t (CBool b) \<longleftrightarrow> t = TyBool"
| "const_fits mc t (CData d) \<longleftrightarrow> t = TyData \<and> data_fits (data_max_depth + 1) d \<and>
     mc_read mc (mc_write mc (encode_data d)) = encode_data d"
| "const_fits mc t (CProtoList elem_type elements) \<longleftrightarrow> t = TyList elem_type \<and> list_all (const_fits mc elem_type) elements"
| "const_fits mc t (CProtoPair a_type b_type a b) \<longleftrightarrow>
     t = TyPair a_type b_type \<and> const_fits mc a_type a \<and> const_fits mc b_type b"
| "const_fits mc t _ \<longleftrightarrow> False"

definition constant_fits :: "minicbor \<Rightarrow> uconst \<Rightarrow> bool" where
  "constant_fits mc c \<longleftrightarrow> const_fits mc (type_tag_of c) c \<and> flat_type (type_tag_of c) \<and> uni_size (type_tag_of c) \<le> max_type_atoms"

lemma codes_check:
  assumes "codes act get x" and "\<And>r. after x r = Inr (y, r)"
  shows "codes act (\<lambda>r. rbind (get r) (\<lambda>(x, r). after x r)) y"
proof -
  have "codes Inr (after x) y" using assms(2) codes_return [of y] by (metis ext)
  from codes_bind [where after = after, OF assms(1) this] show ?thesis
    by (metis (no_types, lifting) rbind_return ext)
qed

lemma codes_constant_value:
  "const_fits mc t c \<Longrightarrow> codes (encode_constant_value mc c) (decode_constant_value mc t) c"
proof (induction mc t c rule: const_fits.induct)
  case (7 mc t elem_type elements)
  then have "codes (write_list (encode_constant_value mc) elements) (read_list (decode_constant_value mc elem_type)) elements"
    by (intro codes_list) (auto simp: list_all_iff)
  from codes_map [OF this, of "CProtoList elem_type"] 7 show ?case by simp
next
  case (8 mc t a_type b_type a b)
  then have ab: "codes (encode_constant_value mc a) (decode_constant_value mc a_type) a"
    "codes (encode_constant_value mc b) (decode_constant_value mc b_type) b" by auto
  from codes_bind [where after = "\<lambda>a r. rbind (decode_constant_value mc b_type r) (\<lambda>(b, r). Inr (CProtoPair a_type b_type a b, r))",
      OF ab(1) codes_map [OF ab(2), of "CProtoPair a_type b_type a"]] 8 show ?case by simp
next
  case (3 mc t s)
  then show ?case
    using codes_check [where after = "\<lambda>bs r. if utf8_valid bs then Inr (CString bs, r) else Inl FlatDecode" and x = s,
        OF codes_bytestring] by simp
next
  case (6 mc t d)
  let ?after = "\<lambda>raw r. case data_from_items (mc_read mc raw) of Inl _ \<Rightarrow> Inl FlatDecode | Inr d \<Rightarrow> Inr (CData d, r)"
  from 6 have "data_from_items (mc_read mc (mc_write mc (encode_data d))) = Inr d"
    using decode_encode_data [of "data_max_depth + 1" d "[]"] by (simp add: data_from_items_def)
  with 6 codes_check [where after = ?after and x = "mc_write mc (encode_data d)" and y = "CData d", OF codes_bytestring]
  show ?case by simp
qed (auto simp: codes_map [OF codes_integer] codes_map [OF codes_bytestring] codes_map [OF codes_bit] codes_return)

lemma codes_constant:
  assumes "constant_fits mc c"
  shows "codes (encode_constant mc c) (decode_constant mc) c"
proof -
  let ?t = "type_tag_of c"
  have "constant_type_tag c = Inr ?t"
    using assms by (cases c) (auto simp: constant_fits_def constant_type_tag_def)
  moreover have "codes (\<lambda>w. rbind (encode_type_tag ?t w) (encode_constant_value mc c))
      (\<lambda>r. rbind (decode_type_tag r) (\<lambda>(tag, r). decode_constant_value mc tag r)) c"
    using assms by (intro codes_bind [OF codes_type_tag codes_constant_value]) (auto simp: constant_fits_def)
  ultimately show ?thesis by (simp add: encode_constant_def [abs_def] decode_constant_def [abs_def])
qed


section \<open>Terms and programs\<close>

text \<open>Terms that the format can carry with a number of levels left.\<close>

fun term_fits :: "minicbor \<Rightarrow> nat \<Rightarrow> uterm \<Rightarrow> bool" where
  "term_fits mc 0 t \<longleftrightarrow> False"
| "term_fits mc (Suc n) t \<longleftrightarrow>
     (case t of
        TVar i \<Rightarrow> i < 2 ^ 64
      | TDelay b \<Rightarrow> term_fits mc n b
      | TLam b \<Rightarrow> term_fits mc n b
      | TApp f a \<Rightarrow> term_fits mc n f \<and> term_fits mc n a
      | TConst c \<Rightarrow> constant_fits mc c
      | TForce b \<Rightarrow> term_fits mc n b
      | TError \<Rightarrow> True
      | TBuiltin b \<Rightarrow> True
      | TConstr tag args \<Rightarrow> tag < 2 ^ 64 \<and> list_all (term_fits mc n) args
      | TCase s bs \<Rightarrow> term_fits mc n s \<and> list_all (term_fits mc n) bs)"

lemma codes_word64: "i < 2 ^ 64 \<Longrightarrow> codes (write_natural i) read_word64_strict i"
  using word64.reads_back [of 0 0 i True] by (simp add: word_fits_def read_word64_strict_def)

lemma codes_biguint: "short_varint v \<Longrightarrow> codes (write_natural v) read_natural_biguint v"
  using biguint.reads_back [of 0 0 v] by (simp add: shift_fits_def short_varint_def read_natural_biguint_def)

lemma codes_tagged:
  assumes "unat tag < 16" and "codes act (tagged mc go tag) t"
  shows "codes (\<lambda>w. rbind (write_bits8 tag term_tag_width w) act) (decode_term_inner mc go) t"
proof -
  have "codes (write_bits8 tag term_tag_width) (read_bits8 term_tag_width) tag"
    using assms(1) by (intro codes_bits8) (simp_all add: term_tag_width_def)
  from codes_bind [where after = "tagged mc go", OF this assms(2)] show ?thesis
    by (simp add: decode_term_inner_def [abs_def])
qed


lemma from_u8_as_u8: "from_u8 (as_u8 b) = Inr b" "as_u8 b < 128"
  using builtin_numbers [of b] by (auto simp: from_u8_def builtin_table_def split: if_splits)

lemma codes_builtin: "codes (\<lambda>w. if 128 \<le> as_u8 b then Inl Encode else write_bits8 (word_of_nat (as_u8 b)) builtin_tag_width w)
    (\<lambda>r. rbind (read_bits8 builtin_tag_width r) (\<lambda>(raw, r). rbind (from_u8 (unat raw)) (\<lambda>b. Inr (TBuiltin b, r)))) (TBuiltin b)"
proof -
  have raw: "unat (word_of_nat (as_u8 b) :: byte) = as_u8 b"
    using from_u8_as_u8(2) [of b] by (simp add: unsigned_of_nat take_bit_nat_eq_self)
  have "codes (write_bits8 (word_of_nat (as_u8 b)) builtin_tag_width) (read_bits8 builtin_tag_width) (word_of_nat (as_u8 b))"
    using from_u8_as_u8(2) [of b] raw by (intro codes_bits8) (simp_all add: builtin_tag_width_def)
  from codes_check [where after = "\<lambda>raw r. rbind (from_u8 (unat raw)) (\<lambda>b. Inr (TBuiltin b, r))" and y = "TBuiltin b", OF this]
  show ?thesis using from_u8_as_u8 [of b] raw by (simp add: not_le)
qed

lemma codes_pair:
  assumes "codes act get x" and "codes act' get' y"
  shows "codes (\<lambda>w. rbind (act w) act') (\<lambda>r. rbind (get r) (\<lambda>(x, r). rbind (get' r) (\<lambda>(y, r). Inr (f x y, r)))) (f x y)"
  using codes_bind [where after = "\<lambda>x r. rbind (get' r) (\<lambda>(y, r). Inr (f x y, r))", OF assms(1) codes_map [OF assms(2), of "f x"]] .

lemma codes_term_inner:
  assumes "term_fits mc (Suc n) t" and go: "\<And>t. term_fits mc n t \<Longrightarrow> codes (put t) get t"
  shows "codes (encode_term_inner mc put t) (decode_term_inner mc get) t"
proof (cases t)
  case (TVar i)
  from codes_map [OF codes_word64, of i TVar] assms(1) show ?thesis
    unfolding TVar encode_term_inner.simps by (intro codes_tagged) (simp_all add: tagged_def [abs_def])
next
  case (TDelay b)
  from codes_map [OF go, of b TDelay] assms(1) show ?thesis
    unfolding TDelay encode_term_inner.simps by (intro codes_tagged) (simp_all add: tagged_def [abs_def])
next
  case (TLam b)
  from codes_map [OF go, of b TLam] assms(1) show ?thesis
    unfolding TLam encode_term_inner.simps by (intro codes_tagged) (simp_all add: tagged_def [abs_def])
next
  case (TForce b)
  from codes_map [OF go, of b TForce] assms(1) show ?thesis
    unfolding TForce encode_term_inner.simps by (intro codes_tagged) (simp_all add: tagged_def [abs_def])
next
  case (TConst c)
  from codes_map [OF codes_constant, of mc c TConst] assms(1) show ?thesis
    unfolding TConst encode_term_inner.simps by (intro codes_tagged) (simp_all add: tagged_def [abs_def])
next
  case (TBuiltin b)
  from codes_builtin [of b] show ?thesis
    unfolding TBuiltin encode_term_inner.simps by (intro codes_tagged) (simp_all add: tagged_def [abs_def])
next
  case (TApp f a)
  from codes_pair [where f = TApp, OF go go, of f a] assms(1) show ?thesis
    unfolding TApp encode_term_inner.simps by (intro codes_tagged) (simp_all add: tagged_def [abs_def])
next
  case (TConstr tag args)
  then have "codes (write_list put args) (read_list get) args" using assms by (intro codes_list) (auto simp: list_all_iff)
  from codes_pair [where f = TConstr, OF codes_word64 this, of tag] assms(1) show ?thesis
    unfolding TConstr encode_term_inner.simps by (intro codes_tagged) (simp_all add: tagged_def [abs_def])
next
  case (TCase s bs)
  then have "codes (write_list put bs) (read_list get) bs" using assms by (intro codes_list) (auto simp: list_all_iff)
  from codes_pair [where f = TCase, OF go this, of s] assms(1) show ?thesis
    unfolding TCase encode_term_inner.simps by (intro codes_tagged) (simp_all add: tagged_def [abs_def])
next
  case TError
  have "codes Inr (tagged mc get 6) TError" by (simp add: tagged_def [abs_def] codes_return)
  from codes_tagged [OF _ this] show ?thesis by (simp add: TError)
qed

lemma codes_term: "term_fits mc n t \<Longrightarrow> codes (encode_term_depth mc n t) (decode_term_depth mc n) t"
proof (induction n arbitrary: t)
  case (Suc n)
  from codes_term_inner [OF Suc.prems Suc.IH] show ?case by (simp add: fun_eq_iff [of "decode_term_depth mc (Suc n)"])
qed simp

definition program_fits :: "minicbor \<Rightarrow> program \<Rightarrow> bool" where
  "program_fits mc p \<longleftrightarrow> (case prog_version p of (major, minor, patch) \<Rightarrow>
     short_varint major \<and> short_varint minor \<and> short_varint patch) \<and> term_fits mc (Suc flat_max_depth) (prog_term p)"

definition read_body :: "minicbor \<Rightarrow> (nat \<times> nat \<times> nat \<times> uterm) bit_get" where
  "read_body mc r =
     rbind (read_natural_biguint r) (\<lambda>(major, r).
     rbind (read_natural_biguint r) (\<lambda>(minor, r).
     rbind (read_natural_biguint r) (\<lambda>(patch, r).
     rbind (decode_term mc r) (\<lambda>(t, r). Inr ((major, minor, patch, t), r)))))"

definition write_body :: "minicbor \<Rightarrow> nat \<Rightarrow> nat \<Rightarrow> nat \<Rightarrow> uterm \<Rightarrow> bit_put" where
  "write_body mc major minor patch t w =
     rbind (write_natural major w) (\<lambda>w. rbind (write_natural minor w) (\<lambda>w. rbind (write_natural patch w) (encode_term mc t)))"

lemma rbind_assoc: "rbind (rbind x f) g = rbind x (\<lambda>y. rbind (f y) g)"
  by (cases x) simp_all

lemma from_flat_body:
  "from_flat mc bytes = rbind (read_body mc (reader_new bytes)) (\<lambda>((major, minor, patch, t), r). rbind (read_filler r) (\<lambda>(_, r).
     if bits_remaining r \<noteq> 0 then Inl FlatDecode else Inr \<lparr>prog_version = (major, minor, patch), prog_term = t\<rparr>))"
  by (simp add: from_flat_def read_body_def rbind_assoc case_prod_unfold cong: if_cong)

lemma codes_body:
  assumes "short_varint major" "short_varint minor" "short_varint patch" "term_fits mc (Suc flat_max_depth) t"
  shows "codes (write_body mc major minor patch t) (read_body mc) (major, minor, patch, t)"
proof -
  have "codes (encode_term mc t) (decode_term mc) t"
    using codes_term [OF assms(4)] by (simp add: encode_term_def decode_term_def)
  note 1 = codes_pair [where f = "\<lambda>patch t. (major, minor, patch, t)", OF codes_biguint [OF assms(3)] this]
  note 2 = codes_bind [where after = "\<lambda>minor r. rbind (read_natural_biguint r) (\<lambda>(patch, r).
     rbind (decode_term mc r) (\<lambda>(t, r). Inr ((major, minor, patch, t), r)))", OF codes_biguint [OF assms(2)] 1]
  from codes_bind [where after = "\<lambda>major r. rbind (read_natural_biguint r) (\<lambda>(minor, r). rbind (read_natural_biguint r) (\<lambda>(patch, r).
     rbind (decode_term mc r) (\<lambda>(t, r). Inr ((major, minor, patch, t), r))))", OF codes_biguint [OF assms(1)] 2]
  show ?thesis by (simp add: write_body_def [abs_def] read_body_def [abs_def])
qed

lemma finish_bits:
  assumes "writer_ok w"
  shows "bits_of (finish w) = written w @ replicate (7 - length (written w) mod 8) False @ [True]"
proof -
  define fill where "fill = replicate (7 - length (written w) mod 8) False @ [True]"
  have ok: "writer_ok (write_filler w)" and wr: "written (write_filler w) = written w @ fill"
    using write_bits_ok [OF assms, of fill] unfolding write_filler_fold fill_def written_length [OF assms] by blast+
  have "wr_pos (write_filler w) mod 8 = 0"
    using written_length [OF ok] wr by (simp add: fill_def) presburger
  then have "8 * length (wr_bytes (write_filler w)) = wr_pos (write_filler w)" using ok unfolding writer_ok_def by presburger
  with ok wr show ?thesis by (simp add: writer_ok_def finish_def fill_def)
qed

lemma flat_roundtrip:
  assumes "program_fits mc p"
  shows "\<exists>bytes. to_flat mc p = Inr bytes \<and> from_flat mc bytes = Inr p"
proof -
  obtain major minor patch t where p: "p = \<lparr>prog_version = (major, minor, patch), prog_term = t\<rparr>"
    by (metis program.cases prod_cases3)
  with assms have "codes (write_body mc major minor patch t) (read_body mc) (major, minor, patch, t)"
    by (intro codes_body) (auto simp: program_fits_def)
  then obtain w bs where w: "write_body mc major minor patch t writer_new = Inr w" "writer_ok w" "written w = bs"
    "reads (read_body mc) 0 bs (major, minor, patch, t)"
    using writer_new_ok unfolding codes_def by fastforce
  define r where "r = reader_new (finish w)"
  define fill where "fill = replicate (7 - length bs mod 8) False @ [True]"
  have rem: "remaining_bits r = bs @ fill @ []" "rd_pos r = 0"
    using finish_bits [OF w(2)] w(3) by (simp_all add: r_def reader_new_def remaining_bits_def fill_def)
  then have body: "read_body mc r = Inr ((major, minor, patch, t), skip (length bs) r)"
    using w(4) unfolding reads_def by fastforce
  have rem': "remaining_bits (skip (length bs) r) = fill @ []" using remaining_skip rem(1) by blast
  then have "read_filler (skip (length bs) r) = Inr ((), skip (length fill) (skip (length bs) r))"
    using reads_filler [of "length bs mod 8"] rem(2) unfolding reads_def fill_def by force
  moreover have "bits_remaining (skip (length fill) (skip (length bs) r)) = 0"
    using remaining_skip [OF rem'] by (simp add: bits_remaining_length)
  ultimately have "from_flat mc (finish w) = Inr p" using body by (simp add: from_flat_body r_def p)
  moreover have "to_flat mc p = Inr (finish w)"
    using w(1) by (simp add: to_flat_def p write_body_def rbind_Inr_iff) blast
  ultimately show ?thesis by blast
qed

end
