(* ===== verification/Uplc_Flat_Extend.thy ===== *)
theory Uplc_Flat_Extend
  imports Uplc_Flat_Roundtrip
begin

text \<open>
  Readers of the flat format on a longer buffer: what a reader returns does not change when bytes are
  added at the end.  So a program with anything after its padding is refused.
\<close>

definition lengthen :: "byte list \<Rightarrow> bit_reader \<Rightarrow> bit_reader" where
  "lengthen e r = r\<lparr>rd_bytes := rd_bytes r @ e\<rparr>"

named_theorems steady

definition steady_at :: "byte list \<Rightarrow> 'a bit_get \<Rightarrow> bit_reader \<Rightarrow> bool" where
  "steady_at e get r \<longleftrightarrow> (\<forall>x r'. get r = Inr (x, r') \<longrightarrow> get (lengthen e r) = Inr (x, lengthen e r'))"

lemma steady_bind [steady]:
  assumes "steady_at e get r" and "\<And>x r'. get r = Inr (x, r') \<Longrightarrow> steady_at e (after x) r'"
  shows "steady_at e (\<lambda>r. rbind (get r) (\<lambda>(x, r). after x r)) r"
  using assms by (auto simp: steady_at_def rbind_Inr_iff)

lemma steady_simps [simp]: "steady_at e (\<lambda>r. Inr (x, r)) r" "steady_at e (\<lambda>r. Inl err) r"
  by (simp_all add: steady_at_def)

lemma steady_if [steady]:
  "(P \<Longrightarrow> steady_at e f r) \<Longrightarrow> (\<not> P \<Longrightarrow> steady_at e g r) \<Longrightarrow> steady_at e (\<lambda>r. if P then f r else g r) r"
  by (simp add: steady_at_def)

lemma steady_pure [steady]:
  "(\<And>y. x = Inr y \<Longrightarrow> steady_at e (after y) r) \<Longrightarrow> steady_at e (\<lambda>r. rbind x (\<lambda>y. after y r)) r"
  by (cases x) (simp_all add: steady_at_def)

lemma lengthen_simps [simp]: "rd_pos (lengthen e r) = rd_pos r" "rd_bytes (lengthen e r) = rd_bytes r @ e" "lengthen e (r\<lparr>rd_pos := n\<rparr>) = (lengthen e r)\<lparr>rd_pos := n\<rparr>"
  by (simp_all add: lengthen_def)

lemma current_bit_extend: "0 < bits_remaining r \<Longrightarrow> current_bit (lengthen e r) = current_bit r"
proof -
  assume "0 < bits_remaining r"
  then have "rd_pos r div 8 < length (rd_bytes r)" by (simp add: bits_remaining_def)
  then show ?thesis by (simp add: current_bit_def lengthen_def nth_append)
qed

lemma bits_remaining_extend: "bits_remaining r \<le> bits_remaining (lengthen e r)"
  by (simp add: bits_remaining_def lengthen_def)

lemma steady_read_bit [steady]: "steady_at e flat_read_bit r"
  using bits_remaining_extend [of r e] current_bit_extend [of r e]
  by (auto simp: steady_at_def flat_read_bit_def ensure_bits_def)

lemma read_bits_loop_extend:
  "n \<le> bits_remaining r \<Longrightarrow> read_bits_loop n out (lengthen e r) = (case read_bits_loop n out r of (v, r) \<Rightarrow> (v, lengthen e r))"
proof (induction n out r rule: read_bits_loop.induct)
  case (2 n out r)
  then have "n \<le> bits_remaining (r\<lparr>rd_pos := rd_pos r + 1\<rparr>)" by (simp add: bits_remaining_def)
  with 2 show ?case by (simp add: current_bit_extend)
qed simp

lemma steady_read_bits8 [steady]: "steady_at e (read_bits8 n) r"
  using bits_remaining_extend [of r e]
  by (auto simp: steady_at_def read_bits8_def ensure_bits_def read_bits_loop_extend split: prod.splits)

lemma steady_read_filler [steady]: "steady_at e read_filler r"
proof -
  have "steady_at e (read_filler_loop n) r" for n
  proof (induction n arbitrary: r)
    case (Suc n)
    have "steady_at e (\<lambda>r. rbind (flat_read_bit r) (\<lambda>(b, r). if b then Inr ((), r) else read_filler_loop n r)) r"
      by (intro steady) (auto simp: Suc)
    then show ?case by (simp add: steady_at_def)
  qed (simp add: steady_at_def)
  then show ?thesis by (simp add: read_filler_def)
qed

lemma steady_read_chunk [steady]: "steady_at e read_chunk r"
  unfolding read_chunk_def [abs_def] by (intro steady) simp


lemma steady_varint:
  assumes loop: "\<And>a i. loop a i = (\<lambda>r. rbind (read_chunk r) (\<lambda>(c, r). round a i c r))"
    and round: "\<And>a i cont chunk r. (\<And>a' i'. steady_at e (loop a' i') r) \<Longrightarrow> steady_at e (round a i (cont, chunk)) r"
  shows "steady_at e (loop a i) r"
proof (induction "bits_remaining r" arbitrary: a i r rule: less_induct)
  case less
  have "steady_at e (round a i c) r'" if "read_chunk r = Inr (c, r')" for c r'
    using round [of r' a i "fst c" "snd c"] less read_chunk_less [OF that] by simp
  then show ?case unfolding loop [of a i] by (intro steady) simp
qed

lemma steady_read_word64_strict [steady]: "steady_at e read_word64_strict r"
  unfolding read_word64_strict_def
proof (rule steady_varint [where loop = "read_natural_loop True", OF word64.loop_round])
  show "steady_at e (natural_round True a i (cont, chunk)) r" if "\<And>a' i'. steady_at e (read_natural_loop True a' i') r" for a i cont chunk r
    unfolding natural_round_def prod.case Let_def by (intro steady steady_simps that)
qed

lemma steady_read_natural_biguint [steady]: "steady_at e read_natural_biguint r"
  unfolding read_natural_biguint_def
proof (rule steady_varint [where loop = read_biguint_loop, OF biguint.loop_round])
  show "steady_at e (biguint_round a i (cont, chunk)) r" if "\<And>a' i'. steady_at e (read_biguint_loop a' i') r" for a i cont chunk r
    unfolding biguint_round_def prod.case Let_def by (intro steady steady_simps that)
qed

lemma steady_read_integer_bigint [steady]: "steady_at e read_integer_bigint r"
proof -
  have "steady_at e (read_integer_loop 0 0) r" for r
  proof (rule steady_varint [where loop = read_integer_loop, OF integers.loop_round])
    show "steady_at e (integer_round a i (cont, chunk)) r" if "\<And>a' i'. steady_at e (read_integer_loop a' i') r" for a i cont chunk r
      unfolding integer_round_def prod.case Let_def by (intro steady steady_simps that)
  qed
  then show ?thesis unfolding read_integer_bigint_def [abs_def] by (intro steady steady_simps)
qed

lemma read_bytes_step:
  "read_bytes_loop out r =
     (let p = rd_pos r div 8; n = unat (rd_bytes r ! p) in
      if length (rd_bytes r) \<le> p then Inl FlatDecode
      else if n = 0 then Inr (out, r\<lparr>rd_pos := rd_pos r + 8\<rparr>)
      else if length (rd_bytes r) < p + 1 + n then Inl FlatDecode
      else read_bytes_loop (out @ take n (drop (p + 1) (rd_bytes r))) (r\<lparr>rd_pos := (p + 1 + n) * 8\<rparr>))"
proof (cases r)
  case (fields bs k)
  have "(k + 8) div 8 = Suc (k div 8)" by presburger
  with fields show ?thesis by (subst read_bytes_loop.simps) (simp add: Let_def add_ac)
qed

lemma steady_read_bytes_loop [steady]: "steady_at e (read_bytes_loop out) r"
proof (induction "length (rd_bytes r) - rd_pos r div 8" arbitrary: out r rule: less_induct)
  case less
  define p where "p = rd_pos r div 8"
  define n where "n = unat (rd_bytes r ! p)"
  note step = read_bytes_step [of out r, unfolded Let_def, folded p_def n_def]
  show ?case
    unfolding steady_at_def
  proof (intro allI impI)
    fix x r'
    assume run: "read_bytes_loop out r = Inr (x, r')"
    with step have p: "p < length (rd_bytes r)" by (auto split: if_splits)
    then have n: "unat ((rd_bytes r @ e) ! p) = n" by (simp add: n_def nth_append)
    note step' = read_bytes_step [of out "lengthen e r", unfolded Let_def lengthen_simps, folded p_def, unfolded n]
    show "read_bytes_loop out (lengthen e r) = Inr (x, lengthen e r')"
    proof (cases "n = 0")
      case True
      with run step step' p show ?thesis by auto
    next
      case False
      let ?out = "out @ take n (drop (p + 1) (rd_bytes r))" and ?r = "r\<lparr>rd_pos := (p + 1 + n) * 8\<rparr>"
      from run step False p have fits: "p + 1 + n \<le> length (rd_bytes r)" and rest: "read_bytes_loop ?out ?r = Inr (x, r')"
        by (auto split: if_splits)
      have "steady_at e (read_bytes_loop ?out) ?r" using p fits False by (intro less) (simp flip: p_def)
      with rest have "read_bytes_loop ?out (lengthen e ?r) = Inr (x, lengthen e r')" by (simp add: steady_at_def)
      with step' p fits False show ?thesis by simp
    qed
  qed
qed

lemma steady_read_bytestring [steady]: "steady_at e read_bytestring r"
  unfolding read_bytestring_def [abs_def] by (intro steady)


lemma steady_read_list [steady]:
  assumes "\<And>r. steady_at e get r"
  shows "steady_at e (read_list get) r"
proof -
  have mono: "read_list_loop n get r = Inr x \<Longrightarrow> read_list_loop (n + m) get r = Inr x" for n m r x
    by (induction n arbitrary: r x) (auto simp: rbind_Inr_iff split: if_splits) 
  have "steady_at e (read_list_loop n get) r" for n r
  proof (induction n arbitrary: r)
    case (Suc n)
    have "steady_at e (\<lambda>r. rbind (flat_read_bit r) (\<lambda>(b, r). list_round n get b r)) r"
      unfolding list_round_def [abs_def] by (intro steady steady_simps assms Suc)
    then show ?case by (simp add: read_list_loop_round del: read_list_loop.simps)
  qed (simp add: steady_at_def)
  then have "read_list_loop (Suc (bits_remaining r)) get (lengthen e r) = Inr (x, lengthen e r')" if "read_list get r = Inr (x, r')" for x r'
    using that by (simp add: steady_at_def read_list_def del: read_list_loop.simps)
  moreover obtain m where m: "Suc (bits_remaining (lengthen e r)) = Suc (bits_remaining r) + m"
    using bits_remaining_extend [of r e] by (metis add_Suc le_Suc_ex)
  ultimately have "read_list get (lengthen e r) = Inr (x, lengthen e r')" if "read_list get r = Inr (x, r')" for x r'
    using that mono unfolding read_list_def [of get "lengthen e r"] m by blast
  then show ?thesis by (simp add: steady_at_def)
qed

lemma steady_read_atom_list [steady]: "steady_at e read_atom_list r"
proof -
  have "steady_at e (read_atom_loop n) r" for n r
  proof (induction n arbitrary: r)
    case 0
    show ?case unfolding read_atom_loop.simps(1) [abs_def] by (intro steady steady_simps)
  next
    case (Suc n)
    show ?case unfolding read_atom_loop.simps(2) [abs_def] by (intro steady steady_simps Suc)
  qed
  then show ?thesis by (simp add: read_atom_list_def)
qed

lemma steady_decode_type_tag [steady]: "steady_at e decode_type_tag r"
  unfolding decode_type_tag_def [abs_def] case_prod_unfold by (intro steady [unfolded case_prod_unfold] steady_simps)

lemma steady_constant_value [steady]: "steady_at e (decode_constant_value mc t) r"
proof (induction t arbitrary: r)
  case TyData
  show ?case unfolding decode_constant_value.simps
    by (intro steady) (auto simp: steady_at_def split: sum.split)
qed (unfold decode_constant_value.simps, (intro steady steady_simps; assumption)+)

lemma steady_decode_constant [steady]: "steady_at e (decode_constant mc) r"
  unfolding decode_constant_def [abs_def] by (intro steady)

lemma steady_decode_term [steady]: "steady_at e (decode_term mc) r"
proof -
  have "steady_at e (decode_term_depth mc n) r" for n r
  proof (induction n arbitrary: r)
    case (Suc n)
    have "steady_at e (decode_term_inner mc (decode_term_depth mc n)) r"
      unfolding decode_term_inner_def [abs_def] tagged_def by (intro steady steady_simps Suc)
    then show ?case by (simp add: steady_at_def)
  qed (simp add: steady_at_def)
  then show ?thesis by (simp add: decode_term_def)
qed


lemma steady_read_body: "steady_at e (read_body mc) r"
  unfolding read_body_def [abs_def] by (intro steady steady_simps)

lemma filler_in_bounds: "read_filler_loop n r = Inr (u, r') \<Longrightarrow> rd_pos r' \<le> 8 * length (rd_bytes r')"
  by (induction n arbitrary: r) (auto simp: bits_remaining_def elim!: rbind_InrE dest!: read_bit_pos split: if_splits)

lemma flat_trailing:
  assumes "from_flat mc bytes = Inr p" and "e \<noteq> []"
  shows "from_flat mc (bytes @ e) = Inl FlatDecode"
proof -
  let ?r = "reader_new bytes"
  from assms(1) obtain a b c t r1 r2 where body: "read_body mc ?r = Inr ((a, b, c, t), r1)" and fill: "read_filler r1 = Inr ((), r2)"
    by (auto simp: from_flat_body elim!: rbind_InrE)
  have ext: "reader_new (bytes @ e) = lengthen e ?r" by (simp add: reader_new_def lengthen_def)
  have body': "read_body mc (lengthen e ?r) = Inr ((a, b, c, t), lengthen e r1)" using steady_read_body body by (simp add: steady_at_def)
  have fill': "read_filler (lengthen e r1) = Inr ((), lengthen e r2)" using steady_read_filler fill by (simp add: steady_at_def)
  have "rd_pos r2 \<le> 8 * length (rd_bytes r2)" using filler_in_bounds fill by (auto simp: read_filler_def)
  then have "bits_remaining (lengthen e r2) \<noteq> 0" using assms(2) by (cases e) (simp_all add: bits_remaining_def)
  with body' fill' show ?thesis by (simp add: from_flat_body ext)
qed


text \<open>Padding may end inside a byte; then the length of the first chunk is read from that byte.\<close>

lemma bytestring_unaligned:
  "read_bytestring \<lparr>rd_bytes = [0x0A, 1, 2, 3, 4, 5, 6, 7, 8, 9, 10, 0], rd_pos = 4\<rparr> =
     Inr ([1, 2, 3, 4, 5, 6, 7, 8, 9, 10], \<lparr>rd_bytes = [0x0A, 1, 2, 3, 4, 5, 6, 7, 8, 9, 10, 0], rd_pos = 96\<rparr>)"
  by code_simp

end
