(* ===== verification/Uplc_Flat_Available.thy ===== *)
theory Uplc_Flat_Available
  imports Uplc_Flat
begin

text \<open>
  Which decoded programs are accepted for a language and protocol version: the walk over the term is a
  check of every subterm on its own.  A decoded term is within the depth limit, so the walk never
  fails for its depth.
\<close>

fun subterms :: "uterm \<Rightarrow> uterm list" where
  "subterms (TLam t) = TLam t # subterms t"
| "subterms (TDelay t) = TDelay t # subterms t"
| "subterms (TForce t) = TForce t # subterms t"
| "subterms (TApp t u) = TApp t u # subterms t @ subterms u"
| "subterms (TConstr tag ts) = TConstr tag ts # concat (map subterms ts)"
| "subterms (TCase t ts) = TCase t ts # subterms t @ concat (map subterms ts)"
| "subterms t = [t]"

primrec node_available :: "script_language \<Rightarrow> nat \<Rightarrow> nat \<times> nat \<times> nat \<Rightarrow> uterm \<Rightarrow> bool" where
  "node_available l pv version (TVar i) \<longleftrightarrow> True"
| "node_available l pv version (TLam t) \<longleftrightarrow> True"
| "node_available l pv version (TApp t u) \<longleftrightarrow> True"
| "node_available l pv version (TConst c) \<longleftrightarrow> (11 \<le> pv \<longrightarrow> uni_size (type_tag_of c) \<le> 32)"
| "node_available l pv version (TDelay t) \<longleftrightarrow> True"
| "node_available l pv version (TForce t) \<longleftrightarrow> True"
| "node_available l pv version TError \<longleftrightarrow> True"
| "node_available l pv version (TBuiltin b) \<longleftrightarrow> is_available_in b l pv"
| "node_available l pv version (TConstr tag args) \<longleftrightarrow> version_110_or_later version \<and> (11 \<le> pv \<longrightarrow> length args \<le> 1024)"
| "node_available l pv version (TCase t branches) \<longleftrightarrow> version_110_or_later version"

fun within_depth :: "nat \<Rightarrow> uterm \<Rightarrow> bool" where
  "within_depth 0 t \<longleftrightarrow> False"
| "within_depth (Suc n) t \<longleftrightarrow>
     (case t of
        TDelay b \<Rightarrow> within_depth n b
      | TLam b \<Rightarrow> within_depth n b
      | TForce b \<Rightarrow> within_depth n b
      | TApp f a \<Rightarrow> within_depth n f \<and> within_depth n a
      | TConstr tag args \<Rightarrow> list_all (within_depth n) args
      | TCase s bs \<Rightarrow> within_depth n s \<and> list_all (within_depth n) bs
      | _ \<Rightarrow> True)"

lemma validate_all_iff:
  "(\<And>x. x \<in> set xs \<Longrightarrow> f x = (if P x then Inr () else Inl FlatDecode)) \<Longrightarrow>
     validate_all f xs = (if list_all P xs then Inr () else Inl FlatDecode)"
  by (induction xs) auto

lemma list_all_concat_map: "list_all P (concat (map f xs)) \<longleftrightarrow> list_all (\<lambda>x. list_all P (f x)) xs"
  by (induction xs) auto

lemma validate_term_iff:
  "within_depth n t \<Longrightarrow> validate_term_depth l pv (version_110_or_later version) n t =
     (if list_all (node_available l pv version) (subterms t) then Inr () else Inl FlatDecode)"
proof (induction n arbitrary: t)
  case (Suc n)
  have all: "validate_all (validate_term_depth l pv (version_110_or_later version) n) ts =
      (if list_all (\<lambda>t. list_all (node_available l pv version) (subterms t)) ts then Inr () else Inl FlatDecode)"
    if "list_all (within_depth n) ts" for ts
    using that Suc.IH by (intro validate_all_iff) (auto simp: list_all_iff)
  show ?case
    using Suc all by (cases t) (auto simp: van_rossem_pv_def max_constr_fields_def
        max_constant_uni_size_def list_all_concat_map)
qed simp

lemma read_list_elements: "read_list_loop n get r = Inr (xs, r') \<Longrightarrow> x \<in> set xs \<Longrightarrow> \<exists>r1 r2. get r1 = Inr (x, r2)"
  by (induction n arbitrary: r xs) (auto elim!: rbind_InrE split: if_splits, blast)

text \<open>A reader gives only values with a property.\<close>

definition gives :: "('a \<Rightarrow> bool) \<Rightarrow> 'a bit_get \<Rightarrow> bool" where
  "gives P get \<longleftrightarrow> (\<forall>r x r'. get r = Inr (x, r') \<longrightarrow> P x)"

lemma gives_bind:
  "gives Q get \<Longrightarrow> (\<And>x. Q x \<Longrightarrow> gives P (after x)) \<Longrightarrow> gives P (\<lambda>r. rbind (get r) (\<lambda>(x, r). after x r))"
  unfolding gives_def by (fastforce elim!: rbind_InrE)

lemma gives_any: "gives (\<lambda>_. True) get"
  by (simp add: gives_def)

lemma gives_return: "P x \<Longrightarrow> gives P (\<lambda>r. Inr (x, r))" "gives P (\<lambda>r. Inl e)"
  by (simp_all add: gives_def)

lemma gives_if: "gives P f \<Longrightarrow> gives P g \<Longrightarrow> gives P (\<lambda>r. if c then f r else g r)"
  by (simp add: gives_def)

lemma gives_pure: "(\<And>y. gives P (after y)) \<Longrightarrow> gives P (\<lambda>r. rbind x (\<lambda>y. after y r))"
  by (cases x) (simp_all add: gives_def)

lemma gives_one: "gives Q get \<Longrightarrow> (\<And>x. Q x \<Longrightarrow> P (f x)) \<Longrightarrow> gives P (\<lambda>r. rbind (get r) (\<lambda>(x, r). Inr (f x, r)))"
  by (intro gives_bind gives_return)

lemma gives_two:
  "gives Q get \<Longrightarrow> gives Q' get' \<Longrightarrow> (\<And>x y. Q x \<Longrightarrow> Q' y \<Longrightarrow> P (f x y)) \<Longrightarrow>
     gives P (\<lambda>r. rbind (get r) (\<lambda>(x, r). rbind (get' r) (\<lambda>(y, r). Inr (f x y, r))))"
  by (rule gives_bind, assumption, rule gives_bind, assumption, rule gives_return) simp

lemma gives_list: "gives P get \<Longrightarrow> gives (list_all P) (read_list get)"
  unfolding gives_def list_all_iff read_list_def by (metis read_list_elements)

lemma decode_within_depth: "gives (within_depth n) (decode_term_depth mc n)"
proof (induction n)
  case (Suc n)
  let ?go = "decode_term_depth mc n"
  have "gives (within_depth (Suc n)) (tagged mc ?go tag)" for tag
    unfolding tagged_def [abs_def] using gives_list [OF Suc]
    by (intro gives_if gives_two [OF Suc Suc] gives_two [OF gives_any gives_list [OF Suc]] gives_two [OF Suc gives_list [OF Suc]]
        gives_one [OF Suc] gives_one [OF gives_any, where get = read_word64_strict]
        gives_one [OF gives_any, where get = "decode_constant mc"] gives_return
        gives_bind [OF gives_any, where get = "read_bits8 builtin_tag_width"] gives_pure) simp_all
  then have "gives (within_depth (Suc n)) (decode_term_inner mc ?go)"
    unfolding decode_term_inner_def [abs_def] by (intro gives_bind [OF gives_any])
  then show ?case by (simp add: gives_def)
qed (simp add: gives_def)

lemma from_flat_within_depth:
  "from_flat mc bytes = Inr p \<Longrightarrow> within_depth (Suc flat_max_depth) (prog_term p)"
  using decode_within_depth [of "Suc flat_max_depth" mc]
  by (fastforce simp: from_flat_def decode_term_def gives_def simp del: decode_term_depth.simps within_depth.simps
      elim!: rbind_InrE split: if_splits)

end
