(* ===== verification/Uplc_Flat_Theorems.thy ===== *)
theory Uplc_Flat_Theorems
  imports Uplc_Flat_Extend Uplc_Flat_Available
begin

text \<open>
  The properties of the flat format: programs come back from their bytes, nothing may follow a program,
  and a decoded program is checked node by node against language and protocol version.
\<close>

text \<open>C8: a program is encoded, and its bytes decode to the program, when its numbers are
  64-bit numbers where the format has such, its depth is within the limit, its constants have the
  types they claim with at most 64 tags, strings are valid, and the CBOR library reads back the
  data constants it wrote.\<close>

theorem flat_program_roundtrip:
  assumes "program_fits mc p"
  shows "\<exists>bytes. to_flat mc p = Inr bytes \<and> from_flat mc bytes = Inr p"
  using flat_roundtrip [OF assms] .

lemmas term_fits_numeral = term_fits.simps(2) [of _ "pred_numeral k" for k, folded numeral_eq_Suc]

theorem flat_program_roundtrip_witness:
  "\<exists>bytes. to_flat \<lparr>mc_write = (\<lambda>_. []), mc_read = (\<lambda>_. encode_data (DI 5))\<rparr>
       \<lparr>prog_version = (1, 1, 0), prog_term = TApp (TLam (TVar 1)) (TConst (CData (DI 5)))\<rparr> = Inr bytes \<and>
     from_flat \<lparr>mc_write = (\<lambda>_. []), mc_read = (\<lambda>_. encode_data (DI 5))\<rparr> bytes =
       Inr \<lparr>prog_version = (1, 1, 0), prog_term = TApp (TLam (TVar 1)) (TConst (CData (DI 5)))\<rparr>"
  by (rule flat_program_roundtrip)
     (simp add: program_fits_def short_varint_def later_chunks.simps [of 0] later_chunks.simps [of "Suc 0"] flat_max_depth_def
       term_fits_numeral constant_fits_def max_type_atoms_def)

lemma decode_term_Suc: "decode_term mc = decode_term_inner mc (decode_term_depth mc flat_max_depth)"
  by (rule ext) (simp add: decode_term_def)

lemma builtin_program:
  "from_flat mc [1, 0, 0, 0x76, 0xC1] = Inr \<lparr>prog_version = (1, 0, 0), prog_term = TBuiltin (BlsFun Bls12_381_G1_Add)\<rparr>"
proof -
  let ?r = "\<lambda>n. \<lparr>rd_bytes = [1, 0, 0, 0x76, 0xC1], rd_pos = n\<rparr>"
  have "read_natural_biguint (reader_new [1, 0, 0, 0x76, 0xC1]) = Inr (1, ?r 8)"
    "read_natural_biguint (?r 8) = Inr (0, ?r 16)" "read_natural_biguint (?r 16) = Inr (0, ?r 24)"
    "read_bits8 term_tag_width (?r 24) = Inr (7, ?r 28)" "read_bits8 builtin_tag_width (?r 28) = Inr (54, ?r 35)"
    "read_filler (?r 35) = Inr ((), ?r 40)" "bits_remaining (?r 40) = 0" "from_u8 54 = Inr (BlsFun Bls12_381_G1_Add)"
    by code_simp+
  then show ?thesis by (simp add: from_flat_def decode_term_Suc decode_term_inner_def tagged_def)
qed

text \<open>C31: no bytes can be added to a program: whatever follows an accepted program makes
  it refused, so a script has no second form that only differs in what comes after it.\<close>

theorem flat_no_trailing_bytes:
  assumes "from_flat mc bytes = Inr p" and "extra \<noteq> []"
  shows "from_flat mc (bytes @ extra) = Inl FlatDecode"
  using flat_trailing [OF assms] .

theorem flat_no_trailing_bytes_witness:
  "\<forall>mc. from_flat mc ([1, 0, 0, 0x76, 0xC1] @ [1]) = Inl FlatDecode"
  using flat_no_trailing_bytes [OF builtin_program, of "[1]"] by blast

text \<open>C32: a decoded program is accepted for a language and protocol version exactly when
  every builtin in it is available there, constructors and case distinctions appear only from
  version 1.1.0 on, and, from protocol version 11 on, constructors have at most 1024 fields and
  constants types of size at most 32.  Its depth is never the reason for a refusal.\<close>

theorem program_availability:
  assumes "from_flat mc bytes = Inr p"
  shows "validate_program_availability (prog_term p) (prog_version p) l pv =
    (if list_all (node_available l pv (prog_version p)) (subterms (prog_term p)) then Inr () else Inl FlatDecode)"
  using validate_term_iff [OF from_flat_within_depth [OF assms]] by (simp add: validate_program_availability_def)

theorem program_availability_witness:
  "\<forall>mc. from_flat mc [1, 0, 0, 0x76, 0xC1] = Inr \<lparr>prog_version = (1, 0, 0), prog_term = TBuiltin (BlsFun Bls12_381_G1_Add)\<rparr> \<and>
    validate_program_availability (TBuiltin (BlsFun Bls12_381_G1_Add)) (1, 0, 0) PlutusV2 10 = Inl FlatDecode \<and>
    validate_program_availability (TBuiltin (BlsFun Bls12_381_G1_Add)) (1, 0, 0) PlutusV3 9 = Inr ()"
  using builtin_program program_availability [OF builtin_program, of PlutusV2 10] program_availability [OF builtin_program, of PlutusV3 9]
  by (simp add: is_available_in_def)

end
