(* ===== verification/Chain_Types.thy ===== *)
theory Chain_Types
  imports Prelude "HOL-Library.Finite_Map"
begin

text \<open>
  The vocabulary of the chain components (\<^verbatim>\<open>dugite-primitives\<close>): hashes, points, tips, eras and
  block headers, the big-endian integers of the volatile log, the saturating arithmetic of
  \<^verbatim>\<open>u64\<close>, and \<^verbatim>\<open>HashMap\<close>s and \<^verbatim>\<open>HashSet\<close>s as finite maps and finite sets.  What a program
  sees of a hash table beyond its contents is the order in which it iterates; that order is
  a parameter of the operations that iterate.
\<close>


section \<open>Hashes\<close>

text \<open>A 32-byte array compares lexicographically, which is the order of the number it writes in
  big-endian.\<close>

type_synonym hash32 = "256 word"
type_synonym hash28 = "224 word"

definition zero_hash :: hash32 where "zero_hash = 0"

definition be_bytes :: "nat \<Rightarrow> nat \<Rightarrow> byte list" where
  "be_bytes n v = rev (le_bytes n v)"

definition be_nat :: "byte list \<Rightarrow> nat" where
  "be_nat bs = le_nat (rev bs)"

definition hash_bytes :: "hash32 \<Rightarrow> byte list" where
  "hash_bytes h = be_bytes 32 (unat h)"

definition hash_from_bytes :: "byte list \<Rightarrow> hash32" where
  "hash_from_bytes bs = word_of_nat (be_nat bs)"


section \<open>Saturating arithmetic of \<^verbatim>\<open>u64\<close>\<close>

definition u64_max :: u64 where "u64_max = - 1"

definition u64_sat_add :: "u64 \<Rightarrow> u64 \<Rightarrow> u64" where
  "u64_sat_add a b = (if u64_max - b < a then u64_max else a + b)"

definition u64_sat_sub :: "u64 \<Rightarrow> u64 \<Rightarrow> u64" where
  "u64_sat_sub a b = (if b \<le> a then a - b else 0)"

definition u64_sat_mul :: "u64 \<Rightarrow> u64 \<Rightarrow> u64" where
  "u64_sat_mul a b = (if unat a * unat b < 2 ^ 64 then a * b else u64_max)"

definition abs_diff :: "u64 \<Rightarrow> u64 \<Rightarrow> u64" where
  "abs_diff a b = (if a \<le> b then b - a else a - b)"


section \<open>Points, eras and headers\<close>

datatype point = Origin | Specific u64 hash32

primrec point_slot :: "point \<Rightarrow> u64 option" where
  "point_slot Origin = None"
| "point_slot (Specific s h) = Some s"

primrec point_hash :: "point \<Rightarrow> hash32 option" where
  "point_hash Origin = None"
| "point_hash (Specific s h) = Some h"

definition denotes_origin :: "point \<Rightarrow> bool" where
  "denotes_origin p = (case p of Origin \<Rightarrow> True | Specific s h \<Rightarrow> s = 0 \<and> h = zero_hash)"

record tip =
  tip_point :: point
  tip_block_number :: u64

definition tip_origin :: tip where
  "tip_origin = \<lparr>tip_point = Origin, tip_block_number = 0\<rparr>"

datatype era = Byron | Shelley | Allegra | Mary | Alonzo | Babbage | Conway | Dijkstra

record vrf_output =
  vrf_out :: "byte list"
  vrf_proof :: "byte list"

record operational_cert =
  oc_hot_vkey :: "byte list"
  oc_sequence_number :: u64
  oc_kes_period :: u64
  oc_sigma :: "byte list"

record protocol_version =
  pv_major :: u64
  pv_minor :: u64

definition pv_era :: "protocol_version \<Rightarrow> era" where
  "pv_era v =
     (if pv_major v = 0 \<or> pv_major v = 1 then Byron
      else if pv_major v = 2 then Shelley
      else if pv_major v = 3 then Allegra
      else if pv_major v = 4 then Mary
      else if pv_major v = 5 \<or> pv_major v = 6 then Alonzo
      else if pv_major v = 7 \<or> pv_major v = 8 then Babbage
      else if 9 \<le> pv_major v \<and> pv_major v \<le> 11 then Conway
      else Dijkstra)"

record block_header =
  h_header_hash :: hash32
  h_prev_hash :: hash32
  h_issuer_vkey :: "byte list"
  h_vrf_vkey :: "byte list"
  h_vrf_result :: vrf_output
  h_block_number :: u64
  h_slot :: u64
  h_epoch_nonce :: hash32
  h_body_size :: u64
  h_body_hash :: hash32
  h_operational_cert :: operational_cert
  h_protocol_version :: protocol_version
  h_kes_signature :: "byte list"
  h_nonce_vrf_output :: "byte list"
  h_nonce_vrf_proof :: "byte list"
  h_prev_nonce :: "hash32 option"
  h_raw_header_body :: "byte list option"


section \<open>Iterating over a hash table\<close>

text \<open>The standard library promises of the iteration over a \<^verbatim>\<open>HashSet\<close>, or over the keys of a
  \<^verbatim>\<open>HashMap\<close>, that it visits each element once; nothing about the order.\<close>

typedef 'a hash_order = "{ord :: 'a fset \<Rightarrow> 'a list. \<forall>s. distinct (ord s) \<and> set (ord s) = fset s}"
  morphisms iterate Hash_Order
proof -
  have "\<forall>s :: 'a fset. \<exists>xs. distinct xs \<and> set xs = fset s"
    using finite_distinct_list by (metis finite_fset)
  from choice [OF this] show ?thesis by simp
qed

setup_lifting type_definition_hash_order

lift_definition ascending :: "('a::linorder) hash_order" is sorted_list_of_fset
  by (simp add: sorted_list_of_fset.rep_eq)

lift_definition descending :: "('a::linorder) hash_order" is "\<lambda>s. rev (sorted_list_of_fset s)"
  by (simp add: sorted_list_of_fset.rep_eq)

text \<open>The keys of a table with their values, in the order of the iteration.\<close>

definition map_items :: "'k hash_order \<Rightarrow> ('k, 'v) fmap \<Rightarrow> ('k \<times> 'v) list" where
  "map_items ord m = List.map_filter (\<lambda>k. map_option (Pair k) (fmlookup m k)) (iterate ord (fmdom m))"

text \<open>\<^verbatim>\<open>Iterator::rposition\<close> and \<^verbatim>\<open>Iterator::position\<close>.\<close>

fun position :: "('a \<Rightarrow> bool) \<Rightarrow> 'a list \<Rightarrow> nat option" where
  "position p [] = None"
| "position p (x # xs) = (if p x then Some 0 else map_option Suc (position p xs))"

definition rposition :: "('a \<Rightarrow> bool) \<Rightarrow> 'a list \<Rightarrow> nat option" where
  "rposition p xs = map_option (\<lambda>i. length xs - 1 - i) (position p (rev xs))"

text \<open>\<^verbatim>\<open>Iterator::max_by_key\<close>: the last of the greatest elements.\<close>

fun max_by_key :: "('a \<Rightarrow> 'k::linorder) \<Rightarrow> 'a list \<Rightarrow> 'a option" where
  "max_by_key f [] = None"
| "max_by_key f (x # xs) = (case max_by_key f xs of
     None \<Rightarrow> Some x | Some y \<Rightarrow> if f y < f x then Some x else Some y)"


section \<open>Lemmas\<close>

declare fmfilter_cong [cong del]

lemma length_be_bytes [simp]: "length (be_bytes n v) = n"
  by (simp add: be_bytes_def)

lemma length_hash_bytes [simp]: "length (hash_bytes h) = 32"
  by (simp add: hash_bytes_def)

lemma be_nat_be_bytes [codec]: "v < 256 ^ n \<Longrightarrow> be_nat (be_bytes n v) = v"
  by (simp add: be_nat_def be_bytes_def le_nat_le_bytes)

lemma be_nat_less: "be_nat bs < 256 ^ length bs"
  using le_nat_less [of "rev bs"] by (simp add: be_nat_def)

lemma be_bytes_be_nat: "length bs = n \<Longrightarrow> be_bytes n (be_nat bs) = bs"
  using le_bytes_le_nat [of "rev bs"] by (simp add: be_bytes_def be_nat_def)

lemma be_nat_u64 [simp, codec]: "word_of_nat (be_nat (be_bytes 8 (unat (w :: u64)))) = w"
  using unsigned_less [of w, where 'a = nat] by (simp add: be_nat_be_bytes)

lemma be_nat_u32 [simp, codec]: "be_nat (be_bytes 4 (unat (w :: 32 word))) = unat w"
  using unsigned_less [of w, where 'a = nat] by (simp add: be_nat_be_bytes)

lemma hash_from_hash_bytes [simp, codec]: "hash_from_bytes (hash_bytes h) = h"
  using unsigned_less [of h, where 'a = nat]
  by (simp add: hash_from_bytes_def hash_bytes_def be_nat_be_bytes)

lemma set_iterate [simp]: "set (iterate ord s) = fset s"
  and distinct_iterate [simp]: "distinct (iterate ord s)"
  by (transfer, simp)+

lemma map_filter_lookup:
  "(\<And>k. k \<in> set ks \<Longrightarrow> m k \<noteq> None) \<Longrightarrow>
    List.map_filter (\<lambda>k. map_option (Pair k) (m k)) ks = map (\<lambda>k. (k, the (m k))) ks"
  by (induction ks) (auto simp: List.map_filter_simps split: option.splits)

lemma map_items_eq: "map_items ord m = map (\<lambda>k. (k, the (fmlookup m k))) (iterate ord (fmdom m))"
  unfolding map_items_def by (rule map_filter_lookup) (simp add: fmlookup_dom_iff)

lemma map_fst_map_items [simp]: "map fst (map_items ord m) = iterate ord (fmdom m)"
  by (simp add: map_items_eq comp_def)

lemma set_map_items [simp]: "set (map_items ord m) = {(k, v). fmlookup m k = Some v}"
  by (force simp: map_items_eq fmlookup_dom_iff)

lemma position_Some:
  "position p xs = Some i \<Longrightarrow> i < length xs \<and> p (xs ! i) \<and> (\<forall>j<i. \<not> p (xs ! j))"
proof (induction xs arbitrary: i)
  case (Cons x xs)
  then show ?case by (fastforce simp: less_Suc_eq_0_disj split: if_splits)
qed simp

lemma position_None: "position p xs = None \<longleftrightarrow> (\<forall>x\<in>set xs. \<not> p x)"
  by (induction xs) auto

lemma rposition_None: "rposition p xs = None \<longleftrightarrow> (\<forall>x\<in>set xs. \<not> p x)"
  by (simp add: rposition_def position_None)

lemma rposition_Some:
  assumes "rposition p xs = Some i"
  shows "i < length xs \<and> p (xs ! i) \<and> (\<forall>j. i < j \<and> j < length xs \<longrightarrow> \<not> p (xs ! j))"
proof -
  from assms obtain k where k: "position p (rev xs) = Some k" and i: "i = length xs - 1 - k"
    by (auto simp: rposition_def)
  from position_Some [OF k] have kl: "k < length xs" and pk: "p (xs ! i)"
    and min: "\<forall>j<k. \<not> p (rev xs ! j)" by (auto simp: i rev_nth)
  have "\<not> p (xs ! j)" if "i < j" "j < length xs" for j
  proof -
    have "length xs - 1 - j < k" using that i kl by linarith
    with min have "\<not> p (rev xs ! (length xs - 1 - j))" by blast
    then show ?thesis using that by (simp add: rev_nth)
  qed
  with kl pk i show ?thesis by auto
qed

text \<open>The list around the last position.\<close>

lemma rposition_split:
  assumes "rposition p xs = Some i"
  obtains ys x zs where "xs = ys @ x # zs" "length ys = i" "p x" "\<forall>z\<in>set zs. \<not> p z"
proof -
  from rposition_Some [OF assms] have i: "i < length xs" "p (xs ! i)"
    and r: "\<forall>j. i < j \<and> j < length xs \<longrightarrow> \<not> p (xs ! j)" by blast+
  have "xs = take i xs @ xs ! i # drop (Suc i) xs" using i by (simp add: id_take_nth_drop)
  moreover have "length (take i xs) = i" using i by simp
  moreover have "\<forall>z\<in>set (drop (Suc i) xs). \<not> p z"
    using r by (auto simp: in_set_conv_nth)
  ultimately show thesis using i(2) that by blast
qed

lemma max_by_key_None [simp]: "max_by_key f xs = None \<longleftrightarrow> xs = []"
  by (cases xs) (auto split: option.splits)

lemma max_by_key_Some: "max_by_key f xs = Some y \<Longrightarrow> y \<in> set xs \<and> (\<forall>x\<in>set xs. f x \<le> f y)"
  by (induction xs arbitrary: y) (force split: option.splits if_splits)+

lemma u64_sat_sub_unat: "unat (u64_sat_sub a b) = unat a - unat b"
  by (simp add: u64_sat_sub_def unat_sub word_le_nat_alt)

lemma u64_sat_add_unat: "unat (u64_sat_add a b) = min (unat a + unat b) (2 ^ 64 - 1)"
proof -
  have m: "unat u64_max = 2 ^ 64 - 1" by (simp add: u64_max_def unsigned_minus_1_eq_mask mask_eq_exp_minus_1)
  have b: "unat b < 2 ^ 64" using unsigned_less [of b, where 'a = nat] by simp
  have "b \<le> u64_max" using b m by (simp add: word_le_nat_alt)
  then have d: "unat (u64_max - b) = 2 ^ 64 - 1 - unat b" using m by (simp add: unat_sub)
  show ?thesis
  proof (cases "u64_max - b < a")
    case True
    then show ?thesis using d b m by (simp add: u64_sat_add_def word_less_nat_alt)
  next
    case False
    then have "unat a + unat b < 2 ^ 64" using d b by (simp add: word_less_nat_alt)
    with False show ?thesis by (simp add: u64_sat_add_def unat_word_ariths)
  qed
qed

end
