(* ===== verification/Vol_Wal.thy ===== *)
theory Vol_Wal
  imports Chain_Types
begin

text \<open>
  The write-ahead log of the volatile store (\<^verbatim>\<open>volatile_db.rs\<close>): the entry format with its
  CRC trailer, the detection of the two older formats, and replay.  The CRC of \<^verbatim>\<open>crc32fast\<close> is a
  parameter.
\<close>

type_synonym crc32 = "byte list \<Rightarrow> 32 word"

definition vwal_magic :: "byte list" where "vwal_magic = [0x54, 0x57, 0x41, 0x4C]"

definition wal_header_size :: nat where "wal_header_size = 88"
definition wal_crc_size :: nat where "wal_crc_size = 4"
definition wal_header_size_legacy :: nat where "wal_header_size_legacy = 56"

text \<open>What \<^verbatim>\<open>append\<close> and \<^verbatim>\<open>rewrite\<close> are given: slot, block number, hash, parent hash, block.\<close>

type_synonym wal_block = "u64 \<times> u64 \<times> hash32 \<times> hash32 \<times> byte list"

record wal_entry =
  we_slot :: u64
  we_block_no :: u64
  we_hash :: hash32
  we_prev_hash :: hash32
  we_prev_hash_known :: bool
  we_cbor :: "byte list"


section \<open>Writing\<close>

definition wal_header :: "wal_block \<Rightarrow> byte list" where
  "wal_header b = (case b of (slot, block_no, hash, prev_hash, cbor) \<Rightarrow>
     vwal_magic @ be_bytes 8 (unat slot) @ be_bytes 8 (unat block_no) @ hash_bytes hash @
     hash_bytes prev_hash @ be_bytes 4 (length cbor))"

definition wal_block_cbor :: "wal_block \<Rightarrow> byte list" where
  "wal_block_cbor b = (case b of (slot, block_no, hash, prev_hash, cbor) \<Rightarrow> cbor)"

definition wal_record :: "crc32 \<Rightarrow> wal_block \<Rightarrow> byte list" where
  "wal_record crc b = (let entry = wal_header b @ wal_block_cbor b
     in entry @ be_bytes 4 (unat (crc entry)))"

text \<open>A block whose length does not fit \<^verbatim>\<open>u32\<close> is refused; \<open>None\<close> is that error.\<close>

definition wal_append :: "crc32 \<Rightarrow> wal_block \<Rightarrow> byte list \<Rightarrow> byte list option" where
  "wal_append crc b file =
     (if length (wal_block_cbor b) < 2 ^ 32 then Some (file @ wal_record crc b) else None)"

definition wal_rewrite :: "crc32 \<Rightarrow> wal_block list \<Rightarrow> byte list option" where
  "wal_rewrite crc bs =
     (if \<forall>b\<in>set bs. length (wal_block_cbor b) < 2 ^ 32
      then Some (concat (map (wal_record crc) bs)) else None)"


section \<open>Detecting the format\<close>

definition byte_slice :: "byte list \<Rightarrow> nat \<Rightarrow> nat \<Rightarrow> byte list" where
  "byte_slice data i n = take n (drop i data)"

definition detect_legacy_format :: "byte list \<Rightarrow> bool" where
  "detect_legacy_format data =
     (if length data < wal_header_size_legacy then False
      else if byte_slice data 0 4 \<noteq> vwal_magic then False
      else
        let cbor_len = be_nat (byte_slice data 52 4);
            next_pos = wal_header_size_legacy + cbor_len
        in if length data < next_pos then False
           else if next_pos = length data then length data < wal_header_size
           else next_pos + 4 \<le> length data \<and> byte_slice data next_pos 4 = vwal_magic)"

definition detect_crc_format :: "crc32 \<Rightarrow> byte list \<Rightarrow> bool" where
  "detect_crc_format crc data =
     (if length data < wal_header_size then False
      else if byte_slice data 0 4 \<noteq> vwal_magic then False
      else
        let cbor_len = be_nat (byte_slice data 84 4);
            cbor_end = wal_header_size + cbor_len
        in if length data < cbor_end + wal_crc_size then False
           else be_nat (byte_slice data cbor_end wal_crc_size) = unat (crc (take cbor_end data)))"


section \<open>Replay\<close>

definition header_size :: "bool \<Rightarrow> nat" where
  "header_size legacy = (if legacy then wal_header_size_legacy else wal_header_size)"

text \<open>The fields of the entry at \<open>pos\<close>, and where its block ends.\<close>

definition entry_cbor_len :: "bool \<Rightarrow> byte list \<Rightarrow> nat \<Rightarrow> nat" where
  "entry_cbor_len legacy data pos = be_nat (byte_slice data (pos + (if legacy then 52 else 84)) 4)"

definition entry_cbor_end :: "bool \<Rightarrow> byte list \<Rightarrow> nat \<Rightarrow> nat" where
  "entry_cbor_end legacy data pos = pos + header_size legacy + entry_cbor_len legacy data pos"

definition entry_at :: "bool \<Rightarrow> byte list \<Rightarrow> nat \<Rightarrow> wal_entry" where
  "entry_at legacy data pos =
     \<lparr>we_slot = word_of_nat (be_nat (byte_slice data (pos + 4) 8)),
      we_block_no = word_of_nat (be_nat (byte_slice data (pos + 12) 8)),
      we_hash = hash_from_bytes (byte_slice data (pos + 20) 32),
      we_prev_hash = (if legacy then zero_hash else hash_from_bytes (byte_slice data (pos + 52) 32)),
      we_prev_hash_known = (\<not> legacy),
      we_cbor = byte_slice data (pos + header_size legacy) (entry_cbor_len legacy data pos)\<rparr>"

function replay_loop :: "crc32 \<Rightarrow> bool \<Rightarrow> bool \<Rightarrow> byte list \<Rightarrow> nat \<Rightarrow> wal_entry list" where
  "replay_loop crc legacy has_crc data pos =
     (let cbor_end = entry_cbor_end legacy data pos
      in if length data \<le> pos then []
         else if length data < pos + header_size legacy then []
         else if byte_slice data pos 4 \<noteq> vwal_magic then []
         else if length data < cbor_end then []
         else if has_crc then
           (if length data < cbor_end + wal_crc_size then []
            else if be_nat (byte_slice data cbor_end wal_crc_size) \<noteq> unat (crc (byte_slice data pos (cbor_end - pos))) then []
            else entry_at legacy data pos # replay_loop crc legacy has_crc data (cbor_end + wal_crc_size))
         else entry_at legacy data pos # replay_loop crc legacy has_crc data cbor_end)"
  by pat_completeness auto
termination
  by (relation "measure (\<lambda>(crc, legacy, has_crc, data, pos). length data - pos)")
    (auto simp: entry_cbor_end_def header_size_def wal_header_size_def wal_header_size_legacy_def)

declare replay_loop.simps [simp del]

text \<open>\<open>None\<close> is a file that does not exist.\<close>

definition vol_replay_wal :: "crc32 \<Rightarrow> byte list option \<Rightarrow> wal_entry list" where
  "vol_replay_wal crc file =
     (case file of
        None \<Rightarrow> []
      | Some data \<Rightarrow>
          if data = [] then []
          else let legacy = detect_legacy_format data;
                   has_crc = (\<not> legacy \<and> detect_crc_format crc data)
               in replay_loop crc legacy has_crc data 0)"


section \<open>Reading back what was written\<close>

definition entry_of :: "wal_block \<Rightarrow> wal_entry" where
  "entry_of b = (case b of (slot, block_no, hash, prev_hash, cbor) \<Rightarrow>
     \<lparr>we_slot = slot, we_block_no = block_no, we_hash = hash, we_prev_hash = prev_hash,
      we_prev_hash_known = True, we_cbor = cbor\<rparr>)"

definition wal_fits :: "wal_block \<Rightarrow> bool" where
  "wal_fits b \<longleftrightarrow> length (wal_block_cbor b) < 2 ^ 32"

lemmas wal_sizes = wal_header_size_def wal_crc_size_def wal_header_size_legacy_def

lemma length_vwal_magic [simp]: "length vwal_magic = 4"
  by (simp add: vwal_magic_def)

lemma length_wal_header [simp]: "length (wal_header b) = 88"
  by (cases b) (simp add: wal_header_def)

lemma length_wal_record [simp]: "length (wal_record crc b) = 92 + length (wal_block_cbor b)"
  by (simp add: wal_record_def Let_def)

lemma byte_slice_append [simp]:
  "length xs \<le> i \<Longrightarrow> byte_slice (xs @ ys) i n = byte_slice ys (i - length xs) n"
  "i = 0 \<Longrightarrow> length xs = n \<Longrightarrow> byte_slice (xs @ ys) i n = xs"
  by (simp_all add: byte_slice_def)

lemma length_byte_slice: "length (byte_slice data i n) = min n (length data - i)"
  by (simp add: byte_slice_def)

lemma byte_slice_drop [simp]: "byte_slice (drop p data) i n = byte_slice data (p + i) n"
  by (simp add: byte_slice_def add.commute)

lemma replay_loop_end [simp]: "length data \<le> pos \<Longrightarrow> replay_loop crc legacy has_crc data pos = []"
  by (subst replay_loop.simps) (simp add: Let_def)

text \<open>The loop looks only at what is left of the file.\<close>

lemma entry_cbor_end_drop:
  "entry_cbor_end legacy data (p + q) = p + entry_cbor_end legacy (drop p data) q"
  by (simp add: entry_cbor_end_def entry_cbor_len_def ac_simps)

lemma entry_at_drop: "entry_at legacy data (p + q) = entry_at legacy (drop p data) q"
  by (simp add: entry_at_def entry_cbor_len_def ac_simps)

lemma entry_cbor_end_ge: "pos \<le> entry_cbor_end legacy data pos"
  by (simp add: entry_cbor_end_def)

lemma replay_loop_drop:
  "p \<le> length data \<Longrightarrow>
    replay_loop crc legacy has_crc data (p + q) = replay_loop crc legacy has_crc (drop p data) q"
proof (induction "length data - (p + q)" arbitrary: q rule: less_induct)
  case less
  let ?e = "entry_cbor_end legacy (drop p data) q"
  have e: "entry_cbor_end legacy data (p + q) = p + ?e" by (rule entry_cbor_end_drop)
  have g: "q < ?e" by (simp add: entry_cbor_end_def header_size_def wal_sizes)
  have ih: "replay_loop crc legacy has_crc data (p + (?e + n)) =
      replay_loop crc legacy has_crc (drop p data) (?e + n)" if "p + q < length data" for n
    using less.hyps [of "?e + n"] less.prems g that by linarith
  have s: "length data \<le> p + q \<longleftrightarrow> length (drop p data) \<le> q"
    and l: "length data < p + n \<longleftrightarrow> length (drop p data) < n" for n
    using less.prems by auto
  show ?case
  proof (cases "p + q < length data")
    case True
    note ih = ih [OF True]
    show ?thesis
      unfolding replay_loop.simps [of crc legacy has_crc data "p + q"]
        replay_loop.simps [of crc legacy has_crc "drop p data" q] Let_def e s l add.assoc
        entry_at_drop byte_slice_drop ih ih [of 0, simplified] diff_add_inverse add_diff_cancel_left
      by (rule refl)
  next
    case False
    then have "length data \<le> p + q" and "length (drop p data) \<le> q" by auto
    then show ?thesis by (simp add: replay_loop_end)
  qed
qed

text \<open>The fields of an entry at the front.\<close>

lemma wal_record_fields:
  assumes "wal_fits b"
  shows "byte_slice (wal_record crc b @ rest) 0 4 = vwal_magic"
    and "entry_cbor_len False (wal_record crc b @ rest) 0 = length (wal_block_cbor b)"
    and "entry_at False (wal_record crc b @ rest) 0 = entry_of b"
proof -
  obtain slot block_no hash prev cbor where b: "b = (slot, block_no, hash, prev, cbor)"
    by (cases b)
  have l: "be_nat (be_bytes 4 (length cbor)) = length cbor"
    using assms by (simp add: be_nat_be_bytes wal_fits_def wal_block_cbor_def b)
  show "byte_slice (wal_record crc b @ rest) 0 4 = vwal_magic"
    by (simp add: wal_record_def wal_header_def b Let_def)
  show c: "entry_cbor_len False (wal_record crc b @ rest) 0 = length (wal_block_cbor b)"
    by (simp add: wal_record_def wal_header_def wal_block_cbor_def b Let_def entry_cbor_len_def l)
  show "entry_at False (wal_record crc b @ rest) 0 = entry_of b"
    unfolding entry_at_def c
    by (simp add: entry_of_def wal_record_def wal_header_def wal_block_cbor_def b Let_def
        header_size_def wal_sizes)
qed

lemma wal_record_cbor_end:
  "wal_fits b \<Longrightarrow> entry_cbor_end False (wal_record crc b @ rest) 0 = 88 + length (wal_block_cbor b)"
  by (simp add: entry_cbor_end_def wal_record_fields header_size_def wal_sizes)

lemma wal_record_crc:
  "byte_slice (wal_record crc b @ rest) (88 + length (wal_block_cbor b)) 4 =
     be_bytes 4 (unat (crc (byte_slice (wal_record crc b @ rest) 0 (88 + length (wal_block_cbor b)))))"
  by (simp add: wal_record_def Let_def byte_slice_def)

lemma replay_loop_record:
  assumes "wal_fits b"
  shows "replay_loop crc False True (wal_record crc b @ rest) 0 =
     entry_of b # replay_loop crc False True rest 0"
proof -
  let ?d = "wal_record crc b @ rest" and ?n = "length (wal_record crc b)"
  have "replay_loop crc False True ?d 0 = entry_of b # replay_loop crc False True ?d ?n"
    unfolding replay_loop.simps [of crc False True ?d 0]
    using wal_record_fields [OF assms] wal_record_cbor_end [OF assms] wal_record_crc [of crc b rest]
    by (simp add: Let_def header_size_def wal_sizes)
  also have "replay_loop crc False True ?d ?n = replay_loop crc False True rest 0"
    using replay_loop_drop [of ?n ?d crc False True 0] by simp
  finally show ?thesis .
qed

text \<open>An entry that is cut off anywhere is dropped.\<close>

lemma replay_loop_torn:
  assumes b: "wal_fits b" and n: "n < length (wal_record crc b)"
  shows "replay_loop crc False True (take n (wal_record crc b)) 0 = []"
proof (cases "n < 88")
  case True
  then show ?thesis by (subst replay_loop.simps) (simp add: Let_def header_size_def wal_sizes)
next
  case False
  let ?d = "take n (wal_record crc b)"
  have c: "entry_cbor_len False ?d 0 = entry_cbor_len False (wal_record crc b @ []) 0"
    using False by (simp add: entry_cbor_len_def byte_slice_def drop_take min_def)
  have "entry_cbor_end False ?d 0 = 88 + length (wal_block_cbor b)"
    unfolding entry_cbor_end_def c using wal_record_fields(2) [OF b, of crc "[]"]
    by (simp add: header_size_def wal_sizes)
  with n show ?thesis
    by (subst replay_loop.simps) (simp add: Let_def wal_sizes)
qed

lemma replay_loop_records:
  assumes "\<forall>b\<in>set bs. wal_fits b"
  shows "replay_loop crc False True (concat (map (wal_record crc) bs) @ rest) 0 =
     map entry_of bs @ replay_loop crc False True rest 0"
  using assms by (induction bs) (simp_all add: replay_loop_record)

text \<open>The log starts with a complete entry, so the check of the CRC is on.\<close>

lemma detect_crc_record: "wal_fits b \<Longrightarrow> detect_crc_format crc (wal_record crc b @ rest)"
  using wal_record_fields [of b crc rest] wal_record_crc [of crc b rest]
  by (simp add: detect_crc_format_def Let_def wal_sizes entry_cbor_len_def byte_slice_def [of _ 0])

text \<open>A log of complete entries is taken for one of the oldest format only when the parent hash of
  its first block, read as a length, leads to the magic.\<close>

definition legacy_lookalike :: "crc32 \<Rightarrow> wal_block \<Rightarrow> byte list \<Rightarrow> bool" where
  "legacy_lookalike crc b rest =
     (byte_slice (wal_record crc b @ rest)
        (56 + be_nat (take 4 (hash_bytes (fst (snd (snd (snd b))))))) 4 = vwal_magic)"

lemma detect_legacy_record:
  assumes "\<not> legacy_lookalike crc b rest"
  shows "\<not> detect_legacy_format (wal_record crc b @ rest)"
proof -
  obtain slot block_no hash prev cbor where b: "b = (slot, block_no, hash, prev, cbor)"
    by (cases b)
  let ?d = "wal_record crc b @ rest"
  have s: "byte_slice ?d 52 4 = take 4 (hash_bytes prev)"
    by (simp add: wal_record_def wal_header_def b Let_def byte_slice_def)
  have "\<not> length ?d < 88" by simp
  moreover have "byte_slice ?d (56 + be_nat (byte_slice ?d 52 4)) 4 \<noteq> vwal_magic"
    using assms unfolding legacy_lookalike_def s by (simp add: b)
  ultimately show ?thesis
    by (auto simp: detect_legacy_format_def Let_def wal_sizes)
qed


section \<open>What a replay accepts\<close>

lemma byte_slice_split: "drop i data = byte_slice data i n @ drop (i + n) data"
  using append_take_drop_id [of n "drop i data"] by (simp add: byte_slice_def add.commute)

lemma hash_bytes_from: "length bs = 32 \<Longrightarrow> hash_bytes (hash_from_bytes bs) = bs"
  using be_nat_less [of bs] by (simp add: hash_bytes_def hash_from_bytes_def be_bytes_be_nat unsigned_of_nat take_bit_nat_eq_self)

lemma u64_bytes_from: "length bs = 8 \<Longrightarrow> be_bytes 8 (unat (word_of_nat (be_nat bs) :: u64)) = bs"
  using be_nat_less [of bs] by (simp add: be_bytes_be_nat unsigned_of_nat take_bit_nat_eq_self)

text \<open>An entry that passes the checks of the replay is a complete entry.\<close>

lemma accepted_record:
  assumes "byte_slice data 0 4 = vwal_magic" and "88 + len + 4 \<le> length data" and "len = be_nat (byte_slice data 84 4)"
    and "be_nat (byte_slice data (88 + len) 4) = unat (crc (byte_slice data 0 (88 + len)))"
  shows "\<exists>b. wal_fits b \<and> data = wal_record crc b @ drop (88 + len + 4) data"
proof -
  define b where "b = (word_of_nat (be_nat (byte_slice data 4 8)) :: u64, word_of_nat (be_nat (byte_slice data 12 8)) :: u64,
    hash_from_bytes (byte_slice data 20 32), hash_from_bytes (byte_slice data 52 32), byte_slice data 88 len)"
  have len: "length (byte_slice data i n) = n" if "i + n \<le> 88 + len + 4" for i n
    using that assms(2) by (simp add: length_byte_slice)
  have l4: "be_bytes 4 len = byte_slice data 84 4" using len [of 84 4] by (simp add: assms(3) be_bytes_be_nat)
  have e: "wal_header b @ wal_block_cbor b = byte_slice data 0 4 @ byte_slice data 4 8 @ byte_slice data 12 8 @
      byte_slice data 20 32 @ byte_slice data 52 32 @ byte_slice data 84 4 @ byte_slice data 88 len"
    by (simp add: wal_header_def wal_block_cbor_def b_def assms(1) u64_bytes_from hash_bytes_from len l4)
  have d: "data = (wal_header b @ wal_block_cbor b) @ byte_slice data (88 + len) 4 @ drop (88 + len + 4) data"
    unfolding e using byte_slice_split [of 0 data 4] byte_slice_split [of 4 data 8] byte_slice_split [of 12 data 8]
      byte_slice_split [of 20 data 32] byte_slice_split [of 52 data 32] byte_slice_split [of 84 data 4]
      byte_slice_split [of 88 data len] byte_slice_split [of "88 + len" data 4] by simp
  have le: "length (wal_header b @ wal_block_cbor b) = 88 + len" unfolding e by (simp add: len)
  then have "byte_slice data 0 (88 + len) = wal_header b @ wal_block_cbor b"
    using d by (metis append_eq_conv_conj byte_slice_def drop0)
  then have "unat (crc (wal_header b @ wal_block_cbor b)) = be_nat (byte_slice data (88 + len) 4)"
    using assms(4) by simp
  then have "be_bytes 4 (unat (crc (wal_header b @ wal_block_cbor b))) = byte_slice data (88 + len) 4"
    using len [of "88 + len" 4] by (simp add: be_bytes_be_nat)
  with d have "data = wal_record crc b @ drop (88 + len + 4) data" by (simp add: wal_record_def Let_def)
  moreover have "wal_fits b"
    using be_nat_less [of "byte_slice data 84 4"] len [of 84 4] by (simp add: wal_fits_def wal_block_cbor_def b_def len assms(3))
  ultimately show ?thesis by blast
qed

lemma replay_loop_prefix:
  "\<exists>bs tail. data = concat (map (wal_record crc) bs) @ tail \<and> (\<forall>b\<in>set bs. wal_fits b) \<and>
     replay_loop crc False True data 0 = map entry_of bs"
proof (induction "length data" arbitrary: data rule: less_induct)
  case less
  show ?case
  proof (cases "\<exists>b rest. wal_fits b \<and> data = wal_record crc b @ rest")
    case True
    then obtain b rest where b: "wal_fits b" "data = wal_record crc b @ rest" by blast
    with less.hyps [of rest] obtain bs tail where "rest = concat (map (wal_record crc) bs) @ tail"
      "\<forall>b\<in>set bs. wal_fits b" "replay_loop crc False True rest 0 = map entry_of bs" by auto
    with b show ?thesis by (intro exI [of _ "b # bs"] exI [of _ tail]) (simp add: replay_loop_record)
  next
    case False
    have "replay_loop crc False True data 0 = []"
      using False accepted_record [of data "entry_cbor_len False data 0" crc]
      by (subst replay_loop.simps) (fastforce simp: Let_def entry_cbor_end_def entry_cbor_len_def header_size_def wal_sizes)
    then show ?thesis by (intro exI [of _ "[]"] exI [of _ data]) simp
  qed
qed

end
