(* ===== verification/Vol_Db.thy ===== *)
theory Vol_Db
  imports Vol_Wal
begin

text \<open>
  The volatile store (\<^verbatim>\<open>volatile_db.rs\<close>): recent blocks of all forks with their indexes, the
  selected chain, garbage collection of orphaned blocks, and the log.  The clock, the CRC and
  the iteration orders of the hash tables are arguments; the log is the content of its file,
  and file operations do not fail.
\<close>

record volatile_block =
  vb_slot :: u64
  vb_block_no :: u64
  vb_prev_hash :: hash32
  vb_cbor :: "byte list"

record switch_plan =
  sp_intersection :: hash32
  sp_intersection_slot :: u64
  sp_rollback :: "hash32 list"
  sp_apply :: "hash32 list"

type_synonym block_map = "(hash32, volatile_block) fmap"
type_synonym vol_tip = "u64 \<times> hash32 \<times> u64"

record volatile_db =
  v_blocks :: block_map
  v_slot_index :: "(u64 \<times> hash32 list) list"
  v_block_no_index :: "(u64 \<times> hash32) list"
  v_successors :: "(hash32, hash32 fset) fmap"
  v_leaves :: "hash32 fset"
  v_unknown_prev :: "hash32 fset"
  v_tip :: "vol_tip option"
  v_wal :: "byte list option"
  v_wal_size_floor :: u64
  v_selected_chain :: "hash32 list"
  v_gc_schedule :: "(hash32, nat) fmap"
  v_headers :: "(hash32, block_header) fmap"

definition vol_new :: volatile_db where
  "vol_new = \<lparr>v_blocks = fmempty, v_slot_index = [], v_block_no_index = [], v_successors = fmempty,
     v_leaves = {||}, v_unknown_prev = {||}, v_tip = None, v_wal = None, v_wal_size_floor = 0,
     v_selected_chain = [], v_gc_schedule = fmempty, v_headers = fmempty\<rparr>"

definition has_block :: "hash32 \<Rightarrow> volatile_db \<Rightarrow> bool" where
  "has_block h db \<longleftrightarrow> fmlookup (v_blocks db) h \<noteq> None"

text \<open>Whether the successor table has no entry, or an empty one, for a hash.\<close>

definition no_successors :: "(hash32, hash32 fset) fmap \<Rightarrow> hash32 \<Rightarrow> bool" where
  "no_successors succs h = (case fmlookup succs h of None \<Rightarrow> True | Some s \<Rightarrow> s = {||})"


section \<open>The log\<close>

definition wal_slack :: u64 where "wal_slack = 400 * 1024 * 1024"

definition live_blocks :: "hash32 hash_order \<Rightarrow> volatile_db \<Rightarrow> wal_block list" where
  "live_blocks ord db =
     map (\<lambda>(h, b). (vb_slot b, vb_block_no b, h, vb_prev_hash b, vb_cbor b)) (map_items ord (v_blocks db))"

text \<open>Rewriting the log with the live blocks, as the removals do; an error leaves the old file.\<close>

definition rewrite_wal :: "crc32 \<Rightarrow> hash32 hash_order \<Rightarrow> volatile_db \<Rightarrow> volatile_db" where
  "rewrite_wal crc ord db =
     (case v_wal db of
        None \<Rightarrow> db
      | Some file \<Rightarrow> (case wal_rewrite crc (live_blocks ord db) of
          None \<Rightarrow> db
        | Some file' \<Rightarrow> db\<lparr>v_wal := Some file'\<rparr>))"

definition compact_wal :: "crc32 \<Rightarrow> hash32 hash_order \<Rightarrow> volatile_db \<Rightarrow> volatile_db" where
  "compact_wal crc ord db =
     (case v_wal db of
        None \<Rightarrow> db
      | Some file \<Rightarrow> (case wal_rewrite crc (live_blocks ord db) of
          None \<Rightarrow> db
        | Some file' \<Rightarrow> db\<lparr>v_wal := Some file', v_wal_size_floor := word_of_nat (length file')\<rparr>))"

definition maybe_compact_wal :: "crc32 \<Rightarrow> hash32 hash_order \<Rightarrow> volatile_db \<Rightarrow> volatile_db" where
  "maybe_compact_wal crc ord db =
     (case v_wal db of
        None \<Rightarrow> db
      | Some file \<Rightarrow>
          if u64_sat_add (v_wal_size_floor db) wal_slack < word_of_nat (length file)
          then compact_wal crc ord db else db)"

text \<open>A failed append is vol_logged and ignored.\<close>

definition log_block :: "crc32 \<Rightarrow> wal_block \<Rightarrow> volatile_db \<Rightarrow> volatile_db" where
  "log_block crc b db =
     (case v_wal db of
        None \<Rightarrow> db
      | Some file \<Rightarrow> (case wal_append crc b file of
          None \<Rightarrow> db
        | Some file' \<Rightarrow> db\<lparr>v_wal := Some file'\<rparr>))"


section \<open>Adding blocks\<close>

definition slot_push :: "u64 \<Rightarrow> hash32 \<Rightarrow> (u64 \<times> hash32 list) list \<Rightarrow> (u64 \<times> hash32 list) list" where
  "slot_push slot h idx =
     bt_insert slot ((case map_of idx slot of None \<Rightarrow> [] | Some hs \<Rightarrow> hs) @ [h]) idx"

definition succ_insert :: "hash32 \<Rightarrow> hash32 \<Rightarrow> (hash32, hash32 fset) fmap \<Rightarrow> (hash32, hash32 fset) fmap" where
  "succ_insert prev h succs =
     fmupd prev (finsert h (case fmlookup succs prev of None \<Rightarrow> {||} | Some s \<Rightarrow> s)) succs"

definition insert_block_internal :: "hash32 \<Rightarrow> volatile_block \<Rightarrow> bool \<Rightarrow> volatile_db \<Rightarrow> volatile_db \<times> bool" where
  "insert_block_internal h b allow_extend db =
     (let succs = succ_insert (vb_prev_hash b) h (v_successors db);
          leaves = v_leaves db |-| {|vb_prev_hash b|};
          leaves = (if no_successors succs h then finsert h leaves else leaves);
          extends = (allow_extend \<and>
            (v_selected_chain db = [] \<or> vb_prev_hash b = last (v_selected_chain db)));
          db = db\<lparr>v_successors := succs,
                  v_slot_index := slot_push (vb_slot b) h (v_slot_index db),
                  v_blocks := fmupd h b (v_blocks db),
                  v_leaves := leaves\<rparr>
      in (if extends
          then db\<lparr>v_selected_chain := v_selected_chain db @ [h],
                  v_block_no_index := bt_insert (vb_block_no b) h (v_block_no_index db),
                  v_tip := Some (vb_slot b, h, vb_block_no b)\<rparr>
          else db, extends))"

definition wal_block_of :: "hash32 \<Rightarrow> volatile_block \<Rightarrow> wal_block" where
  "wal_block_of h b = (vb_slot b, vb_block_no b, h, vb_prev_hash b, vb_cbor b)"

definition add_block :: "crc32 \<Rightarrow> hash32 hash_order \<Rightarrow> hash32 \<Rightarrow> volatile_block \<Rightarrow> volatile_db \<Rightarrow> volatile_db \<times> bool" where
  "add_block crc ord h b db =
     insert_block_internal h b True (log_block crc (wal_block_of h b) (maybe_compact_wal crc ord db))"

definition add_block_gated ::
  "crc32 \<Rightarrow> hash32 hash_order \<Rightarrow> hash32 \<Rightarrow> volatile_block \<Rightarrow> bool \<Rightarrow> volatile_db \<Rightarrow> volatile_db \<times> bool" where
  "add_block_gated crc ord h b allow_extend db =
     (if allow_extend then add_block crc ord h b db
      else insert_block_internal h b False
             (log_block crc (wal_block_of h b) (maybe_compact_wal crc ord db)))"

definition cache_header :: "hash32 \<Rightarrow> block_header \<Rightarrow> volatile_db \<Rightarrow> volatile_db" where
  "cache_header h hdr db = db\<lparr>v_headers := fmupd h hdr (v_headers db)\<rparr>"

definition add_block_with_header ::
  "crc32 \<Rightarrow> hash32 hash_order \<Rightarrow> hash32 \<Rightarrow> volatile_block \<Rightarrow> block_header \<Rightarrow> volatile_db \<Rightarrow> volatile_db \<times> bool" where
  "add_block_with_header crc ord h b hdr db = add_block crc ord h b (cache_header h hdr db)"

definition add_block_with_header_gated ::
  "crc32 \<Rightarrow> hash32 hash_order \<Rightarrow> hash32 \<Rightarrow> volatile_block \<Rightarrow> block_header \<Rightarrow> bool \<Rightarrow> volatile_db \<Rightarrow>
     volatile_db \<times> bool" where
  "add_block_with_header_gated crc ord h b hdr allow_extend db =
     add_block_gated crc ord h b allow_extend (cache_header h hdr db)"

definition tip_of :: "block_map \<Rightarrow> hash32 list \<Rightarrow> vol_tip option" where
  "tip_of bs chain =
     (if chain = [] then None
      else map_option (\<lambda>b. (vb_slot b, last chain, vb_block_no b)) (fmlookup bs (last chain)))"

definition recompute_tip :: "volatile_db \<Rightarrow> volatile_db" where
  "recompute_tip db = db\<lparr>v_tip := tip_of (v_blocks db) (v_selected_chain db)\<rparr>"

definition truncate_selection_to_depth :: "u64 \<Rightarrow> volatile_db \<Rightarrow> volatile_db \<times> nat" where
  "truncate_selection_to_depth max_depth db =
     (if length (v_selected_chain db) \<le> unat max_depth then (db, 0)
      else
        let dropped = drop (unat max_depth) (v_selected_chain db);
            bno = foldl (\<lambda>m h. case fmlookup (v_blocks db) h of
                    None \<Rightarrow> m | Some b \<Rightarrow> bt_remove (vb_block_no b) m) (v_block_no_index db) dropped
        in (recompute_tip
              (db\<lparr>v_selected_chain := take (unat max_depth) (v_selected_chain db),
                 v_block_no_index := bno\<rparr>),
            length dropped))"


section \<open>Reading\<close>

definition get_block_cbor :: "hash32 \<Rightarrow> volatile_db \<Rightarrow> byte list option" where
  "get_block_cbor h db = map_option vb_cbor (fmlookup (v_blocks db) h)"

text \<open>The entries of the slot index in a range of slots, hash by hash.\<close>

definition slots_from :: "u64 \<Rightarrow> (u64 \<times> hash32 list) list \<Rightarrow> (u64 \<times> hash32) list" where
  "slots_from lo idx = concat (map (\<lambda>(s, hs). map (Pair s) hs) (filter (\<lambda>(s, hs). lo \<le> s) idx))"

definition first_on_chain :: "volatile_db \<Rightarrow> (u64 \<times> hash32) list \<Rightarrow> (u64 \<times> hash32 \<times> byte list) option" where
  "first_on_chain db es =
     (case List.map_filter (\<lambda>(s, h). if h \<in> set (v_selected_chain db)
                then map_option (\<lambda>b. (s, h, vb_cbor b)) (fmlookup (v_blocks db) h) else None) es of
        [] \<Rightarrow> None | r # _ \<Rightarrow> Some r)"

definition get_next_block_after_slot :: "u64 \<Rightarrow> volatile_db \<Rightarrow> (u64 \<times> hash32 \<times> byte list) option" where
  "get_next_block_after_slot after_slot db = first_on_chain db (slots_from (after_slot + 1) (v_slot_index db))"

definition get_block_at_or_after_slot :: "u64 \<Rightarrow> volatile_db \<Rightarrow> (u64 \<times> hash32 \<times> byte list) option" where
  "get_block_at_or_after_slot slot db = first_on_chain db (slots_from slot (v_slot_index db))"

definition get_next_block_after_point :: "hash32 \<Rightarrow> volatile_db \<Rightarrow> (u64 \<times> hash32 \<times> byte list) option" where
  "get_next_block_after_point h db =
     (case position (\<lambda>x. x = h) (v_selected_chain db) of
        None \<Rightarrow> None
      | Some pos \<Rightarrow>
          if length (v_selected_chain db) \<le> pos + 1 then None
          else let next_hash = v_selected_chain db ! (pos + 1)
               in map_option (\<lambda>b. (vb_slot b, next_hash, vb_cbor b)) (fmlookup (v_blocks db) next_hash))"

definition get_block_by_number :: "u64 \<Rightarrow> volatile_db \<Rightarrow> (u64 \<times> hash32 \<times> byte list) option" where
  "get_block_by_number n db =
     (case map_of (v_block_no_index db) n of
        None \<Rightarrow> None
      | Some h \<Rightarrow> map_option (\<lambda>b. (vb_slot b, h, vb_cbor b)) (fmlookup (v_blocks db) h))"

text \<open>A range whose start is after its end panics; \<open>None\<close> is that panic.\<close>

definition get_blocks_in_slot_range :: "u64 \<Rightarrow> u64 \<Rightarrow> volatile_db \<Rightarrow> (hash32 \<times> byte list) list option" where
  "get_blocks_in_slot_range lo hi db =
     (if hi < lo then None
      else Some (List.map_filter (\<lambda>h. map_option (\<lambda>b. (h, vb_cbor b)) (fmlookup (v_blocks db) h))
        (concat (map snd (filter (\<lambda>(s, hs). lo \<le> s \<and> s \<le> hi) (v_slot_index db))))))"

definition is_on_selected_chain :: "hash32 \<Rightarrow> volatile_db \<Rightarrow> bool" where
  "is_on_selected_chain h db \<longleftrightarrow> h \<in> set (v_selected_chain db)"

text \<open>Hash, slot, block number and parent of the selected blocks.\<close>

type_synonym chain_entry = "hash32 \<times> u64 \<times> u64 \<times> hash32"

definition chain_entry_of :: "block_map \<Rightarrow> hash32 \<Rightarrow> chain_entry option" where
  "chain_entry_of bs h = map_option (\<lambda>b. (h, vb_slot b, vb_block_no b, vb_prev_hash b)) (fmlookup bs h)"

definition selected_chain_entries :: "volatile_db \<Rightarrow> chain_entry list" where
  "selected_chain_entries db = List.map_filter (chain_entry_of (v_blocks db)) (v_selected_chain db)"

fun entries_bounded :: "block_map \<Rightarrow> u64 \<Rightarrow> u64 \<Rightarrow> nat \<Rightarrow> hash32 list \<Rightarrow> chain_entry list \<Rightarrow> chain_entry list" where
  "entries_bounded bs lo hi mx [] out = out"
| "entries_bounded bs lo hi mx (h # hs) out =
     (case fmlookup bs h of
        None \<Rightarrow> entries_bounded bs lo hi mx hs out
      | Some b \<Rightarrow>
          if vb_block_no b + 1 < lo then entries_bounded bs lo hi mx hs out
          else if hi < vb_block_no b then out
          else let out = out @ [(h, vb_slot b, vb_block_no b, vb_prev_hash b)]
               in if mx \<le> length out then out else entries_bounded bs lo hi mx hs out)"

definition selected_chain_entries_bounded :: "u64 \<Rightarrow> u64 \<Rightarrow> nat \<Rightarrow> volatile_db \<Rightarrow> chain_entry list" where
  "selected_chain_entries_bounded lo hi mx db = entries_bounded (v_blocks db) lo hi mx (v_selected_chain db) []"


section \<open>Walking back\<close>

text \<open>The loop pushes what it visits, so the chain is also the set of visited hashes.\<close>

function walk_back :: "block_map \<Rightarrow> hash32 \<Rightarrow> hash32 list \<Rightarrow> hash32 list" where
  "walk_back bs current chain =
     (case fmlookup bs current of
        None \<Rightarrow> chain
      | Some b \<Rightarrow>
          if current \<in> set chain then chain
          else if fmlookup bs (vb_prev_hash b) \<noteq> None
          then walk_back bs (vb_prev_hash b) (current # chain)
          else current # chain)"
  by pat_completeness auto
termination
proof (relation "measure (\<lambda>(bs, current, chain). card (fset (fmdom bs) - set chain))", goal_cases)
  case (2 bs current chain b)
  then have "current \<in> fset (fmdom bs) - set chain" by (simp add: fmlookup_dom_iff)
  then have "fset (fmdom bs) - set (current # chain) \<subset> fset (fmdom bs) - set chain" by auto
  then show ?case by (simp only: in_measure prod.case psubset_card_mono finite_Diff finite_fset)
qed simp

declare walk_back.simps [simp del]

definition walk_chain_back :: "hash32 \<Rightarrow> volatile_db \<Rightarrow> hash32 list" where
  "walk_chain_back tip_hash db = walk_back (v_blocks db) tip_hash []"

definition candidate_contains_invalid :: "hash32 \<Rightarrow> hash32 fset \<Rightarrow> volatile_db \<Rightarrow> bool" where
  "candidate_contains_invalid tip_hash invalid db =
     (if invalid = {||} then False else \<exists>h\<in>set (walk_chain_back tip_hash db). h |\<in>| invalid)"

function find_ancestor :: "block_map \<Rightarrow> hash32 list \<Rightarrow> hash32 list \<Rightarrow> hash32 \<Rightarrow> vol_tip option" where
  "find_ancestor bs selected visited current =
     (if current \<in> set visited then None
      else case fmlookup bs current of
        None \<Rightarrow> None
      | Some b \<Rightarrow>
          if current \<in> set selected then Some (vb_slot b, current, vb_block_no b)
          else find_ancestor bs selected (current # visited) (vb_prev_hash b))"
  by pat_completeness auto
termination
proof (relation "measure (\<lambda>(bs, selected, visited, current). card (fset (fmdom bs) - set visited))", goal_cases)
  case (2 bs selected visited current b)
  then have "current \<in> fset (fmdom bs) - set visited" by (simp add: fmlookup_dom_iff)
  then have "fset (fmdom bs) - set (current # visited) \<subset> fset (fmdom bs) - set visited" by auto
  then show ?case by (simp only: in_measure prod.case psubset_card_mono finite_Diff finite_fset)
qed simp

declare find_ancestor.simps [simp del]

definition find_selected_chain_ancestor :: "hash32 \<Rightarrow> volatile_db \<Rightarrow> vol_tip option" where
  "find_selected_chain_ancestor start_hash db =
     find_ancestor (v_blocks db) (v_selected_chain db) [] start_hash"


section \<open>Forks\<close>

definition get_leaf_tips :: "hash32 hash_order \<Rightarrow> volatile_db \<Rightarrow> (hash32 \<times> u64 \<times> u64) list" where
  "get_leaf_tips ord db =
     map (\<lambda>(h, b). (h, vb_slot b, vb_block_no b))
       (filter (\<lambda>(h, b). no_successors (v_successors db) h) (map_items ord (v_blocks db)))"

text \<open>Hash, block number and slot of the leaves other than the selected tip.\<close>

definition get_all_fork_tips :: "hash32 hash_order \<Rightarrow> volatile_db \<Rightarrow> (hash32 \<times> u64 \<times> u64) list" where
  "get_all_fork_tips ord db =
     List.map_filter (\<lambda>h. map_option (\<lambda>b. (h, vb_block_no b, vb_slot b)) (fmlookup (v_blocks db) h))
       (filter (\<lambda>h. v_selected_chain db = [] \<or> h \<noteq> last (v_selected_chain db)) (iterate ord (v_leaves db)))"

definition index_chain :: "block_map \<Rightarrow> hash32 list \<Rightarrow> (u64 \<times> hash32) list" where
  "index_chain bs chain = foldl (\<lambda>m h. case fmlookup bs h of
     None \<Rightarrow> m | Some b \<Rightarrow> bt_insert (vb_block_no b) h m) [] chain"

definition select_chain :: "hash32 list \<Rightarrow> volatile_db \<Rightarrow> volatile_db" where
  "select_chain chain db =
     recompute_tip (db\<lparr>v_selected_chain := chain, v_block_no_index := index_chain (v_blocks db) chain\<rparr>)"

text \<open>The better of the best chain so far and the chain of one more tip.\<close>

fun better_tip :: "volatile_db \<Rightarrow> hash32 list \<times> u64 \<times> hash32 option \<Rightarrow> hash32 \<times> u64 \<times> u64 \<Rightarrow>
    hash32 list \<times> u64 \<times> hash32 option" where
  "better_tip db (best_chain, best_block_no, best_tip_hash) (tip_hash, slot, tip_block_no) =
     (if best_block_no < tip_block_no
      then (walk_chain_back tip_hash db, tip_block_no, Some tip_hash)
      else if tip_block_no = best_block_no then
        (let chain = walk_chain_back tip_hash db
         in if length best_chain < length chain \<or>
               (length chain = length best_chain \<and>
                (case best_tip_hash of None \<Rightarrow> True | Some t \<Rightarrow> t < tip_hash))
            then (chain, best_block_no, Some tip_hash)
            else (best_chain, best_block_no, best_tip_hash))
      else (best_chain, best_block_no, best_tip_hash))"

definition rebuild_selected_chain :: "hash32 hash_order \<Rightarrow> volatile_db \<Rightarrow> volatile_db" where
  "rebuild_selected_chain ord db =
     select_chain (fst (foldl (better_tip db) ([], 0, None) (get_leaf_tips ord db))) db"

text \<open>Where the selection and a new chain meet: the plan, and what of the selection is kept.\<close>

definition switch_meet ::
  "volatile_db \<Rightarrow> hash32 list \<Rightarrow> (hash32 \<times> u64) option \<Rightarrow> bool \<Rightarrow> (switch_plan \<times> hash32 list) option" where
  "switch_meet db new_chain immutable_anchor allow_genesis_anchor =
     (case rposition (\<lambda>h. h \<in> set new_chain) (v_selected_chain db) of
        Some idx \<Rightarrow>
          let h = v_selected_chain db ! idx
          in (case fmlookup (v_blocks db) h of
                None \<Rightarrow> None
              | Some b \<Rightarrow> Some
                  (\<lparr>sp_intersection = h, sp_intersection_slot = vb_slot b,
                    sp_rollback = rev (drop (idx + 1) (v_selected_chain db)),
                    sp_apply = (case position (\<lambda>x. x = h) new_chain of
                       Some pos \<Rightarrow> drop (pos + 1) new_chain | None \<Rightarrow> new_chain)\<rparr>,
                   take (idx + 1) (v_selected_chain db)))
      | None \<Rightarrow>
          let new_root_prev = map_option vb_prev_hash (fmlookup (v_blocks db) (hd new_chain));
              plan = (\<lambda>h s. \<lparr>sp_intersection = h, sp_intersection_slot = s,
                 sp_rollback = rev (v_selected_chain db), sp_apply = new_chain\<rparr>)
          in if allow_genesis_anchor \<and> hd new_chain |\<notin>| v_unknown_prev db \<and> new_root_prev = Some zero_hash
             then Some (plan zero_hash 0, [])
             else (case (immutable_anchor, new_root_prev) of
                     (Some (anchor_hash, anchor_slot), Some prev) \<Rightarrow>
                       if anchor_hash = prev then Some (plan anchor_hash anchor_slot, []) else None
                   | _ \<Rightarrow> None))"

definition switch_chain ::
  "nat \<Rightarrow> hash32 \<Rightarrow> (hash32 \<times> u64) option \<Rightarrow> u64 \<Rightarrow> bool \<Rightarrow> volatile_db \<Rightarrow> volatile_db \<times> switch_plan option" where
  "switch_chain now new_tip_hash immutable_anchor max_rollback allow_genesis_anchor db =
     (let new_chain = walk_chain_back new_tip_hash db
      in if new_chain = [] then (db, None)
         else case switch_meet db new_chain immutable_anchor allow_genesis_anchor of
           None \<Rightarrow> (db, None)
         | Some (plan, kept) \<Rightarrow>
             if unat max_rollback < length (sp_rollback plan) then (db, None)
             else
               let gc = foldl (\<lambda>m h. fmupd h now m) (v_gc_schedule db) (sp_rollback plan);
                   gc = foldl (\<lambda>m h. fmdrop h m) gc (sp_apply plan)
               in (select_chain (kept @ sp_apply plan) (db\<lparr>v_gc_schedule := gc\<rparr>), Some plan))"


section \<open>Removing blocks\<close>

definition slot_retain :: "u64 \<Rightarrow> hash32 \<Rightarrow> (u64 \<times> hash32 list) list \<Rightarrow> (u64 \<times> hash32 list) list" where
  "slot_retain slot h idx =
     (case map_of idx slot of
        None \<Rightarrow> idx
      | Some hs \<Rightarrow>
          let hs = filter (\<lambda>x. x \<noteq> h) hs
          in if hs = [] then bt_remove slot idx else bt_insert slot hs idx)"

definition number_drop :: "u64 \<Rightarrow> hash32 \<Rightarrow> (u64 \<times> hash32) list \<Rightarrow> (u64 \<times> hash32) list" where
  "number_drop n h idx = (if map_of idx n = Some h then bt_remove n idx else idx)"

definition succ_remove :: "hash32 \<Rightarrow> hash32 \<Rightarrow> (hash32, hash32 fset) fmap \<Rightarrow> (hash32, hash32 fset) fmap" where
  "succ_remove prev h succs =
     (case fmlookup succs prev of
        None \<Rightarrow> succs
      | Some s \<Rightarrow>
          let s = s |-| {|h|}
          in if s = {||} then fmdrop prev succs else fmupd prev s succs)"

definition note_leaf_removal :: "hash32 \<Rightarrow> hash32 \<Rightarrow> volatile_db \<Rightarrow> volatile_db" where
  "note_leaf_removal removed removed_prev db =
     (let leaves = v_leaves db |-| {|removed|}
      in db\<lparr>v_leaves :=
           (if has_block removed_prev db \<and> no_successors (v_successors db) removed_prev
            then finsert removed_prev leaves else leaves)\<rparr>)"

definition remove_block :: "hash32 \<Rightarrow> volatile_db \<Rightarrow> volatile_db" where
  "remove_block h db =
     (case fmlookup (v_blocks db) h of
        None \<Rightarrow> db
      | Some b \<Rightarrow>
          note_leaf_removal h (vb_prev_hash b)
            (db\<lparr>v_blocks := fmdrop h (v_blocks db),
               v_slot_index := slot_retain (vb_slot b) h (v_slot_index db),
               v_block_no_index := number_drop (vb_block_no b) h (v_block_no_index db),
               v_successors := succ_remove (vb_prev_hash b) h (v_successors db),
               v_selected_chain := filter (\<lambda>x. x \<noteq> h) (v_selected_chain db),
               v_gc_schedule := fmdrop h (v_gc_schedule db),
               v_headers := fmdrop h (v_headers db)\<rparr>))"

text \<open>One turn of the loop of \<^verbatim>\<open>remove_blocks_in_memory\<close>.\<close>

definition forget_block :: "hash32 \<Rightarrow> volatile_db \<Rightarrow> volatile_db" where
  "forget_block h db =
     (case fmlookup (v_blocks db) h of
        None \<Rightarrow> db
      | Some b \<Rightarrow>
          note_leaf_removal h (vb_prev_hash b)
            (db\<lparr>v_blocks := fmdrop h (v_blocks db),
               v_slot_index := slot_retain (vb_slot b) h (v_slot_index db),
               v_block_no_index := number_drop (vb_block_no b) h (v_block_no_index db),
               v_successors := succ_remove (vb_prev_hash b) h (v_successors db),
               v_gc_schedule := fmdrop h (v_gc_schedule db),
               v_headers := fmdrop h (v_headers db)\<rparr>))"

definition remove_blocks_in_memory :: "hash32 list \<Rightarrow> volatile_db \<Rightarrow> volatile_db" where
  "remove_blocks_in_memory hs db =
     (let db = foldl (\<lambda>db h. forget_block h db) db hs
      in db\<lparr>v_selected_chain := filter (\<lambda>h. h \<notin> set hs) (v_selected_chain db)\<rparr>)"

definition remove_blocks_by_hashes :: "crc32 \<Rightarrow> hash32 hash_order \<Rightarrow> hash32 list \<Rightarrow> volatile_db \<Rightarrow> volatile_db" where
  "remove_blocks_by_hashes crc ord hs db = rewrite_wal crc ord (remove_blocks_in_memory hs db)"

definition remove_flushed_blocks :: "crc32 \<Rightarrow> hash32 hash_order \<Rightarrow> hash32 list \<Rightarrow> volatile_db \<Rightarrow> volatile_db" where
  "remove_flushed_blocks crc ord hs db = maybe_compact_wal crc ord (remove_blocks_in_memory hs db)"

text \<open>Breadth-first search through the successor table.\<close>

definition bfs_visit :: "hash32 list \<Rightarrow> hash32 fset \<times> hash32 list \<Rightarrow> hash32 fset \<times> hash32 list" where
  "bfs_visit succs rq = foldl (\<lambda>(reachable, queue) s.
     if s |\<in>| reachable then (reachable, queue) else (finsert s reachable, queue @ [s])) rq succs"

lemma bfs_visit_measure:
  assumes "set ss \<subseteq> U" and "finite U"
  shows "card (U - fset (fst (bfs_visit ss (r, q)))) + length (snd (bfs_visit ss (r, q))) =
     card (U - fset r) + length q"
  using assms(1)
proof (induction ss arbitrary: r q)
  case (Cons s ss)
  show ?case
  proof (cases "s |\<in>| r")
    case True
    with Cons show ?thesis by (simp add: bfs_visit_def)
  next
    case False
    then have "card (U - fset r) = Suc (card (U - fset r - {s}))"
      using Cons.prems assms(2) by (intro card.remove) auto
    moreover have "U - fset (finsert s r) = U - fset r - {s}" by auto
    ultimately show ?thesis using Cons False by (simp add: bfs_visit_def)
  qed
qed (simp add: bfs_visit_def)

definition succ_universe :: "(hash32, hash32 fset) fmap \<Rightarrow> hash32 set" where
  "succ_universe succs = (\<Union>s\<in>fmran' succs. fset s)"

function reach_loop ::
  "hash32 hash_order \<Rightarrow> (hash32, hash32 fset) fmap \<Rightarrow> hash32 fset \<Rightarrow> hash32 list \<Rightarrow> hash32 fset" where
  "reach_loop ord succs reachable [] = reachable"
| "reach_loop ord succs reachable (h # queue) =
     (case fmlookup succs h of
        None \<Rightarrow> reach_loop ord succs reachable queue
      | Some s \<Rightarrow>
          reach_loop ord succs (fst (bfs_visit (iterate ord s) (reachable, queue)))
            (snd (bfs_visit (iterate ord s) (reachable, queue))))"
  by pat_completeness auto
termination
proof (relation "measure (\<lambda>(ord, succs, reachable, queue).
    card (succ_universe succs - fset reachable) + length queue)", goal_cases)
  case (3 ord succs reachable h queue s)
  have "set (iterate ord s) \<subseteq> succ_universe succs"
    using 3 by (auto simp: succ_universe_def intro: fmran'I)
  moreover have "finite (succ_universe succs)" by (simp add: succ_universe_def)
  ultimately show ?case by (simp add: bfs_visit_measure case_prod_beta)
qed simp_all

definition prune_unreachable_from :: "crc32 \<Rightarrow> hash32 hash_order \<Rightarrow> hash32 \<Rightarrow> volatile_db \<Rightarrow> volatile_db \<times> nat" where
  "prune_unreachable_from crc ord anchor db =
     (let reachable = reach_loop ord (v_successors db) {||} [anchor];
          unreachable = filter (\<lambda>h. h |\<notin>| reachable) (iterate ord (fmdom (v_blocks db)));
          n = length unreachable
      in (if 0 < n then remove_blocks_by_hashes crc ord unreachable db else db, n))"

text \<open>One hash of a slot that is removed as a whole.\<close>

definition evict_block :: "hash32 \<Rightarrow> volatile_db \<Rightarrow> volatile_db" where
  "evict_block h db =
     (let db = (case fmlookup (v_blocks db) h of
        None \<Rightarrow> db
      | Some b \<Rightarrow>
          note_leaf_removal h (vb_prev_hash b)
            (db\<lparr>v_blocks := fmdrop h (v_blocks db),
               v_block_no_index := number_drop (vb_block_no b) h (v_block_no_index db),
               v_successors := succ_remove (vb_prev_hash b) h (v_successors db)\<rparr>))
      in db\<lparr>v_gc_schedule := fmdrop h (v_gc_schedule db), v_headers := fmdrop h (v_headers db)\<rparr>)"

definition evict_slot :: "u64 \<Rightarrow> volatile_db \<times> hash32 list \<Rightarrow> volatile_db \<times> hash32 list" where
  "evict_slot s dr =
     (case dr of (db, removed) \<Rightarrow>
        (case map_of (v_slot_index db) s of
           None \<Rightarrow> (db, removed)
         | Some hs \<Rightarrow>
             (foldl (\<lambda>db h. evict_block h db) (db\<lparr>v_slot_index := bt_remove s (v_slot_index db)\<rparr>) hs,
              removed @ hs)))"

definition remove_blocks_up_to_slot ::
  "crc32 \<Rightarrow> hash32 hash_order \<Rightarrow> u64 \<Rightarrow> volatile_db \<Rightarrow> volatile_db \<times> hash32 list" where
  "remove_blocks_up_to_slot crc ord slot db =
     (let slots = filter (\<lambda>s. s \<le> slot) (map fst (v_slot_index db));
          (db, removed) = foldl (\<lambda>dr s. evict_slot s dr) (db, []) slots;
          db = db\<lparr>v_selected_chain := filter (\<lambda>h. h \<notin> set removed) (v_selected_chain db)\<rparr>
      in (rewrite_wal crc ord db, removed))"

definition rollback_and_prune ::
  "crc32 \<Rightarrow> hash32 hash_order \<Rightarrow> u64 \<Rightarrow> hash32 option \<Rightarrow> volatile_db \<Rightarrow> volatile_db \<times> hash32 list" where
  "rollback_and_prune crc ord target_slot target_hash db =
     (let slots = filter (\<lambda>s. target_slot + 1 \<le> s) (map fst (v_slot_index db));
          at_target = (case target_hash of
              None \<Rightarrow> []
            | Some t \<Rightarrow> (case map_of (v_slot_index db) target_slot of
                None \<Rightarrow> [] | Some hs \<Rightarrow> filter (\<lambda>h. h \<noteq> t) hs));
          (db, removed) = foldl (\<lambda>dr s. evict_slot s dr) (db, []) (rev slots);
          db = foldl (\<lambda>db h. remove_block h db) db at_target
      in (rewrite_wal crc ord (rebuild_selected_chain ord db), removed @ at_target))"

text \<open>Taking blocks off the selection: they are scheduled for collection and leave the index by
  number.\<close>

definition orphan_block :: "nat \<Rightarrow> hash32 \<Rightarrow> volatile_db \<Rightarrow> volatile_db" where
  "orphan_block now h db =
     (let db = db\<lparr>v_gc_schedule := fmupd h now (v_gc_schedule db)\<rparr>
      in case fmlookup (v_blocks db) h of
           None \<Rightarrow> db
         | Some b \<Rightarrow> db\<lparr>v_block_no_index := number_drop (vb_block_no b) h (v_block_no_index db)\<rparr>)"

definition rollback_cut :: "u64 \<Rightarrow> hash32 option \<Rightarrow> volatile_db \<Rightarrow> nat option" where
  "rollback_cut target_slot target_hash db =
     (case position (\<lambda>h. case fmlookup (v_blocks db) h of
             None \<Rightarrow> False
           | Some b \<Rightarrow> vb_slot b = target_slot \<and> (case target_hash of None \<Rightarrow> True | Some t \<Rightarrow> h = t))
           (v_selected_chain db) of
        Some idx \<Rightarrow> Some idx
      | None \<Rightarrow> rposition (\<lambda>h. case fmlookup (v_blocks db) h of
             None \<Rightarrow> False | Some b \<Rightarrow> vb_slot b \<le> target_slot) (v_selected_chain db))"

definition rollback_to_point :: "nat \<Rightarrow> u64 \<Rightarrow> hash32 option \<Rightarrow> volatile_db \<Rightarrow> volatile_db \<times> hash32 list" where
  "rollback_to_point now target_slot target_hash db =
     (let keep = (case rollback_cut target_slot target_hash db of Some idx \<Rightarrow> idx + 1 | None \<Rightarrow> 0);
          suffix = rev (drop keep (v_selected_chain db));
          db = db\<lparr>v_selected_chain := take keep (v_selected_chain db)\<rparr>;
          db = foldl (\<lambda>db h. orphan_block now h db) db suffix
      in (if v_selected_chain db = [] then db\<lparr>v_tip := None\<rparr>
          else case fmlookup (v_blocks db) (last (v_selected_chain db)) of
            None \<Rightarrow> db
          | Some b \<Rightarrow> db\<lparr>v_tip := Some (vb_slot b, last (v_selected_chain db), vb_block_no b)\<rparr>,
          suffix))"

definition vol_clear :: "volatile_db \<Rightarrow> volatile_db" where
  "vol_clear db = db\<lparr>v_blocks := fmempty, v_slot_index := [], v_block_no_index := [],
     v_successors := fmempty, v_leaves := {||}, v_selected_chain := [], v_gc_schedule := fmempty,
     v_headers := fmempty, v_tip := None, v_wal_size_floor := 0, v_wal := map_option (\<lambda>_. []) (v_wal db)\<rparr>"

text \<open>Collecting orphans; times are in nanoseconds.\<close>

definition gc_delay :: nat where "gc_delay = 60 * 1000000000"

definition collect_block :: "hash32 \<Rightarrow> volatile_db \<Rightarrow> volatile_db" where
  "collect_block h db =
     (let db = db\<lparr>v_gc_schedule := fmdrop h (v_gc_schedule db)\<rparr>
      in if h \<in> set (v_selected_chain db) then db
         else case fmlookup (v_blocks db) h of
           None \<Rightarrow> db
         | Some b \<Rightarrow>
             note_leaf_removal h (vb_prev_hash b)
               (db\<lparr>v_blocks := fmdrop h (v_blocks db),
                  v_slot_index := slot_retain (vb_slot b) h (v_slot_index db),
                  v_successors := succ_remove (vb_prev_hash b) h (v_successors db),
                  v_headers := fmdrop h (v_headers db)\<rparr>))"

definition gc_orphaned_blocks :: "crc32 \<Rightarrow> hash32 hash_order \<Rightarrow> nat \<Rightarrow> volatile_db \<Rightarrow> volatile_db \<times> nat" where
  "gc_orphaned_blocks crc ord now db =
     (let expired = map fst (filter (\<lambda>(h, t). gc_delay \<le> now - t) (map_items ord (v_gc_schedule db)));
          db = foldl (\<lambda>db h. collect_block h db) db expired
      in (if 0 < length expired then rewrite_wal crc ord db else db, length expired))"


section \<open>Opening\<close>

definition replay_entry :: "volatile_db \<Rightarrow> wal_entry \<Rightarrow> volatile_db" where
  "replay_entry db e =
     (let db = (if we_prev_hash_known e then db
                else db\<lparr>v_unknown_prev := finsert (we_hash e) (v_unknown_prev db)\<rparr>)
      in fst (insert_block_internal (we_hash e)
           \<lparr>vb_slot = we_slot e, vb_block_no = we_block_no e, vb_prev_hash = we_prev_hash e, vb_cbor = we_cbor e\<rparr>
           True db))"

definition vol_open :: "crc32 \<Rightarrow> hash32 hash_order \<Rightarrow> byte list option \<Rightarrow> volatile_db" where
  "vol_open crc ord file =
     (let db = foldl replay_entry vol_new (vol_replay_wal crc file);
          db = (if v_blocks db = fmempty then db else rebuild_selected_chain ord db)
      in db\<lparr>v_wal := Some (case file of None \<Rightarrow> [] | Some d \<Rightarrow> d)\<rparr>)"

end
