(* ===== verification/Vol_Invariant.thy ===== *)
theory Vol_Invariant
  imports Vol_Db
begin

text \<open>
  The consistency of the volatile store: the successor table is the inverse of the parent
  links, the leaf set is the set of blocks without successors, the slot index has exactly the
  stored blocks, and the selection and the index by number refer to stored blocks.  The
  predicates are about the parts of the state, so that the operations, which share their
  updates of the parts, share the lemmas.
\<close>

named_theorems vol_inv \<open>preservation of the parts of the invariant\<close>


section \<open>The parts\<close>

definition succ_set :: "(hash32, hash32 fset) fmap \<Rightarrow> hash32 \<Rightarrow> hash32 fset" where
  "succ_set succs p = (case fmlookup succs p of None \<Rightarrow> {||} | Some s \<Rightarrow> s)"

definition slot_hashes :: "(u64 \<times> hash32 list) list \<Rightarrow> u64 \<Rightarrow> hash32 list" where
  "slot_hashes idx s = (case map_of idx s of None \<Rightarrow> [] | Some hs \<Rightarrow> hs)"

definition succ_inv :: "block_map \<Rightarrow> (hash32, hash32 fset) fmap \<Rightarrow> bool" where
  "succ_inv bs succs \<longleftrightarrow>
     (\<forall>p h. h |\<in>| succ_set succs p \<longleftrightarrow> (\<exists>b. fmlookup bs h = Some b \<and> vb_prev_hash b = p))"

definition leaf_inv :: "block_map \<Rightarrow> (hash32, hash32 fset) fmap \<Rightarrow> hash32 fset \<Rightarrow> bool" where
  "leaf_inv bs succs leaves \<longleftrightarrow>
     (\<forall>h. h |\<in>| leaves \<longleftrightarrow> fmlookup bs h \<noteq> None \<and> no_successors succs h)"

definition slot_inv :: "block_map \<Rightarrow> (u64 \<times> hash32 list) list \<Rightarrow> bool" where
  "slot_inv bs idx \<longleftrightarrow> sorted_keys idx \<and>
     (\<forall>s h. h \<in> set (slot_hashes idx s) \<longleftrightarrow> (\<exists>b. fmlookup bs h = Some b \<and> vb_slot b = s))"

definition selection_inv :: "block_map \<Rightarrow> hash32 list \<Rightarrow> (u64 \<times> hash32) list \<Rightarrow> bool" where
  "selection_inv bs chain bno \<longleftrightarrow> distinct chain \<and> (\<forall>h\<in>set chain. fmlookup bs h \<noteq> None) \<and>
     sorted_keys bno \<and>
     (\<forall>n h. map_of bno n = Some h \<longrightarrow> h \<in> set chain \<and> (\<exists>b. fmlookup bs h = Some b \<and> vb_block_no b = n))"

definition vol_indexes :: "volatile_db \<Rightarrow> bool" where
  "vol_indexes db \<longleftrightarrow>
     succ_inv (v_blocks db) (v_successors db) \<and>
     leaf_inv (v_blocks db) (v_successors db) (v_leaves db) \<and>
     slot_inv (v_blocks db) (v_slot_index db)"

definition vol_ok :: "volatile_db \<Rightarrow> bool" where
  "vol_ok db \<longleftrightarrow> vol_indexes db \<and>
     selection_inv (v_blocks db) (v_selected_chain db) (v_block_no_index db)"


section \<open>Lemmas on the parts\<close>

lemma no_successors_iff: "no_successors succs h \<longleftrightarrow> succ_set succs h = {||}"
  by (simp add: no_successors_def succ_set_def split: option.splits)

lemma succ_set_insert [simp]:
  "succ_set (succ_insert p h succs) q = (if q = p then finsert h (succ_set succs p) else succ_set succs q)"
  by (simp add: succ_set_def succ_insert_def)

lemma succ_set_remove [simp]:
  "succ_set (succ_remove p h succs) q = (if q = p then succ_set succs p |-| {|h|} else succ_set succs q)"
  by (auto simp: succ_set_def succ_remove_def Let_def split: option.splits)

lemma slot_hashes_push [simp]:
  "slot_hashes (slot_push s h idx) t = (if t = s then slot_hashes idx s @ [h] else slot_hashes idx t)"
  by (simp add: slot_hashes_def slot_push_def)

lemma slot_hashes_retain [simp]:
  "sorted_keys idx \<Longrightarrow> slot_hashes (slot_retain s h idx) t =
    (if t = s then filter (\<lambda>x. x \<noteq> h) (slot_hashes idx s) else slot_hashes idx t)"
  by (auto simp: slot_hashes_def slot_retain_def Let_def map_of_bt_remove split: option.splits)

lemma slot_hashes_bt_remove [simp]:
  "sorted_keys idx \<Longrightarrow> slot_hashes (bt_remove s idx) t = (if t = s then [] else slot_hashes idx t)"
  by (simp add: slot_hashes_def map_of_bt_remove)

lemma sorted_keys_slot_push [simp]: "sorted_keys idx \<Longrightarrow> sorted_keys (slot_push s h idx)"
  by (simp add: slot_push_def)

lemma sorted_keys_slot_retain [simp]: "sorted_keys idx \<Longrightarrow> sorted_keys (slot_retain s h idx)"
  by (simp add: slot_retain_def Let_def split: option.splits)

lemma sorted_keys_number_drop [simp]: "sorted_keys idx \<Longrightarrow> sorted_keys (number_drop n h idx)"
  by (simp add: number_drop_def)

lemma map_of_number_drop:
  "sorted_keys idx \<Longrightarrow> map_of (number_drop n h idx) m =
    (if m = n \<and> map_of idx n = Some h then None else map_of idx m)"
  by (simp add: number_drop_def map_of_bt_remove)

text \<open>Storing a block; one that is stored already must be the same block.\<close>

definition stores :: "block_map \<Rightarrow> hash32 \<Rightarrow> volatile_block \<Rightarrow> bool" where
  "stores bs h b \<longleftrightarrow> (\<forall>b'. fmlookup bs h = Some b' \<longrightarrow> b' = b)"

lemma succ_inv_insert [vol_inv]:
  "succ_inv bs succs \<Longrightarrow> stores bs h b \<Longrightarrow> succ_inv (fmupd h b bs) (succ_insert (vb_prev_hash b) h succs)"
  unfolding succ_inv_def stores_def by auto

lemma succ_inv_remove [vol_inv]:
  "succ_inv bs succs \<Longrightarrow> fmlookup bs h = Some b \<Longrightarrow>
    succ_inv (fmdrop h bs) (succ_remove (vb_prev_hash b) h succs)"
  unfolding succ_inv_def by auto

text \<open>The leaf set after a block was stored, and after one was removed.\<close>

definition leaves_with :: "(hash32, hash32 fset) fmap \<Rightarrow> hash32 \<Rightarrow> hash32 \<Rightarrow> hash32 fset \<Rightarrow> hash32 fset" where
  "leaves_with succs h p leaves =
     (if no_successors succs h then finsert h (leaves |-| {|p|}) else leaves |-| {|p|})"

definition leaves_without ::
  "block_map \<Rightarrow> (hash32, hash32 fset) fmap \<Rightarrow> hash32 \<Rightarrow> hash32 \<Rightarrow> hash32 fset \<Rightarrow> hash32 fset" where
  "leaves_without bs succs h p leaves =
     (if fmlookup bs p \<noteq> None \<and> no_successors succs p then finsert p (leaves |-| {|h|}) else leaves |-| {|h|})"

lemma leaf_inv_insert [vol_inv]:
  "leaf_inv bs succs leaves \<Longrightarrow>
    leaf_inv (fmupd h b bs) (succ_insert (vb_prev_hash b) h succs)
      (leaves_with (succ_insert (vb_prev_hash b) h succs) h (vb_prev_hash b) leaves)"
  unfolding leaf_inv_def leaves_with_def no_successors_iff by auto

lemma leaf_inv_remove [vol_inv]:
  "leaf_inv bs succs leaves \<Longrightarrow>
    leaf_inv (fmdrop h bs) (succ_remove p h succs) (leaves_without (fmdrop h bs) (succ_remove p h succs) h p leaves)"
  unfolding leaf_inv_def leaves_without_def no_successors_iff by auto

lemma slot_inv_insert [vol_inv]:
  "slot_inv bs idx \<Longrightarrow> stores bs h b \<Longrightarrow> slot_inv (fmupd h b bs) (slot_push (vb_slot b) h idx)"
  unfolding slot_inv_def stores_def by auto

lemma slot_inv_remove [vol_inv]:
  "slot_inv bs idx \<Longrightarrow> fmlookup bs h = Some b \<Longrightarrow> slot_inv (fmdrop h bs) (slot_retain (vb_slot b) h idx)"
  unfolding slot_inv_def by auto

lemma slot_inv_evict [vol_inv]:
  "slot_inv bs idx \<Longrightarrow> slot_inv (fmfilter (\<lambda>h. h \<notin> set (slot_hashes idx s)) bs) (bt_remove s idx)"
  unfolding slot_inv_def by auto

lemma selection_inv_extend [vol_inv]:
  assumes "selection_inv bs chain bno" and "fmlookup bs h = None"
  shows "selection_inv (fmupd h b bs) (chain @ [h]) (bt_insert (vb_block_no b) h bno)"
  using assms unfolding selection_inv_def by (auto, fastforce)

lemma selection_inv_store [vol_inv]:
  "selection_inv bs chain bno \<Longrightarrow> fmlookup bs h = None \<Longrightarrow> selection_inv (fmupd h b bs) chain bno"
  unfolding selection_inv_def by (auto, fastforce)

lemma selection_inv_number:
  "selection_inv bs chain bno \<Longrightarrow> map_of bno n = Some h \<Longrightarrow> fmlookup bs h = Some b \<Longrightarrow> vb_block_no b = n"
  unfolding selection_inv_def by fastforce

text \<open>Shortening the selection, with its index filtered accordingly.\<close>

lemma selection_inv_sub:
  assumes "selection_inv bs chain bno" and "distinct chain'" and "set chain' \<subseteq> set chain"
    and "sorted_keys bno'" and "\<And>n h. map_of bno' n = Some h \<Longrightarrow> map_of bno n = Some h \<and> h \<in> set chain'"
    and "\<And>h. h \<in> set chain' \<Longrightarrow> fmlookup bs' h = fmlookup bs h"
  shows "selection_inv bs' chain' bno'"
  unfolding selection_inv_def
proof (intro conjI ballI allI impI)
  show "fmlookup bs' h \<noteq> None" if "h \<in> set chain'" for h
    using that assms(1,3,6) unfolding selection_inv_def by auto
  show "h \<in> set chain'" if "map_of bno' n = Some h" for n h
    using that assms(5) by blast
  show "\<exists>b. fmlookup bs' h = Some b \<and> vb_block_no b = n" if "map_of bno' n = Some h" for n h
  proof -
    from assms(5) [OF that] have "map_of bno n = Some h" and "fmlookup bs' h = fmlookup bs h"
      using assms(6) by auto
    with assms(1) show ?thesis unfolding selection_inv_def by auto
  qed
qed (use assms in auto)

lemma selection_inv_remove [vol_inv]:
  assumes "selection_inv bs chain bno" and "fmlookup bs h = Some b"
  shows "selection_inv (fmdrop h bs) (filter (\<lambda>x. x \<noteq> h) chain) (number_drop (vb_block_no b) h bno)"
proof (rule selection_inv_sub [OF assms(1)])
  have s: "sorted_keys bno" "distinct chain" using assms(1) by (simp_all add: selection_inv_def)
  then show "sorted_keys (number_drop (vb_block_no b) h bno)" "distinct (filter (\<lambda>x. x \<noteq> h) chain)"
    by simp_all
  fix n x assume "map_of (number_drop (vb_block_no b) h bno) n = Some x"
  then have m: "map_of bno n = Some x" "\<not> (n = vb_block_no b \<and> map_of bno (vb_block_no b) = Some h)"
    using s by (auto simp: map_of_number_drop split: if_splits)
  moreover from m have "x \<noteq> h" using selection_inv_number [OF assms(1) m(1)] assms(2) by auto
  moreover have "x \<in> set chain" using assms(1) m(1) by (simp add: selection_inv_def)
  ultimately show "map_of bno n = Some x \<and> x \<in> set (filter (\<lambda>x. x \<noteq> h) chain)" by simp
qed auto


section \<open>The operations on single blocks\<close>

lemma insert_block_internal_fields [simp]:
  "v_blocks (fst (insert_block_internal h b a db)) = fmupd h b (v_blocks db)"
  "v_successors (fst (insert_block_internal h b a db)) = succ_insert (vb_prev_hash b) h (v_successors db)"
  "v_slot_index (fst (insert_block_internal h b a db)) = slot_push (vb_slot b) h (v_slot_index db)"
  "v_leaves (fst (insert_block_internal h b a db)) =
     leaves_with (succ_insert (vb_prev_hash b) h (v_successors db)) h (vb_prev_hash b) (v_leaves db)"
  "v_wal (fst (insert_block_internal h b a db)) = v_wal db"
  "v_headers (fst (insert_block_internal h b a db)) = v_headers db"
  "v_gc_schedule (fst (insert_block_internal h b a db)) = v_gc_schedule db"
  "v_unknown_prev (fst (insert_block_internal h b a db)) = v_unknown_prev db"
  by (simp_all add: insert_block_internal_def leaves_with_def Let_def)

lemma note_leaf_removal_fields [simp]:
  "v_leaves (note_leaf_removal h p db) =
     leaves_without (v_blocks db) (v_successors db) h p (v_leaves db)"
  "v_blocks (note_leaf_removal h p db) = v_blocks db"
  "v_successors (note_leaf_removal h p db) = v_successors db"
  "v_slot_index (note_leaf_removal h p db) = v_slot_index db"
  "v_block_no_index (note_leaf_removal h p db) = v_block_no_index db"
  "v_selected_chain (note_leaf_removal h p db) = v_selected_chain db"
  "v_unknown_prev (note_leaf_removal h p db) = v_unknown_prev db"
  "v_tip (note_leaf_removal h p db) = v_tip db"
  "v_wal (note_leaf_removal h p db) = v_wal db"
  "v_wal_size_floor (note_leaf_removal h p db) = v_wal_size_floor db"
  "v_gc_schedule (note_leaf_removal h p db) = v_gc_schedule db"
  "v_headers (note_leaf_removal h p db) = v_headers db"
  by (simp_all add: note_leaf_removal_def leaves_without_def Let_def has_block_def)

lemma insert_indexes [vol_inv]:
  "vol_indexes db \<Longrightarrow> stores (v_blocks db) h b \<Longrightarrow> vol_indexes (fst (insert_block_internal h b a db))"
  by (simp add: vol_indexes_def succ_inv_insert slot_inv_insert leaf_inv_insert)

lemma insert_ok [vol_inv]:
  assumes "vol_ok db" and "\<not> has_block h db"
  shows "vol_ok (fst (insert_block_internal h b a db))"
proof -
  have "fmlookup (v_blocks db) h = None" using assms(2) by (simp add: has_block_def)
  then have "stores (v_blocks db) h b" by (simp add: stores_def)
  with assms have "vol_indexes (fst (insert_block_internal h b a db))"
    by (simp add: vol_ok_def insert_indexes)
  moreover have "selection_inv (v_blocks db) (v_selected_chain db) (v_block_no_index db)"
    using assms(1) by (simp add: vol_ok_def)
  ultimately show ?thesis
    using \<open>fmlookup (v_blocks db) h = None\<close>
    by (simp add: vol_ok_def insert_block_internal_def Let_def selection_inv_extend selection_inv_store)
qed

lemma forget_block_indexes [vol_inv]: "vol_indexes db \<Longrightarrow> vol_indexes (forget_block h db)"
  by (simp add: vol_indexes_def forget_block_def succ_inv_remove slot_inv_remove leaf_inv_remove
      split: option.split)

lemma remove_block_ok [vol_inv]: "vol_ok db \<Longrightarrow> vol_ok (remove_block h db)"
  by (simp add: vol_ok_def vol_indexes_def remove_block_def succ_inv_remove slot_inv_remove
      leaf_inv_remove selection_inv_remove split: option.split)

lemma collect_block_indexes [vol_inv]: "vol_indexes db \<Longrightarrow> vol_indexes (collect_block h db)"
  by (cases "h \<in> set (v_selected_chain db)")
    (simp_all add: vol_indexes_def collect_block_def Let_def succ_inv_remove slot_inv_remove
      leaf_inv_remove split: option.split)

end
