(* ===== verification/Vol_Ops.thy ===== *)
theory Vol_Ops
  imports Vol_Invariant
begin

text \<open>
  Every operation of the volatile store keeps the consistency of its indexes and of its
  selection.
\<close>

section \<open>Walks\<close>

text \<open>Consecutive blocks of a chain are linked by the parent hash.\<close>

fun linked :: "block_map \<Rightarrow> hash32 list \<Rightarrow> bool" where
  "linked bs [] = True"
| "linked bs [h] = True"
| "linked bs (p # h # hs) = ((\<exists>b. fmlookup bs h = Some b \<and> vb_prev_hash b = p) \<and> linked bs (h # hs))"

definition stored :: "block_map \<Rightarrow> hash32 list \<Rightarrow> bool" where
  "stored bs chain \<longleftrightarrow> distinct chain \<and> (\<forall>h\<in>set chain. fmlookup bs h \<noteq> None)"

lemma linked_Cons:
  "linked bs (p # chain) \<longleftrightarrow>
     (chain = [] \<or> (\<exists>b. fmlookup bs (hd chain) = Some b \<and> vb_prev_hash b = p)) \<and> linked bs chain"
  by (cases chain) auto

lemma linked_append:
  "linked bs (xs @ ys) \<longleftrightarrow> linked bs xs \<and> linked bs ys \<and>
     (xs = [] \<or> ys = [] \<or> (\<exists>b. fmlookup bs (hd ys) = Some b \<and> vb_prev_hash b = last xs))"
  by (induction xs) (auto simp: linked_Cons)

text \<open>What a walk returns: stored, linked, from the block it started at back to one whose parent is
  not stored or already on the chain.\<close>

lemma walk_back_stored:
  "stored bs chain \<Longrightarrow> stored bs (walk_back bs h chain)"
proof (induction bs h chain rule: walk_back.induct)
  case (1 bs current chain)
  then show ?case
    by (subst walk_back.simps) (auto simp: stored_def split: option.splits)
qed

lemma walk_back_linked:
  assumes "linked bs chain" and "chain \<noteq> [] \<longrightarrow> (\<exists>b. fmlookup bs (hd chain) = Some b \<and> vb_prev_hash b = h)"
  shows "linked bs (walk_back bs h chain)"
  using assms
proof (induction bs h chain rule: walk_back.induct)
  case (1 bs current chain)
  then show ?case
    by (subst walk_back.simps) (auto simp: linked_Cons split: option.splits)
qed

lemma walk_back_suffix: "\<exists>xs. walk_back bs h chain = xs @ chain"
proof (induction bs h chain rule: walk_back.induct)
  case (1 bs current chain)
  then show ?case
    by (subst walk_back.simps) (fastforce split: option.splits)
qed

lemma walk_back_root:
  assumes "walk_back bs h chain \<noteq> []" and "chain \<noteq> [] \<longrightarrow> fmlookup bs h \<noteq> None"
    and "chain \<noteq> [] \<longrightarrow> (\<exists>b. fmlookup bs (hd chain) = Some b \<and> vb_prev_hash b = h)"
  shows "\<exists>b. fmlookup bs (hd (walk_back bs h chain)) = Some b \<and>
     (fmlookup bs (vb_prev_hash b) = None \<or> vb_prev_hash b \<in> set (walk_back bs h chain))"
  using assms
proof (induction bs h chain rule: walk_back.induct)
  case (1 bs current chain)
  show ?case
  proof (cases "fmlookup bs current")
    case None
    with "1.prems" show ?thesis by (simp add: walk_back.simps)
  next
    case (Some b)
    show ?thesis
    proof (cases "current \<in> set chain \<or> fmlookup bs (vb_prev_hash b) = None")
      case True
      with Some "1.prems" show ?thesis by (subst (1 2) walk_back.simps) auto
    next
      case False
      then have e: "walk_back bs current chain = walk_back bs (vb_prev_hash b) (current # chain)"
        using Some by (subst walk_back.simps) simp
      have "walk_back bs (vb_prev_hash b) (current # chain) \<noteq> []"
        using walk_back_suffix [of bs "vb_prev_hash b" "current # chain"] by auto
      with "1.IH" [OF Some] False Some show ?thesis unfolding e by auto
    qed
  qed
qed

lemma walk_chain_back_stored: "stored (v_blocks db) (walk_chain_back h db)"
  unfolding walk_chain_back_def by (rule walk_back_stored) (simp add: stored_def)

lemma walk_chain_back_linked: "linked (v_blocks db) (walk_chain_back h db)"
  unfolding walk_chain_back_def by (rule walk_back_linked) simp_all

lemma walk_chain_back_snoc:
  assumes "has_block h db"
  shows "\<exists>xs. walk_chain_back h db = xs @ [h]"
proof -
  from assms obtain b where b: "fmlookup (v_blocks db) h = Some b" by (auto simp: has_block_def)
  obtain xs where "walk_back (v_blocks db) (vb_prev_hash b) [h] = xs @ [h]"
    using walk_back_suffix by blast
  then show ?thesis unfolding walk_chain_back_def by (subst walk_back.simps) (simp add: b)
qed

lemma walk_chain_back_Nil [simp]: "walk_chain_back h db = [] \<longleftrightarrow> \<not> has_block h db"
proof
  show "walk_chain_back h db = [] \<Longrightarrow> \<not> has_block h db"
    using walk_chain_back_snoc [of h db] by auto
  show "\<not> has_block h db \<Longrightarrow> walk_chain_back h db = []"
    by (simp add: has_block_def walk_chain_back_def walk_back.simps)
qed

lemma walk_chain_back_last: "has_block h db \<Longrightarrow> last (walk_chain_back h db) = h"
  using walk_chain_back_snoc [of h db] by auto


section \<open>The selection\<close>

lemma selection_inv_push:
  assumes "selection_inv bs chain bno" and "h \<notin> set chain" and "fmlookup bs h = Some b"
  shows "selection_inv bs (chain @ [h]) (bt_insert (vb_block_no b) h bno)"
  using assms unfolding selection_inv_def by auto

lemma selection_inv_index_chain:
  "stored bs chain \<Longrightarrow> selection_inv bs chain (index_chain bs chain)"
proof (induction chain rule: rev_induct)
  case Nil
  show ?case by (simp add: selection_inv_def index_chain_def)
next
  case (snoc h chain)
  then obtain b where b: "fmlookup bs h = Some b" and "h \<notin> set chain" and "stored bs chain"
    by (auto simp: stored_def)
  then show ?case
    using selection_inv_push [OF snoc.IH] by (simp add: index_chain_def)
qed

lemma select_chain_fields [simp]:
  "v_blocks (select_chain chain db) = v_blocks db"
  "v_successors (select_chain chain db) = v_successors db"
  "v_slot_index (select_chain chain db) = v_slot_index db"
  "v_leaves (select_chain chain db) = v_leaves db"
  "v_selected_chain (select_chain chain db) = chain"
  "v_tip (select_chain chain db) = tip_of (v_blocks db) chain"
  "v_wal (select_chain chain db) = v_wal db"
  "v_headers (select_chain chain db) = v_headers db"
  "v_unknown_prev (select_chain chain db) = v_unknown_prev db"
  "v_block_no_index (select_chain chain db) = index_chain (v_blocks db) chain"
  by (simp_all add: select_chain_def recompute_tip_def)

lemma select_chain_ok [vol_inv]:
  "vol_indexes db \<Longrightarrow> stored (v_blocks db) chain \<Longrightarrow> vol_ok (select_chain chain db)"
  by (simp add: vol_ok_def vol_indexes_def selection_inv_index_chain)

lemma rebuild_best_stored:
  "stored (v_blocks db) (fst acc) \<Longrightarrow> stored (v_blocks db) (fst (foldl (better_tip db) acc tips))"
proof (induction tips arbitrary: acc)
  case (Cons t tips)
  obtain c n o' where acc: "acc = (c, n, o')" by (cases acc)
  obtain h s m where t: "t = (h, s, m)" by (cases t)
  have "stored (v_blocks db) (fst (better_tip db acc t))"
    using Cons.prems walk_chain_back_stored by (simp add: acc t Let_def)
  with Cons.IH show ?case by simp
qed simp

lemma rebuild_ok [vol_inv]: "vol_indexes db \<Longrightarrow> vol_ok (rebuild_selected_chain ord db)"
  unfolding rebuild_selected_chain_def
  by (rule select_chain_ok, assumption, rule rebuild_best_stored) (simp add: stored_def)


section \<open>Removals\<close>

text \<open>While a loop removes blocks, the selection is consistent up to the removed hashes.\<close>

definition sel_but :: "hash32 set \<Rightarrow> volatile_db \<Rightarrow> bool" where
  "sel_but R db \<longleftrightarrow>
     selection_inv (v_blocks db) (filter (\<lambda>h. h \<notin> R) (v_selected_chain db)) (v_block_no_index db)"

lemma sel_but_empty: "vol_ok db \<Longrightarrow> sel_but {} db"
  by (simp add: vol_ok_def sel_but_def)

lemma filter_insert: "filter (\<lambda>x. x \<noteq> h) (filter (\<lambda>x. x \<notin> R) xs) = filter (\<lambda>x. x \<notin> insert h R) xs"
  by (induction xs) auto

lemma sel_but_absent:
  assumes "sel_but R db" and "fmlookup (v_blocks db) h = None"
  shows "sel_but (insert h R) db"
proof -
  have "h \<notin> set (filter (\<lambda>x. x \<notin> R) (v_selected_chain db))"
    using assms by (auto simp: sel_but_def selection_inv_def)
  then have "filter (\<lambda>x. x \<noteq> h) (filter (\<lambda>x. x \<notin> R) (v_selected_chain db)) =
      filter (\<lambda>x. x \<notin> R) (v_selected_chain db)"
    by (intro filter_True) metis
  then show ?thesis using assms(1) unfolding sel_but_def filter_insert by simp
qed

lemma sel_but_forget [vol_inv]: "sel_but R db \<Longrightarrow> sel_but (insert h R) (forget_block h db)"
proof (cases "fmlookup (v_blocks db) h")
  case None
  assume "sel_but R db"
  with None show ?thesis by (simp add: forget_block_def sel_but_absent)
next
  case (Some b)
  assume "sel_but R db"
  from selection_inv_remove [OF this [unfolded sel_but_def] Some] Some show ?thesis
    unfolding sel_but_def filter_insert by (simp add: forget_block_def)
qed

lemma sel_but_evict [vol_inv]: "sel_but R db \<Longrightarrow> sel_but (insert h R) (evict_block h db)"
proof (cases "fmlookup (v_blocks db) h")
  case None
  assume "sel_but R db"
  from sel_but_absent [OF this None] None show ?thesis by (simp add: evict_block_def sel_but_def)
next
  case (Some b)
  assume "sel_but R db"
  from selection_inv_remove [OF this [unfolded sel_but_def] Some] Some show ?thesis
    unfolding sel_but_def filter_insert by (simp add: evict_block_def Let_def)
qed

text \<open>Running such a loop.\<close>

lemma fold_sel_but:
  assumes "\<And>R db h. sel_but R db \<Longrightarrow> sel_but (insert h R) (f h db)" and "sel_but R db"
  shows "sel_but (set hs \<union> R) (foldl (\<lambda>db h. f h db) db hs)"
  using assms(2) by (induction hs arbitrary: R db) (use assms(1) in fastforce)+

lemma fold_keeps: "(\<And>db h. P db \<Longrightarrow> P (f h db)) \<Longrightarrow> P db \<Longrightarrow> P (foldl (\<lambda>db h. f h db) db hs)"
  by (induction hs arbitrary: db) simp_all

lemma remove_blocks_in_memory_ok [vol_inv]:
  assumes "vol_ok db"
  shows "vol_ok (remove_blocks_in_memory hs db)"
proof -
  let ?d = "foldl (\<lambda>db h. forget_block h db) db hs"
  have "vol_indexes ?d"
    by (rule fold_keeps [of vol_indexes forget_block, OF forget_block_indexes])
      (use assms in \<open>simp_all add: vol_ok_def\<close>)
  moreover have "sel_but (set hs) ?d"
    using fold_sel_but [of forget_block "{}" db hs, OF sel_but_forget sel_but_empty [OF assms]] by simp
  ultimately show ?thesis
    by (simp add: vol_ok_def remove_blocks_in_memory_def Let_def vol_indexes_def sel_but_def)
qed

text \<open>Evicting whole slots.\<close>

lemma evict_block_fields [simp]:
  "v_slot_index (evict_block h db) = v_slot_index db"
  "v_selected_chain (evict_block h db) = v_selected_chain db"
  "v_wal (evict_block h db) = v_wal db"
  by (simp_all add: evict_block_def Let_def split: option.split)

lemma evict_block_blocks: "v_blocks (evict_block h db) = fmdrop h (v_blocks db)"
  by (auto simp: evict_block_def Let_def split: option.split intro!: fmap_ext)

definition graph_ok :: "volatile_db \<Rightarrow> bool" where
  "graph_ok db \<longleftrightarrow> succ_inv (v_blocks db) (v_successors db) \<and>
     leaf_inv (v_blocks db) (v_successors db) (v_leaves db)"

lemma evict_block_graph: "graph_ok db \<Longrightarrow> graph_ok (evict_block h db)"
  by (simp add: graph_ok_def evict_block_def Let_def succ_inv_remove leaf_inv_remove split: option.split)

lemma evict_blocks_fields:
  "v_blocks (foldl (\<lambda>db h. evict_block h db) db hs) = fmfilter (\<lambda>h. h \<notin> set hs) (v_blocks db)"
  "v_slot_index (foldl (\<lambda>db h. evict_block h db) db hs) = v_slot_index db"
  "v_selected_chain (foldl (\<lambda>db h. evict_block h db) db hs) = v_selected_chain db"
  "v_wal (foldl (\<lambda>db h. evict_block h db) db hs) = v_wal db"
  by (induction hs arbitrary: db) (auto simp: evict_block_blocks intro!: fmap_ext)

lemma evict_slot_indexes:
  assumes "vol_indexes db"
  shows "vol_indexes (fst (evict_slot s (db, removed)))"
proof (cases "map_of (v_slot_index db) s")
  case None
  with assms show ?thesis by (simp add: evict_slot_def)
next
  case (Some hs)
  let ?d = "db\<lparr>v_slot_index := bt_remove s (v_slot_index db)\<rparr>"
  have hs: "slot_hashes (v_slot_index db) s = hs" by (simp add: slot_hashes_def Some)
  have "slot_inv (fmfilter (\<lambda>h. h \<notin> set hs) (v_blocks db)) (bt_remove s (v_slot_index db))"
    using assms slot_inv_evict [of "v_blocks db" "v_slot_index db" s] by (simp add: vol_indexes_def hs)
  moreover have "graph_ok (foldl (\<lambda>db h. evict_block h db) ?d hs)"
    by (rule fold_keeps [of graph_ok evict_block, OF evict_block_graph])
      (use assms in \<open>simp_all add: vol_indexes_def graph_ok_def\<close>)
  ultimately show ?thesis
    using Some by (simp add: evict_slot_def vol_indexes_def graph_ok_def evict_blocks_fields)
qed

text \<open>What the loop over the slots keeps: the indexes, and the selection up to what it collected.\<close>

lemma evict_slot_sel_but:
  assumes "sel_but (set removed) db"
  shows "sel_but (set (snd (evict_slot s (db, removed)))) (fst (evict_slot s (db, removed)))"
proof (cases "map_of (v_slot_index db) s")
  case (Some hs)
  let ?d = "db\<lparr>v_slot_index := bt_remove s (v_slot_index db)\<rparr>"
  have "sel_but (set removed) ?d" using assms by (simp add: sel_but_def)
  from fold_sel_but [of evict_block, OF sel_but_evict this, of hs] Some show ?thesis
    by (simp add: evict_slot_def Un_commute)
qed (use assms in \<open>simp add: evict_slot_def\<close>)

definition evicting :: "volatile_db \<times> hash32 list \<Rightarrow> bool" where
  "evicting dr \<longleftrightarrow> vol_indexes (fst dr) \<and> sel_but (set (snd dr)) (fst dr)"

lemma evict_slots:
  "vol_ok db \<Longrightarrow> evicting (foldl (\<lambda>dr s. evict_slot s dr) (db, []) slots)"
proof (rule fold_keeps [of evicting evict_slot])
  show "evicting (evict_slot s dr)" if "evicting dr" for dr s
    using that evict_slot_indexes evict_slot_sel_but by (cases dr) (simp add: evicting_def)
  show "vol_ok db \<Longrightarrow> evicting (db, [])"
    by (simp add: evicting_def vol_ok_def sel_but_def)
qed

lemma evicting_ok:
  "evicting (db, removed) \<Longrightarrow>
    vol_ok (db\<lparr>v_selected_chain := filter (\<lambda>h. h \<notin> set removed) (v_selected_chain db)\<rparr>)"
  by (simp add: evicting_def vol_ok_def vol_indexes_def sel_but_def)

lemma rewrite_wal_fields [simp]:
  "v_blocks (rewrite_wal crc ord db) = v_blocks db"
  "v_successors (rewrite_wal crc ord db) = v_successors db"
  "v_slot_index (rewrite_wal crc ord db) = v_slot_index db"
  "v_block_no_index (rewrite_wal crc ord db) = v_block_no_index db"
  "v_leaves (rewrite_wal crc ord db) = v_leaves db"
  "v_selected_chain (rewrite_wal crc ord db) = v_selected_chain db"
  "v_tip (rewrite_wal crc ord db) = v_tip db"
  "v_headers (rewrite_wal crc ord db) = v_headers db"
  by (simp_all add: rewrite_wal_def split: option.split)

lemma compact_wal_fields [simp]:
  "v_blocks (compact_wal crc ord db) = v_blocks db"
  "v_successors (compact_wal crc ord db) = v_successors db"
  "v_slot_index (compact_wal crc ord db) = v_slot_index db"
  "v_block_no_index (compact_wal crc ord db) = v_block_no_index db"
  "v_leaves (compact_wal crc ord db) = v_leaves db"
  "v_selected_chain (compact_wal crc ord db) = v_selected_chain db"
  "v_tip (compact_wal crc ord db) = v_tip db"
  "v_headers (compact_wal crc ord db) = v_headers db"
  by (simp_all add: compact_wal_def split: option.split)

lemma maybe_compact_wal_fields [simp]:
  "v_blocks (maybe_compact_wal crc ord db) = v_blocks db"
  "v_successors (maybe_compact_wal crc ord db) = v_successors db"
  "v_slot_index (maybe_compact_wal crc ord db) = v_slot_index db"
  "v_block_no_index (maybe_compact_wal crc ord db) = v_block_no_index db"
  "v_leaves (maybe_compact_wal crc ord db) = v_leaves db"
  "v_selected_chain (maybe_compact_wal crc ord db) = v_selected_chain db"
  "v_tip (maybe_compact_wal crc ord db) = v_tip db"
  "v_headers (maybe_compact_wal crc ord db) = v_headers db"
  by (simp_all add: maybe_compact_wal_def split: option.split)

lemma log_block_fields [simp]:
  "v_blocks (log_block crc b db) = v_blocks db"
  "v_successors (log_block crc b db) = v_successors db"
  "v_slot_index (log_block crc b db) = v_slot_index db"
  "v_block_no_index (log_block crc b db) = v_block_no_index db"
  "v_leaves (log_block crc b db) = v_leaves db"
  "v_selected_chain (log_block crc b db) = v_selected_chain db"
  "v_tip (log_block crc b db) = v_tip db"
  "v_headers (log_block crc b db) = v_headers db"
  by (simp_all add: log_block_def split: option.split)

text \<open>Writing the log changes none of the parts the invariant is about.\<close>

lemma wal_ok [simp]:
  "vol_ok (rewrite_wal crc ord db) = vol_ok db"
  "vol_ok (compact_wal crc ord db) = vol_ok db"
  "vol_ok (maybe_compact_wal crc ord db) = vol_ok db"
  "vol_ok (log_block crc b db) = vol_ok db"
  "vol_ok (cache_header h hdr db) = vol_ok db"
  by (simp_all add: vol_ok_def vol_indexes_def cache_header_def)

lemma wal_has_block [simp]:
  "has_block h (maybe_compact_wal crc ord db) = has_block h db"
  "has_block h (log_block crc b db) = has_block h db"
  "has_block h (cache_header h' hdr db) = has_block h db"
  by (simp_all add: has_block_def cache_header_def)


section \<open>The public operations\<close>

lemma add_block_gated_ok [vol_inv]:
  "vol_ok db \<Longrightarrow> \<not> has_block h db \<Longrightarrow> vol_ok (fst (add_block_gated crc ord h b a db))"
  by (simp add: add_block_gated_def add_block_def insert_ok)

lemma add_block_with_header_gated_ok [vol_inv]:
  "vol_ok db \<Longrightarrow> \<not> has_block h db \<Longrightarrow> vol_ok (fst (add_block_with_header_gated crc ord h b hdr a db))"
  by (simp add: add_block_with_header_gated_def add_block_gated_ok)

lemma remove_blocks_by_hashes_ok [vol_inv]: "vol_ok db \<Longrightarrow> vol_ok (remove_blocks_by_hashes crc ord hs db)"
  by (simp add: remove_blocks_by_hashes_def remove_blocks_in_memory_ok)

lemma remove_flushed_blocks_ok [vol_inv]: "vol_ok db \<Longrightarrow> vol_ok (remove_flushed_blocks crc ord hs db)"
  by (simp add: remove_flushed_blocks_def remove_blocks_in_memory_ok)

lemma prune_unreachable_from_ok [vol_inv]: "vol_ok db \<Longrightarrow> vol_ok (fst (prune_unreachable_from crc ord anchor db))"
  by (simp add: prune_unreachable_from_def Let_def remove_blocks_by_hashes_ok)

lemma remove_blocks_up_to_slot_ok [vol_inv]:
  "vol_ok db \<Longrightarrow> vol_ok (fst (remove_blocks_up_to_slot crc ord slot db))"
  using evict_slots [of db "filter (\<lambda>s. s \<le> slot) (map fst (v_slot_index db))"]
  by (auto simp: remove_blocks_up_to_slot_def Let_def split: prod.splits intro: evicting_ok)

lemma rollback_and_prune_ok [vol_inv]:
  assumes "vol_ok db"
  shows "vol_ok (fst (rollback_and_prune crc ord slot target db))"
proof -
  obtain d removed where d: "foldl (\<lambda>dr s. evict_slot s dr) (db, [])
      (rev (filter (\<lambda>s. slot + 1 \<le> s) (map fst (v_slot_index db)))) = (d, removed)"
    by fastforce
  have "evicting (d, removed)" using evict_slots [OF assms] d by metis
  then have "vol_indexes d" by (simp add: evicting_def)
  moreover have "vol_indexes (remove_block h e)" if "vol_indexes e" for h e
    using forget_block_indexes [OF that, of h]
    by (simp add: vol_indexes_def remove_block_def forget_block_def split: option.splits)
  ultimately have "vol_indexes (foldl (\<lambda>db h. remove_block h db) d hs)" for hs
    by (intro fold_keeps [of vol_indexes remove_block]) blast+
  then show ?thesis by (simp add: rollback_and_prune_def Let_def d rebuild_ok)
qed

lemma collect_block_fields [simp]:
  "v_selected_chain (collect_block h db) = v_selected_chain db"
  "v_block_no_index (collect_block h db) = v_block_no_index db"
  "v_tip (collect_block h db) = v_tip db"
  "v_wal (collect_block h db) = v_wal db"
  by (simp_all add: collect_block_def Let_def split: option.split)

lemma collect_block_selected:
  "x \<in> set (v_selected_chain db) \<Longrightarrow> fmlookup (v_blocks (collect_block h db)) x = fmlookup (v_blocks db) x"
  by (auto simp: collect_block_def Let_def split: option.split)

lemma collect_block_ok [vol_inv]:
  assumes "vol_ok db"
  shows "vol_ok (collect_block h db)"
proof -
  have s: "selection_inv (v_blocks db) (v_selected_chain db) (v_block_no_index db)"
    using assms by (simp add: vol_ok_def)
  have "selection_inv (v_blocks (collect_block h db)) (v_selected_chain db) (v_block_no_index db)"
  proof (rule selection_inv_sub [OF s])
    show "map_of (v_block_no_index db) n = Some x \<Longrightarrow>
        map_of (v_block_no_index db) n = Some x \<and> x \<in> set (v_selected_chain db)" for n x
      using s by (simp add: selection_inv_def)
  qed (use s in \<open>simp_all add: selection_inv_def collect_block_selected\<close>)
  then show ?thesis using assms by (simp add: vol_ok_def collect_block_indexes)
qed

lemma gc_orphaned_blocks_ok [vol_inv]: "vol_ok db \<Longrightarrow> vol_ok (fst (gc_orphaned_blocks crc ord now db))"
  by (simp add: gc_orphaned_blocks_def Let_def fold_keeps [of vol_ok collect_block, OF collect_block_ok])

text \<open>Cutting the selection off, with the index by number.\<close>

lemma selection_inv_orphan:
  assumes "selection_inv bs chain bno" and "fmlookup bs h = Some b"
    and "bno' = number_drop (vb_block_no b) h bno \<or> bno' = bt_remove (vb_block_no b) bno"
  shows "selection_inv bs (filter (\<lambda>x. x \<noteq> h) chain) bno'"
proof (rule selection_inv_sub [OF assms(1)])
  have s: "sorted_keys bno" "distinct chain" using assms(1) by (simp_all add: selection_inv_def)
  with assms(3) show "sorted_keys bno'" "distinct (filter (\<lambda>x. x \<noteq> h) chain)" by auto
  fix n x assume "map_of bno' n = Some x"
  with s assms(3) have m: "map_of bno n = Some x" "\<not> (n = vb_block_no b \<and> map_of bno n = Some h)"
    by (auto simp: map_of_number_drop map_of_bt_remove split: if_splits)
  moreover from m have "x \<noteq> h" using selection_inv_number [OF assms(1) m(1)] assms(2) by auto
  moreover have "x \<in> set chain" using assms(1) m(1) by (simp add: selection_inv_def)
  ultimately show "map_of bno n = Some x \<and> x \<in> set (filter (\<lambda>x. x \<noteq> h) chain)" by simp
qed auto

lemma selection_inv_stored: "selection_inv bs chain bno \<Longrightarrow> h \<in> set chain \<Longrightarrow> fmlookup bs h \<noteq> None"
  unfolding selection_inv_def by blast

lemma take_filter_drop: "distinct xs \<Longrightarrow> filter (\<lambda>x. x \<notin> set (drop n xs)) xs = take n xs"
proof -
  assume "distinct xs"
  then have d: "set (take n xs) \<inter> set (drop n xs) = {}" by (rule set_take_disj_set_drop_if_distinct) simp
  have "filter (\<lambda>x. x \<notin> set (drop n xs)) (take n xs @ drop n xs) = take n xs"
    using d by (subst filter_append) (auto intro!: filter_True)
  then show ?thesis by simp
qed

text \<open>A loop that takes the hashes \<open>hs\<close> out of the index by number.\<close>

lemma fold_numbers_sel:
  assumes "\<And>h bno b. fmlookup bs h = Some b \<Longrightarrow>
      f h bno = number_drop (vb_block_no b) h bno \<or> f h bno = bt_remove (vb_block_no b) bno"
    and "selection_inv bs chain bno" and "set hs \<subseteq> set chain" and "distinct hs"
  shows "selection_inv bs (filter (\<lambda>x. x \<notin> set hs) chain) (foldl (\<lambda>m h. f h m) bno hs)"
  using assms(2-)
proof (induction hs arbitrary: chain bno)
  case (Cons h hs)
  from Cons.prems(2) have "h \<in> set chain" by simp
  with Cons.prems(1) have "fmlookup bs h \<noteq> None" by (rule selection_inv_stored)
  then obtain b where b: "fmlookup bs h = Some b" by blast
  have "selection_inv bs (filter (\<lambda>x. x \<noteq> h) chain) (f h bno)"
    using selection_inv_orphan [OF Cons.prems(1) b assms(1) [OF b]] .
  moreover have "set hs \<subseteq> set (filter (\<lambda>x. x \<noteq> h) chain)" and "distinct hs"
    using Cons.prems by auto
  ultimately have "selection_inv bs (filter (\<lambda>x. x \<notin> set hs) (filter (\<lambda>x. x \<noteq> h) chain))
      (foldl (\<lambda>m h. f h m) (f h bno) hs)"
    by (rule Cons.IH)
  then show ?case by (simp add: conj_commute)
qed simp

lemma truncate_selection_ok [vol_inv]:
  assumes "vol_ok db"
  shows "vol_ok (fst (truncate_selection_to_depth k db))"
proof (cases "length (v_selected_chain db) \<le> unat k")
  case True
  with assms show ?thesis by (simp add: truncate_selection_to_depth_def)
next
  case False
  let ?f = "\<lambda>h m. case fmlookup (v_blocks db) h of None \<Rightarrow> m | Some b \<Rightarrow> bt_remove (vb_block_no b) m"
  let ?c = "v_selected_chain db"
  have s: "selection_inv (v_blocks db) ?c (v_block_no_index db)"
    using assms by (simp add: vol_ok_def)
  then have d: "distinct ?c" by (simp add: selection_inv_def)
  have "selection_inv (v_blocks db) (filter (\<lambda>x. x \<notin> set (drop (unat k) ?c)) ?c)
      (foldl (\<lambda>m h. ?f h m) (v_block_no_index db) (drop (unat k) ?c))"
    by (rule fold_numbers_sel [OF _ s]) (use d in \<open>auto simp: set_drop_subset\<close>)
  with False assms d show ?thesis
    by (simp add: truncate_selection_to_depth_def Let_def vol_ok_def vol_indexes_def recompute_tip_def
        take_filter_drop)
qed

lemma orphan_block_fields [simp]:
  "v_blocks (orphan_block now h db) = v_blocks db"
  "v_successors (orphan_block now h db) = v_successors db"
  "v_slot_index (orphan_block now h db) = v_slot_index db"
  "v_leaves (orphan_block now h db) = v_leaves db"
  "v_selected_chain (orphan_block now h db) = v_selected_chain db"
  "v_wal (orphan_block now h db) = v_wal db"
  by (simp_all add: orphan_block_def Let_def split: option.split)

lemma orphan_blocks_fields:
  "v_blocks (foldl (\<lambda>db h. orphan_block now h db) db hs) = v_blocks db"
  "v_successors (foldl (\<lambda>db h. orphan_block now h db) db hs) = v_successors db"
  "v_slot_index (foldl (\<lambda>db h. orphan_block now h db) db hs) = v_slot_index db"
  "v_leaves (foldl (\<lambda>db h. orphan_block now h db) db hs) = v_leaves db"
  "v_selected_chain (foldl (\<lambda>db h. orphan_block now h db) db hs) = v_selected_chain db"
  "v_wal (foldl (\<lambda>db h. orphan_block now h db) db hs) = v_wal db"
  by (induction hs arbitrary: db) simp_all

lemma orphan_blocks_numbers:
  "v_block_no_index (foldl (\<lambda>db h. orphan_block now h db) db hs) =
     foldl (\<lambda>m h. case fmlookup (v_blocks db) h of None \<Rightarrow> m | Some b \<Rightarrow> number_drop (vb_block_no b) h m)
       (v_block_no_index db) hs"
  by (induction hs arbitrary: db) (simp_all add: orphan_block_def Let_def split: option.split)

lemma rollback_to_point_fields:
  "v_blocks (fst (rollback_to_point now s t db)) = v_blocks db"
  "v_successors (fst (rollback_to_point now s t db)) = v_successors db"
  "v_slot_index (fst (rollback_to_point now s t db)) = v_slot_index db"
  "v_leaves (fst (rollback_to_point now s t db)) = v_leaves db"
  "v_wal (fst (rollback_to_point now s t db)) = v_wal db"
  "v_selected_chain (fst (rollback_to_point now s t db)) =
     take (case rollback_cut s t db of Some idx \<Rightarrow> idx + 1 | None \<Rightarrow> 0) (v_selected_chain db)"
  by (simp_all add: rollback_to_point_def Let_def orphan_blocks_fields split: option.split)

lemma rollback_to_point_ok [vol_inv]:
  assumes "vol_ok db"
  shows "vol_ok (fst (rollback_to_point now s t db))"
proof -
  let ?f = "\<lambda>h m. case fmlookup (v_blocks db) h of None \<Rightarrow> m | Some b \<Rightarrow> number_drop (vb_block_no b) h m"
  let ?c = "v_selected_chain db"
  let ?k = "case rollback_cut s t db of Some idx \<Rightarrow> idx + 1 | None \<Rightarrow> 0"
  have sel: "selection_inv (v_blocks db) ?c (v_block_no_index db)"
    using assms by (simp add: vol_ok_def)
  then have d: "distinct ?c" by (simp add: selection_inv_def)
  have "selection_inv (v_blocks db) (filter (\<lambda>x. x \<notin> set (rev (drop ?k ?c))) ?c)
      (foldl (\<lambda>m h. ?f h m) (v_block_no_index db) (rev (drop ?k ?c)))"
    by (rule fold_numbers_sel [OF _ sel]) (use d in \<open>auto simp: set_drop_subset dest: in_set_dropD\<close>)
  moreover have "v_block_no_index (fst (rollback_to_point now s t db)) =
      foldl (\<lambda>m h. ?f h m) (v_block_no_index db) (rev (drop ?k ?c))"
    by (simp add: rollback_to_point_def Let_def orphan_blocks_fields orphan_blocks_numbers split: option.split)
  ultimately show ?thesis using assms d
    by (simp add: vol_ok_def vol_indexes_def rollback_to_point_fields take_filter_drop)
qed

lemma vol_clear_ok [vol_inv]: "vol_ok (vol_clear db)"
  by (auto simp: vol_ok_def vol_indexes_def vol_clear_def succ_inv_def leaf_inv_def slot_inv_def
      selection_inv_def succ_set_def slot_hashes_def)

lemma vol_new_ok: "vol_ok vol_new"
  by (auto simp: vol_ok_def vol_indexes_def vol_new_def succ_inv_def leaf_inv_def slot_inv_def
      selection_inv_def succ_set_def slot_hashes_def)

end
