(* ===== verification/Vol_Chain.thy ===== *)
theory Vol_Chain
  imports Vol_Ops "HOL-Library.Product_Lexorder" "HOL-Library.Option_ord"
begin

text \<open>
  The selected chain of the volatile store: it is linked by parent hashes as long as the block
  graph has no cycle, which the hash function guarantees.  Fork tips, switching to a fork,
  rebuilding the selection and pruning what the immutable tip does not reach.
\<close>

section \<open>The block graph\<close>

definition parent :: "block_map \<Rightarrow> (hash32 \<times> hash32) set" where
  "parent bs = {(p, h). \<exists>b. fmlookup bs h = Some b \<and> vb_prev_hash b = p}"

definition grounded :: "block_map \<Rightarrow> bool" where
  "grounded bs \<longleftrightarrow> acyclic (parent bs)"

definition vol_linked :: "volatile_db \<Rightarrow> bool" where
  "vol_linked db \<longleftrightarrow> grounded (v_blocks db) \<and> linked (v_blocks db) (v_selected_chain db)"

lemma parentI: "fmlookup bs h = Some b \<Longrightarrow> (vb_prev_hash b, h) \<in> parent bs"
  by (auto simp: parent_def)

lemma parent_mono: "(\<And>h b. fmlookup bs h = Some b \<Longrightarrow> fmlookup bs' h = Some b) \<Longrightarrow> parent bs \<subseteq> parent bs'"
  by (auto simp: parent_def)

lemma grounded_sub:
  "grounded bs' \<Longrightarrow> (\<And>h b. fmlookup bs h = Some b \<Longrightarrow> fmlookup bs' h = Some b) \<Longrightarrow> grounded bs"
  unfolding grounded_def by (rule acyclic_subset [OF _ parent_mono])

text \<open>Along a linked chain the first block is an ancestor of all others, so a linked chain in a
  graph without cycles has no repetition.\<close>

lemma linked_ancestor: "linked bs (p # chain) \<Longrightarrow> h \<in> set chain \<Longrightarrow> (p, h) \<in> (parent bs)\<^sup>+"
proof (induction chain arbitrary: p)
  case (Cons c chain)
  then have "(p, c) \<in> parent bs" by (auto simp: parent_def)
  with Cons show ?case by (auto intro: trancl_into_trancl2)
qed simp

lemma linked_distinct: "grounded bs \<Longrightarrow> linked bs chain \<Longrightarrow> distinct chain"
proof (induction chain)
  case (Cons c chain)
  then have "c \<notin> set chain" using linked_ancestor [of bs c chain c] by (auto simp: grounded_def acyclic_def)
  with Cons show ?case by (simp add: linked_Cons)
qed simp

text \<open>The parts of a linked chain.\<close>

lemma linked_take: "linked bs chain \<Longrightarrow> linked bs (take n chain)"
  and linked_drop: "linked bs chain \<Longrightarrow> linked bs (drop n chain)"
  using linked_append [of bs "take n chain" "drop n chain"] by simp_all

lemma linked_same: "(\<And>h. h \<in> set chain \<Longrightarrow> fmlookup bs' h = fmlookup bs h) \<Longrightarrow> linked bs' chain = linked bs chain"
  by (induction bs chain rule: linked.induct) auto

lemma linked_sub:
  "linked bs chain \<Longrightarrow> (\<And>h b. fmlookup bs h = Some b \<Longrightarrow> fmlookup bs' h = Some b) \<Longrightarrow> linked bs' chain"
  by (induction bs chain rule: linked.induct) auto

lemma linked_splice:
  assumes "linked bs (xs @ [h])" and "linked bs (ys @ h # zs)"
  shows "linked bs (xs @ h # zs)"
  using assms unfolding linked_append [of bs xs] linked_append [of bs ys] by auto


section \<open>Fork tips\<close>

lemma leaf_childless:
  assumes "vol_ok db"
  shows "h |\<in>| v_leaves db \<longleftrightarrow> has_block h db \<and> (\<forall>c. (h, c) \<notin> parent (v_blocks db))"
proof -
  have "succ_set (v_successors db) h = {||} \<longleftrightarrow> (\<forall>c. (h, c) \<notin> parent (v_blocks db))"
    using assms by (auto simp: vol_ok_def vol_indexes_def succ_inv_def parent_def fset_eq_iff)
  then show ?thesis
    using assms by (simp add: vol_ok_def vol_indexes_def leaf_inv_def no_successors_iff has_block_def)
qed

lemma selected_inner_has_child:
  assumes "linked bs chain" and "h \<in> set chain" and "h \<noteq> last chain"
  shows "\<exists>c. (h, c) \<in> parent bs"
proof -
  from assms(2) obtain xs ys where c: "chain = xs @ h # ys" by (auto dest: split_list)
  with assms(3) obtain y zs where "ys = y # zs" by (cases ys) auto
  with assms(1) c have "linked bs (h # y # zs)" using linked_append [of bs xs] by simp
  then show ?thesis by (auto simp: parent_def)
qed

lemma set_map_filter_lookup:
  "set (List.map_filter (\<lambda>h. map_option (f h) (fmlookup m h)) hs) = {f h b |h b. h \<in> set hs \<and> fmlookup m h = Some b}"
  by (force simp: List.map_filter_def)

lemma set_get_all_fork_tips:
  assumes "vol_ok db" and "vol_linked db"
  shows "set (get_all_fork_tips ord db) =
     {(h, vb_block_no b, vb_slot b) |h b. fmlookup (v_blocks db) h = Some b \<and>
        (\<forall>c. (h, c) \<notin> parent (v_blocks db)) \<and> h \<notin> set (v_selected_chain db)}"
proof -
  have l: "linked (v_blocks db) (v_selected_chain db)" using assms(2) by (simp add: vol_linked_def)
  have "h |\<in>| v_leaves db \<and> (v_selected_chain db = [] \<or> h \<noteq> last (v_selected_chain db)) \<longleftrightarrow>
      has_block h db \<and> (\<forall>c. (h, c) \<notin> parent (v_blocks db)) \<and> h \<notin> set (v_selected_chain db)" for h
    using selected_inner_has_child [OF l, of h] leaf_childless [OF assms(1), of h] by auto
  then show ?thesis
    unfolding get_all_fork_tips_def set_map_filter_lookup by (auto simp: has_block_def)
qed


section \<open>Switching\<close>

lemma position_split:
  assumes "position (\<lambda>x. x = h) xs = Some i"
  shows "\<exists>ys zs. xs = ys @ h # zs \<and> length ys = i"
proof -
  from position_Some [OF assms] have "i < length xs" "xs ! i = h" by auto
  then have "xs = take i xs @ h # drop (Suc i) xs" and "length (take i xs) = i"
    using id_take_nth_drop by (blast, simp)
  then show ?thesis by blast
qed

text \<open>The plan that two chains give when they meet: the common part, what of the selection is
  undone and what of the new chain is added.\<close>

definition meets :: "hash32 list \<Rightarrow> hash32 list \<Rightarrow> hash32 list \<Rightarrow> switch_plan \<Rightarrow> bool" where
  "meets old new kept plan \<longleftrightarrow>
     old = kept @ rev (sp_rollback plan) \<and>
     set (sp_rollback plan) \<inter> set new = {} \<and>
     (kept = [] \<and> sp_apply plan = new \<or>
      (\<exists>ys pre. kept = ys @ [sp_intersection plan] \<and> new = pre @ sp_intersection plan # sp_apply plan))"

lemma switch_meet_meets:
  assumes "switch_meet db new anchor g = Some (plan, kept)"
  shows "meets (v_selected_chain db) new kept plan"
proof (cases "rposition (\<lambda>h. h \<in> set new) (v_selected_chain db)")
  case None
  with assms have "kept = []" and "sp_rollback plan = rev (v_selected_chain db)" and "sp_apply plan = new"
    by (auto simp: switch_meet_def Let_def split: if_splits option.splits)
  then show ?thesis using None by (auto simp: meets_def rposition_None)
next
  case (Some idx)
  let ?c = "v_selected_chain db" and ?h = "v_selected_chain db ! idx"
  from rposition_split [OF Some] obtain ys x zs where
    c: "?c = ys @ x # zs" "length ys = idx" and x: "x \<in> set new" "\<forall>z\<in>set zs. z \<notin> set new" by metis
  then have h: "?h = x" by (simp add: nth_append)
  with x obtain pos where pos: "position (\<lambda>y. y = ?h) new = Some pos"
    using position_None [of "\<lambda>y. y = ?h" new] by auto
  from position_split [OF pos] obtain pre post where n: "new = pre @ ?h # post" "length pre = pos" by blast
  from assms Some pos have "kept = take (idx + 1) ?c" "sp_rollback plan = rev (drop (idx + 1) ?c)"
    "sp_apply plan = drop (pos + 1) new" "sp_intersection plan = ?h"
    by (auto simp: switch_meet_def Let_def split: option.splits)
  moreover from c have "take (idx + 1) ?c = ys @ [x]" "drop (idx + 1) ?c = zs" by simp_all
  moreover from n have "drop (pos + 1) new = post" by simp
  ultimately show ?thesis using c x n h by (auto simp: meets_def)
qed

lemma meets_linked:
  assumes "meets old new kept plan" and "linked bs old" and "linked bs new"
  shows "linked bs (kept @ sp_apply plan)"
proof -
  from assms(1) consider "kept = []" "sp_apply plan = new"
    | ys pre where "kept = ys @ [sp_intersection plan]" "new = pre @ sp_intersection plan # sp_apply plan"
    by (auto simp: meets_def)
  then show ?thesis
  proof cases
    case 1
    with assms(3) show ?thesis by simp
  next
    case 2
    have "linked bs kept" using assms(1,2) by (simp add: meets_def linked_append)
    with 2 assms(3) show ?thesis using linked_splice [of bs ys "sp_intersection plan" pre] by simp
  qed
qed

lemma meets_last: "meets old new kept plan \<Longrightarrow> new \<noteq> [] \<Longrightarrow> last (kept @ sp_apply plan) = last new"
  by (auto simp: meets_def)

lemma switch_chain_Some:
  assumes "switch_chain now t anchor k g db = (db', Some plan)"
  obtains kept where "switch_meet db (walk_chain_back t db) anchor g = Some (plan, kept)"
    "has_block t db" "length (sp_rollback plan) \<le> unat k"
    "v_selected_chain db' = kept @ sp_apply plan" "v_blocks db' = v_blocks db"
    "v_tip db' = tip_of (v_blocks db) (kept @ sp_apply plan)"
    "vol_indexes db' = vol_indexes db" "v_block_no_index db' = index_chain (v_blocks db) (kept @ sp_apply plan)"
    "v_wal db' = v_wal db" "v_headers db' = v_headers db"
  using assms
  by (auto simp: switch_chain_def Let_def vol_indexes_def split: if_splits option.splits prod.splits)

lemma switch_chain_None: "switch_chain now t anchor k g db = (db', None) \<Longrightarrow> db' = db"
  by (auto simp: switch_chain_def Let_def split: if_splits option.splits prod.splits)

lemma switch_chain_linked:
  assumes "switch_chain now t anchor k g db = (db', Some plan)" and "vol_linked db"
  shows "vol_linked db'"
  using assms(1)
proof (rule switch_chain_Some)
  fix kept
  assume m: "switch_meet db (walk_chain_back t db) anchor g = Some (plan, kept)"
    and "v_selected_chain db' = kept @ sp_apply plan" and "v_blocks db' = v_blocks db"
  then show ?thesis
    using assms(2) meets_linked [OF switch_meet_meets [OF m]] walk_chain_back_linked
    by (simp add: vol_linked_def)
qed

lemma meets_stored:
  assumes "meets old new kept plan" and "stored bs old" and "stored bs new" and "grounded bs"
    and "linked bs old" and "linked bs new"
  shows "stored bs (kept @ sp_apply plan)"
proof -
  have "set (kept @ sp_apply plan) \<subseteq> set old \<union> set new"
    using assms(1) by (auto simp: meets_def)
  with assms(2,3) have "\<forall>h\<in>set (kept @ sp_apply plan). fmlookup bs h \<noteq> None"
    unfolding stored_def by blast
  moreover have "distinct (kept @ sp_apply plan)"
    by (rule linked_distinct [OF assms(4) meets_linked [OF assms(1,5,6)]])
  ultimately show ?thesis by (simp only: stored_def)
qed

lemma vol_ok_stored: "vol_ok db \<Longrightarrow> stored (v_blocks db) (v_selected_chain db)"
  unfolding vol_ok_def selection_inv_def stored_def by blast

lemma switch_chain_ok [vol_inv]:
  assumes "vol_ok db" and "vol_linked db"
  shows "vol_ok (fst (switch_chain now t anchor k g db))"
proof (cases "snd (switch_chain now t anchor k g db)")
  case None
  then have "fst (switch_chain now t anchor k g db) = db"
    using switch_chain_None [of now t anchor k g db] by (metis prod.collapse)
  with assms(1) show ?thesis by simp
next
  case (Some plan)
  let ?d = "fst (switch_chain now t anchor k g db)"
  from Some have "switch_chain now t anchor k g db = (?d, Some plan)" by (metis prod.collapse)
  then show ?thesis
  proof (rule switch_chain_Some)
    fix kept
    assume m: "switch_meet db (walk_chain_back t db) anchor g = Some (plan, kept)"
      and d: "v_selected_chain ?d = kept @ sp_apply plan" "v_blocks ?d = v_blocks db"
        "vol_indexes ?d = vol_indexes db" "v_block_no_index ?d = index_chain (v_blocks db) (kept @ sp_apply plan)"
    have "stored (v_blocks db) (kept @ sp_apply plan)"
      using assms meets_stored [OF switch_meet_meets [OF m] vol_ok_stored walk_chain_back_stored]
        walk_chain_back_linked by (simp add: vol_linked_def)
    with d assms(1) selection_inv_index_chain show ?thesis by (simp add: vol_ok_def)
  qed
qed

end
