(* ===== verification/Vol_Select.thy ===== *)
theory Vol_Select
  imports Vol_Chain
begin

text \<open>
  Two computations over the whole block graph.  Pruning keeps exactly the blocks that descend
  from the anchor, and rebuilding selects the chain of the best leaf, whatever the iteration
  order of the hash table.
\<close>

section \<open>Reachability\<close>

definition succ_rel :: "(hash32, hash32 fset) fmap \<Rightarrow> (hash32 \<times> hash32) set" where
  "succ_rel succs = {(p, h). h |\<in>| succ_set succs p}"

lemma succ_rel_parent: "succ_inv bs succs \<Longrightarrow> succ_rel succs = parent bs"
  by (auto simp: succ_rel_def parent_def succ_inv_def)

lemma bfs_visit_reachable: "fset (fst (bfs_visit ss (r, q))) = fset r \<union> set ss"
proof (induction ss arbitrary: r q)
  case (Cons s ss)
  then show ?case by (simp add: bfs_visit_def insert_absorb)
qed (simp add: bfs_visit_def)

lemma bfs_visit_queue: "set (snd (bfs_visit ss (r, q))) = set q \<union> (set ss - fset r)"
proof (induction ss arbitrary: r q)
  case (Cons s ss)
  then show ?case by (auto simp: bfs_visit_def)
qed (simp add: bfs_visit_def)

lemma reach_loop_sound:
  "fset (reach_loop ord succs r q) \<subseteq> fset r \<union> (succ_rel succs)\<^sup>+ `` set q"
proof (induction ord succs r q rule: reach_loop.induct)
  case (2 ord succs r h q)
  show ?case
  proof (cases "fmlookup succs h")
    case None
    with "2.IH"(1) show ?thesis by auto
  next
    case (Some s)
    let ?v = "bfs_visit (iterate ord s) (r, q)"
    have s: "x \<in> fset s \<Longrightarrow> (h, x) \<in> succ_rel succs" for x
      using Some by (simp add: succ_rel_def succ_set_def)
    have "fset (reach_loop ord succs r (h # q)) \<subseteq> fset (fst ?v) \<union> (succ_rel succs)\<^sup>+ `` set (snd ?v)"
      using "2.IH"(2) [OF Some] Some by simp
    also have "\<dots> \<subseteq> fset r \<union> (succ_rel succs)\<^sup>+ `` set (h # q)"
      unfolding bfs_visit_reachable bfs_visit_queue
      using s by (auto intro: trancl_into_trancl2)
    finally show ?thesis .
  qed
qed simp

text \<open>What is reached when the queue is empty is closed under successors, and contains the
  successors of all that was queued.\<close>

lemma reach_loop_closed:
  "fset r \<subseteq> fset (reach_loop ord succs r q) \<and>
    (\<forall>x \<in> set q \<union> (fset (reach_loop ord succs r q) - fset r).
       succ_rel succs `` {x} \<subseteq> fset (reach_loop ord succs r q))"
proof (induction ord succs r q rule: reach_loop.induct)
  case (2 ord succs r h q)
  show ?case
  proof (cases "fmlookup succs h")
    case None
    then have "succ_rel succs `` {h} = {}" by (simp add: succ_rel_def succ_set_def Image_def)
    with "2.IH"(1) [OF None] None show ?thesis by auto
  next
    case (Some s)
    let ?v = "bfs_visit (iterate ord s) (r, q)"
    let ?R = "fset (reach_loop ord succs r (h # q))"
    have e: "?R = fset (reach_loop ord succs (fst ?v) (snd ?v))" using Some by simp
    have h: "succ_rel succs `` {h} = fset s" using Some by (auto simp: succ_rel_def succ_set_def)
    from "2.IH"(2) [OF Some] have sub: "fset r \<union> fset s \<subseteq> ?R"
      and cl: "\<forall>x \<in> set q \<union> (fset s - fset r) \<union> (?R - (fset r \<union> fset s)). succ_rel succs `` {x} \<subseteq> ?R"
      unfolding e bfs_visit_reachable bfs_visit_queue by simp_all
    have "succ_rel succs `` {x} \<subseteq> ?R" if "x \<in> set (h # q) \<union> (?R - fset r)" for x
      using that cl sub h by (cases "x = h") auto
    with sub show ?thesis by auto
  qed
qed simp

lemma reach_loop_reachable:
  "fset (reach_loop ord succs {||} [anchor]) = (succ_rel succs)\<^sup>+ `` {anchor}"
proof
  show "fset (reach_loop ord succs {||} [anchor]) \<subseteq> (succ_rel succs)\<^sup>+ `` {anchor}"
    using reach_loop_sound [of ord succs "{||}" "[anchor]"] by simp
  have c: "\<forall>x \<in> insert anchor (fset (reach_loop ord succs {||} [anchor])).
      succ_rel succs `` {x} \<subseteq> fset (reach_loop ord succs {||} [anchor])"
    using reach_loop_closed [of "{||}" ord succs "[anchor]"] by simp
  have "h \<in> fset (reach_loop ord succs {||} [anchor])" if "(anchor, h) \<in> (succ_rel succs)\<^sup>+" for h
    using that by (induction rule: trancl_induct) (use c in auto)
  then show "(succ_rel succs)\<^sup>+ `` {anchor} \<subseteq> fset (reach_loop ord succs {||} [anchor])" by auto
qed


declare reach_loop.simps [simp del]


section \<open>Pruning\<close>

lemma forget_block_fields [simp]:
  "v_blocks (forget_block h db) = fmdrop h (v_blocks db)"
  "v_selected_chain (forget_block h db) = v_selected_chain db"
  "v_tip (forget_block h db) = v_tip db"
  "v_wal (forget_block h db) = v_wal db"
  by (auto simp: forget_block_def split: option.split intro!: fmap_ext)

lemma remove_blocks_in_memory_fields [simp]:
  "v_blocks (remove_blocks_in_memory hs db) = fmfilter (\<lambda>h. h \<notin> set hs) (v_blocks db)"
  "v_selected_chain (remove_blocks_in_memory hs db) = filter (\<lambda>h. h \<notin> set hs) (v_selected_chain db)"
  "v_tip (remove_blocks_in_memory hs db) = v_tip db"
  "v_wal (remove_blocks_in_memory hs db) = v_wal db"
proof -
  have "v_blocks (foldl (\<lambda>db h. forget_block h db) db hs) = fmfilter (\<lambda>h. h \<notin> set hs) (v_blocks db)
      \<and> v_selected_chain (foldl (\<lambda>db h. forget_block h db) db hs) = v_selected_chain db
      \<and> v_tip (foldl (\<lambda>db h. forget_block h db) db hs) = v_tip db
      \<and> v_wal (foldl (\<lambda>db h. forget_block h db) db hs) = v_wal db"
    by (induction hs arbitrary: db) (auto intro!: fmap_ext)
  then show "v_blocks (remove_blocks_in_memory hs db) = fmfilter (\<lambda>h. h \<notin> set hs) (v_blocks db)"
    "v_selected_chain (remove_blocks_in_memory hs db) = filter (\<lambda>h. h \<notin> set hs) (v_selected_chain db)"
    "v_tip (remove_blocks_in_memory hs db) = v_tip db"
    "v_wal (remove_blocks_in_memory hs db) = v_wal db"
    by (simp_all add: remove_blocks_in_memory_def Let_def)
qed

definition descends :: "block_map \<Rightarrow> hash32 \<Rightarrow> hash32 \<Rightarrow> bool" where
  "descends bs anchor h \<longleftrightarrow> (anchor, h) \<in> (parent bs)\<^sup>+"

lemma prune_fields:
  assumes "vol_ok db"
  shows "v_blocks (fst (prune_unreachable_from crc ord anchor db)) = fmfilter (descends (v_blocks db) anchor) (v_blocks db)"
    and "v_selected_chain (fst (prune_unreachable_from crc ord anchor db)) =
       filter (descends (v_blocks db) anchor) (v_selected_chain db)"
    and "v_tip (fst (prune_unreachable_from crc ord anchor db)) = v_tip db"
    and "snd (prune_unreachable_from crc ord anchor db) =
       card {h. has_block h db \<and> \<not> descends (v_blocks db) anchor h}"
proof -
  let ?r = "reach_loop ord (v_successors db) {||} [anchor]"
  let ?b = "v_blocks db"
  define us where "us = filter (\<lambda>h. h |\<notin>| ?r) (iterate ord (fmdom ?b))"
  have r: "h |\<in>| ?r \<longleftrightarrow> descends ?b anchor h" for h
    using assms reach_loop_reachable [of ord "v_successors db" anchor]
      succ_rel_parent [of ?b "v_successors db"]
    by (auto simp: vol_ok_def vol_indexes_def descends_def)
  have u: "set us = {h. has_block h db \<and> \<not> descends ?b anchor h}"
    by (auto simp: us_def r has_block_def fmlookup_dom_iff)
  have f: "fmfilter (\<lambda>h. h \<notin> set us) ?b = fmfilter (descends ?b anchor) ?b"
    by (rule fmap_ext) (auto simp: u has_block_def)
  have s: "filter (\<lambda>h. h \<notin> set us) (v_selected_chain db) = filter (descends ?b anchor) (v_selected_chain db)"
    using vol_ok_stored [OF assms] by (intro filter_cong) (auto simp: u has_block_def stored_def)
  have z: "fmfilter (\<lambda>h. h \<notin> set us) ?b = ?b"
    "filter (\<lambda>h. h \<notin> set us) (v_selected_chain db) = v_selected_chain db" if "us = []"
    using that by (auto intro!: fmap_ext)
  have p: "prune_unreachable_from crc ord anchor db =
      (if us \<noteq> [] then remove_blocks_by_hashes crc ord us db else db, length us)"
    by (simp only: prune_unreachable_from_def Let_def us_def [symmetric] length_greater_0_conv)
  show "v_blocks (fst (prune_unreachable_from crc ord anchor db)) = fmfilter (descends ?b anchor) ?b"
    using z(1) by (simp add: p f [symmetric] remove_blocks_by_hashes_def)
  show "v_selected_chain (fst (prune_unreachable_from crc ord anchor db)) =
      filter (descends ?b anchor) (v_selected_chain db)"
    using z(2) by (simp add: p s [symmetric] remove_blocks_by_hashes_def)
  show "v_tip (fst (prune_unreachable_from crc ord anchor db)) = v_tip db"
    by (simp add: p remove_blocks_by_hashes_def)
  have "distinct us" by (simp add: us_def)
  then show "snd (prune_unreachable_from crc ord anchor db) = card {h. has_block h db \<and> \<not> descends ?b anchor h}"
    unfolding u [symmetric] by (simp add: p distinct_card)
qed

text \<open>The descendants of the anchor on a linked chain are what follows the anchor, or all of it.\<close>

lemma descends_child:
  assumes "(p, h) \<in> parent bs"
  shows "descends bs a h \<longleftrightarrow> p = a \<or> descends bs a p"
proof
  assume "descends bs a h"
  then obtain q where q: "(q, h) \<in> parent bs" "q = a \<or> (a, q) \<in> (parent bs)\<^sup>+"
    unfolding descends_def by (auto elim: tranclE)
  from q(1) assms have "q = p" by (auto simp: parent_def)
  with q(2) show "p = a \<or> descends bs a p" by (auto simp: descends_def)
next
  assume "p = a \<or> descends bs a p"
  with assms show "descends bs a h" by (auto simp: descends_def intro: trancl_into_trancl)
qed

lemma linked_descends: "linked bs chain \<Longrightarrow> \<exists>n. filter (descends bs a) chain = drop n chain"
proof (induction chain)
  case (Cons c chain)
  show ?case
  proof (cases "descends bs a c")
    case True
    have "descends bs a h" if "h \<in> set chain" for h
      using linked_ancestor [OF Cons.prems that] True by (auto simp: descends_def)
    then have "filter (descends bs a) (c # chain) = drop 0 (c # chain)" using True by simp
    then show ?thesis by blast
  next
    case False
    from Cons obtain n where "filter (descends bs a) chain = drop n chain" by (auto simp: linked_Cons)
    with False have "filter (descends bs a) (c # chain) = drop (Suc n) (c # chain)" by simp
    then show ?thesis by blast
  qed
qed simp


section \<open>Rebuilding the selection\<close>

type_synonym tip_rank = "u64 \<times> nat \<times> hash32 option"

definition tip_key :: "volatile_db \<Rightarrow> hash32 \<times> u64 \<times> u64 \<Rightarrow> tip_rank" where
  "tip_key db t = (case t of (h, s, n) \<Rightarrow> (n, length (walk_chain_back h db), Some h))"

definition best_key :: "hash32 list \<times> u64 \<times> hash32 option \<Rightarrow> tip_rank" where
  "best_key acc = (case acc of (c, n, o') \<Rightarrow> (n, length c, o'))"

definition tip_chain :: "volatile_db \<Rightarrow> hash32 \<times> u64 \<times> u64 \<Rightarrow> hash32 list \<times> u64 \<times> hash32 option" where
  "tip_chain db t = (case t of (h, s, n) \<Rightarrow> (walk_chain_back h db, n, Some h))"

text \<open>The comparison of the loop is the lexicographic order of block number, length and hash.\<close>

lemma better_tip_key:
  "better_tip db acc t = (if best_key acc < tip_key db t then tip_chain db t else acc)"
proof -
  obtain c n o' where acc: "acc = (c, n, o')" by (cases acc)
  obtain h s m where t: "t = (h, s, m)" by (cases t)
  show ?thesis
    by (cases o') (auto simp: acc t tip_key_def best_key_def tip_chain_def Let_def)
qed

lemma best_key_tip_chain [simp]: "best_key (tip_chain db t) = tip_key db t"
  by (cases t) (simp add: best_key_def tip_chain_def tip_key_def)

lemma rebuild_best:
  "foldl (better_tip db) acc tips = acc \<and> (\<forall>t\<in>set tips. tip_key db t \<le> best_key acc) \<or>
   (\<exists>t\<in>set tips. foldl (better_tip db) acc tips = tip_chain db t \<and> best_key acc < tip_key db t \<and>
      (\<forall>t'\<in>set tips. tip_key db t' \<le> tip_key db t))"
proof (induction tips arbitrary: acc)
  case (Cons t tips)
  show ?case
  proof (cases "best_key acc < tip_key db t")
    case True
    with Cons [of "tip_chain db t"] show ?thesis by (auto simp: better_tip_key intro: less_trans)
  next
    case False
    with Cons [of acc] show ?thesis by (auto simp: better_tip_key)
  qed
qed simp

lemma set_get_leaf_tips:
  "set (get_leaf_tips ord db) =
     {(h, vb_slot b, vb_block_no b) |h b. fmlookup (v_blocks db) h = Some b \<and> no_successors (v_successors db) h}"
  by (auto simp: get_leaf_tips_def image_iff)

text \<open>The chain that is selected: empty without leaves, and else the chain of the leaf with the
  greatest key.\<close>

lemma rebuild_selects:
  assumes "get_leaf_tips ord db \<noteq> []"
  shows "\<exists>t\<in>set (get_leaf_tips ord db). v_selected_chain (rebuild_selected_chain ord db) = fst (tip_chain db t) \<and>
     (\<forall>t'\<in>set (get_leaf_tips ord db). tip_key db t' \<le> tip_key db t)"
proof -
  have "best_key ([], 0, None) < tip_key db t" for t
    by (cases t) (auto simp: best_key_def tip_key_def)
  then have "\<not> (\<forall>t\<in>set (get_leaf_tips ord db). tip_key db t \<le> best_key ([], 0, None))"
    using assms by (cases "get_leaf_tips ord db") (auto simp: not_le)
  with rebuild_best [of db "([], 0, None)" "get_leaf_tips ord db"] obtain t where
    "t \<in> set (get_leaf_tips ord db)" "foldl (better_tip db) ([], 0, None) (get_leaf_tips ord db) = tip_chain db t"
    "\<forall>t'\<in>set (get_leaf_tips ord db). tip_key db t' \<le> tip_key db t" by blast
  then show ?thesis by (auto simp: rebuild_selected_chain_def)
qed

lemma tip_key_inj:
  assumes "t \<in> set (get_leaf_tips ord db)" and "t' \<in> set (get_leaf_tips ord' db)" and "tip_key db t = tip_key db t'"
  shows "t = t'"
  using assms by (auto simp: set_get_leaf_tips tip_key_def)

lemma rebuild_deterministic: "rebuild_selected_chain ord db = rebuild_selected_chain ord' db"
proof -
  have e: "set (get_leaf_tips ord db) = set (get_leaf_tips ord' db)" by (simp add: set_get_leaf_tips)
  have "v_selected_chain (rebuild_selected_chain ord db) = v_selected_chain (rebuild_selected_chain ord' db)"
  proof (cases "get_leaf_tips ord db = []")
    case True
    with e show ?thesis by (simp add: rebuild_selected_chain_def)
  next
    case False
    with e have "get_leaf_tips ord' db \<noteq> []" by auto
    from rebuild_selects [OF False] rebuild_selects [OF this] e tip_key_inj
    show ?thesis by (metis order_antisym)
  qed
  then show ?thesis by (simp add: rebuild_selected_chain_def)
qed

end
