(* ===== verification/Vol_Machine.thy ===== *)
theory Vol_Machine
  imports Vol_Select
begin

text \<open>
  The volatile store as a state machine: the operations its owner calls, in any order and with
  any iteration order of the hash tables, from an empty store or any log that is opened.  Every
  state it reaches is consistent; the selection stays linked as long as blocks are taken off its
  ends.  The log gives back what it is meant to keep.
\<close>

section \<open>Keeping the selection linked\<close>

text \<open>A removal that takes the selection off at its ends only.\<close>

definition trims_ends :: "volatile_db \<Rightarrow> volatile_db \<Rightarrow> bool" where
  "trims_ends db db' \<longleftrightarrow> (\<exists>m n. v_selected_chain db' = take m (drop n (v_selected_chain db)))"

lemma vol_linkedI:
  assumes "vol_linked db" and "v_selected_chain db' = take n (v_selected_chain db)"
    and "v_blocks db' = v_blocks db"
  shows "vol_linked db'"
  using assms by (simp add: vol_linked_def linked_take)

lemma vol_linked_same:
  "vol_linked db \<Longrightarrow> v_selected_chain db' = v_selected_chain db \<Longrightarrow> v_blocks db' = v_blocks db \<Longrightarrow> vol_linked db'"
  by (simp add: vol_linked_def)

lemma vol_linked_removed:
  assumes "vol_linked db" and "v_blocks db' = fmfilter (\<lambda>h. \<not> gone h) (v_blocks db)"
    and "v_selected_chain db' = filter (\<lambda>h. \<not> gone h) (v_selected_chain db)" and "trims_ends db db'"
  shows "vol_linked db'"
proof -
  from assms(4) obtain m n where "v_selected_chain db' = take m (drop n (v_selected_chain db))"
    by (auto simp: trims_ends_def)
  then have "linked (v_blocks db) (v_selected_chain db')"
    using assms(1) by (simp add: vol_linked_def linked_drop linked_take)
  moreover have "fmlookup (v_blocks db') h = fmlookup (v_blocks db) h" if "h \<in> set (v_selected_chain db')" for h
    using that assms(2,3) by simp
  ultimately have "linked (v_blocks db') (v_selected_chain db')"
    using linked_same [of "v_selected_chain db'" "v_blocks db'" "v_blocks db"] by blast
  moreover have "grounded (v_blocks db')"
    by (rule grounded_sub [of "v_blocks db"]) (use assms(1,2) in \<open>auto simp: vol_linked_def split: if_splits\<close>)
  ultimately show ?thesis by (simp add: vol_linked_def)
qed

lemma insert_linked:
  assumes "vol_linked db" and "\<not> has_block h db" and "grounded (fmupd h b (v_blocks db))"
  shows "vol_linked (fst (insert_block_internal h b a db))"
proof -
  have n: "fmlookup (v_blocks db) h = None" using assms(2) by (simp add: has_block_def)
  have l: "linked (fmupd h b (v_blocks db)) (v_selected_chain db)"
    by (rule linked_sub [of "v_blocks db"]) (use assms(1) n in \<open>auto simp: vol_linked_def\<close>)
  then show ?thesis
    using assms(3) by (auto simp: vol_linked_def insert_block_internal_def Let_def linked_append)
qed

lemma wal_linked [simp]:
  "vol_linked (rewrite_wal crc ord db) = vol_linked db"
  "vol_linked (compact_wal crc ord db) = vol_linked db"
  "vol_linked (maybe_compact_wal crc ord db) = vol_linked db"
  "vol_linked (log_block crc wb db) = vol_linked db"
  "vol_linked (cache_header h hdr db) = vol_linked db"
  by (simp_all add: vol_linked_def cache_header_def)

lemma add_block_gated_linked:
  "vol_linked db \<Longrightarrow> \<not> has_block h db \<Longrightarrow> grounded (fmupd h b (v_blocks db)) \<Longrightarrow>
    vol_linked (fst (add_block_gated crc ord h b a db))"
  by (simp add: add_block_gated_def add_block_def insert_linked)

lemma remove_block_fields:
  "v_blocks (remove_block h db) = fmfilter (\<lambda>x. x \<noteq> h) (v_blocks db)"
  "h \<in> set (v_selected_chain db) \<longrightarrow> has_block h db \<Longrightarrow>
    v_selected_chain (remove_block h db) = filter (\<lambda>x. x \<noteq> h) (v_selected_chain db)"
  by (auto simp: remove_block_def has_block_def split: option.splits intro!: fmap_ext filter_True [symmetric])

lemma prune_linked:
  assumes "vol_ok db" and "vol_linked db"
  shows "vol_linked (fst (prune_unreachable_from crc ord anchor db))"
proof (rule vol_linked_removed [OF assms(2), where gone = "\<lambda>h. \<not> descends (v_blocks db) anchor h"])
  obtain n where "filter (descends (v_blocks db) anchor) (v_selected_chain db) = drop n (v_selected_chain db)"
    using linked_descends [of "v_blocks db" "v_selected_chain db" anchor] assms(2) by (auto simp: vol_linked_def)
  then show "trims_ends db (fst (prune_unreachable_from crc ord anchor db))"
    unfolding trims_ends_def prune_fields [OF assms(1)] by (metis not_not take_all_iff order_refl)
qed (simp_all add: prune_fields [OF assms(1)])

lemma collect_block_linked:
  assumes "vol_linked db"
  shows "vol_linked (collect_block h db)"
proof -
  have "linked (v_blocks (collect_block h db)) (v_selected_chain db)"
    using assms linked_same [of "v_selected_chain db" "v_blocks (collect_block h db)" "v_blocks db"]
    by (simp add: collect_block_selected vol_linked_def)
  moreover have "grounded (v_blocks (collect_block h db))"
    by (rule grounded_sub [of "v_blocks db"])
      (use assms in \<open>auto simp: vol_linked_def collect_block_def Let_def split: if_splits option.splits\<close>)
  ultimately show ?thesis by (simp add: vol_linked_def)
qed

lemma gc_linked: "vol_linked db \<Longrightarrow> vol_linked (fst (gc_orphaned_blocks crc ord now db))"
  by (simp add: gc_orphaned_blocks_def Let_def
      fold_keeps [of vol_linked collect_block, OF collect_block_linked])

lemma rebuild_best_linked:
  "linked (v_blocks db) (fst acc) \<Longrightarrow> linked (v_blocks db) (fst (foldl (better_tip db) acc tips))"
  using rebuild_best [of db acc tips] walk_chain_back_linked
  by (auto simp: tip_chain_def split: prod.splits)

lemma rebuild_linked: "grounded (v_blocks db) \<Longrightarrow> vol_linked (rebuild_selected_chain ord db)"
  by (simp add: vol_linked_def rebuild_selected_chain_def rebuild_best_linked)

text \<open>Removing whole slots only removes blocks.\<close>

lemma evict_slots_sub:
  "fmlookup (v_blocks (fst (foldl (\<lambda>dr s. evict_slot s dr) dr slots))) h = Some b \<Longrightarrow>
    fmlookup (v_blocks (fst dr)) h = Some b"
proof (induction slots arbitrary: dr)
  case (Cons s slots)
  have "fmlookup (v_blocks (fst (evict_slot s dr))) h = Some b \<Longrightarrow> fmlookup (v_blocks (fst dr)) h = Some b"
    by (cases dr) (auto simp: evict_slot_def evict_blocks_fields split: option.splits if_splits)
  with Cons show ?case by simp
qed simp

lemma evict_slots_removed:
  "\<exists>r. snd (foldl (\<lambda>dr s. evict_slot s dr) dr slots) = snd dr @ r \<and>
     v_blocks (fst (foldl (\<lambda>dr s. evict_slot s dr) dr slots)) = fmfilter (\<lambda>h. h \<notin> set r) (v_blocks (fst dr)) \<and>
     v_selected_chain (fst (foldl (\<lambda>dr s. evict_slot s dr) dr slots)) = v_selected_chain (fst dr)"
proof (induction slots arbitrary: dr)
  case Nil
  have "fmfilter (\<lambda>h. h \<notin> set []) (v_blocks (fst dr)) = v_blocks (fst dr)" by (rule fmap_ext) simp
  then show ?case by (intro exI [of _ "[]"]) simp
next
  case (Cons s slots)
  have "\<exists>r. snd (evict_slot s dr) = snd dr @ r \<and>
      v_blocks (fst (evict_slot s dr)) = fmfilter (\<lambda>h. h \<notin> set r) (v_blocks (fst dr)) \<and>
      v_selected_chain (fst (evict_slot s dr)) = v_selected_chain (fst dr)"
    by (cases dr, cases "map_of (v_slot_index (fst dr)) s")
      (auto simp: evict_slot_def evict_blocks_fields intro!: exI [of _ "[]"] fmap_ext)
  then obtain r where r: "snd (evict_slot s dr) = snd dr @ r"
    "v_blocks (fst (evict_slot s dr)) = fmfilter (\<lambda>h. h \<notin> set r) (v_blocks (fst dr))"
    "v_selected_chain (fst (evict_slot s dr)) = v_selected_chain (fst dr)" by blast
  from Cons [of "evict_slot s dr"] obtain r' where
    "snd (foldl (\<lambda>dr s. evict_slot s dr) (evict_slot s dr) slots) = snd dr @ r @ r'"
    "v_blocks (fst (foldl (\<lambda>dr s. evict_slot s dr) (evict_slot s dr) slots)) =
       fmfilter (\<lambda>h. h \<notin> set r') (fmfilter (\<lambda>h. h \<notin> set r) (v_blocks (fst dr)))"
    "v_selected_chain (fst (foldl (\<lambda>dr s. evict_slot s dr) (evict_slot s dr) slots)) = v_selected_chain (fst dr)"
    by (auto simp: r)
  then show ?case by (intro exI [of _ "r @ r'"]) (auto intro!: fmap_ext)
qed

lemma up_to_slot_fields:
  "v_blocks (fst (remove_blocks_up_to_slot crc ord slot db)) =
     fmfilter (\<lambda>h. h \<notin> set (snd (remove_blocks_up_to_slot crc ord slot db))) (v_blocks db)"
  "v_selected_chain (fst (remove_blocks_up_to_slot crc ord slot db)) =
     filter (\<lambda>h. h \<notin> set (snd (remove_blocks_up_to_slot crc ord slot db))) (v_selected_chain db)"
  using evict_slots_removed [of "(db, [])" "filter (\<lambda>s. s \<le> slot) (map fst (v_slot_index db))"]
  by (auto simp: remove_blocks_up_to_slot_def Let_def split: prod.splits)

lemma rewrite_tip [simp]:
  "v_tip (rewrite_wal crc ord db) = v_tip db"
  "v_tip (maybe_compact_wal crc ord db) = v_tip db"
  by (simp_all add: rewrite_wal_def maybe_compact_wal_def compact_wal_def split: option.split)

lemma evict_slots_tip: "v_tip (fst (foldl (\<lambda>dr s. evict_slot s dr) dr slots)) = v_tip (fst dr)"
proof (induction slots arbitrary: dr)
  case (Cons s slots)
  have "v_tip (foldl (\<lambda>db h. evict_block h db) d hs) = v_tip d" for d hs
    by (induction hs arbitrary: d)
      (simp_all add: evict_block_def note_leaf_removal_def Let_def split: option.split)
  then have "v_tip (fst (evict_slot s dr)) = v_tip (fst dr)"
    by (cases dr) (simp add: evict_slot_def split: option.split)
  with Cons show ?case by simp
qed simp

lemma up_to_slot_tip: "v_tip (fst (remove_blocks_up_to_slot crc ord slot db)) = v_tip db"
  by (simp add: remove_blocks_up_to_slot_def Let_def case_prod_beta evict_slots_tip)

lemma remove_blocks_sub:
  "fmlookup (v_blocks (foldl (\<lambda>db h. remove_block h db) d hs)) h = Some b \<Longrightarrow> fmlookup (v_blocks d) h = Some b"
proof (induction hs arbitrary: d)
  case (Cons x hs)
  then have "fmlookup (v_blocks (remove_block x d)) h = Some b" by simp
  then show ?case by (simp add: remove_block_fields split: if_splits)
qed simp

lemma rollback_and_prune_linked:
  assumes "vol_linked db"
  shows "vol_linked (fst (rollback_and_prune crc ord s t db))"
proof -
  obtain d removed where d: "foldl (\<lambda>dr s. evict_slot s dr) (db, [])
      (rev (filter (\<lambda>x. s + 1 \<le> x) (map fst (v_slot_index db)))) = (d, removed)"
    by fastforce
  have "fmlookup (v_blocks db) h = Some b" if "fmlookup (v_blocks (foldl (\<lambda>db h. remove_block h db) d hs)) h = Some b" for h b hs
    using remove_blocks_sub [OF that] evict_slots_sub d by (metis fst_conv)
  then have "grounded (v_blocks (foldl (\<lambda>db h. remove_block h db) d hs))" for hs
    using assms grounded_sub [of "v_blocks db"] by (metis vol_linked_def)
  then show ?thesis by (simp add: rollback_and_prune_def Let_def d rebuild_linked)
qed



section \<open>Opening a log\<close>

definition block_of_entry :: "wal_entry \<Rightarrow> hash32 \<times> volatile_block" where
  "block_of_entry e = (we_hash e,
     \<lparr>vb_slot = we_slot e, vb_block_no = we_block_no e, vb_prev_hash = we_prev_hash e, vb_cbor = we_cbor e\<rparr>)"

definition entry_map :: "block_map \<Rightarrow> wal_entry list \<Rightarrow> block_map" where
  "entry_map m es = foldl (\<lambda>m e. fmupd (fst (block_of_entry e)) (snd (block_of_entry e)) m) m es"

text \<open>Entries with the same hash are the same block.\<close>

definition entries_agree :: "wal_entry list \<Rightarrow> bool" where
  "entries_agree es \<longleftrightarrow>
     (\<forall>e\<in>set es. \<forall>e'\<in>set es. we_hash e = we_hash e' \<longrightarrow> block_of_entry e = block_of_entry e')"

lemma replay_entry_fields:
  "v_blocks (replay_entry db e) = fmupd (fst (block_of_entry e)) (snd (block_of_entry e)) (v_blocks db)"
  "v_wal (replay_entry db e) = v_wal db"
  by (simp_all add: replay_entry_def block_of_entry_def Let_def)

lemma replay_entries_blocks: "v_blocks (foldl replay_entry db es) = entry_map (v_blocks db) es"
  by (induction es arbitrary: db) (simp_all add: entry_map_def replay_entry_fields)

lemma replay_entry_indexes:
  "vol_indexes db \<Longrightarrow> stores (v_blocks db) (we_hash e) (snd (block_of_entry e)) \<Longrightarrow> vol_indexes (replay_entry db e)"
  unfolding replay_entry_def Let_def block_of_entry_def
  by (rule insert_indexes) (simp_all add: vol_indexes_def)

lemma replay_entries_indexes:
  assumes "vol_indexes db"
    and "\<And>h b. fmlookup (v_blocks db) h = Some b \<Longrightarrow> (h, b) \<in> S" and "block_of_entry ` set es \<subseteq> S"
    and "\<And>h b b'. (h, b) \<in> S \<Longrightarrow> (h, b') \<in> S \<Longrightarrow> b = b'"
  shows "vol_indexes (foldl replay_entry db es)"
  using assms(1-3)
proof (induction es arbitrary: db)
  case (Cons e es)
  have e: "(we_hash e, snd (block_of_entry e)) \<in> S"
    using Cons.prems(3) by (auto simp: block_of_entry_def)
  then have "stores (v_blocks db) (we_hash e) (snd (block_of_entry e))"
    using Cons.prems(2) assms(4) unfolding stores_def by blast
  then have "vol_indexes (replay_entry db e)" by (rule replay_entry_indexes [OF Cons.prems(1)])
  moreover have "(h, b) \<in> S" if "fmlookup (v_blocks (replay_entry db e)) h = Some b" for h b
    using that e Cons.prems(2) by (auto simp: replay_entry_fields block_of_entry_def split: if_splits)
  ultimately show ?case using Cons.IH [of "replay_entry db e"] Cons.prems(3) by auto
qed simp

lemma vol_open_blocks: "v_blocks (vol_open crc ord file) = entry_map fmempty (vol_replay_wal crc file)"
  by (simp add: vol_open_def Let_def replay_entries_blocks rebuild_selected_chain_def vol_new_def)

lemma vol_open_ok:
  assumes "entries_agree (vol_replay_wal crc file)"
  shows "vol_ok (vol_open crc ord file)"
proof -
  let ?db = "foldl replay_entry vol_new (vol_replay_wal crc file)"
  have "vol_indexes ?db"
  proof (rule replay_entries_indexes [where S = "block_of_entry ` set (vol_replay_wal crc file)"])
    show "b = b'" if "(h, b) \<in> block_of_entry ` set (vol_replay_wal crc file)"
      and "(h, b') \<in> block_of_entry ` set (vol_replay_wal crc file)" for h b b'
    proof -
      from that obtain e e' where e: "e \<in> set (vol_replay_wal crc file)" "e' \<in> set (vol_replay_wal crc file)"
        "(h, b) = block_of_entry e" "(h, b') = block_of_entry e'" by blast
      then have "we_hash e = we_hash e'" by (simp add: block_of_entry_def)
      with assms e have "block_of_entry e = block_of_entry e'" unfolding entries_agree_def by blast
      with e show ?thesis by (metis prod.inject)
    qed
  qed (use vol_new_ok in \<open>simp_all add: vol_ok_def vol_new_def\<close>)
  then have "vol_ok (rebuild_selected_chain ord ?db)" by (rule rebuild_ok)
  moreover have "vol_replay_wal crc file = []" if "v_blocks ?db = fmempty"
  proof (cases "vol_replay_wal crc file" rule: rev_cases)
    case (snoc es e)
    then have "fmlookup (v_blocks ?db) (fst (block_of_entry e)) = Some (snd (block_of_entry e))"
      by (simp add: replay_entry_fields)
    with that show ?thesis by simp
  qed
  ultimately show ?thesis
    using vol_new_ok by (auto simp: vol_open_def Let_def vol_ok_def vol_indexes_def)
qed

lemma vol_open_linked:
  assumes "grounded (v_blocks (vol_open crc ord file))"
  shows "vol_linked (vol_open crc ord file)"
proof (cases "v_blocks (foldl replay_entry vol_new (vol_replay_wal crc file)) = fmempty")
  case True
  have "vol_replay_wal crc file = []"
  proof (cases "vol_replay_wal crc file" rule: rev_cases)
    case (snoc es e)
    with True have "fmlookup (v_blocks (foldl replay_entry vol_new (es @ [e]))) (fst (block_of_entry e)) = None"
      by simp
    then show ?thesis by (simp add: replay_entry_fields)
  qed
  with assms show ?thesis by (simp add: vol_open_def Let_def vol_linked_def vol_new_def)
next
  case False
  let ?r = "rebuild_selected_chain ord (foldl replay_entry vol_new (vol_replay_wal crc file))"
  from False have o: "vol_open crc ord file = ?r\<lparr>v_wal := Some (case file of None \<Rightarrow> [] | Some d \<Rightarrow> d)\<rparr>"
    by (simp add: vol_open_def Let_def)
  have "vol_linked ?r"
    by (rule rebuild_linked) (use assms in \<open>simp add: vol_open_blocks replay_entries_blocks vol_new_def\<close>)
  then show ?thesis by (simp add: o vol_linked_def)
qed


section \<open>What the log holds\<close>

definition logged_map :: "wal_block list \<Rightarrow> block_map" where
  "logged_map bs = entry_map fmempty (map entry_of bs)"

definition vol_wal_holds :: "crc32 \<Rightarrow> byte list \<Rightarrow> wal_block list \<Rightarrow> bool" where
  "vol_wal_holds crc file bs \<longleftrightarrow> file = concat (map (wal_record crc) bs) \<and> (\<forall>b\<in>set bs. wal_fits b)"

text \<open>Whether a log has, for every block of a store, its last entry.\<close>

definition log_has :: "wal_block list \<Rightarrow> block_map \<Rightarrow> bool" where
  "log_has bs m \<longleftrightarrow> (\<forall>h b. fmlookup m h = Some b \<longrightarrow> fmlookup (logged_map bs) h = Some b)"

text \<open>The log of a store: it starts with complete entries.  Either these are all of it and have every
  stored block, or the log was not intact when it was opened; then they have the blocks \<open>kept\<close> that were
  read from it.\<close>

definition vol_logged :: "crc32 \<Rightarrow> bool \<Rightarrow> block_map \<Rightarrow> volatile_db \<Rightarrow> bool" where
  "vol_logged crc intact kept db \<longleftrightarrow> (\<forall>data. v_wal db = Some data \<longrightarrow>
     (\<exists>bs tail. (\<forall>b\<in>set bs. wal_fits b) \<and>
       data = concat (map (wal_record crc) bs) @ tail \<and>
       (tail = [] \<and> log_has bs (v_blocks db) \<or> \<not> intact \<and> log_has bs kept)))"

lemma logged_map_snoc: "logged_map (bs @ [wal_block_of h b]) = fmupd h b (logged_map bs)"
  by (cases b) (simp add: logged_map_def entry_map_def entry_of_def wal_block_of_def block_of_entry_def)

lemma entry_map_lookup:
  "fmlookup (entry_map m es) h = (case map_of (rev (map block_of_entry es)) h of None \<Rightarrow> fmlookup m h | Some b \<Rightarrow> Some b)"
proof (induction es arbitrary: m)
  case (Cons e es)
  then show ?case
    by (cases "block_of_entry e") (auto simp: entry_map_def map_add_def split: option.split)
qed (simp add: entry_map_def)

lemma map_of_map_items [simp]: "map_of (map_items ord m) h = fmlookup m h"
proof -
  have "distinct (map fst (map_items ord m))" by simp
  then show ?thesis
    by (cases "fmlookup m h") (auto simp: map_of_eq_None_iff intro!: map_of_is_SomeI)
qed

lemma volatile_block_eta [simp]:
  "\<lparr>vb_slot = vb_slot b, vb_block_no = vb_block_no b, vb_prev_hash = vb_prev_hash b, vb_cbor = vb_cbor b\<rparr> = b"
  by (cases b) simp

lemma logged_map_live: "fmlookup (logged_map (live_blocks ord db)) h = fmlookup (v_blocks db) h"
proof -
  have e: "map block_of_entry (map entry_of (live_blocks ord db)) = map_items ord (v_blocks db)"
    by (simp add: live_blocks_def comp_def case_prod_beta entry_of_def block_of_entry_def)
  have "map_of (rev (map_items ord (v_blocks db))) = map_of (map_items ord (v_blocks db))"
    by (subst map_of_inject_set) (simp_all add: rev_map [symmetric])
  then show ?thesis
    unfolding logged_map_def entry_map_lookup e by (simp split: option.split)
qed

lemma wal_rewrite_holds: "wal_rewrite crc bs = Some file \<Longrightarrow> vol_wal_holds crc file bs"
  by (auto simp: wal_rewrite_def vol_wal_holds_def wal_fits_def split: if_splits)

text \<open>Steps that only lose blocks, and steps that write the log anew.\<close>

lemma logged_sub:
  assumes "vol_logged crc i m db" and "v_wal db' = v_wal db"
    and "\<And>h b. fmlookup (v_blocks db') h = Some b \<Longrightarrow> fmlookup (v_blocks db) h = Some b"
  shows "vol_logged crc i m db'"
proof -
  have "log_has bs (v_blocks db')" if "log_has bs (v_blocks db)" for bs
    using that assms(3) by (auto simp: log_has_def)
  then show ?thesis using assms(1,2) unfolding vol_logged_def by metis
qed

lemma logged_fresh:
  assumes "wal_rewrite crc (live_blocks ord db) = Some file"
    and "v_wal db' = Some file" and "v_blocks db' = v_blocks db"
  shows "vol_logged crc i m db'"
  unfolding vol_logged_def assms(2,3)
  using wal_rewrite_holds [OF assms(1)] logged_map_live [of ord db]
  by (intro allI impI exI [of _ "live_blocks ord db"] exI [of _ "[]"]) (auto simp: vol_wal_holds_def log_has_def)

lemma logged_rewrite: "vol_logged crc i m db \<Longrightarrow> vol_logged crc i m (rewrite_wal crc ord db)"
  by (simp add: rewrite_wal_def logged_fresh split: option.split)

lemma logged_compact: "vol_logged crc i m db \<Longrightarrow> vol_logged crc i m (compact_wal crc ord db)"
  by (simp add: compact_wal_def logged_fresh split: option.split)

lemma logged_maybe_compact: "vol_logged crc i m db \<Longrightarrow> vol_logged crc i m (maybe_compact_wal crc ord db)"
  by (simp add: maybe_compact_wal_def logged_compact split: option.split)

lemma logged_add:
  assumes "vol_logged crc i m db" and "length (vb_cbor b) < 2 ^ 32"
  shows "vol_logged crc i m (fst (insert_block_internal h b a (log_block crc (wal_block_of h b) db)))"
  unfolding vol_logged_def
proof (intro allI impI)
  fix data assume f: "v_wal (fst (insert_block_internal h b a (log_block crc (wal_block_of h b) db))) = Some data"
  then obtain old where old: "v_wal db = Some old" by (cases "v_wal db") (auto simp: log_block_def)
  have fit: "wal_fits (wal_block_of h b)" using assms(2) by (simp add: wal_fits_def wal_block_of_def wal_block_cbor_def)
  from assms(1) old obtain bs tail where bs: "\<forall>b\<in>set bs. wal_fits b"
    "old = concat (map (wal_record crc) bs) @ tail"
    and has: "tail = [] \<and> log_has bs (v_blocks db) \<or> \<not> i \<and> log_has bs m"
    unfolding vol_logged_def by blast
  have data: "data = old @ wal_record crc (wal_block_of h b)"
    using f old fit by (simp add: log_block_def wal_append_def wal_fits_def)
  let ?bs = "if tail = [] \<and> log_has bs (v_blocks db) then bs @ [wal_block_of h b] else bs"
  have "log_has (bs @ [wal_block_of h b]) (fmupd h b (v_blocks db))" if "log_has bs (v_blocks db)"
    using that by (simp add: log_has_def logged_map_snoc)
  then show "\<exists>bs tail. (\<forall>b\<in>set bs. wal_fits b) \<and>
      data = concat (map (wal_record crc) bs) @ tail \<and>
      (tail = [] \<and> log_has bs (v_blocks (fst (insert_block_internal h b a (log_block crc (wal_block_of h b) db)))) \<or>
       \<not> i \<and> log_has bs m)"
    using bs has data fit
    by (intro exI [of _ ?bs] exI [of _ "if ?bs = bs then tail @ wal_record crc (wal_block_of h b) else []"]) auto
qed

lemma logged_add_block_gated:
  "vol_logged crc i m db \<Longrightarrow> length (vb_cbor b) < 2 ^ 32 \<Longrightarrow> vol_logged crc i m (fst (add_block_gated crc ord h b a db))"
  by (simp add: add_block_gated_def add_block_def logged_add logged_maybe_compact)

lemma logged_cache_header [simp]: "vol_logged crc i m (cache_header h hdr db) = vol_logged crc i m db"
  by (simp add: vol_logged_def cache_header_def)

text \<open>Reading back a log of complete entries, followed by an entry that was cut off.\<close>

lemma replay_wal_checked:
  "data \<noteq> [] \<Longrightarrow> \<not> detect_legacy_format data \<Longrightarrow> detect_crc_format crc data \<Longrightarrow>
    vol_replay_wal crc (Some data) = replay_loop crc False True data 0"
  by (simp add: vol_replay_wal_def Let_def)

lemma replay_wal_holds:
  assumes "vol_wal_holds crc file bs" and "bs \<noteq> []" and "wal_fits b" and "n < length (wal_record crc b)"
    and "\<not> detect_legacy_format (file @ take n (wal_record crc b))"
  shows "vol_replay_wal crc (Some (file @ take n (wal_record crc b))) = map entry_of bs"
proof -
  let ?t = "take n (wal_record crc b)"
  obtain c cs where bs: "bs = c # cs" using assms(2) by (cases bs) auto
  have f: "file = concat (map (wal_record crc) bs)" and fits: "\<forall>b\<in>set bs. wal_fits b"
    using assms(1) by (simp_all add: vol_wal_holds_def)
  have "detect_crc_format crc (file @ ?t)"
    using fits detect_crc_record [of c crc "concat (map (wal_record crc) cs) @ ?t"] by (simp add: f bs)
  moreover have "file @ ?t \<noteq> []" using length_wal_record [of crc c] by (auto simp: f bs simp del: length_wal_record)
  ultimately have "vol_replay_wal crc (Some (file @ ?t)) = replay_loop crc False True (file @ ?t) 0"
    using assms(5) by (intro replay_wal_checked)
  also have "\<dots> = map entry_of bs"
    using replay_loop_records [OF fits, of crc ?t] replay_loop_torn [OF assms(3,4)] by (simp add: f)
  finally show ?thesis .
qed



section \<open>The state machine\<close>

text \<open>The operations with what their callers guarantee: a block is added once and closes no cycle, and
  its length fits the log.  The removals can be called with any blocks.\<close>

inductive vol_step :: "crc32 \<Rightarrow> volatile_db \<Rightarrow> volatile_db \<Rightarrow> bool" for crc where
  add: "\<not> has_block h db \<Longrightarrow> grounded (fmupd h b (v_blocks db)) \<Longrightarrow> length (vb_cbor b) < 2 ^ 32 \<Longrightarrow>
     vol_step crc db (fst (add_block_gated crc ord h b allow db))"
| add_header: "\<not> has_block h db \<Longrightarrow> grounded (fmupd h b (v_blocks db)) \<Longrightarrow> length (vb_cbor b) < 2 ^ 32 \<Longrightarrow>
     vol_step crc db (fst (add_block_with_header_gated crc ord h b hdr allow db))"
| truncate: "vol_step crc db (fst (truncate_selection_to_depth k db))"
| rollback: "vol_step crc db (fst (rollback_to_point now s t db))"
| rollback_prune: "vol_step crc db (fst (rollback_and_prune crc ord s t db))"
| switch: "vol_step crc db (fst (switch_chain now t anchor k g db))"
| collect: "vol_step crc db (fst (gc_orphaned_blocks crc ord now db))"
| prune: "vol_step crc db (fst (prune_unreachable_from crc ord anchor db))"
| compact: "vol_step crc db (compact_wal crc ord db)"
| clear: "vol_step crc db (vol_clear db)"

inductive vol_removal :: "crc32 \<Rightarrow> volatile_db \<Rightarrow> volatile_db \<Rightarrow> bool" for crc where
  remove: "vol_removal crc db (remove_block h db)"
| remove_hashes: "vol_removal crc db (remove_blocks_by_hashes crc ord hs db)"
| flush: "vol_removal crc db (remove_flushed_blocks crc ord hs db)"
| up_to_slot: "vol_removal crc db (fst (remove_blocks_up_to_slot crc ord slot db))"

inductive_cases vol_stepE: "vol_step crc db db'"
inductive_cases vol_removalE: "vol_removal crc db db'"

text \<open>A removal takes the same blocks off the store and off the selection, and leaves the tip.\<close>

lemma vol_removal_fields:
  assumes "vol_removal crc db db'" and "vol_ok db"
  shows "\<exists>gone. v_blocks db' = fmfilter (\<lambda>h. \<not> gone h) (v_blocks db) \<and>
    v_selected_chain db' = filter (\<lambda>h. \<not> gone h) (v_selected_chain db) \<and> v_tip db' = v_tip db"
  using assms(1)
proof cases
  case (remove h)
  have "v_selected_chain db' = filter (\<lambda>x. \<not> x = h) (v_selected_chain db)"
    using vol_ok_stored [OF assms(2)] by (simp add: remove remove_block_fields stored_def has_block_def)
  moreover have "v_tip db' = v_tip db" by (simp add: remove remove_block_def split: option.split)
  ultimately show ?thesis by (intro exI [of _ "\<lambda>x. x = h"]) (simp add: remove remove_block_fields)
next
  case (remove_hashes ord hs)
  then show ?thesis by (intro exI [of _ "\<lambda>h. h \<in> set hs"]) (simp add: remove_blocks_by_hashes_def rewrite_tip)
next
  case (flush ord hs)
  then show ?thesis by (intro exI [of _ "\<lambda>h. h \<in> set hs"]) (simp add: remove_flushed_blocks_def rewrite_tip)
next
  case (up_to_slot ord slot)
  then show ?thesis
    by (intro exI [of _ "\<lambda>h. h \<in> set (snd (remove_blocks_up_to_slot crc ord slot db))"])
      (simp add: up_to_slot_fields up_to_slot_tip)
qed

definition vol_inv :: "volatile_db \<Rightarrow> bool" where
  "vol_inv db \<longleftrightarrow> vol_ok db \<and> vol_linked db"

lemma grounded_empty [simp]: "grounded fmempty"
  by (simp add: grounded_def parent_def acyclic_def)

lemma vol_new_inv: "vol_inv vol_new"
  using vol_new_ok by (simp add: vol_inv_def vol_linked_def) (simp add: vol_new_def)

lemma rebuild_blocks [simp]:
  "v_blocks (rebuild_selected_chain ord db) = v_blocks db"
  "v_wal (rebuild_selected_chain ord db) = v_wal db"
  by (simp_all add: rebuild_selected_chain_def)

lemma evict_slots_wal: "v_wal (fst (foldl (\<lambda>dr s. evict_slot s dr) dr slots)) = v_wal (fst dr)"
proof (induction slots arbitrary: dr)
  case (Cons s slots)
  have "v_wal (fst (evict_slot s dr)) = v_wal (fst dr)"
    by (cases dr) (simp add: evict_slot_def evict_blocks_fields split: option.split)
  with Cons show ?case by simp
qed simp

lemma remove_blocks_wal: "v_wal (foldl (\<lambda>db h. remove_block h db) d hs) = v_wal d"
  by (induction hs arbitrary: d) (simp_all add: remove_block_def split: option.split)

lemma logged_rollback_and_prune:
  assumes "vol_logged crc i m db"
  shows "vol_logged crc i m (fst (rollback_and_prune crc ord s t db))"
proof -
  obtain d removed where d: "foldl (\<lambda>dr s. evict_slot s dr) (db, [])
      (rev (filter (\<lambda>x. s + 1 \<le> x) (map fst (v_slot_index db)))) = (d, removed)"
    by fastforce
  have w: "v_wal d = v_wal db" using evict_slots_wal d by (metis fst_conv)
  have "vol_logged crc i m (foldl (\<lambda>db h. remove_block h db) d hs)" for hs
    by (rule logged_sub [OF assms]) (use remove_blocks_sub evict_slots_sub d in \<open>metis fst_conv w remove_blocks_wal\<close>)+
  then have "vol_logged crc i m (rebuild_selected_chain ord (foldl (\<lambda>db h. remove_block h db) d hs))" for hs
    by (rule logged_sub) simp_all
  then show ?thesis by (simp add: rollback_and_prune_def Let_def d logged_rewrite)
qed

lemma logged_up_to_slot:
  assumes "vol_logged crc i m db"
  shows "vol_logged crc i m (fst (remove_blocks_up_to_slot crc ord slot db))"
proof -
  let ?e = "foldl (\<lambda>dr s. evict_slot s dr) (db, []) (filter (\<lambda>s. s \<le> slot) (map fst (v_slot_index db)))"
  let ?d = "(fst ?e)\<lparr>v_selected_chain := filter (\<lambda>h. h \<notin> set (snd ?e)) (v_selected_chain (fst ?e))\<rparr>"
  have "vol_logged crc i m ?d"
  proof (rule logged_sub [OF assms])
    show "v_wal ?d = v_wal db" by (simp add: evict_slots_wal)
    show "fmlookup (v_blocks db) h = Some b" if "fmlookup (v_blocks ?d) h = Some b" for h b
      using that evict_slots_sub [of "(db, [])" "filter (\<lambda>s. s \<le> slot) (map fst (v_slot_index db))" h b] by simp
  qed
  then show ?thesis by (simp add: remove_blocks_up_to_slot_def Let_def case_prod_beta logged_rewrite)
qed

lemma logged_removed: "vol_logged crc i m db \<Longrightarrow> vol_logged crc i m (remove_blocks_in_memory hs db)"
  by (erule logged_sub) (simp_all split: if_splits)

lemma collect_blocks_sub:
  "fmlookup (v_blocks (foldl (\<lambda>db h. collect_block h db) db hs)) h = Some b \<Longrightarrow> fmlookup (v_blocks db) h = Some b"
proof (induction hs arbitrary: db)
  case (Cons x hs)
  then have "fmlookup (v_blocks (collect_block x db)) h = Some b" by simp
  then show ?case by (auto simp: collect_block_def Let_def split: if_splits option.splits)
qed simp

lemma collect_blocks_wal: "v_wal (foldl (\<lambda>db h. collect_block h db) db hs) = v_wal db"
  by (induction hs arbitrary: db) simp_all

lemma logged_gc: "vol_logged crc i m db \<Longrightarrow> vol_logged crc i m (fst (gc_orphaned_blocks crc ord now db))"
  using logged_sub [OF _ collect_blocks_wal collect_blocks_sub]
  by (simp add: gc_orphaned_blocks_def Let_def logged_rewrite)

lemma logged_prune: "vol_logged crc i m db \<Longrightarrow> vol_logged crc i m (fst (prune_unreachable_from crc ord anchor db))"
  by (simp add: prune_unreachable_from_def Let_def remove_blocks_by_hashes_def logged_rewrite logged_removed)

lemma logged_remove_block: "vol_logged crc i m db \<Longrightarrow> vol_logged crc i m (remove_block h db)"
  by (erule logged_sub) (simp_all add: remove_block_def split: option.splits if_splits)

lemma logged_clear: "vol_logged crc i m (vol_clear db)"
  by (auto simp: vol_logged_def vol_clear_def log_has_def intro!: exI [of _ "[]"])

lemma truncate_linked: "vol_linked db \<Longrightarrow> vol_linked (fst (truncate_selection_to_depth k db))"
  by (simp add: truncate_selection_to_depth_def Let_def recompute_tip_def vol_linked_def linked_take)

lemma switch_linked: "vol_linked db \<Longrightarrow> vol_linked (fst (switch_chain now t anchor k g db))"
  by (cases "switch_chain now t anchor k g db", cases "snd (switch_chain now t anchor k g db)")
    (auto dest: switch_chain_None switch_chain_linked)

lemma rollback_linked: "vol_linked db \<Longrightarrow> vol_linked (fst (rollback_to_point now s t db))"
  by (erule vol_linkedI) (rule rollback_to_point_fields)+

lemma add_header_linked:
  "vol_linked db \<Longrightarrow> \<not> has_block h db \<Longrightarrow> grounded (fmupd h b (v_blocks db)) \<Longrightarrow>
    vol_linked (fst (add_block_with_header_gated crc ord h b hdr a db))"
  using add_block_gated_linked [of "cache_header h hdr db" h b crc ord a]
  by (simp add: add_block_with_header_gated_def) (simp add: cache_header_def)

lemma clear_linked: "vol_linked (vol_clear db)"
  by (simp add: vol_linked_def vol_clear_def)

lemmas vol_step_linked = add_block_gated_linked add_header_linked truncate_linked rollback_linked
  rollback_and_prune_linked switch_linked gc_linked prune_linked clear_linked

lemma vol_step_ok:
  assumes "vol_step crc db db'" and "vol_ok db" and "vol_linked db"
  shows "vol_ok db' \<and> vol_linked db'"
  using assms
  by cases (simp_all add: vol_inv vol_clear_ok vol_step_linked)

lemma vol_removal_ok: "vol_removal crc db db' \<Longrightarrow> vol_ok db \<Longrightarrow> vol_ok db'"
  by (erule vol_removal.cases) (simp_all add: vol_inv)

lemma vol_removal_linked:
  assumes "vol_removal crc db db'" and "vol_ok db" and "vol_linked db" and "trims_ends db db'"
  shows "vol_linked db'"
  using vol_removal_fields [OF assms(1,2)] vol_linked_removed [OF assms(3) _ _ assms(4)] by blast

text \<open>A step that neither adds blocks nor writes the log.\<close>

lemma logged_same: "vol_logged crc i m db \<Longrightarrow> v_wal db' = v_wal db \<Longrightarrow> v_blocks db' = v_blocks db \<Longrightarrow> vol_logged crc i m db'"
  by (rule logged_sub) simp_all

lemma truncate_blocks:
  "v_blocks (fst (truncate_selection_to_depth k db)) = v_blocks db"
  "v_wal (fst (truncate_selection_to_depth k db)) = v_wal db"
  by (simp_all add: truncate_selection_to_depth_def Let_def recompute_tip_def)

lemma switch_blocks:
  "v_blocks (fst (switch_chain now t anchor k g db)) = v_blocks db"
  "v_wal (fst (switch_chain now t anchor k g db)) = v_wal db"
  by (auto simp: switch_chain_def Let_def split: option.split prod.split)

lemma vol_step_logged:
  assumes "vol_step crc db db'" and "vol_logged crc i m db"
  shows "vol_logged crc i m db'"
  using assms
proof cases
  case (truncate k)
  then show ?thesis using logged_same [OF assms(2) truncate_blocks(2,1)] by simp
next
  case (rollback now s t)
  then show ?thesis using logged_same [OF assms(2) rollback_to_point_fields(5,1)] by simp
next
  case (switch now t anchor k g)
  then show ?thesis using logged_same [OF assms(2) switch_blocks(2,1)] by simp
qed (simp_all add: assms(2) logged_add_block_gated add_block_with_header_gated_def logged_rollback_and_prune
    logged_gc logged_prune logged_compact logged_clear)

lemma vol_removal_logged: "vol_removal crc db db' \<Longrightarrow> vol_logged crc i m db \<Longrightarrow> vol_logged crc i m db'"
  by (erule vol_removal.cases) (simp_all add: logged_remove_block logged_removed logged_rewrite logged_maybe_compact
      logged_up_to_slot remove_blocks_by_hashes_def remove_flushed_blocks_def)

text \<open>A run of the store: any operations.\<close>

definition vol_runs :: "crc32 \<Rightarrow> volatile_db \<Rightarrow> volatile_db \<Rightarrow> bool" where
  "vol_runs crc = (\<lambda>db db'. vol_step crc db db' \<or> vol_removal crc db db')\<^sup>*\<^sup>*"

lemma vol_runs_logged: "vol_runs crc db db' \<Longrightarrow> vol_logged crc i m db \<Longrightarrow> vol_logged crc i m db'"
  unfolding vol_runs_def
  by (induction rule: rtranclp_induct) (auto dest: vol_step_logged vol_removal_logged)

end
