(* ===== verification/Vol_Theorems.thy ===== *)
theory Vol_Theorems
  imports Vol_Machine
begin

text \<open>
  The properties of the volatile store: the invariant of its states, forks, switching, pruning,
  the tip, and what a log gives back when it is opened.
\<close>

section \<open>A small store\<close>

text \<open>Two chains from one block: 1, 2 is selected, and 1, 3, 4 is longer.\<close>

definition sample_block :: "hash32 \<Rightarrow> nat \<Rightarrow> volatile_block" where
  "sample_block prev n = \<lparr>vb_slot = word_of_nat (10 * n), vb_block_no = word_of_nat n, vb_prev_hash = prev, vb_cbor = [0x80]\<rparr>"

definition sample_blocks :: "(hash32 \<times> volatile_block) list" where
  "sample_blocks = [(1, sample_block 0 1), (2, sample_block 1 2), (3, sample_block 1 2), (4, sample_block 3 3)]"

definition no_crc :: crc32 where "no_crc data = 0"

definition sample_add :: "volatile_db \<Rightarrow> hash32 \<times> volatile_block \<Rightarrow> volatile_db" where
  "sample_add db hb = fst (add_block_gated no_crc ascending (fst hb) (snd hb) True db)"

definition sample_db :: volatile_db where
  "sample_db = foldl sample_add vol_new sample_blocks"

lemma grounded_rank:
  fixes rank :: "hash32 \<Rightarrow> nat"
  assumes "\<And>h b. fmlookup bs h = Some b \<Longrightarrow> rank (vb_prev_hash b) < rank h"
  shows "grounded bs"
proof -
  have "parent bs \<subseteq> measure rank" using assms by (auto simp: parent_def)
  then show ?thesis
    unfolding grounded_def by (intro wf_acyclic wf_subset [OF wf_measure])
qed

lemma sample_add_blocks: "v_blocks (foldl sample_add db bs) = foldl (\<lambda>m hb. fmupd (fst hb) (snd hb) m) (v_blocks db) bs"
  by (induction bs arbitrary: db)
    (simp_all add: sample_add_def add_block_gated_def add_block_def insert_block_internal_def Let_def
      log_block_def maybe_compact_wal_def compact_wal_def split: option.split)

lemma sample_adds_reach:
  assumes "\<forall>hb\<in>set bs. unat (vb_prev_hash (snd hb)) < unat (fst hb) \<and> length (vb_cbor (snd hb)) < 2 ^ 32"
    and "distinct (map fst bs)" and "\<forall>hb\<in>set bs. \<not> has_block (fst hb) db"
    and "\<And>h b. fmlookup (v_blocks db) h = Some b \<Longrightarrow> unat (vb_prev_hash b) < unat h"
  shows "(vol_step no_crc)\<^sup>*\<^sup>* db (foldl sample_add db bs)"
  using assms
proof (induction bs arbitrary: db)
  case (Cons hb bs)
  have b: "v_blocks (sample_add db hb) = fmupd (fst hb) (snd hb) (v_blocks db)"
    using sample_add_blocks [of db "[hb]"] by simp
  have r: "unat (vb_prev_hash b) < unat h" if "fmlookup (fmupd (fst hb) (snd hb) (v_blocks db)) h = Some b" for h b
    using that Cons.prems(1,4) by (auto split: if_splits)
  have "grounded (fmupd (fst hb) (snd hb) (v_blocks db))" by (rule grounded_rank [of _ unat]) (rule r)
  with Cons.prems have "vol_step no_crc db (sample_add db hb)"
    unfolding sample_add_def by (intro vol_step.add) simp_all
  moreover have "(vol_step no_crc)\<^sup>*\<^sup>* (sample_add db hb) (foldl sample_add (sample_add db hb) bs)"
    using Cons.prems r b by (intro Cons.IH) (auto simp: has_block_def)
  ultimately show ?case by simp
qed simp

lemma sample_reach: "(vol_step no_crc)\<^sup>*\<^sup>* vol_new sample_db"
  unfolding sample_db_def
  by (rule sample_adds_reach) (simp_all add: sample_blocks_def sample_block_def has_block_def vol_new_def)

lemma sample_fields:
  "v_blocks sample_db = foldl (\<lambda>m hb. fmupd (fst hb) (snd hb) m) fmempty sample_blocks"
  "v_selected_chain sample_db = [1, 2]"
  "v_tip sample_db = Some (20, 2, 2)"
  "v_wal sample_db = None"
  by (simp_all add: sample_db_def sample_blocks_def sample_block_def sample_add_def add_block_gated_def add_block_def
      insert_block_internal_def Let_def log_block_def maybe_compact_wal_def vol_new_def)


section \<open>Reachable states\<close>

text \<open>Any operations from an empty store or from any log, be it intact, cut off or of an older format;
  removals take the selection off at its ends, old or new, or are off it.  Hashes name blocks: entries
  of one hash are the same block, and no block is its own ancestor.\<close>

inductive vol_reachable :: "crc32 \<Rightarrow> volatile_db \<Rightarrow> bool" for crc where
  new: "vol_reachable crc vol_new"
| opened: "entries_agree (vol_replay_wal crc log) \<Longrightarrow> grounded (entry_map fmempty (vol_replay_wal crc log)) \<Longrightarrow>
     vol_reachable crc (vol_open crc ord log)"
| step: "vol_reachable crc db \<Longrightarrow> vol_step crc db db' \<Longrightarrow> vol_reachable crc db'"
| removal: "vol_reachable crc db \<Longrightarrow> vol_removal crc db db' \<Longrightarrow> trims_ends db db' \<Longrightarrow> vol_reachable crc db'"

lemma sample_reachable: "vol_reachable no_crc sample_db"
proof -
  have "vol_reachable no_crc db" if "(vol_step no_crc)\<^sup>*\<^sup>* vol_new db" for db
    using that by (induction rule: rtranclp_induct) (auto intro: vol_reachable.intros)
  then show ?thesis using sample_reach by blast
qed

lemma vol_reachable_inv: "vol_reachable crc db \<Longrightarrow> vol_inv db"
proof (induction rule: vol_reachable.induct)
  case new
  show ?case by (rule vol_new_inv)
next
  case (opened log ord)
  then show ?case by (simp add: vol_inv_def vol_open_ok vol_open_linked vol_open_blocks)
next
  case (step db db')
  then show ?case by (auto simp: vol_inv_def dest: vol_step_ok)
next
  case (removal db db')
  then show ?case by (auto simp: vol_inv_def dest: vol_removal_ok intro: vol_removal_linked)
qed

lemma vol_removals_ok: "(vol_removal crc)\<^sup>*\<^sup>* db db' \<Longrightarrow> vol_ok db \<Longrightarrow> vol_ok db'"
  by (induction rule: rtranclp_induct) (auto dest: vol_removal_ok)

text \<open>C2: Take a store that was reached from an empty one, or from a log with any content, by any
  operations in which the removals take the selection off at its ends or are off it; then remove any
  blocks at all.  The successor table is the inverse of the parent links, the leaves are the blocks
  nothing builds on, the slot index has exactly the stored blocks, the selection consists of distinct
  stored blocks, and the index by number names selected blocks.  Before those last removals each
  selected block is linked to the one before.\<close>

theorem volatile_consistent:
  assumes "vol_reachable crc db" and "(vol_removal crc)\<^sup>*\<^sup>* db db'"
  shows "(\<forall>p h. h |\<in>| succ_set (v_successors db') p \<longleftrightarrow> (p, h) \<in> parent (v_blocks db')) \<and>
    (\<forall>h. h |\<in>| v_leaves db' \<longleftrightarrow> has_block h db' \<and> (\<forall>c. (h, c) \<notin> parent (v_blocks db'))) \<and>
    (\<forall>s h. h \<in> set (slot_hashes (v_slot_index db') s) \<longleftrightarrow>
       (\<exists>b. fmlookup (v_blocks db') h = Some b \<and> vb_slot b = s)) \<and>
    distinct (v_selected_chain db') \<and> set (v_selected_chain db') \<subseteq> {h. has_block h db'} \<and>
    (\<forall>n h. map_of (v_block_no_index db') n = Some h \<longrightarrow>
       h \<in> set (v_selected_chain db') \<and> (\<exists>b. fmlookup (v_blocks db') h = Some b \<and> vb_block_no b = n)) \<and>
    linked (v_blocks db) (v_selected_chain db)"
proof -
  from vol_reachable_inv [OF assms(1)] have l: "linked (v_blocks db) (v_selected_chain db)" and "vol_ok db"
    by (simp_all add: vol_inv_def vol_linked_def)
  then have ok: "vol_ok db'" using vol_removals_ok [OF assms(2)] by blast
  have "\<forall>p h. h |\<in>| succ_set (v_successors db') p \<longleftrightarrow> (p, h) \<in> parent (v_blocks db')"
    using ok by (simp add: vol_ok_def vol_indexes_def succ_inv_def parent_def)
  moreover have "\<forall>s h. h \<in> set (slot_hashes (v_slot_index db') s) \<longleftrightarrow>
      (\<exists>b. fmlookup (v_blocks db') h = Some b \<and> vb_slot b = s)"
    using ok by (simp add: vol_ok_def vol_indexes_def slot_inv_def)
  moreover have "distinct (v_selected_chain db')" "set (v_selected_chain db') \<subseteq> {h. has_block h db'}"
    using ok by (auto simp: vol_ok_def selection_inv_def has_block_def)
  moreover have "\<forall>n h. map_of (v_block_no_index db') n = Some h \<longrightarrow>
      h \<in> set (v_selected_chain db') \<and> (\<exists>b. fmlookup (v_blocks db') h = Some b \<and> vb_block_no b = n)"
    using ok by (simp add: vol_ok_def selection_inv_def)
  ultimately show ?thesis using leaf_childless [OF ok] l by blast
qed

theorem volatile_consistent_witness:
  "vol_reachable no_crc sample_db \<and> linked (v_blocks sample_db) [1, 2] \<and>
   vol_removal no_crc sample_db (remove_block 1 sample_db) \<and>
   (\<forall>h. h |\<in>| v_leaves (remove_block 1 sample_db) \<longleftrightarrow>
      has_block h (remove_block 1 sample_db) \<and> (\<forall>c. (h, c) \<notin> parent (v_blocks (remove_block 1 sample_db))))"
  using volatile_consistent [OF sample_reachable r_into_rtranclp [of "vol_removal no_crc", OF vol_removal.remove], of 1]
    sample_reachable vol_removal.remove [of no_crc sample_db 1]
  unfolding sample_fields(2) by blast

text \<open>C33: The fork tips offered to chain selection are exactly the stored blocks that nothing builds on
  and that are not selected, with their numbers and slots.\<close>

theorem fork_tips_complete:
  assumes "vol_reachable crc db"
  shows "set (get_all_fork_tips ord db) =
     {(h, vb_block_no b, vb_slot b) |h b. fmlookup (v_blocks db) h = Some b \<and>
        (\<forall>c. (h, c) \<notin> parent (v_blocks db)) \<and> h \<notin> set (v_selected_chain db)}"
  using vol_reachable_inv [OF assms] by (simp add: vol_inv_def set_get_all_fork_tips)

theorem fork_tips_complete_witness:
  "vol_reachable no_crc sample_db \<and> (4, 3, 30) \<in> set (get_all_fork_tips ascending sample_db)"
proof -
  have "\<forall>c. (4, c) \<notin> parent (v_blocks sample_db)"
    by (auto simp: sample_fields sample_blocks_def sample_block_def parent_def split: if_splits)
  then show ?thesis
    unfolding fork_tips_complete [OF sample_reachable] using sample_reachable
    by (simp add: sample_fields) (simp add: sample_blocks_def sample_block_def)
qed



section \<open>Switching and pruning\<close>

text \<open>C6: A switch keeps a common prefix of the two chains, rolls back the rest of the selection,
  newest block first, none of which is on the new chain, and applies the rest of the new chain; the
  selection then ends at the requested block and is linked, no more than \<open>k\<close> blocks are rolled back, and
  the tip is the last selected block.  A refused switch changes nothing.\<close>

theorem switch_chain_plan:
  assumes "vol_reachable crc db" and "switch_chain now t anchor k g db = (db', result)"
  shows "case result of
      None \<Rightarrow> db' = db
    | Some plan \<Rightarrow> \<exists>kept. v_selected_chain db = kept @ rev (sp_rollback plan) \<and>
        v_selected_chain db' = kept @ sp_apply plan \<and> last (v_selected_chain db') = t \<and>
        linked (v_blocks db) (v_selected_chain db') \<and> length (sp_rollback plan) \<le> unat k \<and>
        set (sp_rollback plan) \<inter> set (walk_chain_back t db) = {} \<and>
        (kept = [] \<or> last kept = sp_intersection plan) \<and>
        v_blocks db' = v_blocks db \<and> v_tip db' = tip_of (v_blocks db) (v_selected_chain db')"
proof (cases result)
  case None
  with assms(2) switch_chain_None show ?thesis by simp
next
  case (Some plan)
  have l: "linked (v_blocks db) (v_selected_chain db)"
    using vol_reachable_inv [OF assms(1)] by (simp add: vol_inv_def vol_linked_def)
  from assms(2) Some have "switch_chain now t anchor k g db = (db', Some plan)" by simp
  then show ?thesis
  proof (rule switch_chain_Some)
    fix kept
    assume m: "switch_meet db (walk_chain_back t db) anchor g = Some (plan, kept)" and "has_block t db"
      and r: "length (sp_rollback plan) \<le> unat k" "v_selected_chain db' = kept @ sp_apply plan"
        "v_blocks db' = v_blocks db" "v_tip db' = tip_of (v_blocks db) (kept @ sp_apply plan)"
    note meet = switch_meet_meets [OF m]
    have "walk_chain_back t db \<noteq> []" and "last (walk_chain_back t db) = t"
      using \<open>has_block t db\<close> walk_chain_back_last by (auto simp: has_block_def)
    then have "last (kept @ sp_apply plan) = t" using meets_last [OF meet] by simp
    moreover have "linked (v_blocks db) (kept @ sp_apply plan)"
      by (rule meets_linked [OF meet l walk_chain_back_linked])
    ultimately show ?thesis
      using Some r meet by (auto simp: meets_def intro!: exI [of _ kept])
  qed
qed

lemma sample_switch:
  "switch_chain 0 4 None 1 False sample_db =
     (fst (switch_chain 0 4 None 1 False sample_db),
      Some \<lparr>sp_intersection = 1, sp_intersection_slot = 10, sp_rollback = [2], sp_apply = [3, 4]\<rparr>)"
proof -
  have "walk_chain_back 4 sample_db = [1, 3, 4]"
    by (simp add: walk_chain_back_def sample_fields sample_blocks_def sample_block_def walk_back.simps)
  then have "switch_meet sample_db (walk_chain_back 4 sample_db) None False =
      Some (\<lparr>sp_intersection = 1, sp_intersection_slot = 10, sp_rollback = [2], sp_apply = [3, 4]\<rparr>, [1])"
    by (simp add: switch_meet_def sample_fields rposition_def Let_def)
      (simp add: sample_fields sample_blocks_def sample_block_def)
  then show ?thesis
    using \<open>walk_chain_back 4 sample_db = [1, 3, 4]\<close> by (simp add: switch_chain_def Let_def)
qed

theorem switch_chain_plan_witness:
  "vol_reachable no_crc sample_db \<and> last (v_selected_chain (fst (switch_chain 0 4 None 1 False sample_db))) = 4 \<and>
   v_selected_chain (fst (switch_chain 0 4 None 1 False sample_db)) = [1, 3, 4]"
  using switch_chain_plan [OF sample_reachable sample_switch] sample_reachable by (auto simp: sample_fields(2))

text \<open>C34: Pruning keeps exactly the blocks that descend from the anchor, and of the selection the part
  that does; it counts the blocks it removes.\<close>

theorem prune_keeps_descendants:
  assumes "vol_reachable crc db"
  shows "let db' = fst (prune_unreachable_from crc ord anchor db) in
    (\<forall>h. fmlookup (v_blocks db') h =
       (if (anchor, h) \<in> (parent (v_blocks db))\<^sup>+ then fmlookup (v_blocks db) h else None)) \<and>
    v_selected_chain db' = filter (\<lambda>h. (anchor, h) \<in> (parent (v_blocks db))\<^sup>+) (v_selected_chain db) \<and>
    snd (prune_unreachable_from crc ord anchor db) =
      card {h. has_block h db \<and> (anchor, h) \<notin> (parent (v_blocks db))\<^sup>+}"
  using vol_reachable_inv [OF assms] prune_fields [of db crc ord anchor]
  by (simp add: vol_inv_def Let_def descends_def [abs_def])


theorem prune_keeps_descendants_witness:
  "vol_reachable no_crc sample_db \<and>
   v_selected_chain (fst (prune_unreachable_from no_crc ascending 1 sample_db)) = [2] \<and>
   \<not> has_block 1 (fst (prune_unreachable_from no_crc ascending 1 sample_db))"
proof -
  have "grounded (v_blocks sample_db)"
    using vol_reachable_inv [OF sample_reachable] by (simp add: vol_inv_def vol_linked_def)
  then have "(1, 1) \<notin> (parent (v_blocks sample_db))\<^sup>+" by (auto simp: grounded_def acyclic_def)
  moreover have "(1, 2) \<in> (parent (v_blocks sample_db))\<^sup>+"
    by (rule trancl.r_into_trancl) (simp add: parent_def sample_fields sample_blocks_def sample_block_def)
  ultimately show ?thesis
    using prune_keeps_descendants [OF sample_reachable, of ascending 1] sample_reachable
    by (auto simp: Let_def has_block_def sample_fields(2))
qed


section \<open>The tip\<close>

definition tip_current :: "volatile_db \<Rightarrow> bool" where
  "tip_current db \<longleftrightarrow> v_tip db = tip_of (v_blocks db) (v_selected_chain db)"



lemma tip_current_wal [simp]:
  "tip_current (rewrite_wal crc ord db) = tip_current db"
  "tip_current (compact_wal crc ord db) = tip_current db"
  "tip_current (maybe_compact_wal crc ord db) = tip_current db"
  "tip_current (log_block crc wb db) = tip_current db"
  "tip_current (cache_header h hdr db) = tip_current db"
  by (simp_all add: tip_current_def rewrite_wal_def compact_wal_def maybe_compact_wal_def log_block_def
      cache_header_def split: option.split)


lemma tip_current_select [simp]: "tip_current (select_chain c db)"
  by (simp add: tip_current_def select_chain_def recompute_tip_def)










text \<open>C36: Pruning everything that is selected leaves the tip at a block that is no longer stored.\<close>

theorem pruned_tip_stale:
  assumes "vol_reachable crc db" and "tip_current db" and "v_selected_chain db \<noteq> []"
    and "\<forall>h\<in>set (v_selected_chain db). (anchor, h) \<notin> (parent (v_blocks db))\<^sup>+"
  shows "\<exists>slot h n. v_tip (fst (prune_unreachable_from crc ord anchor db)) = Some (slot, h, n) \<and>
     \<not> has_block h (fst (prune_unreachable_from crc ord anchor db))"
proof -
  have ok: "vol_ok db" using vol_reachable_inv [OF assms(1)] by (simp add: vol_inv_def)
  let ?h = "last (v_selected_chain db)"
  from vol_ok_stored [OF ok] last_in_set [OF assms(3)] obtain b where b: "fmlookup (v_blocks db) ?h = Some b"
    unfolding stored_def by blast
  moreover have "\<not> descends (v_blocks db) anchor ?h" using assms(4) last_in_set [OF assms(3)] by (simp add: descends_def)
  ultimately show ?thesis
    using assms(2,3) by (simp add: prune_fields [OF ok] tip_current_def tip_of_def has_block_def)
qed

theorem pruned_tip_stale_witness:
  "v_tip (fst (prune_unreachable_from no_crc ascending 9 sample_db)) = Some (20, 2, 2) \<and>
   (\<exists>slot h n. v_tip (fst (prune_unreachable_from no_crc ascending 9 sample_db)) = Some (slot, h, n) \<and>
     \<not> has_block h (fst (prune_unreachable_from no_crc ascending 9 sample_db)))"
proof -
  have ok: "vol_ok sample_db" using vol_reachable_inv [OF sample_reachable] by (simp add: vol_inv_def)
  have t: "tip_current sample_db"
    by (simp add: tip_current_def tip_of_def sample_fields) (simp add: sample_blocks_def sample_block_def)
  have "(9, h) \<notin> parent (v_blocks sample_db)" for h
    by (auto simp: sample_fields sample_blocks_def sample_block_def parent_def split: if_splits)
  then have "(9, h) \<notin> (parent (v_blocks sample_db))\<^sup>+" for h
    by (meson tranclD)
  then show ?thesis
    using pruned_tip_stale [OF sample_reachable t, of 9 ascending] by (simp add: sample_fields prune_fields [OF ok])
qed


section \<open>Opening\<close>

lemma finite_parent: "finite (parent bs)"
proof (rule finite_subset)
  show "parent bs \<subseteq> (\<lambda>h. (vb_prev_hash (the (fmlookup bs h)), h)) ` fset (fmdom bs)"
    by (force simp: parent_def fmlookup_dom_iff)
qed simp

lemma childless_exists:
  assumes "grounded bs" and "bs \<noteq> fmempty"
  shows "\<exists>h b. fmlookup bs h = Some b \<and> (\<forall>c. (h, c) \<notin> parent bs)"
proof -
  from assms(2) obtain h b where h: "fmlookup bs h = Some b" by (metis fmap_ext fmempty_lookup not_None_eq)
  have "wf ((parent bs)\<inverse>)"
    using finite_acyclic_wf_converse [OF finite_parent] assms(1) by (simp add: grounded_def)
  moreover have "h \<in> {h. fmlookup bs h \<noteq> None}" using h by simp
  ultimately obtain z where z: "z \<in> {h. fmlookup bs h \<noteq> None}"
    and min: "\<And>y. (y, z) \<in> (parent bs)\<inverse> \<Longrightarrow> y \<notin> {h. fmlookup bs h \<noteq> None}"
    by (rule wfE_min) blast
  have "(z, y) \<notin> parent bs" for y using min [of y] by (auto simp: parent_def)
  with z show ?thesis by auto
qed

lemma leaf_tips_childless:
  assumes "vol_ok db"
  shows "set (get_leaf_tips ord db) = {(h, vb_slot b, vb_block_no b) |h b.
     fmlookup (v_blocks db) h = Some b \<and> (\<forall>c. (h, c) \<notin> parent (v_blocks db))}"
proof -
  have "no_successors (v_successors db) h \<longleftrightarrow> (\<forall>c. (h, c) \<notin> parent (v_blocks db))" for h
    using assms by (auto simp: vol_ok_def vol_indexes_def succ_inv_def parent_def no_successors_iff)
  then show ?thesis by (simp add: set_get_leaf_tips)
qed

text \<open>C11: Rebuilding selects the chain of a block that nothing builds on and whose number is greatest,
  the longer stored chain and then the greater hash deciding among equal numbers; the iteration order
  of the hash tables does not matter, and only an empty store has an empty selection.\<close>

theorem rebuild_selects_best:
  assumes "vol_reachable crc db"
  shows "rebuild_selected_chain ord db = rebuild_selected_chain ord' db \<and>
    (if v_blocks db = fmempty then v_selected_chain (rebuild_selected_chain ord db) = []
     else \<exists>h b. fmlookup (v_blocks db) h = Some b \<and> (\<forall>c. (h, c) \<notin> parent (v_blocks db)) \<and>
       v_selected_chain (rebuild_selected_chain ord db) = walk_chain_back h db \<and>
       (\<forall>h' b'. fmlookup (v_blocks db) h' = Some b' \<and> (\<forall>c. (h', c) \<notin> parent (v_blocks db)) \<longrightarrow>
          (vb_block_no b', length (walk_chain_back h' db), h') \<le> (vb_block_no b, length (walk_chain_back h db), h)))"
proof (cases "v_blocks db = fmempty")
  case True
  then have "get_leaf_tips ord db = []" using set_get_leaf_tips [of ord db] by auto
  then have "v_selected_chain (rebuild_selected_chain ord db) = []"
    by (simp add: rebuild_selected_chain_def select_chain_def recompute_tip_def)
  with True rebuild_deterministic show ?thesis by simp
next
  case False
  have ok: "vol_ok db" "grounded (v_blocks db)"
    using vol_reachable_inv [OF assms] by (simp_all add: vol_inv_def vol_linked_def)
  note tips = leaf_tips_childless [OF ok(1), of ord]
  have "get_leaf_tips ord db \<noteq> []" using childless_exists [OF ok(2) False] tips by fastforce
  from rebuild_selects [OF this] obtain t where t: "t \<in> set (get_leaf_tips ord db)"
    and c: "v_selected_chain (rebuild_selected_chain ord db) = fst (tip_chain db t)"
    and m: "\<forall>t'\<in>set (get_leaf_tips ord db). tip_key db t' \<le> tip_key db t" by blast
  from t obtain h b where h: "t = (h, vb_slot b, vb_block_no b)" "fmlookup (v_blocks db) h = Some b"
    "\<forall>c. (h, c) \<notin> parent (v_blocks db)" unfolding tips by blast
  have "(vb_block_no b', length (walk_chain_back h' db), h') \<le> (vb_block_no b, length (walk_chain_back h db), h)"
    if "fmlookup (v_blocks db) h' = Some b'" "\<forall>c. (h', c) \<notin> parent (v_blocks db)" for h' b'
  proof -
    from that have "(h', vb_slot b', vb_block_no b') \<in> set (get_leaf_tips ord db)" unfolding tips by blast
    with m have "tip_key db (h', vb_slot b', vb_block_no b') \<le> tip_key db t" by blast
    then show ?thesis by (auto simp: tip_key_def h(1))
  qed
  moreover have "v_selected_chain (rebuild_selected_chain ord db) = walk_chain_back h db"
    using c by (simp add: tip_chain_def h(1))
  ultimately show ?thesis
    using False h(2,3) rebuild_deterministic [of ord db ord'] by (simp only: if_False) blast
qed


theorem rebuild_selects_best_witness:
  "vol_reachable no_crc sample_db \<and>
   (\<exists>h b. fmlookup (v_blocks sample_db) h = Some b \<and>
      v_selected_chain (rebuild_selected_chain descending sample_db) = walk_chain_back h sample_db \<and> 3 \<le> vb_block_no b)"
proof -
  have l: "fmlookup (v_blocks sample_db) 4 = Some (sample_block 3 3)" "\<forall>c. (4, c) \<notin> parent (v_blocks sample_db)"
    by (auto simp: sample_fields sample_blocks_def sample_block_def parent_def split: if_splits)
  then have n: "v_blocks sample_db \<noteq> fmempty" by auto
  have "vb_block_no (sample_block 3 3) = 3" by (simp add: sample_block_def)
  moreover from rebuild_selects_best [OF sample_reachable, of descending descending] n
  obtain h b where h: "fmlookup (v_blocks sample_db) h = Some b"
    "v_selected_chain (rebuild_selected_chain descending sample_db) = walk_chain_back h sample_db"
    "(vb_block_no (sample_block 3 3), length (walk_chain_back 4 sample_db), 4) \<le>
       (vb_block_no b, length (walk_chain_back h sample_db), h)"
    using l by (simp only: if_False) blast
  ultimately have "3 \<le> vb_block_no b" by auto
  with h(1,2) sample_reachable show ?thesis by blast
qed

lemma replay_wal_clean:
  assumes "vol_wal_holds crc data bs" and "\<not> detect_legacy_format data"
  shows "vol_replay_wal crc (Some data) = map entry_of bs"
proof (cases bs)
  case Nil
  with assms(1) show ?thesis by (simp add: vol_wal_holds_def vol_replay_wal_def)
next
  case (Cons b bs')
  then have "wal_fits b" "0 < length (wal_record crc b)" using assms(1) by (auto simp: vol_wal_holds_def)
  with replay_wal_holds [OF assms(1), of b 0] Cons assms(2) show ?thesis by simp
qed

lemma vol_open_wal: "v_wal (vol_open crc ord (Some data)) = Some data"
  by (simp add: vol_open_def Let_def)

text \<open>The current format: not an older one, and with CRC trailers if there is anything.\<close>

definition current_format :: "crc32 \<Rightarrow> byte list \<Rightarrow> bool" where
  "current_format crc data \<longleftrightarrow> \<not> detect_legacy_format data \<and> (data = [] \<or> detect_crc_format crc data)"

lemma vol_open_logged:
  assumes "current_format crc data"
  shows "vol_logged crc (\<exists>bs. vol_wal_holds crc data bs) (v_blocks (vol_open crc ord (Some data))) (vol_open crc ord (Some data))"
proof (cases "\<exists>bs. vol_wal_holds crc data bs")
  case True
  then obtain bs where bs: "vol_wal_holds crc data bs" by blast
  have "\<not> detect_legacy_format data" using assms by (simp add: current_format_def)
  then have "v_blocks (vol_open crc ord (Some data)) = logged_map bs"
    using replay_wal_clean [OF bs] by (simp add: vol_open_blocks logged_map_def)
  with bs show ?thesis
    by (auto simp: vol_logged_def vol_open_wal vol_wal_holds_def log_has_def intro!: exI [of _ bs])
next
  case False
  have "vol_wal_holds crc [] []" by (simp add: vol_wal_holds_def)
  with False have "data \<noteq> []" by blast
  with assms have "vol_replay_wal crc (Some data) = replay_loop crc False True data 0"
    by (intro replay_wal_checked) (auto simp: current_format_def)
  moreover obtain bs tail where "data = concat (map (wal_record crc) bs) @ tail" "\<forall>b\<in>set bs. wal_fits b"
    "replay_loop crc False True data 0 = map entry_of bs" using replay_loop_prefix by blast
  ultimately have "v_blocks (vol_open crc ord (Some data)) = logged_map bs"
    "data = concat (map (wal_record crc) bs) @ tail" "\<forall>b\<in>set bs. wal_fits b"
    by (simp_all add: vol_open_blocks logged_map_def)
  with False show ?thesis by (auto simp: vol_logged_def vol_open_wal log_has_def)
qed

lemma entry_map_agree:
  assumes "entries_agree es" and "e \<in> set es"
  shows "fmlookup (entry_map m es) (we_hash e) = Some (snd (block_of_entry e))"
proof -
  have "fst (block_of_entry e) \<in> fst ` set (rev (map block_of_entry es))" using assms(2) by force
  then obtain b where b: "map_of (rev (map block_of_entry es)) (we_hash e) = Some b"
    by (metis block_of_entry_def fst_conv map_of_eq_None_iff not_None_eq)
  then have "(we_hash e, b) \<in> block_of_entry ` set es" by (fastforce dest: map_of_SomeD)
  then obtain e' where "e' \<in> set es" "block_of_entry e' = (we_hash e, b)" by (metis imageE)
  moreover from this have "we_hash e' = we_hash e" by (simp add: block_of_entry_def)
  ultimately have "block_of_entry e = (we_hash e, b)" using assms unfolding entries_agree_def by metis
  with b show ?thesis by (simp add: entry_map_lookup)
qed

text \<open>Entries at the start of a log are read back, whatever follows, if entries of one hash agree.\<close>

lemma replay_prefix_recovers:
  assumes "\<forall>b\<in>set bs. wal_fits b" and "\<not> detect_legacy_format (concat (map (wal_record crc) bs) @ rest)"
    and "entries_agree (vol_replay_wal crc (Some (concat (map (wal_record crc) bs) @ rest)))"
    and "fmlookup (logged_map bs) h = Some b"
  shows "fmlookup (v_blocks (vol_open crc ord (Some (concat (map (wal_record crc) bs) @ rest)))) h = Some b"
proof -
  let ?d = "concat (map (wal_record crc) bs) @ rest"
  from assms(4) have "(h, b) \<in> block_of_entry ` set (map entry_of bs)"
    by (auto simp: logged_map_def entry_map_lookup split: option.splits dest!: map_of_SomeD)
  then obtain e where e: "e \<in> set (map entry_of bs)" "block_of_entry e = (h, b)" by (metis imageE)
  then obtain c cs where bs: "bs = c # cs" by (cases bs) auto
  then have "detect_crc_format crc ?d" using assms(1) detect_crc_record [of c crc] by simp
  moreover have "?d \<noteq> []" using length_wal_record [of crc c] by (auto simp: bs simp del: length_wal_record)
  ultimately have "vol_replay_wal crc (Some ?d) = map entry_of bs @ replay_loop crc False True rest 0"
    using assms(2) replay_loop_records [OF assms(1), of crc rest] by (simp add: replay_wal_checked)
  then have "e \<in> set (vol_replay_wal crc (Some ?d))" using e(1) by simp
  from entry_map_agree [OF assms(3) this] e(2) show ?thesis
    by (simp add: vol_open_blocks block_of_entry_def)
qed

text \<open>C7: Open a log of the current format, whatever it ends with; run any operations; and open the log
  again after a crash in the middle of an append.  Every stored block is given back if the log was
  intact when it was first opened; otherwise every stored block that was read from it then is, as long
  as entries of one hash are the same block.  The log must not look like one of the oldest format.\<close>

theorem reopen_recovers:
  assumes "current_format crc start" and "vol_runs crc (vol_open crc ord (Some start)) db" and "v_wal db = Some data"
    and "wal_fits w" and "n < length (wal_record crc w)" and "\<not> detect_legacy_format (data @ take n (wal_record crc w))"
    and "fmlookup (v_blocks db) h = Some b"
    and "(\<exists>bs. vol_wal_holds crc start bs) \<or>
      fmlookup (v_blocks (vol_open crc ord (Some start))) h = Some b \<and>
      entries_agree (vol_replay_wal crc (Some (data @ take n (wal_record crc w))))"
  shows "fmlookup (v_blocks (vol_open crc ord' (Some (data @ take n (wal_record crc w))))) h = Some b"
proof -
  let ?i = "\<exists>bs. vol_wal_holds crc start bs" and ?m = "v_blocks (vol_open crc ord (Some start))"
  from vol_runs_logged [OF assms(2) vol_open_logged [OF assms(1)]] assms(3) obtain bs tail where
    bs: "\<forall>b\<in>set bs. wal_fits b" "data = concat (map (wal_record crc) bs) @ tail"
    and has: "tail = [] \<and> log_has bs (v_blocks db) \<or> \<not> ?i \<and> log_has bs ?m"
    unfolding vol_logged_def by blast
  show ?thesis
  proof (cases "tail = [] \<and> log_has bs (v_blocks db)")
    case True
    then have l: "fmlookup (logged_map bs) h = Some b" and "vol_wal_holds crc data bs"
      using assms(7) bs by (auto simp: log_has_def vol_wal_holds_def)
    moreover from l have "bs \<noteq> []" by (auto simp: logged_map_def entry_map_def)
    ultimately show ?thesis
      using replay_wal_holds [OF _ _ assms(4-6)] by (simp add: vol_open_blocks logged_map_def)
  next
    case False
    with has assms(8) have "fmlookup (logged_map bs) h = Some b"
      "entries_agree (vol_replay_wal crc (Some (data @ take n (wal_record crc w))))" by (auto simp: log_has_def)
    with replay_prefix_recovers [OF bs(1), of crc "tail @ take n (wal_record crc w)"] assms(6) bs(2)
    show ?thesis by simp
  qed
qed

text \<open>A store with a log.\<close>

definition logged_db :: volatile_db where
  "logged_db = fst (add_block_gated no_crc ascending 1 (sample_block 0 1) True (vol_open no_crc ascending (Some [])))"

lemma open_empty_log: "vol_open no_crc ascending (Some []) = vol_new\<lparr>v_wal := Some []\<rparr>"
  by (simp add: vol_open_def Let_def vol_replay_wal_def) (simp add: vol_new_def)

lemma logged_db_fields:
  "v_blocks logged_db = fmupd 1 (sample_block 0 1) fmempty"
  "v_wal logged_db = Some (wal_record no_crc (wal_block_of 1 (sample_block 0 1)))"
  by (simp_all add: logged_db_def open_empty_log add_block_gated_def add_block_def insert_block_internal_def Let_def
      maybe_compact_wal_def log_block_def wal_append_def wal_block_cbor_def wal_block_of_def sample_block_def vol_new_def)

lemma logged_db_runs: "vol_runs no_crc (vol_open no_crc ascending (Some [])) logged_db"
proof -
  have "vol_step no_crc (vol_open no_crc ascending (Some [])) logged_db"
    unfolding logged_db_def
  proof (rule vol_step.add)
    show "grounded (fmupd 1 (sample_block 0 1) (v_blocks (vol_open no_crc ascending (Some []))))"
      by (rule grounded_rank [of _ unat]) (auto simp: open_empty_log vol_new_def sample_block_def split: if_splits)
  qed (simp_all add: open_empty_log has_block_def vol_new_def sample_block_def)
  then show ?thesis unfolding vol_runs_def by (intro r_into_rtranclp) blast
qed

lemma hash_bytes_zero: "hash_bytes 0 = replicate 32 0"
proof -
  have "le_bytes n 0 = replicate n 0" for n by (induction n) simp_all
  then show ?thesis by (simp add: hash_bytes_def be_bytes_def)
qed

lemma logged_db_not_legacy:
  "\<not> detect_legacy_format (wal_record no_crc (wal_block_of 1 (sample_block 0 1)) @ rest)"
proof (rule detect_legacy_record)
  let ?b = "wal_block_of 1 (sample_block 0 1)"
  have "be_nat (take 4 (hash_bytes (fst (snd (snd (snd ?b)))))) = 0"
    by (simp add: wal_block_of_def sample_block_def hash_bytes_zero be_nat_def)
      (simp add: numeral_eq_Suc)
  moreover have "byte_slice (wal_record no_crc ?b @ rest) 56 4 = replicate 4 0"
    by (simp add: wal_record_def wal_header_def wal_block_of_def sample_block_def Let_def byte_slice_def hash_bytes_zero)
  moreover have "replicate 4 0 \<noteq> vwal_magic" by code_simp
  ultimately show "\<not> legacy_lookalike no_crc ?b rest" by (simp add: legacy_lookalike_def)
qed

theorem reopen_recovers_witness:
  "fmlookup (v_blocks (vol_open no_crc descending (Some (wal_record no_crc (wal_block_of 1 (sample_block 0 1)) @
     take 50 (wal_record no_crc (wal_block_of 2 (sample_block 1 2))))))) 1 = Some (sample_block 0 1)"
proof -
  have f: "wal_fits (wal_block_of 2 (sample_block 1 2))"
    and n: "50 < length (wal_record no_crc (wal_block_of 2 (sample_block 1 2)))"
    by (simp_all add: wal_fits_def wal_block_of_def sample_block_def wal_block_cbor_def)
  have "current_format no_crc []" by (simp add: current_format_def detect_legacy_format_def wal_sizes)
  moreover have "vol_wal_holds no_crc [] []" by (simp add: vol_wal_holds_def)
  ultimately show ?thesis
    by (intro reopen_recovers [OF _ logged_db_runs logged_db_fields(2) f n logged_db_not_legacy])
      (auto simp: logged_db_fields)
qed

text \<open>An entry cut off within its magic hides whatever follows it.\<close>

lemma torn_magic: "0 < n \<Longrightarrow> n < 4 \<Longrightarrow> take n vwal_magic @ take (4 - n) vwal_magic \<noteq> vwal_magic"
proof -
  assume "0 < n" "n < 4"
  then have "n \<in> {1, 2, 3}" by auto
  moreover have "\<forall>n\<in>{1, 2, 3}. take n vwal_magic @ take (4 - n) vwal_magic \<noteq> vwal_magic" by code_simp
  ultimately show ?thesis by blast
qed

lemma replay_loop_hidden:
  assumes "0 < n" and "n < 4"
  shows "replay_loop crc legacy checked (take n (wal_record crc w) @ wal_record crc w' @ rest) 0 = []"
proof -
  have r: "\<exists>t. wal_record crc x = vwal_magic @ t" for x
    by (cases x) (simp add: wal_record_def wal_header_def Let_def)
  obtain t t' where "wal_record crc w = vwal_magic @ t" "wal_record crc w' = vwal_magic @ t'" using r by blast
  then have "byte_slice (take n (wal_record crc w) @ wal_record crc w' @ rest) 0 4 =
      take n vwal_magic @ take (4 - n) vwal_magic"
    using assms by (simp add: byte_slice_def min_def)
  then show ?thesis
    using torn_magic [OF assms] by (subst replay_loop.simps) (simp add: Let_def)
qed

lemma replay_wal_hidden:
  assumes "vol_wal_holds crc data bs" and "bs \<noteq> []" and "0 < n" and "n < 4"
    and "\<not> detect_legacy_format (data @ take n (wal_record crc w) @ wal_record crc w')"
  shows "vol_replay_wal crc (Some (data @ take n (wal_record crc w) @ wal_record crc w')) = map entry_of bs"
proof -
  let ?t = "take n (wal_record crc w) @ wal_record crc w'"
  obtain c cs where bs: "bs = c # cs" using assms(2) by (cases bs) auto
  have f: "data = concat (map (wal_record crc) bs)" and fits: "\<forall>b\<in>set bs. wal_fits b"
    using assms(1) by (simp_all add: vol_wal_holds_def)
  have "detect_crc_format crc (data @ ?t)"
    using fits detect_crc_record [of c crc "concat (map (wal_record crc) cs) @ ?t"] by (simp add: f bs)
  moreover have "data @ ?t \<noteq> []" using length_wal_record [of crc c] by (auto simp: f bs simp del: length_wal_record)
  ultimately have "vol_replay_wal crc (Some (data @ ?t)) = replay_loop crc False True (data @ ?t) 0"
    using assms(5) by (intro replay_wal_checked)
  then show ?thesis
    using replay_loop_records [OF fits, of crc ?t] replay_loop_hidden [OF assms(3,4), of crc False True w w' "[]"]
    by (simp add: f)
qed

text \<open>C37: A log whose last entry was cut off within its first bytes is opened as it is, so a block added
  after that is stored, and is missing when the log is opened again.\<close>

theorem torn_tail_hides_appends:
  assumes "vol_wal_holds crc data bs" and "bs \<noteq> []" and "0 < n" and "n < 4" and "wal_fits (wal_block_of h b)"
    and "\<not> detect_legacy_format (data @ take n (wal_record crc w))"
    and "\<not> detect_legacy_format (data @ take n (wal_record crc w) @ wal_record crc (wal_block_of h b))"
    and "h \<notin> (\<lambda>x. we_hash (entry_of x)) ` set bs" and "length data + n \<le> 400 * 1024 * 1024"
  shows "let db = fst (add_block crc ord h b (vol_open crc ord (Some (data @ take n (wal_record crc w)))))
    in has_block h db \<and> \<not> has_block h (vol_open crc ord (v_wal db))"
proof -
  let ?o = "vol_open crc ord (Some (data @ take n (wal_record crc w)))"
  let ?f = "data @ take n (wal_record crc w) @ wal_record crc (wal_block_of h b)"
  have "v_wal_size_floor (foldl replay_entry d es) = v_wal_size_floor d" for d es
    by (induction es arbitrary: d) (simp_all add: replay_entry_def insert_block_internal_def Let_def)
  then have fl: "v_wal_size_floor ?o = 0"
    by (simp add: vol_open_def Let_def rebuild_selected_chain_def select_chain_def recompute_tip_def vol_new_def)
  have "unat (word_of_nat m :: u64) \<le> m" for m by (simp add: unat_of_nat)
  moreover have "length (data @ take n (wal_record crc w)) \<le> unat wal_slack"
    using assms(4,9) by (simp add: wal_slack_def)
  ultimately have "unat (word_of_nat (length (data @ take n (wal_record crc w))) :: u64) \<le> unat wal_slack"
    using order_trans by blast
  then have "maybe_compact_wal crc ord ?o = ?o"
    using fl by (simp add: maybe_compact_wal_def vol_open_wal u64_sat_add_def word_less_nat_alt wal_slack_def u64_max_def)
  then have w: "v_wal (fst (add_block crc ord h b ?o)) = Some ?f"
    and "has_block h (fst (add_block crc ord h b ?o))"
    using assms(5) by (auto simp: add_block_def log_block_def vol_open_wal wal_append_def wal_fits_def has_block_def)
  moreover have "fmlookup (logged_map bs) h = None"
    using assms(8) by (auto simp: logged_map_def entry_map_lookup block_of_entry_def map_of_eq_None_iff split: option.split)
  then have "\<not> has_block h (vol_open crc ord (Some ?f))"
    by (simp add: has_block_def vol_open_blocks replay_wal_hidden [OF assms(1-4,7)] flip: logged_map_def)
  ultimately show ?thesis by (simp add: Let_def)
qed


theorem torn_tail_hides_appends_witness:
  "let db = fst (add_block no_crc ascending 2 (sample_block 1 2)
       (vol_open no_crc ascending (Some (wal_record no_crc (wal_block_of 1 (sample_block 0 1)) @
          take 3 (wal_record no_crc (wal_block_of 9 (sample_block 1 2)))))))
   in has_block 2 db \<and> \<not> has_block 2 (vol_open no_crc ascending (v_wal db))"
proof (rule torn_tail_hides_appends [OF _ _ _ _ _ logged_db_not_legacy logged_db_not_legacy])
  show "vol_wal_holds no_crc (wal_record no_crc (wal_block_of 1 (sample_block 0 1))) [wal_block_of 1 (sample_block 0 1)]"
    by (simp add: vol_wal_holds_def wal_fits_def wal_block_of_def sample_block_def wal_block_cbor_def)
qed (simp_all add: wal_fits_def wal_block_of_def sample_block_def wal_block_cbor_def entry_of_def)

end
