(* ===== verification/Chain_Loe.thy ===== *)
theory Chain_Loe
  imports Vol_Machine
begin

text \<open>
  The Limit on Eagerness (\<^verbatim>\<open>loe.rs\<close>, \<^verbatim>\<open>loe_trim.rs\<close>): how far past the fragment that all peers
  agree on a candidate chain may be adopted.
\<close>

record loe_point =
  lp_slot :: u64
  lp_hash :: hash32

datatype loe_state =
    LoeDisabled
  | LoeSelectionTip u64
  | LoeFragment "loe_point option" "loe_point list" u64

definition loe_fragment_tip :: "loe_state \<Rightarrow> loe_point option" where
  "loe_fragment_tip s = (case s of
     LoeFragment anchor entries k \<Rightarrow> if entries = [] then anchor else Some (last entries)
   | _ \<Rightarrow> None)"

definition loe_is_disabled :: "loe_state \<Rightarrow> bool" where
  "loe_is_disabled s \<longleftrightarrow> s = LoeDisabled"

record loe_view =
  lv_source_ptr :: nat
  lv_disabled :: bool
  lv_members :: "hash32 fset"
  lv_tip_hash :: "hash32 option"
  lv_k :: u64

definition loe_view_build :: "loe_state \<Rightarrow> nat \<Rightarrow> loe_view" where
  "loe_view_build s ptr = (case s of
     LoeDisabled \<Rightarrow>
       \<lparr>lv_source_ptr = ptr, lv_disabled = True, lv_members = {||}, lv_tip_hash = None, lv_k = u64_max\<rparr>
   | LoeSelectionTip k \<Rightarrow>
       \<lparr>lv_source_ptr = ptr, lv_disabled = False, lv_members = {||}, lv_tip_hash = None, lv_k = k\<rparr>
   | LoeFragment anchor entries k \<Rightarrow>
       \<lparr>lv_source_ptr = ptr, lv_disabled = False,
        lv_members = (case anchor of
            None \<Rightarrow> fset_of_list (map lp_hash entries)
          | Some a \<Rightarrow> finsert (lp_hash a) (fset_of_list (map lp_hash entries))),
        lv_tip_hash = (if entries = [] then map_option lp_hash anchor else Some (lp_hash (last entries))),
        lv_k = k\<rparr>)"

definition loe_is_member :: "loe_view \<Rightarrow> hash32 \<Rightarrow> bool" where
  "loe_is_member v h \<longleftrightarrow> h |\<in>| lv_members v"

definition loe_is_tip :: "loe_view \<Rightarrow> hash32 \<Rightarrow> bool" where
  "loe_is_tip v h \<longleftrightarrow> lv_tip_hash v = Some h"

datatype loe_verdict = Allowed | TrimmedTo hash32 | Deferred

text \<open>The walk back from a candidate, with the window of the last \<open>k\<close> blocks visited.\<close>

function loe_walk :: "loe_view \<Rightarrow> block_map \<Rightarrow> nat \<Rightarrow> nat \<Rightarrow> hash32 list \<Rightarrow> hash32 \<Rightarrow> loe_verdict" where
  "loe_walk v bs cap depth window cur =
     (case fmlookup bs cur of
        None \<Rightarrow> Deferred
      | Some b \<Rightarrow>
          let window = (if 0 < lv_k v \<and> length window = unat (lv_k v) then tl window else window) @ [cur];
              depth = depth + 1;
              parent_h = vb_prev_hash b;
              gone = (fmlookup bs parent_h = None);
              tip_hit = (loe_is_tip v parent_h \<or> (lv_tip_hash v = None \<and> gone));
              anchor_exit = (\<not> tip_hit \<and> lv_members v = {||} \<and> \<not> loe_is_member v parent_h \<and> gone)
          in if tip_hit \<or> anchor_exit then
               (if depth \<le> unat (lv_k v) then Allowed
                else if 0 < lv_k v then TrimmedTo (hd window) else Deferred)
             else if loe_is_member v parent_h then Deferred
             else if gone then Deferred
             else if cap \<le> depth then Deferred
             else loe_walk v bs cap depth window parent_h)"
  by pat_completeness auto
termination
  by (relation "measure (\<lambda>(v, bs, cap, depth, window, cur). cap - depth)") auto

declare loe_walk.simps [simp del]

definition loe_verdict_for_candidate :: "volatile_db \<Rightarrow> hash32 \<Rightarrow> loe_view \<Rightarrow> loe_verdict" where
  "loe_verdict_for_candidate db candidate_tip v =
     (if lv_disabled v then Allowed
      else if loe_is_member v candidate_tip then Allowed
      else loe_walk v (v_blocks db) (fcard (fmdom (v_blocks db)) + 1) 0 [] candidate_tip)"

function loe_depth :: "loe_view \<Rightarrow> block_map \<Rightarrow> nat \<Rightarrow> nat \<Rightarrow> hash32 \<Rightarrow> nat option" where
  "loe_depth v bs cap depth cur =
     (case fmlookup bs cur of
        None \<Rightarrow> None
      | Some b \<Rightarrow>
          let parent_h = vb_prev_hash b; gone = (fmlookup bs parent_h = None)
          in if loe_is_tip v parent_h \<or> (lv_tip_hash v = None \<and> gone) then Some depth
             else if loe_is_member v parent_h then None
             else if gone then (if lv_members v = {||} then Some depth else None)
             else if cap < depth + 1 then None
             else loe_depth v bs cap (depth + 1) parent_h)"
  by pat_completeness auto
termination
  by (relation "measure (\<lambda>(v, bs, cap, depth, cur). Suc cap - depth)") auto

declare loe_depth.simps [simp del]

definition depth_past_loe_tip :: "volatile_db \<Rightarrow> hash32 \<Rightarrow> loe_view \<Rightarrow> nat option" where
  "depth_past_loe_tip db h v =
     (if loe_is_member v h then Some 0
      else loe_depth v (v_blocks db)
             (unat (u64_sat_add (u64_sat_add (lv_k v) (word_of_nat (fcard (lv_members v)))) 2)) 1 h)"

definition loe_allows_extension :: "volatile_db \<Rightarrow> hash32 \<Rightarrow> hash32 \<Rightarrow> loe_view \<Rightarrow> bool" where
  "loe_allows_extension db new_hash new_prev v =
     (if lv_disabled v then True
      else if loe_is_member v new_hash then True
      else if loe_is_tip v new_prev \<or> (lv_tip_hash v = None \<and> \<not> has_block new_prev db) then 1 \<le> lv_k v
      else if loe_is_member v new_prev then False
      else case depth_past_loe_tip db new_prev v of None \<Rightarrow> False | Some d \<Rightarrow> d < unat (lv_k v))"


section \<open>How far a candidate is past the agreed fragment\<close>

text \<open>The parent hash at which a walk meets the tip of the fragment, or leaves the store below an
  empty fragment.\<close>

definition loe_hit :: "loe_view \<Rightarrow> block_map \<Rightarrow> hash32 \<Rightarrow> bool" where
  "loe_hit v bs p \<longleftrightarrow> loe_is_tip v p \<or>
     ((lv_tip_hash v = None \<or> lv_members v = {||}) \<and> fmlookup bs p = None)"

inductive past_loe :: "loe_view \<Rightarrow> block_map \<Rightarrow> hash32 \<Rightarrow> nat \<Rightarrow> bool" for v bs where
  hit: "fmlookup bs h = Some b \<Longrightarrow> loe_hit v bs (vb_prev_hash b) \<Longrightarrow> past_loe v bs h (Suc 0)"
| step: "fmlookup bs h = Some b \<Longrightarrow> \<not> loe_hit v bs (vb_prev_hash b) \<Longrightarrow>
     \<not> loe_is_member v (vb_prev_hash b) \<Longrightarrow> past_loe v bs (vb_prev_hash b) d \<Longrightarrow> past_loe v bs h (Suc d)"

inductive_cases past_loeE: "past_loe v bs h d"

text \<open>The ancestor a number of blocks back.\<close>

fun ancestor :: "block_map \<Rightarrow> nat \<Rightarrow> hash32 \<Rightarrow> hash32 option" where
  "ancestor bs 0 h = Some h"
| "ancestor bs (Suc n) h = (case fmlookup bs h of None \<Rightarrow> None | Some b \<Rightarrow> ancestor bs n (vb_prev_hash b))"

lemma past_loe_pos: "past_loe v bs h d \<Longrightarrow> 0 < d"
  by (induction rule: past_loe.induct) simp_all

lemma past_loe_stored: "past_loe v bs h d \<Longrightarrow> fmlookup bs h \<noteq> None"
  by (auto elim: past_loe.cases)

lemma past_loe_unique: "past_loe v bs h d \<Longrightarrow> past_loe v bs h d' \<Longrightarrow> d = d'"
proof (induction arbitrary: d' rule: past_loe.induct)
  case (hit h b)
  from hit.prems hit.hyps show ?case by (auto elim: past_loe.cases)
next
  case (step h b d)
  from step.prems step.hyps obtain e where "d' = Suc e" "past_loe v bs (vb_prev_hash b) e"
    by (auto elim: past_loe.cases)
  with step.IH show ?case by simp
qed

lemma ancestor_trancl:
  "ancestor bs n h = Some a \<Longrightarrow> 0 < n \<Longrightarrow> (a, h) \<in> (parent bs)\<^sup>+"
proof (induction n arbitrary: h)
  case (Suc n)
  then obtain b where b: "fmlookup bs h = Some b" and a: "ancestor bs n (vb_prev_hash b) = Some a"
    by (auto split: option.splits)
  show ?case
  proof (cases n)
    case 0
    with a parentI [OF b] show ?thesis by auto
  next
    case (Suc m)
    with Suc.IH [OF a] parentI [OF b] show ?thesis by (auto intro: trancl_into_trancl)
  qed
qed simp

lemma ancestor_add: "ancestor bs (m + n) h = Option.bind (ancestor bs m h) (ancestor bs n)"
  by (induction m arbitrary: h) (auto split: option.split)

lemma past_loe_ancestors: "past_loe v bs h d \<Longrightarrow> n < d \<Longrightarrow> \<exists>a. ancestor bs n h = Some a \<and> fmlookup bs a \<noteq> None"
proof (induction arbitrary: n rule: past_loe.induct)
  case (step h b d)
  then show ?case by (cases n) auto
qed auto

lemma past_loe_ancestor:
  "past_loe v bs h d \<Longrightarrow> n < d \<Longrightarrow> \<exists>a. ancestor bs n h = Some a \<and> past_loe v bs a (d - n)"
proof (induction arbitrary: n rule: past_loe.induct)
  case (hit h b)
  then show ?case by (auto intro: past_loe.hit)
next
  case (step h b d)
  then show ?case by (cases n) (auto intro: past_loe.step)
qed

text \<open>Without cycles the walk visits each block once, so the cycle guard is never met.\<close>

lemma past_loe_bound:
  assumes "past_loe v bs h d" and "grounded bs"
  shows "d \<le> fcard (fmdom bs)"
proof -
  let ?a = "\<lambda>n. the (ancestor bs n h)"
  have "inj_on ?a {..<d}"
  proof (rule linorder_inj_onI)
    fix m n assume mn: "m < n" "m \<in> {..<d}" "n \<in> {..<d}"
    from past_loe_ancestors [OF assms(1), of m] past_loe_ancestors [OF assms(1), of n] mn
    obtain a c where a: "ancestor bs m h = Some a" and c: "ancestor bs n h = Some c" by auto
    have "ancestor bs n h = ancestor bs (n - m) a"
      using ancestor_add [of bs m "n - m" h] a mn by simp
    with c mn have "(c, a) \<in> (parent bs)\<^sup>+" by (intro ancestor_trancl) auto
    with assms(2) show "?a m \<noteq> ?a n" using a c by (auto simp: grounded_def acyclic_def)
  qed auto
  moreover have "?a ` {..<d} \<subseteq> fset (fmdom bs)"
    using past_loe_ancestors [OF assms(1)] by (fastforce simp: fmlookup_dom_iff)
  ultimately have "card {..<d} \<le> card (fset (fmdom bs))"
    by (intro card_inj_on_le) auto
  then show ?thesis by (simp add: fcard.rep_eq)
qed


lemma loe_walk_unfold:
  "fmlookup bs cur = Some b \<Longrightarrow>
   loe_walk v bs cap depth window cur =
     (let window = (if 0 < lv_k v \<and> length window = unat (lv_k v) then tl window else window) @ [cur]
      in if loe_hit v bs (vb_prev_hash b) then
           (if Suc depth \<le> unat (lv_k v) then Allowed
            else if 0 < lv_k v then TrimmedTo (hd window) else Deferred)
         else if loe_is_member v (vb_prev_hash b) \<or> fmlookup bs (vb_prev_hash b) = None \<or> cap \<le> Suc depth
         then Deferred else loe_walk v bs cap (Suc depth) window (vb_prev_hash b))"
  by (subst loe_walk.simps) (auto simp: Let_def loe_hit_def loe_is_member_def)

lemma loe_depth_unfold:
  "fmlookup bs cur = Some b \<Longrightarrow>
   loe_depth v bs cap depth cur =
     (if loe_hit v bs (vb_prev_hash b) then Some depth
      else if loe_is_member v (vb_prev_hash b) \<or> fmlookup bs (vb_prev_hash b) = None \<or> cap \<le> depth
      then None else loe_depth v bs cap (Suc depth) (vb_prev_hash b))"
  by (subst loe_depth.simps) (auto simp: Let_def loe_hit_def loe_is_member_def)

text \<open>The window holds the visited blocks, the last \<open>k\<close> of them, so its front is the block the walk
  passed \<open>k\<close> steps ago.\<close>

lemma window_step:
  assumes "window = map a [depth - k..<depth]" and "0 < k"
  shows "(if length window = k then tl window else window) @ [a depth] = map a [Suc depth - k..<Suc depth]"
proof (cases "depth < k")
  case True
  with assms show ?thesis by simp
next
  case False
  then have "Suc depth - k = Suc (depth - k)" by simp
  moreover have "tl [depth - k..<depth] = [Suc (depth - k)..<depth]" by (rule tl_upt)
  moreover have "Suc (depth - k) \<le> depth" using False assms(2) by simp
  ultimately show ?thesis using False assms by (simp flip: map_tl)
qed

lemma loe_walk_past:
  assumes "past_loe v bs cur d" and "depth + d \<le> cap" and "ancestor bs depth c = Some cur"
    and "0 < lv_k v \<longrightarrow> window = map (\<lambda>i. the (ancestor bs i c)) [depth - unat (lv_k v)..<depth]"
  shows "loe_walk v bs cap depth window cur =
    (if depth + d \<le> unat (lv_k v) then Allowed
     else if 0 < lv_k v then TrimmedTo (the (ancestor bs (depth + d - unat (lv_k v)) c)) else Deferred)"
  using assms
proof (induction arbitrary: depth window rule: past_loe.induct)
  case (hit h b)
  let ?a = "\<lambda>i. the (ancestor bs i c)"
  have w: "0 < lv_k v \<Longrightarrow> (if 0 < lv_k v \<and> length window = unat (lv_k v) then tl window else window) @ [h] =
      map ?a [Suc depth - unat (lv_k v)..<Suc depth]"
    using window_step [of window ?a depth "unat (lv_k v)"] hit.prems by (simp add: unat_gt_0)
  have "0 < lv_k v \<Longrightarrow> Suc depth - unat (lv_k v) < Suc depth"
    using unat_gt_0 [of "lv_k v"] by (auto simp: word_neq_0_conv)
  then have "0 < lv_k v \<Longrightarrow> hd (map ?a [Suc depth - unat (lv_k v)..<Suc depth]) = ?a (Suc depth - unat (lv_k v))"
    by (simp add: upt_conv_Cons del: upt_Suc)
  with w hit.hyps show ?case by (simp add: loe_walk_unfold Let_def)
next
  case (step h b d)
  let ?a = "\<lambda>i. the (ancestor bs i c)"
  let ?w = "(if 0 < lv_k v \<and> length window = unat (lv_k v) then tl window else window) @ [h]"
  have w: "0 < lv_k v \<longrightarrow> ?w = map ?a [Suc depth - unat (lv_k v)..<Suc depth]"
    using window_step [of window ?a depth "unat (lv_k v)"] step.prems by (simp add: unat_gt_0)
  have "ancestor bs (Suc depth) c = Some (vb_prev_hash b)"
    using ancestor_add [of bs depth 1 c] step.prems step.hyps by simp
  with step.IH [of "Suc depth" ?w] w step.prems
  have "loe_walk v bs cap (Suc depth) ?w (vb_prev_hash b) =
      (if Suc depth + d \<le> unat (lv_k v) then Allowed
       else if 0 < lv_k v then TrimmedTo (?a (Suc depth + d - unat (lv_k v))) else Deferred)"
    by simp
  moreover have "\<not> cap \<le> Suc depth"
    using step.prems past_loe_pos [OF step.hyps(4)] by simp
  then have "loe_walk v bs cap depth window h = loe_walk v bs cap (Suc depth) ?w (vb_prev_hash b)"
    using loe_walk_unfold [OF step.hyps(1), of v cap depth window] step.hyps(2,3)
      past_loe_stored [OF step.hyps(4)] unfolding Let_def by presburger
  ultimately show ?case by simp
qed

lemma not_past_loe_step:
  assumes "\<nexists>d. past_loe v bs cur d" and "fmlookup bs cur = Some b"
  shows "\<not> loe_hit v bs (vb_prev_hash b)"
    and "loe_is_member v (vb_prev_hash b) \<or> (\<nexists>d. past_loe v bs (vb_prev_hash b) d)"
  using assms by (auto intro: past_loe.intros)

lemma loe_walk_not_past:
  "\<nexists>d. past_loe v bs cur d \<Longrightarrow> loe_walk v bs cap depth window cur = Deferred"
proof (induction "cap - depth" arbitrary: depth window cur rule: less_induct)
  case less
  show ?case
  proof (cases "fmlookup bs cur")
    case None
    then show ?thesis by (subst loe_walk.simps) simp
  next
    case (Some b)
    note st = not_past_loe_step [OF less.prems Some]
    show ?thesis
    proof (cases "loe_is_member v (vb_prev_hash b) \<or> cap \<le> Suc depth")
      case True
      with Some st(1) show ?thesis by (auto simp: loe_walk_unfold Let_def)
    next
      case False
      then have "loe_walk v bs cap (Suc depth) w (vb_prev_hash b) = Deferred" for w
        using less.hyps [of "Suc depth"] st(2) by auto
      with Some st(1) show ?thesis by (simp add: loe_walk_unfold Let_def)
    qed
  qed
qed

lemma loe_depth_past:
  assumes "past_loe v bs cur d" and "depth \<le> cap"
  shows "loe_depth v bs cap depth cur = (if depth + d \<le> Suc cap then Some (depth + d - 1) else None)"
  using assms
proof (induction arbitrary: depth rule: past_loe.induct)
  case (hit h b)
  then show ?case by (simp add: loe_depth_unfold)
next
  case (step h b d)
  from step.hyps past_loe_stored past_loe_pos
  have "fmlookup bs (vb_prev_hash b) \<noteq> None" "0 < d" by blast+
  with step show ?case by (cases "cap \<le> depth") (auto simp: loe_depth_unfold)
qed

lemma loe_depth_not_past: "\<nexists>d. past_loe v bs cur d \<Longrightarrow> loe_depth v bs cap depth cur = None"
proof (induction "Suc cap - depth" arbitrary: depth cur rule: less_induct)
  case less
  show ?case
  proof (cases "fmlookup bs cur")
    case None
    then show ?thesis by (subst loe_depth.simps) simp
  next
    case (Some b)
    note st = not_past_loe_step [OF less.prems Some]
    show ?thesis
    proof (cases "loe_is_member v (vb_prev_hash b) \<or> cap \<le> depth")
      case True
      with Some st(1) show ?thesis by (auto simp: loe_depth_unfold)
    next
      case False
      then have "loe_depth v bs cap (Suc depth) (vb_prev_hash b) = None"
        using less.hyps [of "Suc depth"] st(2) by auto
      with Some st(1) show ?thesis by (simp add: loe_depth_unfold)
    qed
  qed
qed

text \<open>The verdict in terms of the distance.\<close>

lemma loe_verdict_past:
  assumes "grounded (v_blocks db)" and "\<not> lv_disabled v" and "\<not> loe_is_member v c"
    and "past_loe v (v_blocks db) c d"
  shows "loe_verdict_for_candidate db c v =
    (if d \<le> unat (lv_k v) then Allowed
     else if 0 < lv_k v then TrimmedTo (the (ancestor (v_blocks db) (d - unat (lv_k v)) c)) else Deferred)"
  using assms loe_walk_past [OF assms(4), where depth = 0 and window = "[]" and c = c]
    past_loe_bound [OF assms(4,1)]
  by (simp add: loe_verdict_for_candidate_def)

lemma loe_verdict_not_past:
  "\<not> lv_disabled v \<Longrightarrow> \<not> loe_is_member v c \<Longrightarrow> \<nexists>d. past_loe v (v_blocks db) c d \<Longrightarrow>
   loe_verdict_for_candidate db c v = Deferred"
  by (simp add: loe_verdict_for_candidate_def loe_walk_not_past)

lemma loe_verdict_allowed:
  assumes "grounded (v_blocks db)" and "\<not> lv_disabled v" and "\<not> loe_is_member v c"
  shows "loe_verdict_for_candidate db c v = Allowed \<longleftrightarrow>
    (\<exists>d. past_loe v (v_blocks db) c d \<and> d \<le> unat (lv_k v))"
  using loe_verdict_past [OF assms] loe_verdict_not_past [OF assms(2,3)] past_loe_unique
  by (smt (verit) loe_verdict.distinct)

text \<open>A view built from a published state knows its tip whenever it has members.\<close>

lemma loe_view_build_members: "lv_members (loe_view_build s p) = {||} \<Longrightarrow> lv_tip_hash (loe_view_build s p) = None"
  by (cases s) (auto simp: loe_view_build_def fset_of_list.rep_eq bot_fset.rep_eq
      simp flip: fset_inject split: option.splits if_splits)

text \<open>Storing the block under a new hash leaves the walks of the other blocks as they were.\<close>

lemma past_loe_fresh:
  assumes "fmlookup bs h = None" and "grounded (fmupd h b bs)" and "c \<noteq> h"
    and "(h, c) \<notin> (parent (fmupd h b bs))\<^sup>+"
  shows "past_loe v (fmupd h b bs) c d \<longleftrightarrow> past_loe v bs c d"
proof -
  let ?bs = "fmupd h b bs"
  have hit: "loe_hit v ?bs p = loe_hit v bs p" if "p \<noteq> h" for p
    using that by (simp add: loe_hit_def)
  have along: "fmlookup ?bs c = fmlookup bs c \<and> (\<forall>x. fmlookup bs c = Some x \<longrightarrow> vb_prev_hash x \<noteq> h \<and>
      (h, vb_prev_hash x) \<notin> (parent ?bs)\<^sup>+)"
    if "c \<noteq> h" "(h, c) \<notin> (parent ?bs)\<^sup>+" for c
    using that parentI [of ?bs c] by (auto intro: trancl_into_trancl)
  have "past_loe v bs c d" if "past_loe v ?bs c d" "c \<noteq> h" "(h, c) \<notin> (parent ?bs)\<^sup>+" for c d
    using that
  proof (induction rule: past_loe.induct)
    case (hit c x)
    with along [of c] show ?case by (auto intro!: past_loe.hit simp: loe_hit_def)
  next
    case (step c x d)
    with along [of c] show ?case by (auto intro!: past_loe.step simp: loe_hit_def)
  qed
  moreover have "past_loe v ?bs c d" if "past_loe v bs c d" "c \<noteq> h" "(h, c) \<notin> (parent ?bs)\<^sup>+" for c d
    using that
  proof (induction rule: past_loe.induct)
    case (hit c x)
    with along [of c] show ?case by (auto intro!: past_loe.hit simp: loe_hit_def)
  next
    case (step c x d)
    with along [of c] show ?case by (auto intro!: past_loe.step simp: loe_hit_def)
  qed
  ultimately show ?thesis using assms by blast
qed


lemma u64_sat_add_bound: "unat a \<le> unat (u64_sat_add a b)"
  using unsigned_less [of a, where ?'a = nat] by (simp add: u64_sat_add_unat)

lemma depth_past_loe_tip_below:
  assumes "\<not> loe_is_member v h"
  shows "(\<exists>d. depth_past_loe_tip db h v = Some d \<and> d < unat (lv_k v)) \<longleftrightarrow>
    (\<exists>d. past_loe v (v_blocks db) h d \<and> d < unat (lv_k v))"
proof -
  let ?cap = "unat (u64_sat_add (u64_sat_add (lv_k v) (word_of_nat (fcard (lv_members v)))) 2)"
  have k: "unat (lv_k v) \<le> ?cap" using u64_sat_add_bound order_trans by blast
  have 1: "1 \<le> ?cap" by (simp add: u64_sat_add_unat)
  show ?thesis
  proof (cases "\<exists>d. past_loe v (v_blocks db) h d")
    case True
    then obtain d where d: "past_loe v (v_blocks db) h d" by blast
    then have "past_loe v (v_blocks db) h e \<longleftrightarrow> e = d" for e
      using past_loe_unique [OF d] by blast
    moreover have "depth_past_loe_tip db h v = (if d \<le> ?cap then Some d else None)"
      using loe_depth_past [OF d 1] assms by (simp add: depth_past_loe_tip_def)
    ultimately show ?thesis using k by auto
  next
    case False
    with assms show ?thesis by (simp add: depth_past_loe_tip_def loe_depth_not_past)
  qed
qed

lemma loe_hit_fresh: "p \<noteq> h \<Longrightarrow> loe_hit v (fmupd h b bs) p = loe_hit v bs p"
  by (simp add: loe_hit_def)

lemma past_loe_new:
  assumes "fmlookup bs h = None" and g: "grounded (fmupd h b bs)" and "vb_prev_hash b = p"
  shows "past_loe v (fmupd h b bs) h d \<longleftrightarrow>
    (if loe_hit v bs p then d = 1 else \<not> loe_is_member v p \<and> (\<exists>e. d = Suc e \<and> past_loe v bs p e))"
proof -
  let ?bs = "fmupd h b bs"
  have "(p, h) \<in> parent ?bs" using parentI [of ?bs h b] assms(3) by simp
  with g have p: "p \<noteq> h" "(h, p) \<notin> (parent ?bs)\<^sup>+"
    by (auto simp: grounded_def acyclic_def intro: trancl_into_trancl)
  have "past_loe v ?bs h d \<longleftrightarrow>
    (if loe_hit v ?bs p then d = 1 else \<not> loe_is_member v p \<and> (\<exists>e. d = Suc e \<and> past_loe v ?bs p e))"
    using assms(3) by (auto elim: past_loe.cases intro: past_loe.intros)
  with p past_loe_fresh [OF assms(1) g p] show ?thesis by (simp add: loe_hit_fresh)
qed

text \<open>The gate for an extension agrees with the verdict on the block once it is stored.\<close>

lemma loe_extension_verdict:
  assumes "v = loe_view_build s ptr" and fresh: "\<not> has_block h db"
    and g: "grounded (fmupd h b (v_blocks db))" and "vb_prev_hash b = p"
    and "v_blocks db' = fmupd h b (v_blocks db)"
  shows "loe_allows_extension db h p v \<longleftrightarrow> loe_verdict_for_candidate db' h v = Allowed"
proof (cases "lv_disabled v \<or> loe_is_member v h")
  case True
  then show ?thesis by (auto simp: loe_allows_extension_def loe_verdict_for_candidate_def)
next
  case False
  have none: "fmlookup (v_blocks db) h = None" using fresh by (simp add: has_block_def)
  have hit: "loe_hit v (v_blocks db) p \<longleftrightarrow> loe_is_tip v p \<or> (lv_tip_hash v = None \<and> \<not> has_block p db)"
    using loe_view_build_members [of s ptr] assms(1) by (auto simp: loe_hit_def has_block_def)
  have "loe_verdict_for_candidate db' h v = Allowed \<longleftrightarrow>
      (\<exists>d. past_loe v (fmupd h b (v_blocks db)) h d \<and> d \<le> unat (lv_k v))"
    using loe_verdict_allowed [of db' v h] False g assms(5) by simp
  also have "\<dots> \<longleftrightarrow> (if loe_hit v (v_blocks db) p then 1 \<le> unat (lv_k v)
      else \<not> loe_is_member v p \<and> (\<exists>e. past_loe v (v_blocks db) p e \<and> e < unat (lv_k v)))"
    by (auto simp: past_loe_new [OF none g assms(4)] Suc_le_eq)
  also have "\<dots> \<longleftrightarrow> loe_allows_extension db h p v"
    using False depth_past_loe_tip_below [of v p db]
    by (auto simp: loe_allows_extension_def hit word_le_nat_alt split: option.splits)
  finally show ?thesis by simp
qed

end
