(* ===== verification/Chain_Fragment.thy ===== *)
theory Chain_Fragment
  imports Chain_Types
begin

text \<open>
  The anchored fragment of headers of the selected chain (\<^verbatim>\<open>chain_fragment.rs\<close>): a queue of
  headers, oldest first, on top of the immutable tip.
\<close>

record chain_fragment =
  cf_anchor :: point
  cf_headers :: "block_header list"

definition fragment_new :: "point \<Rightarrow> chain_fragment" where
  "fragment_new anchor = \<lparr>cf_anchor = anchor, cf_headers = []\<rparr>"

definition from_headers :: "point \<Rightarrow> block_header list \<Rightarrow> chain_fragment" where
  "from_headers anchor hs = \<lparr>cf_anchor = anchor, cf_headers = hs\<rparr>"

definition header_point :: "block_header \<Rightarrow> point" where
  "header_point h = Specific (h_slot h) (h_header_hash h)"

definition fragment_tip :: "chain_fragment \<Rightarrow> point" where
  "fragment_tip f = (if cf_headers f = [] then cf_anchor f else header_point (last (cf_headers f)))"

definition tip_block_no :: "chain_fragment \<Rightarrow> u64" where
  "tip_block_no f = (if cf_headers f = [] then 0 else h_block_number (last (cf_headers f)))"

definition oldest_header :: "chain_fragment \<Rightarrow> block_header option" where
  "oldest_header f = (case cf_headers f of [] \<Rightarrow> None | h # _ \<Rightarrow> Some h)"

definition pop_oldest :: "chain_fragment \<Rightarrow> chain_fragment \<times> block_header option" where
  "pop_oldest f = (case cf_headers f of [] \<Rightarrow> (f, None) | h # hs \<Rightarrow> (f\<lparr>cf_headers := hs\<rparr>, Some h))"

definition fragment_push :: "block_header \<Rightarrow> chain_fragment \<Rightarrow> chain_fragment" where
  "fragment_push h f = f\<lparr>cf_headers := cf_headers f @ [h]\<rparr>"

definition rollback_to :: "point \<Rightarrow> chain_fragment \<Rightarrow> chain_fragment \<times> bool" where
  "rollback_to p f =
     (if p = cf_anchor f then (f\<lparr>cf_headers := []\<rparr>, True)
      else case p of
        Origin \<Rightarrow> if cf_anchor f = Origin then (f\<lparr>cf_headers := []\<rparr>, True) else (f, False)
      | Specific slot hash \<Rightarrow>
          (case rposition (\<lambda>h. h_slot h = slot \<and> h_header_hash h = hash) (cf_headers f) of
             Some idx \<Rightarrow> (f\<lparr>cf_headers := take (idx + 1) (cf_headers f)\<rparr>, True)
           | None \<Rightarrow> (f, False)))"

definition advance_anchor :: "point \<Rightarrow> chain_fragment \<Rightarrow> chain_fragment \<times> nat" where
  "advance_anchor new_anchor f =
     (case new_anchor of
        Origin \<Rightarrow> (f\<lparr>cf_anchor := new_anchor\<rparr>, 0)
      | Specific slot hash \<Rightarrow>
          (f\<lparr>cf_anchor := new_anchor, cf_headers := dropWhile (\<lambda>h. h_slot h \<le> slot) (cf_headers f)\<rparr>,
           length (takeWhile (\<lambda>h. h_slot h \<le> slot) (cf_headers f))))"

definition contains_point :: "point \<Rightarrow> chain_fragment \<Rightarrow> bool" where
  "contains_point p f =
     (if p = cf_anchor f then True
      else case p of
        Origin \<Rightarrow> cf_anchor f = Origin
      | Specific slot hash \<Rightarrow> \<exists>h\<in>set (cf_headers f). h_slot h = slot \<and> h_header_hash h = hash)"

definition find_intersect :: "point list \<Rightarrow> chain_fragment \<Rightarrow> point option" where
  "find_intersect ps f = List.find (\<lambda>p. contains_point p f) ps"


section \<open>The invariant its callers keep\<close>

text \<open>The hash a fragment is anchored at; a chain from genesis starts at the zero hash.\<close>

definition anchor_hash :: "point \<Rightarrow> hash32" where
  "anchor_hash p = (case p of Origin \<Rightarrow> zero_hash | Specific s h \<Rightarrow> h)"

fun header_chain :: "hash32 \<Rightarrow> block_header list \<Rightarrow> bool" where
  "header_chain p [] = True"
| "header_chain p (h # hs) = (h_prev_hash h = p \<and> header_chain (h_header_hash h) hs)"

definition fragment_ok :: "chain_fragment \<Rightarrow> bool" where
  "fragment_ok f \<longleftrightarrow>
     header_chain (anchor_hash (cf_anchor f)) (cf_headers f) \<and>
     sorted_wrt (<) (map h_slot (cf_headers f)) \<and>
     sorted_wrt (<) (map h_block_number (cf_headers f))"

text \<open>The points of a fragment in order, the anchor first.\<close>

definition fragment_points :: "chain_fragment \<Rightarrow> point list" where
  "fragment_points f = cf_anchor f # map header_point (cf_headers f)"

lemma header_chain_append:
  "header_chain p (xs @ ys) \<longleftrightarrow> header_chain p xs \<and>
     header_chain (if xs = [] then p else h_header_hash (last xs)) ys"
  by (induction p xs rule: header_chain.induct) auto

lemma header_chain_take: "header_chain p hs \<Longrightarrow> header_chain p (take n hs)"
  using header_chain_append [of p "take n hs" "drop n hs"] by simp

lemma contains_point_iff: "contains_point p f \<longleftrightarrow> p \<in> set (fragment_points f)"
  by (cases p) (auto simp: contains_point_def fragment_points_def header_point_def)

lemma fragment_tip_points: "fragment_tip f = last (fragment_points f)"
  by (simp add: fragment_tip_def fragment_points_def last_map)

text \<open>Rolling back cuts the points off after the target, and fails when the target is not there.\<close>

lemma rollback_to_points:
  assumes "rollback_to p f = (f', True)"
  shows "\<exists>rest. fragment_points f = fragment_points f' @ rest \<and> fragment_tip f' = p \<and> cf_anchor f' = cf_anchor f"
proof (cases "p = cf_anchor f")
  case True
  with assms show ?thesis by (auto simp: rollback_to_def fragment_points_def fragment_tip_def)
next
  case False
  show ?thesis
  proof (cases p)
    case Origin
    with False assms show ?thesis by (auto simp: rollback_to_def split: if_splits)
  next
    case (Specific slot hash)
    with False assms obtain idx where
      i: "rposition (\<lambda>h. h_slot h = slot \<and> h_header_hash h = hash) (cf_headers f) = Some idx"
      and f': "f' = f\<lparr>cf_headers := take (idx + 1) (cf_headers f)\<rparr>"
      by (auto simp: rollback_to_def split: option.splits)
    from rposition_split [OF i] obtain ys x zs where
      s: "cf_headers f = ys @ x # zs" "length ys = idx" "h_slot x = slot" "h_header_hash x = hash" by metis
    then have "cf_headers f' = ys @ [x]" by (simp add: f')
    with s f' Specific show ?thesis
      by (auto simp: fragment_points_def fragment_tip_def header_point_def)
  qed
qed

lemma rollback_to_fails: "rollback_to p f = (f', False) \<Longrightarrow> f' = f \<and> \<not> contains_point p f"
  by (cases p) (auto simp: rollback_to_def contains_point_def rposition_None split: if_splits option.splits)

lemma rollback_to_ok: "fragment_ok f \<Longrightarrow> fragment_ok (fst (rollback_to p f))"
  by (cases p) (auto simp: rollback_to_def fragment_ok_def header_chain_take take_map [symmetric]
      sorted_wrt_take split: option.splits)

text \<open>Advancing the anchor removes the headers up to its slot; when the new anchor is one of the
  points, what stays is what follows it.\<close>

lemma dropWhile_sorted:
  fixes f :: "'a \<Rightarrow> 'b::linorder"
  assumes "sorted_wrt (<) (map f xs)" and "xs = ys @ x # zs"
  shows "dropWhile (\<lambda>h. f h \<le> f x) xs = zs"
proof -
  have "dropWhile (\<lambda>h. f h \<le> f x) (ys @ [x]) = []"
    using assms by (auto simp: sorted_wrt_append dropWhile_eq_Nil_conv)
  moreover have "dropWhile (\<lambda>h. f h \<le> f x) zs = zs"
    using assms by (cases zs) (auto simp: sorted_wrt_append)
  ultimately show ?thesis unfolding assms(2)
    using dropWhile_append2 [of "ys @ [x]" "\<lambda>h. f h \<le> f x" zs] by (auto simp: dropWhile_eq_Nil_conv)
qed

lemma advance_anchor_header:
  assumes "fragment_ok f" and "cf_headers f = ys @ x # zs"
  shows "fst (advance_anchor (header_point x) f) = f\<lparr>cf_anchor := header_point x, cf_headers := zs\<rparr>"
    and "snd (advance_anchor (header_point x) f) = length ys + 1"
proof -
  have d: "dropWhile (\<lambda>h. h_slot h \<le> h_slot x) (cf_headers f) = zs"
    by (rule dropWhile_sorted) (use assms in \<open>simp_all add: fragment_ok_def\<close>)
  then show "fst (advance_anchor (header_point x) f) = f\<lparr>cf_anchor := header_point x, cf_headers := zs\<rparr>"
    by (simp add: advance_anchor_def header_point_def)
  have "length (takeWhile (\<lambda>h. h_slot h \<le> h_slot x) (cf_headers f)) + length zs = length (cf_headers f)"
    unfolding d [symmetric] by (metis length_append takeWhile_dropWhile_id)
  then show "snd (advance_anchor (header_point x) f) = length ys + 1"
    using assms(2) by (simp add: advance_anchor_def header_point_def)
qed

lemma advance_anchor_ok:
  assumes "fragment_ok f" and "cf_headers f = ys @ x # zs"
  shows "fragment_ok (fst (advance_anchor (header_point x) f))"
proof -
  have "header_chain (h_header_hash x) zs"
    using assms by (simp add: fragment_ok_def header_chain_append)
  with assms show ?thesis
    by (simp add: advance_anchor_header(1) [OF assms]) (simp add: fragment_ok_def header_point_def
        anchor_hash_def sorted_wrt_append)
qed

lemma fragment_push_ok:
  assumes "fragment_ok f" and "h_prev_hash h = (if cf_headers f = [] then anchor_hash (cf_anchor f)
      else h_header_hash (last (cf_headers f)))"
    and "\<And>g. g \<in> set (cf_headers f) \<Longrightarrow> h_slot g < h_slot h \<and> h_block_number g < h_block_number h"
  shows "fragment_ok (fragment_push h f)"
  using assms by (auto simp: fragment_ok_def fragment_push_def header_chain_append sorted_wrt_append)

end
