(* ===== verification/Chain_Selection.thy ===== *)
theory Chain_Selection
  imports Chain_Fragment
begin

text \<open>
  The chain selection rules (\<^verbatim>\<open>chain_selection.rs\<close>): length with the Praos tiebreaker, the density
  rules of Byron and of Genesis, and the density window.  The hash of the issuer key, blake2b-224
  of a third-party crate, is a parameter.
\<close>

datatype preference = PreferCurrent | PreferCandidate | PreferEqual

section \<open>Tips and headers\<close>

definition prefer_tip :: "tip \<Rightarrow> tip \<Rightarrow> preference" where
  "prefer_tip current candidate =
     (case (tip_point current, tip_point candidate) of
        (Origin, Origin) \<Rightarrow> PreferEqual
      | (Origin, Specific _ _) \<Rightarrow> PreferCandidate
      | (Specific _ _, Origin) \<Rightarrow> PreferCurrent
      | (Specific _ _, Specific _ _) \<Rightarrow>
          if tip_block_number current < tip_block_number candidate then PreferCandidate
          else if tip_block_number candidate < tip_block_number current then PreferCurrent
          else PreferEqual)"

definition compare_length :: "tip \<Rightarrow> tip \<Rightarrow> preference" where
  "compare_length current candidate =
     (if tip_block_number current < tip_block_number candidate then PreferCandidate
      else if tip_block_number candidate < tip_block_number current then PreferCurrent
      else PreferEqual)"

definition slot_or_zero :: "tip \<Rightarrow> u64" where
  "slot_or_zero t = (case point_slot (tip_point t) of None \<Rightarrow> 0 | Some s \<Rightarrow> s)"

text \<open>The products are of type \<^verbatim>\<open>u128\<close>, which two \<^verbatim>\<open>u64\<close> factors cannot exceed.\<close>

definition compare_density :: "tip \<Rightarrow> tip \<Rightarrow> preference" where
  "compare_density current candidate =
     (let current_slot = slot_or_zero current; candidate_slot = slot_or_zero candidate
      in if current_slot = 0 \<and> candidate_slot = 0 then compare_length current candidate
         else
           let lhs = unat (tip_block_number candidate) * unat current_slot;
               rhs = unat (tip_block_number current) * unat candidate_slot
           in if rhs < lhs then PreferCandidate
              else if lhs < rhs then PreferCurrent
              else PreferEqual)"

definition vrf_tiebreak :: "byte list \<Rightarrow> byte list \<Rightarrow> preference" where
  "vrf_tiebreak current_vrf candidate_vrf =
     (case cmp candidate_vrf current_vrf of
        Less \<Rightarrow> PreferCandidate | Greater \<Rightarrow> PreferCurrent | Equal \<Rightarrow> PreferEqual)"

definition is_conway :: "era \<Rightarrow> bool" where
  "is_conway e \<longleftrightarrow> e = Conway \<or> e = Dijkstra"

type_synonym pool_hash = "byte list \<Rightarrow> hash28"

definition praos_tiebreak :: "pool_hash \<Rightarrow> block_header \<Rightarrow> block_header \<Rightarrow> era \<Rightarrow> u64 \<Rightarrow> preference" where
  "praos_tiebreak blake current candidate e slot_window =
     (if blake (h_issuer_vkey current) = blake (h_issuer_vkey candidate) \<and> h_slot current = h_slot candidate
      then
        let current_seq = oc_sequence_number (h_operational_cert current);
            candidate_seq = oc_sequence_number (h_operational_cert candidate)
        in if current_seq < candidate_seq then PreferCandidate
           else if candidate_seq < current_seq then PreferCurrent
           else PreferEqual
      else if is_conway e \<longrightarrow> abs_diff (h_slot current) (h_slot candidate) \<le> slot_window
      then vrf_tiebreak (vrf_out (h_vrf_result current)) (vrf_out (h_vrf_result candidate))
      else PreferCurrent)"

definition prefer_chain_with_headers ::
  "pool_hash \<Rightarrow> tip \<Rightarrow> tip \<Rightarrow> block_header \<Rightarrow> block_header \<Rightarrow> era \<Rightarrow> u64 \<Rightarrow> preference" where
  "prefer_chain_with_headers blake current candidate current_header candidate_header e slot_window =
     (case (tip_point current, tip_point candidate) of
        (Origin, Origin) \<Rightarrow> PreferEqual
      | (Origin, Specific _ _) \<Rightarrow> PreferCandidate
      | (Specific _ _, Origin) \<Rightarrow> PreferCurrent
      | (Specific _ _, Specific _ _) \<Rightarrow>
          (case (if e = Byron then compare_density current candidate else compare_length current candidate) of
             PreferEqual \<Rightarrow>
               if e = Byron then PreferEqual
               else praos_tiebreak blake current_header candidate_header e slot_window
           | other \<Rightarrow> other))"

definition prefer_chain :: "tip \<Rightarrow> tip \<Rightarrow> era \<Rightarrow> preference" where
  "prefer_chain current candidate e =
     (case (tip_point current, tip_point candidate) of
        (Origin, Origin) \<Rightarrow> PreferEqual
      | (Origin, Specific _ _) \<Rightarrow> PreferCandidate
      | (Specific _ _, Origin) \<Rightarrow> PreferCurrent
      | (Specific _ _, Specific _ _) \<Rightarrow>
          if e = Byron then compare_density current candidate else compare_length current candidate)"

definition chain_preference :: "pool_hash \<Rightarrow> chain_fragment \<Rightarrow> chain_fragment \<Rightarrow> u64 \<Rightarrow> preference" where
  "chain_preference blake current candidate slot_window =
     (case cmp (tip_block_no candidate) (tip_block_no current) of
        Greater \<Rightarrow> PreferCandidate
      | Less \<Rightarrow> PreferCurrent
      | Equal \<Rightarrow>
          if cf_headers current \<noteq> [] \<and> cf_headers candidate \<noteq> []
          then praos_tiebreak blake (last (cf_headers current)) (last (cf_headers candidate))
                 (pv_era (h_protocol_version (last (cf_headers current)))) slot_window
          else PreferEqual)"


section \<open>The density window\<close>

record density_window =
  dw_intersection_slot :: u64
  dw_window_size :: u64
  dw_slots :: "u64 list"

definition window_new :: "u64 \<Rightarrow> u64 \<Rightarrow> density_window" where
  "window_new i s = \<lparr>dw_intersection_slot = i, dw_window_size = s, dw_slots = []\<rparr>"

definition end_slot :: "density_window \<Rightarrow> u64" where
  "end_slot w = u64_sat_add (dw_intersection_slot w) (dw_window_size w)"

text \<open>\<^verbatim>\<open>slice::partition_point\<close> on a partitioned slice.\<close>

definition partition_point :: "('a \<Rightarrow> bool) \<Rightarrow> 'a list \<Rightarrow> nat" where
  "partition_point p xs = length (takeWhile p xs)"

definition record_block :: "u64 \<Rightarrow> density_window \<Rightarrow> density_window \<times> bool" where
  "record_block slot w =
     (if dw_intersection_slot w < slot \<and> slot \<le> end_slot w
      then let pos = partition_point (\<lambda>s. s < slot) (dw_slots w)
           in (w\<lparr>dw_slots := take pos (dw_slots w) @ slot # drop pos (dw_slots w)\<rparr>, True)
      else (w, False))"

definition block_count :: "density_window \<Rightarrow> nat" where
  "block_count w = length (dw_slots w)"

definition is_closed :: "u64 \<Rightarrow> density_window \<Rightarrow> bool" where
  "is_closed current_tip_slot w \<longleftrightarrow> end_slot w < current_tip_slot"

definition window_reset :: "u64 \<Rightarrow> density_window \<Rightarrow> density_window" where
  "window_reset i w = w\<lparr>dw_intersection_slot := i, dw_slots := []\<rparr>"

definition blocks_before :: "u64 \<Rightarrow> density_window \<Rightarrow> nat" where
  "blocks_before slot w = partition_point (\<lambda>s. s < slot) (dw_slots w)"

definition has_block_at_or_after :: "u64 \<Rightarrow> density_window \<Rightarrow> bool" where
  "has_block_at_or_after slot w \<longleftrightarrow> partition_point (\<lambda>s. s < slot) (dw_slots w) < length (dw_slots w)"

definition head_slot :: "density_window \<Rightarrow> u64 option" where
  "head_slot w = (if dw_slots w = [] then None else Some (last (dw_slots w)))"


section \<open>The Genesis comparison\<close>

definition dynamo_wins :: "u64 \<Rightarrow> u64 \<Rightarrow> bool" where
  "dynamo_wins objector_blocks dynamo_blocks \<longleftrightarrow> objector_blocks \<le> dynamo_blocks"

definition density_then_length :: "u64 \<Rightarrow> u64 \<Rightarrow> tip \<Rightarrow> tip \<Rightarrow> preference" where
  "density_then_length current_in_window candidate_in_window current candidate =
     (case cmp candidate_in_window current_in_window of
        Greater \<Rightarrow> PreferCandidate
      | Less \<Rightarrow> PreferCurrent
      | Equal \<Rightarrow> compare_length current candidate)"

definition genesis_compare :: "u64 \<Rightarrow> u64 \<Rightarrow> u64 \<Rightarrow> u64 \<Rightarrow> tip \<Rightarrow> tip \<Rightarrow> preference" where
  "genesis_compare window_size intersection_slot current_blocks candidate_blocks candidate current =
     (let window_end = u64_sat_add intersection_slot window_size;
          candidate_slot = slot_or_zero candidate;
          current_slot = slot_or_zero current
      in if candidate_slot \<le> intersection_slot \<and> current_slot \<le> intersection_slot then PreferEqual
         else if window_end < current_slot \<and> window_end < candidate_slot
         then density_then_length current_blocks candidate_blocks current candidate
         else
           let current_observed = min (u64_sat_sub current_slot intersection_slot) window_size;
               candidate_observed = min (u64_sat_sub candidate_slot intersection_slot) window_size
           in if current_observed = 0 \<and> candidate_observed = 0 then PreferEqual
              else (case cmp (unat candidate_blocks * unat current_observed)
                             (unat current_blocks * unat candidate_observed) of
                      Greater \<Rightarrow> PreferCandidate
                    | Less \<Rightarrow> PreferCurrent
                    | Equal \<Rightarrow> compare_length current candidate))"

definition compare_with_csj :: "u64 \<Rightarrow> u64 \<Rightarrow> tip \<Rightarrow> tip \<Rightarrow> preference" where
  "compare_with_csj objector_blocks dynamo_blocks candidate current =
     (case cmp dynamo_blocks objector_blocks of
        Greater \<Rightarrow> PreferCurrent
      | Less \<Rightarrow> PreferCandidate
      | Equal \<Rightarrow> compare_length current candidate)"


section \<open>Lemmas\<close>

text \<open>What the other side of a comparison says.\<close>

primrec opposite :: "preference \<Rightarrow> preference" where
  "opposite PreferCurrent = PreferCandidate"
| "opposite PreferCandidate = PreferCurrent"
| "opposite PreferEqual = PreferEqual"

lemma opposite_opposite [simp]: "opposite (opposite p) = p"
  by (cases p) simp_all

lemma compare_length_flip: "compare_length b a = opposite (compare_length a b)"
  by (auto simp: compare_length_def)

lemma compare_density_flip: "compare_density b a = opposite (compare_density a b)"
  by (auto simp: compare_density_def Let_def compare_length_def mult.commute)

lemma vrf_tiebreak_flip: "vrf_tiebreak b a = opposite (vrf_tiebreak a b)"
  by (auto simp: vrf_tiebreak_def cmp_def)

lemma abs_diff_commute: "abs_diff a b = abs_diff b a"
  by (auto simp: abs_diff_def)

lemma abs_diff_unat: "unat (abs_diff a b) = (if unat a \<le> unat b then unat b - unat a else unat a - unat b)"
  by (simp add: abs_diff_def unat_sub word_le_nat_alt)

text \<open>The tiebreaker is the same seen from both sides, except that beyond the window of Conway
  each side keeps its own block.\<close>

definition in_window :: "era \<Rightarrow> u64 \<Rightarrow> block_header \<Rightarrow> block_header \<Rightarrow> bool" where
  "in_window e slot_window a b \<longleftrightarrow> (is_conway e \<longrightarrow> abs_diff (h_slot a) (h_slot b) \<le> slot_window)"

definition same_issue :: "pool_hash \<Rightarrow> block_header \<Rightarrow> block_header \<Rightarrow> bool" where
  "same_issue blake a b \<longleftrightarrow> blake (h_issuer_vkey a) = blake (h_issuer_vkey b) \<and> h_slot a = h_slot b"

lemma in_window_commute: "in_window e s a b \<longleftrightarrow> in_window e s b a"
  by (simp add: in_window_def abs_diff_commute)

lemma praos_tiebreak_flip:
  "praos_tiebreak blake b a e s =
     (if same_issue blake a b \<or> in_window e s a b then opposite (praos_tiebreak blake a b e s) else PreferCurrent)"
  using vrf_tiebreak_flip [of "vrf_out (h_vrf_result b)" "vrf_out (h_vrf_result a)"]
  by (auto simp: praos_tiebreak_def same_issue_def in_window_def abs_diff_commute Let_def)

text \<open>The densities: cross-multiplying compares the quotients.\<close>

lemma cross_multiply:
  assumes "0 < (m :: nat)" and "0 < n"
  shows "a * m < b * n \<longleftrightarrow> (of_nat a :: rat) / of_nat n < of_nat b / of_nat m"
    and "a * m = b * n \<longleftrightarrow> (of_nat a :: rat) / of_nat n = of_nat b / of_nat m"
  using assms by (simp_all add: field_simps flip: of_nat_mult)

lemma partition_point_sorted:
  "sorted xs \<Longrightarrow> partition_point (\<lambda>x. x < k) xs = length (filter (\<lambda>x. x < (k :: 'a::linorder)) xs)"
proof (induction xs)
  case (Cons x xs)
  show ?case
  proof (cases "x < k")
    case True
    with Cons show ?thesis by (simp add: partition_point_def)
  next
    case False
    with Cons.prems have "filter (\<lambda>x. x < k) xs = []" by (auto simp: filter_empty_conv)
    with False show ?thesis by (simp add: partition_point_def)
  qed
qed (simp add: partition_point_def)

lemma take_partition: "take (partition_point p xs) xs = takeWhile p xs"
  by (simp add: partition_point_def takeWhile_eq_take [symmetric])

lemma drop_partition: "drop (partition_point p xs) xs = dropWhile p xs"
  by (simp add: partition_point_def dropWhile_eq_drop)

definition window_ok :: "density_window \<Rightarrow> bool" where
  "window_ok w \<longleftrightarrow> sorted (dw_slots w) \<and>
     (\<forall>s\<in>set (dw_slots w). dw_intersection_slot w < s \<and> s \<le> end_slot w)"

lemma sorted_insert_partition:
  "sorted xs \<Longrightarrow> takeWhile (\<lambda>s. s < k) xs @ k # dropWhile (\<lambda>s. s < k) xs = insort k xs"
  for xs :: "u64 list"
  by (induction xs) auto

lemma record_block_slots:
  "dw_slots (fst (record_block slot w)) =
     (if dw_intersection_slot w < slot \<and> slot \<le> end_slot w
      then takeWhile (\<lambda>s. s < slot) (dw_slots w) @ slot # dropWhile (\<lambda>s. s < slot) (dw_slots w)
      else dw_slots w)"
  by (simp add: record_block_def Let_def take_partition drop_partition)

lemma record_block_ok:
  assumes "window_ok w"
  shows "window_ok (fst (record_block slot w))"
proof -
  have f: "dw_intersection_slot (fst (record_block slot w)) = dw_intersection_slot w"
    "end_slot (fst (record_block slot w)) = end_slot w"
    by (simp_all add: record_block_def Let_def end_slot_def)
  show ?thesis
    using assms by (auto simp: window_ok_def f record_block_slots sorted_insert_partition set_insort_key sorted_insort)
qed

end
