(* ===== verification/Chain_Theorems.thy ===== *)
theory Chain_Theorems
  imports Chain_Loe Chain_Selection Vol_Theorems
begin

text \<open>
  The properties of chain selection: the preference orders, the fragment of the selected chain
  and the limit on eagerness.
\<close>

section \<open>Preference\<close>




definition sample_header :: "nat \<Rightarrow> byte \<Rightarrow> block_header" where
  "sample_header n vrf =
     \<lparr>h_header_hash = word_of_nat n, h_prev_hash = word_of_nat (n - 1), h_issuer_vkey = [vrf], h_vrf_vkey = [],
      h_vrf_result = \<lparr>vrf_out = [vrf], vrf_proof = []\<rparr>, h_block_number = word_of_nat n, h_slot = word_of_nat (10 * n),
      h_epoch_nonce = 0, h_body_size = 0, h_body_hash = 0,
      h_operational_cert = \<lparr>oc_hot_vkey = [], oc_sequence_number = 0, oc_kes_period = 0, oc_sigma = []\<rparr>,
      h_protocol_version = \<lparr>pv_major = 9, pv_minor = 0\<rparr>, h_kes_signature = [], h_nonce_vrf_output = [],
      h_nonce_vrf_proof = [], h_prev_nonce = None, h_raw_header_body = None\<rparr>"



text \<open>The slots of a chain that are observed in the window, and the density comparison on them.\<close>

definition observed :: "u64 \<Rightarrow> u64 \<Rightarrow> tip \<Rightarrow> nat" where
  "observed window intersection t = min (unat (slot_or_zero t) - unat intersection) (unat window)"

lemma genesis_compare_observed:
  assumes "intersection < slot_or_zero cur" and "intersection < slot_or_zero cand" and "0 < window"
  shows "genesis_compare window intersection n m cand cur =
    (case cmp (unat m * observed window intersection cur) (unat n * observed window intersection cand) of
       Greater \<Rightarrow> PreferCandidate | Less \<Rightarrow> PreferCurrent | Equal \<Rightarrow> compare_length cur cand)"
proof -
  have o: "unat (min (u64_sat_sub (slot_or_zero t) intersection) window) = observed window intersection t"
    if "intersection < slot_or_zero t" for t
    using that by (simp add: observed_def u64_sat_sub_def unat_sub word_le_nat_alt word_less_nat_alt min_def)
  have "0 < observed window intersection cur" using assms by (simp add: observed_def word_less_nat_alt)
  then have z: "min (u64_sat_sub (slot_or_zero cur) intersection) window \<noteq> 0" using o [OF assms(1)] by force
  have n: "\<not> slot_or_zero cand \<le> intersection" using assms(2) by simp
  show ?thesis
  proof (cases "u64_sat_add intersection window < slot_or_zero cur \<and> u64_sat_add intersection window < slot_or_zero cand")
    case True
    have "unat (slot_or_zero cur) < 2 ^ 64" "unat (slot_or_zero cand) < 2 ^ 64"
      using unsigned_less [of "slot_or_zero cur", where 'a = nat] unsigned_less [of "slot_or_zero cand", where 'a = nat]
      by simp_all
    with True have "observed window intersection cur = unat window" "observed window intersection cand = unat window"
      by (auto simp: observed_def word_less_nat_alt u64_sat_add_unat min_def split: if_splits)
    moreover have "0 < unat window" using assms(3) by (simp add: word_less_nat_alt)
    ultimately have "cmp (unat m * observed window intersection cur) (unat n * observed window intersection cand) = cmp m n"
      by (auto simp: cmp_def word_less_nat_alt intro: word_unat_eq_iff [THEN iffD2])
    then show ?thesis
      using True n by (simp add: genesis_compare_def Let_def density_then_length_def)
  next
    case False
    with n z o [OF assms(1)] o [OF assms(2)] show ?thesis by (auto simp: genesis_compare_def Let_def)
  qed
qed

text \<open>C38: Inside the window, the Genesis rule compares blocks per observed slot as fractions, and the
  block numbers when they are equal; once both chains have passed the window it compares the blocks
  in it.  Seen from the other side the answer is the opposite one.\<close>

theorem genesis_density_order:
  assumes "intersection < slot_or_zero cur" and "intersection < slot_or_zero cand" and "0 < window"
  shows "let cur_density = of_nat (unat n) / (of_nat (observed window intersection cur) :: rat);
             cand_density = of_nat (unat m) / of_nat (observed window intersection cand)
         in genesis_compare window intersection n m cand cur =
              (if cur_density < cand_density then PreferCandidate
               else if cand_density < cur_density then PreferCurrent
               else compare_length cur cand) \<and>
            genesis_compare window intersection m n cur cand = opposite (genesis_compare window intersection n m cand cur)"
proof -
  let ?x = "observed window intersection cur" and ?y = "observed window intersection cand"
  have pos: "0 < ?x" "0 < ?y" using assms by (simp_all add: observed_def word_less_nat_alt)
  have "genesis_compare window intersection m n cur cand = opposite (genesis_compare window intersection n m cand cur)"
    unfolding genesis_compare_observed [OF assms] genesis_compare_observed [OF assms(2,1,3)]
    using compare_length_flip [of cand cur] by (auto simp: cmp_def)
  then show ?thesis
    unfolding Let_def genesis_compare_observed [OF assms]
    using cross_multiply(1) [OF pos(2,1), of "unat n" "unat m"] cross_multiply(1) [OF pos, of "unat m" "unat n"]
    by (auto simp: cmp_def)
qed


theorem genesis_density_order_witness:
  "genesis_compare 100 10 2 3 \<lparr>tip_point = Specific 40 1, tip_block_number = 5\<rparr>
     \<lparr>tip_point = Specific 20 2, tip_block_number = 9\<rparr> = PreferCurrent"
proof -
  let ?u = "\<lparr>tip_point = Specific 20 2, tip_block_number = 9\<rparr>" and ?c = "\<lparr>tip_point = Specific 40 1, tip_block_number = 5\<rparr>"
  have "observed 100 10 ?u = 10" "observed 100 10 ?c = 30"
    by (simp_all add: observed_def slot_or_zero_def)
  then show ?thesis
    using genesis_density_order [of 10 ?u ?c 100 2 3] by (simp add: slot_or_zero_def Let_def)
qed


section \<open>The fragment\<close>

text \<open>C40: A rollback succeeds exactly for a point of the fragment; it then ends the fragment at that point,
  keeping what is before it and the anchor, and otherwise changes nothing.  Moving the anchor to a header
  of the fragment keeps what follows it and counts the headers that are dropped.  Both keep the
  documented invariants.\<close>

theorem fragment_rollback:
  assumes "fragment_ok f"
  shows "(snd (rollback_to p f) \<longleftrightarrow> p \<in> set (fragment_points f)) \<and>
    fragment_ok (fst (rollback_to p f)) \<and>
    (if snd (rollback_to p f)
     then \<exists>rest. fragment_points f = fragment_points (fst (rollback_to p f)) @ rest \<and>
            fragment_tip (fst (rollback_to p f)) = p
     else fst (rollback_to p f) = f) \<and>
    (\<forall>ys x zs. cf_headers f = ys @ x # zs \<longrightarrow>
       advance_anchor (header_point x) f = (\<lparr>cf_anchor = header_point x, cf_headers = zs\<rparr>, length ys + 1) \<and>
       fragment_ok (fst (advance_anchor (header_point x) f)))"
proof -
  obtain f' r where r: "rollback_to p f = (f', r)" by fastforce
  have "p \<in> set (fragment_points f)" if r
  proof -
    from that r rollback_to_points [of p f f'] obtain rest where
      "fragment_points f = fragment_points f' @ rest" "last (fragment_points f') = p"
      by (auto simp: fragment_tip_points)
    then show ?thesis by (metis UnCI fragment_points_def last_in_set list.distinct(1) set_append)
  qed
  moreover have "p \<notin> set (fragment_points f) \<and> f' = f" if "\<not> r"
    using that r rollback_to_fails [of p f f'] by (simp add: contains_point_iff)
  moreover have "fragment_points f = fragment_points f' @ rest \<Longrightarrow> \<exists>rest. fragment_points f = fragment_points f' @ rest" for rest
    by blast
  ultimately have "(snd (rollback_to p f) \<longleftrightarrow> p \<in> set (fragment_points f)) \<and>
      (if r then \<exists>rest. fragment_points f = fragment_points f' @ rest \<and> fragment_tip f' = p else f' = f)"
    using r rollback_to_points [of p f f'] by (cases r) auto
  moreover have "advance_anchor (header_point x) f = (\<lparr>cf_anchor = header_point x, cf_headers = zs\<rparr>, length ys + 1)"
    if "cf_headers f = ys @ x # zs" for ys x zs
    using advance_anchor_header [OF assms that] by (cases f) (metis chain_fragment.update_convs prod.collapse)
  ultimately show ?thesis
    using r rollback_to_ok [OF assms, of p] advance_anchor_ok [OF assms] by auto
qed

theorem fragment_rollback_witness:
  "fst (rollback_to (Specific 10 1) (from_headers Origin [sample_header 1 7, sample_header 2 8])) =
     from_headers Origin [sample_header 1 7] \<and>
   fragment_ok (from_headers Origin [sample_header 1 7])"
proof -
  have "fragment_ok (from_headers Origin [sample_header 1 7, sample_header 2 8])" by code_simp
  from fragment_rollback [OF this, of "Specific 10 1"]
  have "fragment_ok (fst (rollback_to (Specific 10 1) (from_headers Origin [sample_header 1 7, sample_header 2 8])))"
    by blast
  moreover have "fst (rollback_to (Specific 10 1) (from_headers Origin [sample_header 1 7, sample_header 2 8])) =
     from_headers Origin [sample_header 1 7]"
    by code_simp
  ultimately show ?thesis by simp
qed


section \<open>The limit on eagerness\<close>

lemma loe_verdict_stored:
  assumes "grounded (v_blocks db)" and "\<not> lv_disabled v" and "\<not> loe_is_member v c"
  shows "case loe_verdict_for_candidate db c v of
      Allowed \<Rightarrow> \<exists>d. past_loe v (v_blocks db) c d \<and> d \<le> unat (lv_k v)
    | TrimmedTo t \<Rightarrow> \<exists>d. past_loe v (v_blocks db) c d \<and> unat (lv_k v) < d \<and>
        ancestor (v_blocks db) (d - unat (lv_k v)) c = Some t \<and> past_loe v (v_blocks db) t (unat (lv_k v))
    | Deferred \<Rightarrow> \<forall>d. past_loe v (v_blocks db) c d \<longrightarrow> lv_k v = 0"
proof (cases "\<exists>d. past_loe v (v_blocks db) c d")
  case False
  then show ?thesis by (simp add: loe_verdict_not_past [OF assms(2,3)])
next
  case True
  then obtain d where d: "past_loe v (v_blocks db) c d" by blast
  show ?thesis
  proof (cases "d \<le> unat (lv_k v) \<or> lv_k v = 0")
    case True
    with d loe_verdict_past [OF assms d] show ?thesis by auto
  next
    case False
    then have k: "0 < lv_k v" and lt: "d - unat (lv_k v) < d" "unat (lv_k v) < d"
      by (auto simp: word_neq_0_conv unat_gt_0)
    from past_loe_ancestor [OF d lt(1)] lt(2) obtain t where
      "ancestor (v_blocks db) (d - unat (lv_k v)) c = Some t" "past_loe v (v_blocks db) t (unat (lv_k v))"
      by auto
    with loe_verdict_past [OF assms d] k lt d show ?thesis by auto
  qed
qed

text \<open>C9: The verdict on a candidate in a reachable store, on every branch.  A candidate is adoptable as it is
  exactly when the limit is off, when it is on the agreed fragment, or when its chain meets the
  fragment's tip at most \<open>k\<close> blocks back.  When it meets the tip further back, and \<open>k\<close> is not zero, it is
  trimmed to its ancestor exactly \<open>k\<close> blocks past the tip, which is adoptable as it is.  Otherwise it
  waits.  A chain that leaves the store meets the tip there only if the fragment has no tip or no
  members.\<close>

theorem loe_limit:
  assumes "vol_reachable crc db"
  shows "case loe_verdict_for_candidate db c v of
      Allowed \<Rightarrow> lv_disabled v \<or> loe_is_member v c \<or>
        (\<exists>d. past_loe v (v_blocks db) c d \<and> d \<le> unat (lv_k v))
    | TrimmedTo t \<Rightarrow> \<not> lv_disabled v \<and> \<not> loe_is_member v c \<and>
        (\<exists>d. past_loe v (v_blocks db) c d \<and> unat (lv_k v) < d \<and>
           ancestor (v_blocks db) (d - unat (lv_k v)) c = Some t) \<and>
        past_loe v (v_blocks db) t (unat (lv_k v)) \<and> loe_verdict_for_candidate db t v = Allowed
    | Deferred \<Rightarrow> \<not> lv_disabled v \<and> \<not> loe_is_member v c \<and>
        (\<forall>d. past_loe v (v_blocks db) c d \<longrightarrow> lv_k v = 0)"
proof (cases "lv_disabled v \<or> loe_is_member v c")
  case True
  then show ?thesis by (auto simp: loe_verdict_for_candidate_def)
next
  case False
  have g: "grounded (v_blocks db)"
    using vol_reachable_inv [OF assms(1)] by (simp add: vol_inv_def vol_linked_def)
  have "loe_verdict_for_candidate db t v = Allowed" if "past_loe v (v_blocks db) t (unat (lv_k v))" for t
    using False loe_verdict_past [OF g _ _ that] by (cases "loe_is_member v t") (simp_all add: loe_verdict_for_candidate_def)
  with False loe_verdict_stored [OF g, of v c] show ?thesis by (auto split: loe_verdict.splits)
qed


definition sample_view :: loe_view where
  "sample_view = loe_view_build (LoeFragment None [\<lparr>lp_slot = 10, lp_hash = 1\<rparr>] 1) 0"

theorem loe_limit_witness:
  "vol_reachable no_crc sample_db \<and> loe_verdict_for_candidate sample_db 4 sample_view = TrimmedTo 3 \<and>
   past_loe sample_view (v_blocks sample_db) 3 1 \<and> loe_verdict_for_candidate sample_db 3 sample_view = Allowed"
proof -
  have f: "\<not> lv_disabled sample_view" "\<not> loe_is_member sample_view 4" "lv_k sample_view = 1"
    by (simp_all add: sample_view_def loe_view_build_def loe_is_member_def)
  have l: "fmlookup (v_blocks sample_db) 4 = Some (sample_block 3 3)" "fmlookup (v_blocks sample_db) 3 = Some (sample_block 1 2)"
    by (simp_all add: sample_fields) (simp_all add: sample_blocks_def)
  have "past_loe sample_view (v_blocks sample_db) 3 (Suc 0)"
    by (rule past_loe.hit [OF l(2)]) (simp add: loe_hit_def loe_is_tip_def sample_view_def loe_view_build_def sample_block_def)
  then have "past_loe sample_view (v_blocks sample_db) 4 (Suc (Suc 0))"
    by (intro past_loe.step [OF l(1)])
      (simp_all add: l(2) loe_hit_def loe_is_tip_def loe_is_member_def sample_view_def loe_view_build_def sample_block_def)
  moreover have "grounded (v_blocks sample_db)"
    using vol_reachable_inv [OF sample_reachable] by (simp add: vol_inv_def vol_linked_def)
  ultimately have "loe_verdict_for_candidate sample_db 4 sample_view = TrimmedTo 3"
    using loe_verdict_past [of sample_db sample_view 4 "Suc (Suc 0)"] f l by (simp add: sample_block_def)
  with loe_limit [OF sample_reachable, of sample_view 4] f(3) sample_reachable show ?thesis by auto
qed

text \<open>C39: The check made before a block is linked gives the verdict the block has once it is stored.\<close>

theorem loe_extension_agrees:
  assumes "\<not> has_block h db" and "grounded (fmupd h b (v_blocks db))"
  shows "loe_allows_extension db h (vb_prev_hash b) (loe_view_build s ptr) \<longleftrightarrow>
    loe_verdict_for_candidate (fst (add_block_gated crc ord h b allow db)) h (loe_view_build s ptr) = Allowed"
  by (rule loe_extension_verdict [OF refl assms refl]) (simp add: add_block_gated_def add_block_def)

theorem loe_extension_agrees_witness:
  "loe_verdict_for_candidate (fst (add_block_gated no_crc ascending 1 (sample_block 0 1) True vol_new)) 1
     (loe_view_build (LoeSelectionTip 3) 0) = Allowed \<and>
   loe_verdict_for_candidate (fst (add_block_gated no_crc ascending 1 (sample_block 0 1) True vol_new)) 1
     (loe_view_build (LoeSelectionTip 0) 0) \<noteq> Allowed"
proof -
  have n: "\<not> has_block 1 vol_new" by (simp add: has_block_def vol_new_def)
  have g: "grounded (fmupd 1 (sample_block 0 1) (v_blocks vol_new))"
    by (rule grounded_rank [of _ unat]) (auto simp: vol_new_def sample_block_def split: if_splits)
  have "loe_allows_extension vol_new 1 (vb_prev_hash (sample_block 0 1)) (loe_view_build (LoeSelectionTip k) 0) \<longleftrightarrow> 1 \<le> k" for k
    by (simp add: loe_allows_extension_def loe_view_build_def loe_is_member_def loe_is_tip_def has_block_def vol_new_def)
  then show ?thesis
    unfolding loe_extension_agrees [OF n g, symmetric] by simp
qed

end
