(* ===== verification/Spec2Isabelle.thy ===== *)
theory Spec2Isabelle
  imports Lsm_Theorems Uplc_Theorems Uplc_Flat_Theorems Vol_Theorems Chain_Theorems
begin

text \<open>
  A verification development for dugite, a Cardano node written in Rust (\<^verbatim>\<open>src/crates\<close>).

  \<^bold>\<open>The program.\<close>  The node receives headers and blocks from its peers, keeps the blocks of the last
  part of the chain with all forks in a volatile store, chooses the best of the chains, copies what
  is final to an immutable store, and applies the blocks to a ledger whose large tables live in a
  log-structured merge tree.  Transactions with scripts are checked by an evaluator of Untyped Plutus
  Core.  Four parts are modelled, each with all of its state changes: the storage engine
  (\<^verbatim>\<open>dugite-lsm\<close>), the script evaluator with its binary format (\<^verbatim>\<open>dugite-uplc\<close>), the volatile store
  (\<^verbatim>\<open>dugite-storage\<close>), and the rules of chain selection (\<^verbatim>\<open>dugite-consensus\<close> and the limit on
  eagerness of \<^verbatim>\<open>dugite-storage\<close>).  The volatile store and chain selection meet in the walk that
  decides how far a stored candidate may be adopted.

  \<^bold>\<open>Conventions.\<close>  A function that may fail returns a sum whose left part is the error, a panic being
  one of the errors; a loop that may run forever is a partial function into an option, so that
  \<^const>\<open>None\<close> is a run that does not end.  Machine integers are words, or natural and whole numbers with
  the wrap-around or saturation of a release build written out.  A \<^verbatim>\<open>BTreeMap\<close> is a strictly sorted
  association list; a \<^verbatim>\<open>HashMap\<close> is a finite map, and the order in which it is iterated is an argument
  of what iterates.  A file is the list of its bytes, a directory a map to files; the files are part
  of the state, so that a crash is the state of the files at that moment.  Code outside the
  repository is a parameter: the checksum of \<^verbatim>\<open>crc32fast\<close>, hashes and signatures, modular powers, the
  curve library \<^verbatim>\<open>blst\<close>, and the byte layout of \<^verbatim>\<open>minicbor\<close>.

  \<^bold>\<open>Shared theories.\<close>  \<^verbatim>\<open>Prelude\<close>: results, integers, byte readers and writers, binary search, sorted
  maps.  \<^verbatim>\<open>Refinement\<close>: the interface of a component that implements an abstract object, interpreted on
  the write buffer and on the whole tree.  \<^verbatim>\<open>Driver\<close>: loops over a step, and two loops related by a
  simulation, interpreted on the drivers of the script machine.  \<^verbatim>\<open>Utf8\<close>: the check of strings.

  \<^bold>\<open>The storage engine\<close> (\<^verbatim>\<open>dugite-lsm/src\<close>).
  \<^item> \<^verbatim>\<open>Lsm_Memtable\<close>: \<^verbatim>\<open>memtable.rs\<close>, keys, values, errors, configuration.  \<^verbatim>\<open>Lsm_Merge\<close>: \<^verbatim>\<open>merge.rs\<close>, with
    the packed sequence number at 64 bits.  \<^verbatim>\<open>Lsm_Page\<close>, \<^verbatim>\<open>Lsm_Sstable\<close>: \<^verbatim>\<open>sstable/\<close>.  \<^verbatim>\<open>Lsm_Bloom\<close>,
    \<^verbatim>\<open>Lsm_Fence\<close>, \<^verbatim>\<open>Lsm_Cache\<close>: the filter, the index and the cache of a run; the cache has an interface
    for its readers.  \<^verbatim>\<open>Lsm_Run\<close>: \<^verbatim>\<open>run.rs\<close>.  \<^verbatim>\<open>Lsm_Compaction\<close>: \<^verbatim>\<open>level.rs\<close>, \<^verbatim>\<open>compaction.rs\<close>.  \<^verbatim>\<open>Lsm_Wal\<close>:
    \<^verbatim>\<open>wal.rs\<close>.  \<^verbatim>\<open>Lsm_Manifest\<close>: the record of \<^verbatim>\<open>snapshot.rs\<close>.  \<^verbatim>\<open>Lsm_Tree\<close>: \<^verbatim>\<open>tree.rs\<close>.
  \<^item> \<^verbatim>\<open>Lsm_Writes\<close> shows that writes refine writes to a map and that flushes end; \<^verbatim>\<open>Lsm_Recovery\<close> that the
    files give the map back, and what the two windows inside a flush and a compaction lose.
  \<^item> \<^verbatim>\<open>Lsm_Theorems\<close>: durability of the whole tree under a workable configuration with the log on and
    within the widths of the formats; lookups and scans; compaction, merge, runs, pages, cache,
    filter and log; and where the code departs from what it means: the crash windows, values and
    segment numbers beyond the widths of the log, a size ratio of zero.

  \<^bold>\<open>The script evaluator\<close> (\<^verbatim>\<open>dugite-uplc/src\<close>).
  \<^item> \<^verbatim>\<open>Uplc_Term\<close>: \<^verbatim>\<open>term.rs\<close>, \<^verbatim>\<open>builtin/arity.rs\<close>, \<^verbatim>\<open>builtin/semantics.rs\<close>, \<^verbatim>\<open>scope_check.rs\<close>.  \<^verbatim>\<open>Uplc_Data\<close>:
    \<^verbatim>\<open>data.rs\<close>, over CBOR items.  \<^verbatim>\<open>Uplc_Builtins\<close>, \<^verbatim>\<open>Uplc_Bits\<close>, \<^verbatim>\<open>Uplc_Value\<close>, \<^verbatim>\<open>Uplc_Bls\<close>: the 101
    denotations (\<^verbatim>\<open>builtin/denotations.rs\<close>, \<^verbatim>\<open>builtin/bls.rs\<close>).  \<^verbatim>\<open>Uplc_Cost\<close>: \<^verbatim>\<open>builtin/cost.rs\<close>,
    \<^verbatim>\<open>machine/cost.rs\<close>.  \<^verbatim>\<open>Uplc_Machine\<close>: \<^verbatim>\<open>machine/step.rs\<close> and the drivers.
  \<^item> \<^verbatim>\<open>Uplc_Budget\<close> and \<^verbatim>\<open>Uplc_Counting\<close> show that a run with a budget ends and agrees with counting and
    with running freely; \<^verbatim>\<open>Uplc_Safety\<close> which errors a run can have.
  \<^item> \<^verbatim>\<open>Uplc_Flat_Bits\<close>, \<^verbatim>\<open>Uplc_Flat_Codec\<close>, \<^verbatim>\<open>Uplc_Flat\<close>: \<^verbatim>\<open>flat/\<close> and \<^verbatim>\<open>program.rs\<close>;
    \<^verbatim>\<open>Uplc_Flat_Roundtrip\<close>, \<^verbatim>\<open>Uplc_Flat_Extend\<close>, \<^verbatim>\<open>Uplc_Flat_Available\<close>: reading back what was written,
    reading from a longer buffer, the check of a decoded program.
  \<^item> \<^verbatim>\<open>Uplc_Theorems\<close> and \<^verbatim>\<open>Uplc_Flat_Theorems\<close>: budgets, errors, the forms of data, the bitwise and
    multi-asset builtins; programs and their bytes.

  \<^bold>\<open>The volatile store\<close> (\<^verbatim>\<open>dugite-storage/src/volatile_db.rs\<close>).
  \<^item> \<^verbatim>\<open>Chain_Types\<close>: hashes, points, tips, headers, hash tables.  \<^verbatim>\<open>Vol_Wal\<close>: the log and its replay.
    \<^verbatim>\<open>Vol_Db\<close>: the record \<^verbatim>\<open>VolatileDB\<close> and all operations.
  \<^item> \<^verbatim>\<open>Vol_Invariant\<close>, \<^verbatim>\<open>Vol_Ops\<close>: the consistency of the indexes and that operations keep it.
    \<^verbatim>\<open>Vol_Chain\<close>, \<^verbatim>\<open>Vol_Select\<close>: the linked selection, forks, pruning, rebuilding.  \<^verbatim>\<open>Vol_Machine\<close>: two step
    relations, one for the removals, which may take away any block and leave the tip alone, and one
    for all other operations; and what the log holds after any run of them.
  \<^item> \<^verbatim>\<open>Vol_Theorems\<close>: the reachable states start from an empty store or from any log, torn ones and
    those of older formats included, and allow every operation, where removals take the selection off
    at its ends or are off it; that is what keeps the selection linked.  That hashes name blocks and
    no block is its own ancestor is assumed of what is added or replayed, since it is the hash function
    that gives it.  Shown are the consistency of the state, also after any further removals, forks,
    switching, pruning, rebuilding, the tip, and the recovery from a log; and that a stale tip and
    lost appends follow a full pruning and a torn log.

  \<^bold>\<open>Chain selection\<close> (\<^verbatim>\<open>dugite-consensus/src\<close>, \<^verbatim>\<open>dugite-storage/src/loe_trim.rs\<close>).
  \<^item> \<^verbatim>\<open>Chain_Fragment\<close>: \<^verbatim>\<open>chain_fragment.rs\<close>.  \<^verbatim>\<open>Chain_Selection\<close>: \<^verbatim>\<open>chain_selection.rs\<close>.  \<^verbatim>\<open>Chain_Loe\<close>: \<^verbatim>\<open>loe.rs\<close>
    and \<^verbatim>\<open>loe_trim.rs\<close>, with the distance past the agreed tip as an inductive relation.
  \<^item> \<^verbatim>\<open>Chain_Theorems\<close>: preference is stable, the order of the Genesis rule, rollback of a fragment, the
    verdict on every candidate, and that it agrees with the check before a block is linked.

  \<^bold>\<open>Bounds and fuel.\<close>  Structural and measured recursions are total.  Of the partial functions, the
  eviction loop of the cache, the compaction loop and the run with a budget are shown to return under
  stated conditions, and the free run is related to the counting run, which need not end.  The walks over
  the block graph stop by the guards the code has: visited blocks, or a count of stored blocks, which
  is not met without cycles.  The lists of the flat decoder have as fuel the number of unread bits,
  each round reading at least one; universe tags have the number of tags; depth limits count the
  levels left, as in the code.

  \<^bold>\<open>What is not modelled.\<close>  Failures of the operating system, and of allocation; the stack that a
  recursion needs, which the evaluator grows on demand and the flat encoder does not; sharing by
  reference counts; file locks, hard links of snapshots and the setting of fsync; logging and metrics.
  The immutable store, the ledger rules, networking, the mempool, serialization of blocks, header
  validation, the translation of transactions to script contexts, and the command line, monitor and
  RPC crates are outside this development.
\<close>

end
